(* ===== verification/Prelude.thy ===== *)
theory Prelude
  imports Main "HOL-Library.Word"
begin

text \<open>
  Shared vocabulary of the development: the machine integer types of
  src/infra/types.hpp, the outcome type every fallible operation returns, and the
  generic lemmas on outcomes, words, lists and maps the components share.
\<close>

unbundle bit_operations_syntax

named_theorems outcome_simps \<open>unfolding of the outcome combinators\<close>
named_theorems word_facts \<open>integer readings of machine words\<close>

section \<open>Machine integers (src/infra/types.hpp)\<close>

text \<open>
  Signed and unsigned integers of one width are the same words; \<open>uint\<close> reads a word as
  the unsigned type and \<open>sint\<close> as the signed one. \<open>byte\<close> is \<open>u8\<close>.
\<close>

type_synonym u8 = "8 word"
type_synonym u16 = "16 word"
type_synonym u32 = "32 word"
type_synonym u64 = "64 word"
type_synonym s8 = "8 word"
type_synonym s16 = "16 word"
type_synonym s32 = "32 word"
type_synonym s64 = "64 word"

section \<open>Outcomes\<close>

text \<open>
  A computation ends with a value or stops the process. \<open>Panic\<close> is a call of \<open>panic\<close>
  (src/infra/panic.hpp), \<open>Todo\<close> one of the \<open>TODO\<close> macro, \<open>Assertion\<close> a failing
  \<open>ASSERT_OR_IGNORE\<close> or a reached \<open>ASSERT_UNREACHABLE\<close> in a debug build
  (src/infra/assert.hpp), and \<open>Undefined\<close> an operation to which C++ gives no meaning
  (an out-of-range read, a division of the least integer by minus one, a too large shift).
  \<open>Diverge\<close> marks a loop whose step budget in the model is used up; the lemmas on such a
  loop show that the budget is enough.
\<close>

datatype fault = Panic | Todo | Assertion | Undefined | Diverge

type_synonym 'a outcome = "fault + 'a"

definition obind :: "'a outcome \<Rightarrow> ('a \<Rightarrow> 'b outcome) \<Rightarrow> 'b outcome" where
  "obind x f = (case x of Inl e \<Rightarrow> Inl e | Inr a \<Rightarrow> f a)"

definition ensure :: "fault \<Rightarrow> bool \<Rightarrow> 'a outcome \<Rightarrow> 'a outcome" where
  "ensure e b x = (if b then x else Inl e)"

lemma obind_Inl [simp, outcome_simps]: "obind (Inl e) f = Inl e"
  by (simp add: obind_def)

lemma obind_Inr [simp, outcome_simps]: "obind (Inr a) f = f a"
  by (simp add: obind_def)

lemma ensure_True [simp, outcome_simps]: "ensure e True x = x"
  by (simp add: ensure_def)

lemma ensure_False [simp, outcome_simps]: "ensure e False x = Inl e"
  by (simp add: ensure_def)

lemma obind_eq_Inr_iff: "obind x f = Inr b \<longleftrightarrow> (\<exists>a. x = Inr a \<and> f a = Inr b)"
  by (cases x) auto

lemma ensure_eq_Inr_iff: "ensure e b x = Inr a \<longleftrightarrow> b \<and> x = Inr a"
  by (simp add: ensure_def)

lemma obind_assoc: "obind (obind x f) g = obind x (\<lambda>a. obind (f a) g)"
  by (cases x) auto

text \<open>Outcomes that are values, for statements that an operation neither panics nor fails.\<close>

definition succeeds :: "'a outcome \<Rightarrow> bool" where
  "succeeds x \<longleftrightarrow> (\<exists>a. x = Inr a)"

lemma succeeds_Inr [simp, intro]: "succeeds (Inr a)"
  by (simp add: succeeds_def)

lemma succeeds_Inl [simp]: "\<not> succeeds (Inl e)"
  by (simp add: succeeds_def)

section \<open>Words as integers\<close>

lemma uint_range [word_facts]: "0 \<le> uint (w :: 'a::len word)" "uint (w :: 'a::len word) < 2 ^ LENGTH('a)"
  by auto

lemma sint_range [word_facts]:
  "- (2 ^ (LENGTH('a) - 1)) \<le> sint (w :: 'a::len word)"
  "sint (w :: 'a::len word) < 2 ^ (LENGTH('a) - 1)"
  by (simp_all add: sint_greater_eq sint_less)

lemma unat_u64_less [simp]: "unat (w :: u64) < 18446744073709551616"
  using unsigned_less [of w] by simp

lemma unat_u32_less: "unat (w :: u32) < 4294967296"
  using unsigned_less [of w] by simp

lemma unat_u32_div_less: "unat (w :: u32) div n < 2 ^ 32"
  using le_less_trans [OF div_le_dividend unat_u32_less] by simp

lemma uint_sum_less:
  assumes "unat (a :: 'a::len word) + unat (b :: 'a word) < 2 ^ k"
  shows "uint a + uint b < 2 ^ k"
proof -
  have "int (unat a + unat b) < int (2 ^ k)" using assms by (simp only: of_nat_less_iff)
  then show ?thesis by (simp only: of_nat_add of_nat_power of_nat_numeral uint_nat)
qed

lemma unat_of_nat_u32: "n < 4294967296 \<Longrightarrow> unat (of_nat n :: u32) = n"
  by (simp add: unsigned_of_nat take_bit_nat_eq_self)

lemma unat_exp_word: "k < LENGTH('a) \<Longrightarrow> unat (2 ^ k :: 'a::len word) = 2 ^ k"
  using of_nat_inverse [of "2 ^ k" "2 ^ k :: 'a word"] by simp

lemma uint_exp_word:
  assumes "k < LENGTH('a)"
  shows "uint (2 ^ k :: 'a::len word) = 2 ^ k"
proof -
  have "int (unat (2 ^ k :: 'a word)) = int (2 ^ k)"
    using unat_exp_word [OF assms] by (simp only:)
  then show ?thesis by (simp only: of_nat_unat of_nat_power of_nat_numeral)
qed

lemma uint_word_of_int_range:
  "0 \<le> k \<Longrightarrow> k < 2 ^ LENGTH('a) \<Longrightarrow> uint (word_of_int k :: 'a::len word) = k"
  by (simp add: unsigned_of_int take_bit_int_eq_self)

lemma sint_word_of_int_range:
  assumes "- (2 ^ (LENGTH('a) - 1)) \<le> k" and "k < 2 ^ (LENGTH('a) - 1)"
  shows "sint (word_of_int k :: 'a::len word) = k"
proof -
  have "signed_take_bit (LENGTH('a) - 1) k = k"
    using assms by (simp add: signed_take_bit_int_eq_self)
  then show ?thesis by (simp add: signed_of_int)
qed

lemma word_of_int_sint_eq [simp]: "word_of_int (sint w) = (w :: 'a::len word)"
  by simp

section \<open>Lists\<close>

lemma sum_list_map_append [simp]: "(\<Sum>x\<leftarrow>xs @ ys. f x) = (\<Sum>x\<leftarrow>xs. f x) + (\<Sum>x\<leftarrow>ys. f x :: nat)"
  by simp

lemma nth_swap_mset_aux:
  assumes "i < length xs" "j < length xs"
  shows "i = j \<or> xs[i := xs ! j, j := xs ! i] = xs[j := xs ! i, i := xs ! j]"
  using assms by (metis list_update_swap)

end
