(* ===== verification/InfraMath.thy ===== *)
theory InfraMath
  imports Prelude
begin

text \<open>
  The bit-level helpers of src/infra/math.hpp and the hash of src/infra/hash.hpp:
  powers of two, rounding to multiples, counting leading and trailing zeros, the logarithm
  helpers and FNV-1a, with the lemmas that give their meaning on integers.
\<close>

section \<open>Powers of two and rounding\<close>

definition is_pow2 :: "'a::len word \<Rightarrow> bool" where
  "is_pow2 n \<longleftrightarrow> n AND (n - 1) = 0"

text \<open>
  The doubling loop of \<open>next_pow2\<close>; \<open>None\<close> is a loop that does not end.
\<close>

partial_function (option) next_pow2_loop :: "'a::len word \<Rightarrow> 'a word \<Rightarrow> 'a word option" where
  "next_pow2_loop n estimate =
     (if estimate < n then next_pow2_loop n (estimate * 2) else Some estimate)"

definition next_pow2 :: "'a::len word \<Rightarrow> 'a word option" where
  "next_pow2 n = next_pow2_loop n 1"

definition next_multiple :: "'a::len word \<Rightarrow> 'a word \<Rightarrow> 'a word outcome" where
  "next_multiple n factor =
     ensure Undefined (factor \<noteq> 0) (Inr (((n + factor - 1) div factor) * factor))"

definition align_to :: "u64 \<Rightarrow> u64 \<Rightarrow> u64 outcome" where
  "align_to n alignment =
     ensure Assertion (is_pow2 alignment)
       (Inr ((n + alignment - 1) AND NOT (alignment - 1)))"

section \<open>Counting zeros and logarithms\<close>

text \<open>
  \<open>ctz_from\<close> and \<open>clz_upto\<close> give the compiler builtins \<open>__builtin_ctz\<close> and
  \<open>__builtin_clz\<close> their documented meaning: the number of zero bits below (above) the
  least (most) significant one bit of a word of their own width, and \<open>_BitScanReverse64\<close>
  the index of the most significant one bit. GCC and Clang widen an argument narrower than
  64 bits to 32 bits first; MSVC widens to 64 bits and corrects for it.
\<close>

fun ctz_from :: "nat \<Rightarrow> nat \<Rightarrow> 'a::len word \<Rightarrow> nat" where
  "ctz_from i 0 n = i"
| "ctz_from i (Suc k) n = (if bit n i then i else ctz_from (Suc i) k n)"

fun clz_upto :: "nat \<Rightarrow> 'a::len word \<Rightarrow> nat" where
  "clz_upto 0 n = LENGTH('a)"
| "clz_upto (Suc k) n = (if bit n k then LENGTH('a) - Suc k else clz_upto k n)"

definition ctz_builtin :: "'a::len word \<Rightarrow> u8" where
  "ctz_builtin n =
     of_nat (if LENGTH('a) = 64 then ctz_from 0 64 (ucast n :: u64) else ctz_from 0 32 (ucast n :: u32))"

definition clz_builtin :: "'a::len word \<Rightarrow> u8" where
  "clz_builtin n =
     of_nat (if LENGTH('a) = 64 then clz_upto 64 (ucast n :: u64) else clz_upto 32 (ucast n :: u32))"

definition clz_msvc :: "'a::len word \<Rightarrow> u8" where
  "clz_msvc n =
     (let index = 63 - of_nat (clz_upto 64 (ucast n :: u64)); leading_zeros_64 = 63 - index
      in leading_zeros_64 - (64 - of_nat LENGTH('a)))"

definition ctz_shim :: "bool \<Rightarrow> 'a::len word \<Rightarrow> u8 outcome" where
  "ctz_shim assume_one n =
     (if assume_one then ensure Assertion (n \<noteq> 0) (Inr (ctz_builtin n))
      else if n = 0 then Inr (of_nat LENGTH('a))
      else Inr (ctz_builtin n))"

definition clz_shim :: "bool \<Rightarrow> 'a::len word \<Rightarrow> u8 outcome" where
  "clz_shim assume_one n =
     (if assume_one then ensure Assertion (n \<noteq> 0) (Inr (clz_builtin n))
      else if n = 0 then Inr (of_nat LENGTH('a))
      else Inr (clz_builtin n))"

definition count_trailing_zeros_assume_one :: "'a::len word \<Rightarrow> u8 outcome" where
  "count_trailing_zeros_assume_one n = ctz_shim True n"

definition count_trailing_ones_assume_zero :: "'a::len word \<Rightarrow> u8 outcome" where
  "count_trailing_ones_assume_zero n = ctz_shim True (NOT n)"

definition count_leading_zeros_assume_one :: "'a::len word \<Rightarrow> u8 outcome" where
  "count_leading_zeros_assume_one n = clz_shim True n"

definition count_leading_ones_assume_zero :: "'a::len word \<Rightarrow> u8 outcome" where
  "count_leading_ones_assume_zero n = clz_shim True (NOT n)"

definition count_trailing_zeros :: "'a::len word \<Rightarrow> u8 outcome" where
  "count_trailing_zeros n = ctz_shim False n"

definition count_trailing_ones :: "'a::len word \<Rightarrow> u8 outcome" where
  "count_trailing_ones n = ctz_shim False (NOT n)"

definition count_leading_zeros :: "'a::len word \<Rightarrow> u8 outcome" where
  "count_leading_zeros n = clz_shim False n"

definition count_leading_ones :: "'a::len word \<Rightarrow> u8 outcome" where
  "count_leading_ones n = clz_shim False (NOT n)"

text \<open>The logarithm helpers, at unsigned types; their arithmetic is on 64 bits.\<close>

definition log16_ceil :: "'a::len word \<Rightarrow> u8 outcome" where
  "log16_ceil n = obind (count_leading_zeros (n OR 1)) (\<lambda>z.
     Inr (ucast ((of_nat LENGTH('a) - ucast z + 3 :: u64) div 4)))"

definition log8_ceil :: "'a::len word \<Rightarrow> u8 outcome" where
  "log8_ceil n = obind (count_leading_zeros (n OR 1)) (\<lambda>z.
     Inr (ucast ((of_nat LENGTH('a) - ucast z + 2 :: u64) div 3)))"

definition log2_ceil :: "'a::len word \<Rightarrow> u8 outcome" where
  "log2_ceil n = obind (count_leading_zeros (n OR 1)) (\<lambda>z.
     Inr (ucast (of_nat LENGTH('a) - ucast z :: u64)))"

text \<open>
  \<open>log10_ceil\<close> runs its loop on the argument widened to 64 bits; the loop stops when the
  power of ten passes the target or wraps around.
\<close>

function log10_loop :: "u64 \<Rightarrow> u64 \<Rightarrow> u64 \<Rightarrow> u8 \<Rightarrow> u8" where
  "log10_loop target m prev_m rst =
     (if m \<le> target \<and> prev_m < m then log10_loop target (m * 10) m (rst + 1) else rst)"
  by pat_completeness auto
termination
  by (relation "measure (\<lambda>(target, m, prev_m, rst). 2 ^ 64 - unat prev_m)")
    (auto simp: word_less_nat_alt intro!: diff_less_mono2 unat_u64_less)

declare log10_loop.simps [simp del]

definition log10_ceil :: "'a::len word \<Rightarrow> u8" where
  "log10_ceil n = log10_loop (ucast n) 10 0 1"

section \<open>FNV-1a (src/infra/hash.hpp)\<close>

definition FNV1A_SEED :: u32 where
  "FNV1A_SEED = 2166136261"

definition fnv1a_step :: "u32 \<Rightarrow> u8 \<Rightarrow> u32" where
  "fnv1a_step seed nxt = (seed * 16777619) XOR ucast nxt"

definition fnv1a_step_range :: "u32 \<Rightarrow> u8 list \<Rightarrow> u32" where
  "fnv1a_step_range seed nxt = fold (\<lambda>c hash. fnv1a_step hash c) nxt seed"

definition fnv1a :: "u8 list \<Rightarrow> u32" where
  "fnv1a data = fnv1a_step_range FNV1A_SEED data"

section \<open>Meaning of the rounding helpers\<close>

lemma pow2_word_AND_pred:
  assumes "k < LENGTH('a)"
  shows "(2 ^ k :: 'a::len word) AND (2 ^ k - 1) = 0"
proof (rule bit_word_eqI)
  fix n assume "n < LENGTH('a)"
  have "(2 ^ k - 1 :: 'a word) = mask k" by (simp add: mask_eq_exp_minus_1)
  then show "bit ((2 ^ k :: 'a word) AND (2 ^ k - 1)) n = bit (0 :: 'a word) n"
    by (auto simp: bit_and_iff bit_exp_iff bit_mask_iff)
qed

lemma is_pow2_exp [simp, intro]: "k < LENGTH('a) \<Longrightarrow> is_pow2 (2 ^ k :: 'a::len word)"
  by (simp add: is_pow2_def pow2_word_AND_pred)

lemma is_pow2_0 [simp]: "is_pow2 0"
  by (simp add: is_pow2_def)


lemma nat_AND_pred_eq_0:
  "m AND (m - 1) = 0 \<Longrightarrow> 0 < m \<Longrightarrow> \<exists>k. m = 2 ^ k" for m :: nat
proof (induction m rule: less_induct)
  case (less m)
  show ?case
  proof (cases "even m")
    case True
    then obtain a where m: "m = 2 * a" by (elim evenE)
    with less.prems have "0 < a" by simp
    have "2 * a - 1 = 1 + 2 * (a - 1)" using \<open>0 < a\<close> by simp
    moreover have "2 * a AND (1 + 2 * (a - 1)) = 2 * (a AND (a - 1))"
    proof (rule bit_eqI)
      fix n
      show "bit (2 * a AND (1 + 2 * (a - 1))) n \<longleftrightarrow> bit (2 * (a AND (a - 1))) n"
        unfolding bit_and_iff by (cases n) (simp_all only: bit_0 bit_Suc bit_and_iff, simp_all add: bit_and_iff)
    qed
    ultimately have "m AND (m - 1) = 2 * (a AND (a - 1))" using m by simp
    with less.prems have "a AND (a - 1) = 0" by simp
    with less.IH [of a] m \<open>0 < a\<close> obtain k where "a = 2 ^ k" by auto
    with m show ?thesis by (intro exI [of _ "Suc k"]) simp
  next
    case False
    then obtain a where m: "m = 2 * a + 1" by (elim oddE)
    then have "m AND (m - 1) = 2 * a"
      by (simp add: and_nat_rec [of "Suc (2 * a)"])
    with less.prems m have "m = 2 ^ 0" by simp
    then show ?thesis ..
  qed
qed

lemma unat_pred: "n \<noteq> 0 \<Longrightarrow> unat (n - 1 :: 'a::len word) = unat n - 1"
  by (simp add: unat_minus_one)

lemma is_pow2_iff:
  "is_pow2 (n :: 'a::len word) \<longleftrightarrow> n = 0 \<or> (\<exists>k < LENGTH('a). n = 2 ^ k)"
proof
  assume pow2: "is_pow2 n"
  show "n = 0 \<or> (\<exists>k < LENGTH('a). n = 2 ^ k)"
  proof (cases "n = 0")
    case False
    from pow2 have "unat (n AND (n - 1)) = 0" by (simp add: is_pow2_def)
    then have "unat n AND (unat n - 1) = 0"
      using False by (simp add: unsigned_and_eq unat_pred)
    moreover have "0 < unat n" using False by (simp add: unat_gt_0)
    ultimately obtain k where k: "unat n = 2 ^ k"
      using nat_AND_pred_eq_0 by blast
    then have "(2::nat) ^ k < 2 ^ LENGTH('a)" by (metis unsigned_less)
    then have "k < LENGTH('a)" by simp
    moreover have "n = 2 ^ k"
      using k \<open>k < LENGTH('a)\<close> by (simp add: word_unat_eq_iff unat_exp_word)
    ultimately show ?thesis by blast
  qed simp
qed (auto simp: is_pow2_def pow2_word_AND_pred)

lemma AND_NOT_mask_eq: "x AND NOT (mask k) = push_bit k (drop_bit k x)"
  for x :: "'a::len word"
  by (rule bit_word_eqI) (auto simp: bit_and_iff bit_not_iff bit_mask_iff bit_push_bit_iff bit_drop_bit_eq)

lemma uint_AND_NOT_mask:
  assumes "k < LENGTH('a)"
  shows "uint (x AND NOT (mask k) :: 'a::len word) = (uint x div 2 ^ k) * 2 ^ k"
proof -
  have "uint (x AND NOT (mask k)) = push_bit k (drop_bit k (uint x))"
    by (rule bit_eqI) (auto simp: AND_NOT_mask_eq bit_uint_iff bit_push_bit_iff bit_drop_bit_eq
      dest: bit_imp_le_length)
  then show ?thesis by (simp add: push_bit_eq_mult drop_bit_eq_div)
qed


lemma unat_AND_NOT_mask:
  assumes "k < LENGTH('a)"
  shows "unat (x AND NOT (mask k) :: 'a::len word) = (unat x div 2 ^ k) * 2 ^ k"
proof -
  have "int (unat (x AND NOT (mask k))) = int ((unat x div 2 ^ k) * 2 ^ k)"
    using uint_AND_NOT_mask [OF assms, of x]
    by (simp only: of_nat_mult zdiv_int of_nat_power of_nat_numeral uint_nat)
  then show ?thesis by (simp only: of_nat_eq_iff)
qed

lemma align_to_pow2:
  fixes n :: u64
  assumes k: "k < 64" and fits: "uint n + 2 ^ k - 1 < 2 ^ 64"
  obtains r where "align_to n (2 ^ k) = Inr r"
    and "uint r = ((uint n + 2 ^ k - 1) div 2 ^ k) * 2 ^ k"
proof -
  have mask: "(2 ^ k - 1 :: u64) = mask k" by (simp add: mask_eq_exp_minus_1)
  have "n + 2 ^ k - 1 = word_of_int (uint n + 2 ^ k - 1)" by simp
  moreover have "0 \<le> uint n + 2 ^ k - 1"
    using zero_less_power [of "2 :: int" k] uint_range(1) [of n] by linarith
  ultimately have sum: "uint (n + 2 ^ k - 1) = uint n + 2 ^ k - 1"
    using fits by (simp only:) (rule uint_word_of_int_range, auto)
  have "align_to n (2 ^ k) = Inr ((n + 2 ^ k - 1) AND NOT (mask k))"
    using k by (simp add: align_to_def mask)
  moreover have "uint ((n + 2 ^ k - 1) AND NOT (mask k)) = ((uint n + 2 ^ k - 1) div 2 ^ k) * 2 ^ k"
    using k by (simp only: sum uint_AND_NOT_mask len_num1 len_bit0 len_bit1)
      (simp add: uint_AND_NOT_mask sum)?
  ultimately show thesis by (rule that)
qed

lemma round_up_bounds:
  fixes x m :: int
  assumes "0 < m"
  shows "x \<le> ((x + m - 1) div m) * m" and "((x + m - 1) div m) * m < x + m"
proof -
  have "(x + m - 1) div m * m + (x + m - 1) mod m = x + m - 1" by simp
  moreover have "0 \<le> (x + m - 1) mod m" and "(x + m - 1) mod m < m"
    using assms by simp_all
  ultimately show "x \<le> ((x + m - 1) div m) * m" and "((x + m - 1) div m) * m < x + m"
    by linarith+
qed

lemma next_pow2_loop_doubles:
  fixes n :: "'a::len word"
  assumes "uint n \<le> 2 ^ (LENGTH('a) - 1)" and "j < LENGTH('a)"
    and "j = 0 \<or> 2 ^ (j - 1) < uint n"
  shows "\<exists>k < LENGTH('a). next_pow2_loop n (2 ^ j) = Some (2 ^ k) \<and> uint n \<le> 2 ^ k
    \<and> (k = 0 \<or> 2 ^ (k - 1) < uint n)"
  using assms(2,3)
proof (induction "LENGTH('a) - j" arbitrary: j rule: less_induct)
  case (less j)
  show ?case
  proof (cases "(2 ^ j :: 'a word) < n")
    case True
    then have "2 ^ j < uint n"
      using less.prems by (simp add: word_less_def uint_exp_word)
    with assms(1) have "(2::int) ^ j < 2 ^ (LENGTH('a) - 1)" by linarith
    then have "Suc j < LENGTH('a)" by simp
    with less.hyps [of "Suc j"] \<open>2 ^ j < uint n\<close>
    have "\<exists>k < LENGTH('a). next_pow2_loop n (2 ^ Suc j) = Some (2 ^ k) \<and> uint n \<le> 2 ^ k
      \<and> (k = 0 \<or> 2 ^ (k - 1) < uint n)" by simp
    with True show ?thesis by (simp add: next_pow2_loop.simps [of n "2 ^ j"] mult.commute)
  next
    case False
    with less.prems show ?thesis
      by (intro exI [of _ j])
        (auto simp: next_pow2_loop.simps [of n "2 ^ j"] word_less_def uint_exp_word)
  qed
qed

lemma next_pow2_loop_diverges:
  fixes n :: "'a::len word"
  assumes "2 ^ (LENGTH('a) - 1) < uint n"
  shows "next_pow2_loop n 1 = None"
proof (rule ccontr)
  assume "next_pow2_loop n 1 \<noteq> None"
  then obtain r where r: "next_pow2_loop n 1 = Some r" by blast
  have "\<not> (2 ^ (LENGTH('a) - 1) < uint n \<and> (1 = (0 :: 'a word) \<or> (\<exists>k<LENGTH('a). (1 :: 'a word) = 2 ^ k)))"
  proof (rule next_pow2_loop.raw_induct [where P = "\<lambda>n e r.
      \<not> (2 ^ (LENGTH('a) - 1) < uint n \<and> (e = 0 \<or> (\<exists>k<LENGTH('a). e = 2 ^ k)))", OF _ r])
    fix f :: "'a word \<Rightarrow> 'a word \<Rightarrow> 'a word option" and n e r
    assume IH: "\<And>n e r. f n e = Some r \<Longrightarrow>
        \<not> (2 ^ (LENGTH('a) - 1) < uint n \<and> (e = 0 \<or> (\<exists>k<LENGTH('a). e = 2 ^ k)))"
      and eq: "(if e < n then f n (e * 2) else Some e) = Some r"
    show "\<not> (2 ^ (LENGTH('a) - 1) < uint n \<and> (e = 0 \<or> (\<exists>k<LENGTH('a). e = 2 ^ k)))"
    proof
      assume H: "2 ^ (LENGTH('a) - 1) < uint n \<and> (e = 0 \<or> (\<exists>k<LENGTH('a). e = 2 ^ k))"
      have "uint e \<le> 2 ^ (LENGTH('a) - 1)" using H by (auto simp: uint_exp_word)
      with H have "e < n" by (simp add: word_less_def)
      with eq have "f n (e * 2) = Some r" by simp
      from IH [OF this] H have "\<not> (e * 2 = 0 \<or> (\<exists>k<LENGTH('a). e * 2 = 2 ^ k))" by simp
      moreover have "e * 2 = 0 \<or> (\<exists>k<LENGTH('a). e * 2 = 2 ^ k)"
      proof (cases "e = 0")
        case False
        with H obtain k where k: "k < LENGTH('a)" "e * 2 = 2 ^ Suc k"
          by (auto simp: mult.commute)
        have "(2 :: 'a word) ^ Suc k = 0" if "\<not> Suc k < LENGTH('a)"
          using that by (simp only: exp_eq_zero_iff)
        show ?thesis
        proof (cases "Suc k < LENGTH('a)")
          case True
          with k(2) show ?thesis by blast
        next
          case False
          with k(2) \<open>\<not> Suc k < LENGTH('a) \<Longrightarrow> (2 :: 'a word) ^ Suc k = 0\<close> show ?thesis by simp
        qed
      qed simp
      ultimately show False ..
    qed
  qed
  then show False using assms by (auto intro: exI [of _ 0])
qed

section \<open>Meaning of the counting helpers\<close>

lemma clz_upto_props:
  fixes n :: "'a::len word"
  assumes "k \<le> LENGTH('a)" and "\<And>i. k \<le> i \<Longrightarrow> \<not> bit n i" and "n \<noteq> 0"
  shows "clz_upto k n < LENGTH('a) \<and> bit n (LENGTH('a) - 1 - clz_upto k n)
    \<and> (\<forall>i > LENGTH('a) - 1 - clz_upto k n. \<not> bit n i)"
  using assms
proof (induction k)
  case 0
  then have "n = 0" by (intro bit_word_eqI) simp
  with 0 show ?case by simp
next
  case (Suc k)
  show ?case
  proof (cases "bit n k")
    case True
    with Suc.prems show ?thesis by auto
  next
    case False
    then have "\<not> bit n i" if "k \<le> i" for i
      using that Suc.prems(2) [of i] by (cases "i = k") auto
    with Suc.IH Suc.prems False show ?thesis by simp
  qed
qed

lemma clz_64:
  fixes n :: u64
  assumes "n \<noteq> 0"
  shows "clz_upto 64 n < 64" and "2 ^ (63 - clz_upto 64 n) \<le> uint n" and "uint n < 2 ^ (64 - clz_upto 64 n)"
proof -
  let ?c = "clz_upto 64 n"
  have props: "?c < 64" "bit n (63 - ?c)" "\<And>i. i > 63 - ?c \<Longrightarrow> \<not> bit n i"
    using clz_upto_props [of 64 n] assms bit_imp_le_length [of n] by fastforce+
  show "?c < 64" by (rule props(1))
  have "bit (uint n) (63 - ?c)" using props(1,2) by (simp add: bit_uint_iff)
  then have "odd (uint n div 2 ^ (63 - ?c))" by (simp add: bit_iff_odd)
  then have "uint n div 2 ^ (63 - ?c) \<noteq> 0" by auto
  then show "2 ^ (63 - ?c) \<le> uint n"
    by (meson div_pos_pos_trivial not_le uint_range(1))
  have "take_bit (64 - ?c) (uint n) = uint n"
  proof (rule bit_eqI)
    fix i show "bit (take_bit (64 - ?c) (uint n)) i = bit (uint n) i"
      using props(1) props(3) [of i] by (cases "i < 64 - ?c") (auto simp: bit_take_bit_iff bit_uint_iff)
  qed
  then show "uint n < 2 ^ (64 - ?c)" by (metis take_bit_int_less_exp)
qed

lemma clz_upto_one: "clz_upto 64 (1 :: u64) = 63"
  by (simp add: numeral_eq_Suc bit_1_iff)

text \<open>
  at 64 bits \<open>log2_ceil\<close> returns without a fault the number of binary digits of its
  argument (one for zero), the bit length that the size classes of the heap are based on.
\<close>

theorem log2_ceil_bit_length:
  fixes n :: u64
  shows "\<exists>r. log2_ceil n = Inr r \<and> 1 \<le> unat r \<and> unat r \<le> 64 \<and> uint n < 2 ^ unat r
    \<and> 2 ^ (unat r - 1) \<le> max 1 (uint n)"
proof -
  define w where "w = n OR 1"
  have w: "w \<noteq> 0"
  proof
    assume "w = 0"
    then have "bit w 0 = False" by simp
    then show False by (simp add: w_def bit_or_iff)
  qed
  define c where "c = clz_upto 64 w"
  note c = clz_64 [OF w, folded c_def]
  have clz: "count_leading_zeros w = Inr (of_nat c)"
    using w by (simp add: count_leading_zeros_def clz_shim_def clz_builtin_def c_def)
  have "of_nat c = (of_nat c :: u64)" ..
  have uc: "(ucast (of_nat c :: u8) :: u64) = of_nat c"
    using c(1) by (intro word_unat_eq_iff [THEN iffD2])
      (simp add: unsigned_ucast_eq unsigned_of_nat take_bit_nat_eq_self)
  have diff: "(64 :: u64) - of_nat c = of_nat (64 - c)"
    using c(1) by (simp add: of_nat_diff)
  have log: "log2_ceil n = Inr (ucast (of_nat (64 - c) :: u64))"
    unfolding log2_ceil_def w_def [symmetric] clz obind_Inr by (simp add: uc diff)
  have r: "unat (ucast (of_nat (64 - c) :: u64) :: u8) = 64 - c"
    by (simp add: unsigned_ucast_eq unsigned_of_nat take_bit_nat_eq_self)
  have uw: "uint w = uint n OR 1" by (simp add: w_def unsigned_or_eq)
  have split: "uint w = uint n + of_bool (even (uint n))" by (simp add: uw or_one_eq)
  have low: "2 ^ (63 - c) \<le> uint n" if "n \<noteq> 0"
  proof (cases "63 - c")
    case 0
    have "uint n \<noteq> 0" using that by (simp add: uint_0_iff)
    then have "0 < uint n" using uint_range(1) [of n] by linarith
    with 0 show ?thesis by simp
  next
    case (Suc m)
    then have "even ((2::int) ^ (63 - c))" by simp
    moreover have "odd (uint w)" by (simp add: split)
    ultimately have "2 ^ (63 - c) \<noteq> uint w" by metis
    with c(2) have "2 ^ (63 - c) < uint w" by simp
    with split show ?thesis by (cases "even (uint n)") simp_all
  qed
  have "uint n \<le> uint w" by (simp add: split)
  with c have "uint n < 2 ^ (64 - c)" by linarith
  moreover have "2 ^ (63 - c) \<le> max 1 (uint n)"
  proof (cases "n = 0")
    case True
    then have "c = 63" by (simp add: c_def w_def clz_upto_one)
    then show ?thesis by simp
  next
    case False
    then show ?thesis using low by (simp add: max_def)
  qed
  ultimately show ?thesis
    using c(1) r log by (intro exI [of _ "ucast (of_nat (64 - c) :: u64)"]) simp
qed

lemma log10_loop_power:
  assumes "1 \<le> r" and "r \<le> 19" and "uint p < 10 ^ r"
  shows "\<exists>k. r \<le> k \<and> k \<le> 20 \<and> log10_loop t (word_of_int (10 ^ r)) p (of_nat r) = of_nat k
    \<and> uint t < 10 ^ k \<and> (k = r \<or> 10 ^ (k - 1) \<le> uint t)"
  using assms
proof (induction "19 - r" arbitrary: r p)
  case 0
  then have r: "r = 19" by simp
  have m: "uint (word_of_int (10 ^ 19) :: u64) = 10 ^ 19"
    by (intro uint_word_of_int_range) simp_all
  have t: "uint t < 10 ^ 20" using uint_range(2) [of t] by simp
  have stop: "log10_loop t (word_of_int (10 ^ 19) * 10) (word_of_int (10 ^ 19)) (of_nat 19 + 1) = of_nat 20"
    by (simp add: log10_loop.simps)
  show ?case
  proof (cases "10 ^ 19 \<le> uint t")
    case True
    moreover have "log10_loop t (word_of_int (10 ^ 19)) p (of_nat 19) = of_nat 20"
      using True 0(4) m stop by (subst log10_loop.simps) (simp add: r word_le_def word_less_def)
    ultimately show ?thesis using r t by (intro exI [of _ 20]) simp
  next
    case False
    then have "log10_loop t (word_of_int (10 ^ 19)) p (of_nat 19) = of_nat 19"
      using m by (subst log10_loop.simps) (simp add: word_le_def)
    with False r show ?thesis by (intro exI [of _ 19]) simp
  qed
next
  case (Suc d)
  then have r: "Suc r \<le> 19" by simp
  have "(10 :: int) ^ Suc r \<le> 10 ^ 19" using r by (intro power_increasing) simp_all
  then have m: "uint (word_of_int (10 ^ r) :: u64) = 10 ^ r"
    by (intro uint_word_of_int_range) simp_all
  have step: "word_of_int (10 ^ r) * 10 = (word_of_int (10 ^ Suc r) :: u64)"
    by simp
  show ?case
  proof (cases "10 ^ r \<le> uint t")
    case True
    have "log10_loop t (word_of_int (10 ^ r)) p (of_nat r)
        = log10_loop t (word_of_int (10 ^ Suc r)) (word_of_int (10 ^ r)) (of_nat (Suc r))"
      using True Suc.prems(3) m step
      by (subst log10_loop.simps) (simp add: word_le_def word_less_def add.commute mult.commute)
    moreover have "\<exists>k. Suc r \<le> k \<and> k \<le> 20
        \<and> log10_loop t (word_of_int (10 ^ Suc r)) (word_of_int (10 ^ r)) (of_nat (Suc r)) = of_nat k
        \<and> uint t < 10 ^ k \<and> (k = Suc r \<or> 10 ^ (k - 1) \<le> uint t)"
      using Suc.hyps(2) r m by (intro Suc.hyps(1)) simp_all
    ultimately show ?thesis using True by (metis Suc_leD diff_Suc_1)
  next
    case False
    then have "log10_loop t (word_of_int (10 ^ r)) p (of_nat r) = of_nat r"
      using m by (subst log10_loop.simps) (simp add: word_le_def)
    with False Suc.prems show ?thesis by (intro exI [of _ r]) simp
  qed
qed

text \<open>
  \<open>log10_ceil\<close> returns the number of decimal digits of its argument (one for zero), also
  for the 20 digit numbers on which its power of ten wraps around.
\<close>

theorem log10_ceil_digits:
  fixes n :: u64
  shows "1 \<le> unat (log10_ceil n) \<and> unat (log10_ceil n) \<le> 20 \<and> uint n < 10 ^ unat (log10_ceil n)
    \<and> (unat (log10_ceil n) = 1 \<or> 10 ^ (unat (log10_ceil n) - 1) \<le> uint n)"
proof -
  obtain k where k: "1 \<le> k" "k \<le> 20" "log10_loop n (word_of_int (10 ^ 1)) 0 (of_nat 1) = of_nat k"
    "uint n < 10 ^ k" "k = 1 \<or> 10 ^ (k - 1) \<le> uint n"
    using log10_loop_power [of 1 0 n] by auto
  then have "log10_ceil n = of_nat k" by (simp add: log10_ceil_def)
  moreover have "unat (of_nat k :: u8) = k"
    using k(2) by (simp add: unsigned_of_nat take_bit_nat_eq_self)
  ultimately show ?thesis using k by simp
qed

text \<open>
  Below 32 bits the leading zero count of GCC and Clang is that of the widened argument:
  the number of leading zeros of the byte \<open>1\<close> is 31 there, and 7 with MSVC.
\<close>

lemma count_leading_zeros_narrow:
  "count_leading_zeros (1 :: u8) = Inr 31" "clz_msvc (1 :: u8) = 7"
  by (simp_all add: count_leading_zeros_def clz_shim_def clz_builtin_def clz_msvc_def numeral_eq_Suc
    bit_1_iff)

end
