(* ===== verification/CheckedArith.thy ===== *)
theory CheckedArith
  imports InfraMath
begin

text \<open>
  The overflow-checked integer operations of src/core/comp_values.cpp
  (\<open>add_checked_*\<close>, \<open>sub_checked_*\<close>, \<open>mul_checked_*\<close>). Each returns whether the exact
  result fits the type, together with the value it stores through \<open>out\<close>. The locale
  \<open>checked_op\<close> is the contract their callers rely on; every operation that honours it is
  an interpretation, and the two that do not (\<open>sub_checked_s32\<close>, \<open>sub_checked_s64\<close>)
  get the exact statement of what they do instead.
\<close>

section \<open>The narrow operations\<close>

text \<open>
  The 8, 16 and 32 bit operations compute in 64 bits and then compare with the limits of
  their type: \<open>narrow_u\<close> and \<open>narrow_s\<close> are these two common tails.
\<close>

definition narrow_u :: "u64 \<Rightarrow> bool \<times> 'a::len word" where
  "narrow_u result = (uint result \<le> 2 ^ LENGTH('a) - 1, ucast result)"

definition narrow_s :: "s64 \<Rightarrow> bool \<times> 'a::len word" where
  "narrow_s result =
     (- (2 ^ (LENGTH('a) - 1)) \<le> sint result \<and> sint result \<le> 2 ^ (LENGTH('a) - 1) - 1,
      ucast result)"

definition add_checked_u8 :: "u8 \<Rightarrow> u8 \<Rightarrow> bool \<times> u8" where
  "add_checked_u8 a b = narrow_u (ucast a + ucast b)"

definition add_checked_u16 :: "u16 \<Rightarrow> u16 \<Rightarrow> bool \<times> u16" where
  "add_checked_u16 a b = narrow_u (ucast a + ucast b)"

definition add_checked_u32 :: "u32 \<Rightarrow> u32 \<Rightarrow> bool \<times> u32" where
  "add_checked_u32 a b = narrow_u (ucast a + ucast b)"

definition add_checked_u64 :: "u64 \<Rightarrow> u64 \<Rightarrow> bool \<times> u64" where
  "add_checked_u64 a b = (let result = a + b in (result \<ge> a \<and> result \<ge> b, result))"

definition add_checked_s8 :: "s8 \<Rightarrow> s8 \<Rightarrow> bool \<times> s8" where
  "add_checked_s8 a b = narrow_s (scast a + scast b)"

definition add_checked_s16 :: "s16 \<Rightarrow> s16 \<Rightarrow> bool \<times> s16" where
  "add_checked_s16 a b = narrow_s (scast a + scast b)"

definition add_checked_s32 :: "s32 \<Rightarrow> s32 \<Rightarrow> bool \<times> s32" where
  "add_checked_s32 a b = narrow_s (scast a + scast b)"

abbreviation INT64_MIN :: int where "INT64_MIN \<equiv> - (2 ^ 63)"

abbreviation INT64_MAX :: int where "INT64_MAX \<equiv> 2 ^ 63 - 1"

definition add_checked_s64 :: "s64 \<Rightarrow> s64 \<Rightarrow> bool \<times> s64" where
  "add_checked_s64 a b =
     (if sint a < 0 then sint b \<ge> INT64_MIN - sint a else INT64_MAX - sint a \<ge> sint b,
      a + b)"

definition sub_checked_u8 :: "u8 \<Rightarrow> u8 \<Rightarrow> bool \<times> u8" where
  "sub_checked_u8 a b = narrow_u (ucast a - ucast b)"

definition sub_checked_u16 :: "u16 \<Rightarrow> u16 \<Rightarrow> bool \<times> u16" where
  "sub_checked_u16 a b = narrow_u (ucast a - ucast b)"

definition sub_checked_u32 :: "u32 \<Rightarrow> u32 \<Rightarrow> bool \<times> u32" where
  "sub_checked_u32 a b = narrow_u (ucast a - ucast b)"

definition sub_checked_u64 :: "u64 \<Rightarrow> u64 \<Rightarrow> bool \<times> u64" where
  "sub_checked_u64 a b = (a \<ge> b, a - b)"

definition sub_checked_s8 :: "s8 \<Rightarrow> s8 \<Rightarrow> bool \<times> s8" where
  "sub_checked_s8 a b = narrow_s (scast a - scast b)"

definition sub_checked_s16 :: "s16 \<Rightarrow> s16 \<Rightarrow> bool \<times> s16" where
  "sub_checked_s16 a b = narrow_s (scast a - scast b)"

text \<open>The 32 bit subtraction casts and compares with the limits of \<open>s16\<close>, as the code does.\<close>

definition sub_checked_s32 :: "s32 \<Rightarrow> s32 \<Rightarrow> bool \<times> s32" where
  "sub_checked_s32 a b =
     (let result = scast a - scast b :: s64
      in (- (2 ^ 15) \<le> sint result \<and> sint result \<le> 2 ^ 15 - 1, scast (ucast result :: s16)))"

definition sub_checked_s64 :: "s64 \<Rightarrow> s64 \<Rightarrow> bool \<times> s64" where
  "sub_checked_s64 a b =
     (let result = a - b
      in (if sint a > 0 \<and> sint b < 0 then sint result > 0
          else if sint a < 0 \<and> sint b > 0 then sint result < 0
          else True,
          result))"

definition mul_checked_u8 :: "u8 \<Rightarrow> u8 \<Rightarrow> bool \<times> u8" where
  "mul_checked_u8 a b = narrow_u (ucast a * ucast b)"

definition mul_checked_u16 :: "u16 \<Rightarrow> u16 \<Rightarrow> bool \<times> u16" where
  "mul_checked_u16 a b = narrow_u (ucast a * ucast b)"

definition mul_checked_u32 :: "u32 \<Rightarrow> u32 \<Rightarrow> bool \<times> u32" where
  "mul_checked_u32 a b = narrow_u (ucast a * ucast b)"

definition mul_checked_s8 :: "s8 \<Rightarrow> s8 \<Rightarrow> bool \<times> s8" where
  "mul_checked_s8 a b = narrow_s (scast a * scast b)"

definition mul_checked_s16 :: "s16 \<Rightarrow> s16 \<Rightarrow> bool \<times> s16" where
  "mul_checked_s16 a b = narrow_s (scast a * scast b)"

definition mul_checked_s32 :: "s32 \<Rightarrow> s32 \<Rightarrow> bool \<times> s32" where
  "mul_checked_s32 a b = narrow_s (scast a * scast b)"

text \<open>
  The 64 bit multiplications have one branch per compiler. On GCC and Clang the builtin
  \<open>__builtin_mul_overflow\<close> reports whether the infinite-precision product fits and stores it
  wrapped; on MSVC \<open>_umul128\<close> and \<open>_mul128\<close> return the low half of the 128 bit product
  and store the high half, which the code then inspects.
\<close>

definition mul_checked_u64 :: "u64 \<Rightarrow> u64 \<Rightarrow> bool \<times> u64" where
  "mul_checked_u64 a b = (uint a * uint b < 2 ^ 64, a * b)"

definition mul_checked_s64 :: "s64 \<Rightarrow> s64 \<Rightarrow> bool \<times> s64" where
  "mul_checked_s64 a b =
     (INT64_MIN \<le> sint a * sint b \<and> sint a * sint b \<le> INT64_MAX, a * b)"

definition mul_checked_u64_msvc :: "u64 \<Rightarrow> u64 \<Rightarrow> bool \<times> u64" where
  "mul_checked_u64_msvc a b =
     (let result = word_of_int (uint a * uint b); high_result = word_of_int (uint a * uint b div 2 ^ 64) :: u64
      in (a = 0 \<or> b = 0 \<or> (result \<ge> a \<and> result \<ge> b \<and> high_result = 0), result))"

definition mul_checked_s64_msvc :: "s64 \<Rightarrow> s64 \<Rightarrow> bool \<times> s64" where
  "mul_checked_s64_msvc a b =
     (let result = word_of_int (sint a * sint b); high_result = word_of_int (sint a * sint b div 2 ^ 64) :: s64
      in (if high_result \<noteq> 0 \<and> high_result \<noteq> - 1 then False
          else if (sint a \<le> 0) = (sint b \<le> 0) then sint result \<ge> 0
          else sint result \<le> 0,
          result))"

section \<open>The contract of a checked operation\<close>

locale checked_op =
  fixes oper :: "'a::len word \<Rightarrow> 'a word \<Rightarrow> bool \<times> 'a word"
    and read :: "'a word \<Rightarrow> int"
    and exact :: "int \<Rightarrow> int \<Rightarrow> int"
    and lo hi :: int
  assumes accepts: "fst (oper a b) \<longleftrightarrow> lo \<le> exact (read a) (read b) \<and> exact (read a) (read b) \<le> hi"
    and stored: "fst (oper a b) \<Longrightarrow> read (snd (oper a b)) = exact (read a) (read b)"
begin

text \<open>
  What a caller that narrows the result further to \<open>lo' .. hi'\<close> gets: acceptance of both
  checks is exactly acceptance of the exact result in the narrower range.
\<close>

lemma narrowed:
  assumes "lo \<le> lo'" and "hi' \<le> hi"
  shows "(fst (oper a b) \<and> lo' \<le> read (snd (oper a b)) \<and> read (snd (oper a b)) \<le> hi')
    \<longleftrightarrow> lo' \<le> exact (read a) (read b) \<and> exact (read a) (read b) \<le> hi'"
  using assms accepts [of a b] stored [of a b] by auto

lemma rejected: "\<not> fst (oper a b) \<longleftrightarrow> exact (read a) (read b) < lo \<or> hi < exact (read a) (read b)"
  using accepts [of a b] by auto

end


section \<open>Operations that honour the contract\<close>

lemma uint_le_of_length:
  "LENGTH('a) \<le> n \<Longrightarrow> uint (a :: 'a::len word) < 2 ^ n"
  using uint_range(2) [of a] power_increasing [of "LENGTH('a)" n "2 :: int"] by linarith

lemma uint_ucast_u64:
  "LENGTH('a) \<le> 64 \<Longrightarrow> uint (ucast (a :: 'a::len word) :: u64) = uint a"
  using uint_le_of_length [of 64 a]
  by (simp add: unsigned_ucast_eq take_bit_int_eq_self)

lemma sint_bounds_of_length:
  assumes "LENGTH('a) \<le> n"
  shows "- (2 ^ (n - 1)) \<le> sint (a :: 'a::len word)" and "sint (a :: 'a::len word) < 2 ^ (n - 1)"
proof -
  have "(2 :: int) ^ (LENGTH('a) - 1) \<le> 2 ^ (n - 1)"
    using assms by (intro power_increasing) auto
  with sint_range [of a]
  show "- (2 ^ (n - 1)) \<le> sint a" and "sint a < 2 ^ (n - 1)" by linarith+
qed

lemma sint_scast_s64:
  assumes "LENGTH('a) \<le> 64"
  shows "sint (scast (a :: 'a::len word) :: s64) = sint a"
  using sint_bounds_of_length [OF assms, of a]
  by (simp add: signed_scast_eq signed_take_bit_int_eq_self_iff)

lemma narrow_u_fst:
  assumes "LENGTH('a) \<le> 32" and "- (2 ^ 32) \<le> k" and "k < 2 ^ 64"
  shows "fst (narrow_u (word_of_int k) :: bool \<times> 'a::len word) \<longleftrightarrow> 0 \<le> k \<and> k \<le> 2 ^ LENGTH('a) - 1"
proof (cases "0 \<le> k")
  case True
  with assms(3) show ?thesis
    by (simp add: narrow_u_def uint_word_of_int_range)
next
  case False
  have "word_of_int k = (word_of_int (k + 2 ^ 64) :: u64)"
    by (simp add: word_of_int_eq_iff take_bit_eq_mod)
  moreover have "uint (word_of_int (k + 2 ^ 64) :: u64) = k + 2 ^ 64"
    using False assms(2) by (intro uint_word_of_int_range) simp_all
  moreover have "(2 :: int) ^ LENGTH('a) \<le> 2 ^ 32"
    using assms(1) by (intro power_increasing) auto
  ultimately have "uint (word_of_int k :: u64) = k + 2 ^ 64" and "(2 :: int) ^ LENGTH('a) \<le> 2 ^ 32"
    by (simp_all only:)
  then show ?thesis
    using False assms(2) by (simp add: narrow_u_def)
qed

lemma narrow_u_snd:
  assumes "0 \<le> k" and "k \<le> 2 ^ LENGTH('a) - 1" and "LENGTH('a) \<le> 64"
  shows "uint (snd (narrow_u (word_of_int k) :: bool \<times> 'a::len word)) = k"
proof -
  have "(2 :: int) ^ LENGTH('a) \<le> 2 ^ 64"
    using assms(3) by (intro power_increasing) auto
  with assms have "uint (word_of_int k :: u64) = k"
    by (intro uint_word_of_int_range) auto
  with assms show ?thesis
    by (simp add: narrow_u_def unsigned_ucast_eq take_bit_int_eq_self)
qed

lemma ucast_word_of_int:
  "LENGTH('a) \<le> LENGTH('b) \<Longrightarrow> ucast (word_of_int k :: 'b::len word) = (word_of_int k :: 'a::len word)"
  by (intro bit_word_eqI) (auto simp: bit_unsigned_iff bit_word_of_int_iff)

lemma narrow_s_fst:
  assumes "- (2 ^ 63) \<le> k" and "k < 2 ^ 63"
  shows "fst (narrow_s (word_of_int k) :: bool \<times> 'a::len word) \<longleftrightarrow>
    - (2 ^ (LENGTH('a) - 1)) \<le> k \<and> k \<le> 2 ^ (LENGTH('a) - 1) - 1"
  using assms by (simp add: narrow_s_def sint_word_of_int_range)

lemma narrow_s_snd:
  assumes "- (2 ^ (LENGTH('a) - 1)) \<le> k" and "k \<le> 2 ^ (LENGTH('a) - 1) - 1" and "LENGTH('a) \<le> 64"
  shows "sint (snd (narrow_s (word_of_int k) :: bool \<times> 'a::len word)) = k"
proof -
  have "ucast (word_of_int k :: u64) = (word_of_int k :: 'a word)"
    using assms(3) by (simp add: ucast_word_of_int)
  with assms show ?thesis
    by (simp add: narrow_s_def sint_word_of_int_range)
qed


lemma ucast_u64_eq: "(ucast (a :: 'a::len word) :: u64) = word_of_int (uint a)"
  by (rule bit_word_eqI) (auto simp: bit_unsigned_iff bit_word_of_int_iff bit_uint_iff)

lemma scast_s64_eq: "(scast (a :: 'a::len word) :: s64) = word_of_int (sint a)"
  by (simp add: of_int_sint)

lemma checked_op_narrow_u:
  fixes oper :: "'a::len word \<Rightarrow> 'a word \<Rightarrow> bool \<times> 'a word"
  assumes "\<And>a b. oper a b = narrow_u (word_of_int (exact (uint a) (uint b)))"
    and "\<And>(a :: 'a word) (b :: 'a word). - (2 ^ 32) \<le> exact (uint a) (uint b) \<and> exact (uint a) (uint b) < 2 ^ 64"
    and "LENGTH('a) \<le> 32"
  shows "checked_op oper uint exact 0 (2 ^ LENGTH('a) - 1)"
proof
  fix a b :: "'a word"
  show accepts: "fst (oper a b) \<longleftrightarrow> 0 \<le> exact (uint a) (uint b) \<and> exact (uint a) (uint b) \<le> 2 ^ LENGTH('a) - 1"
    using assms(2) [of a b] assms(3) unfolding assms(1) by (intro narrow_u_fst) simp_all
  show "fst (oper a b) \<Longrightarrow> uint (snd (oper a b)) = exact (uint a) (uint b)"
    using accepts assms(3) unfolding assms(1) by (intro narrow_u_snd) simp_all
qed

lemma checked_op_narrow_s:
  fixes oper :: "'a::len word \<Rightarrow> 'a word \<Rightarrow> bool \<times> 'a word"
  assumes "\<And>a b. oper a b = narrow_s (word_of_int (exact (sint a) (sint b)))"
    and "\<And>(a :: 'a word) (b :: 'a word). - (2 ^ 63) \<le> exact (sint a) (sint b) \<and> exact (sint a) (sint b) < 2 ^ 63"
    and "LENGTH('a) \<le> 32"
  shows "checked_op oper sint exact (- (2 ^ (LENGTH('a) - 1))) (2 ^ (LENGTH('a) - 1) - 1)"
proof
  fix a b :: "'a word"
  show accepts: "fst (oper a b) \<longleftrightarrow>
    - (2 ^ (LENGTH('a) - 1)) \<le> exact (sint a) (sint b) \<and> exact (sint a) (sint b) \<le> 2 ^ (LENGTH('a) - 1) - 1"
    using assms(2) [of a b] unfolding assms(1) by (intro narrow_s_fst) simp_all
  show "fst (oper a b) \<Longrightarrow> sint (snd (oper a b)) = exact (sint a) (sint b)"
    using accepts assms(3) unfolding assms(1) by (intro narrow_s_snd) simp_all
qed

lemma uint_le_u32:
  "LENGTH('a) \<le> 32 \<Longrightarrow> uint (a :: 'a::len word) \<le> 4294967295"
  using uint_le_of_length [of 32 a] by simp

lemma sint_le_s32:
  assumes "LENGTH('a) \<le> 32"
  shows "- 2147483648 \<le> sint (a :: 'a::len word)" and "sint (a :: 'a::len word) \<le> 2147483647"
  using sint_bounds_of_length [OF assms, of a] by simp_all

lemma uint_mult_u32:
  assumes "LENGTH('a) \<le> 32"
  shows "uint (a :: 'a::len word) * uint (b :: 'a word) \<le> 4294967295 * 4294967295"
  by (intro mult_mono uint_le_u32 assms) simp_all

lemma abs_mult_s32:
  assumes "LENGTH('a) \<le> 32"
  shows "\<bar>sint (a :: 'a::len word) * sint (b :: 'a word)\<bar> \<le> 2147483648 * 2147483648"
proof -
  have "\<bar>sint a\<bar> \<le> 2147483648" and "\<bar>sint b\<bar> \<le> 2147483648"
    using sint_le_s32 [OF assms, of a] sint_le_s32 [OF assms, of b] by arith+
  then show ?thesis unfolding abs_mult by (intro mult_mono) simp_all
qed

lemma unsigned_in_range:
  assumes "LENGTH('a) \<le> 32"
  shows "- (2 ^ 32) \<le> uint (a :: 'a::len word) + uint (b :: 'a word) \<and> uint a + uint b < 2 ^ 64"
    and "- (2 ^ 32) \<le> uint a - uint b \<and> uint a - uint b < 2 ^ 64"
    and "- (2 ^ 32) \<le> uint a * uint b \<and> uint a * uint b < 2 ^ 64"
proof -
  note a = uint_range(1) [of a] uint_le_u32 [OF assms, of a]
  note b = uint_range(1) [of b] uint_le_u32 [OF assms, of b]
  have p: "(2 :: int) ^ 32 = 4294967296" "(2 :: int) ^ 64 = 18446744073709551616" by simp_all
  show "- (2 ^ 32) \<le> uint a + uint b \<and> uint a + uint b < 2 ^ 64"
    and "- (2 ^ 32) \<le> uint a - uint b \<and> uint a - uint b < 2 ^ 64"
    unfolding p using a b by linarith+
  show "- (2 ^ 32) \<le> uint a * uint b \<and> uint a * uint b < 2 ^ 64"
    unfolding p using uint_mult_u32 [OF assms, of a b] mult_nonneg_nonneg [OF a(1) b(1)] by linarith
qed

lemma signed_in_range:
  assumes "LENGTH('a) \<le> 32"
  shows "- (2 ^ 63) \<le> sint (a :: 'a::len word) + sint (b :: 'a word) \<and> sint a + sint b < 2 ^ 63"
    and "- (2 ^ 63) \<le> sint a - sint b \<and> sint a - sint b < 2 ^ 63"
    and "- (2 ^ 63) \<le> sint a * sint b \<and> sint a * sint b < 2 ^ 63"
proof -
  have p: "(2 :: int) ^ 63 = 9223372036854775808" by simp
  note ab = sint_le_s32 [OF assms, of a] sint_le_s32 [OF assms, of b]
  show "- (2 ^ 63) \<le> sint a + sint b \<and> sint a + sint b < 2 ^ 63"
    and "- (2 ^ 63) \<le> sint a - sint b \<and> sint a - sint b < 2 ^ 63"
    unfolding p using ab by linarith+
  show "- (2 ^ 63) \<le> sint a * sint b \<and> sint a * sint b < 2 ^ 63"
    unfolding p using abs_mult_s32 [OF assms, of a b] by linarith
qed

lemmas checked_op_defs =
  add_checked_u8_def add_checked_u16_def add_checked_u32_def
  sub_checked_u8_def sub_checked_u16_def sub_checked_u32_def
  mul_checked_u8_def mul_checked_u16_def mul_checked_u32_def
  add_checked_s8_def add_checked_s16_def add_checked_s32_def
  sub_checked_s8_def sub_checked_s16_def
  mul_checked_s8_def mul_checked_s16_def mul_checked_s32_def

interpretation add_u8: checked_op add_checked_u8 uint "(+)" 0 "2 ^ LENGTH(8) - 1"
  by (rule checked_op_narrow_u, simp add: checked_op_defs, rule unsigned_in_range(1), simp_all)

interpretation add_u16: checked_op add_checked_u16 uint "(+)" 0 "2 ^ LENGTH(16) - 1"
  by (rule checked_op_narrow_u, simp add: checked_op_defs, rule unsigned_in_range(1), simp_all)

interpretation add_u32: checked_op add_checked_u32 uint "(+)" 0 "2 ^ LENGTH(32) - 1"
  by (rule checked_op_narrow_u, simp add: checked_op_defs, rule unsigned_in_range(1), simp_all)

interpretation add_s8: checked_op add_checked_s8 sint "(+)" "- (2 ^ (LENGTH(8) - 1))" "2 ^ (LENGTH(8) - 1) - 1"
  by (rule checked_op_narrow_s, simp add: checked_op_defs, rule signed_in_range(1), simp_all)

interpretation add_s16: checked_op add_checked_s16 sint "(+)" "- (2 ^ (LENGTH(16) - 1))" "2 ^ (LENGTH(16) - 1) - 1"
  by (rule checked_op_narrow_s, simp add: checked_op_defs, rule signed_in_range(1), simp_all)

interpretation add_s32: checked_op add_checked_s32 sint "(+)" "- (2 ^ (LENGTH(32) - 1))" "2 ^ (LENGTH(32) - 1) - 1"
  by (rule checked_op_narrow_s, simp add: checked_op_defs, rule signed_in_range(1), simp_all)

interpretation sub_u8: checked_op sub_checked_u8 uint "(-)" 0 "2 ^ LENGTH(8) - 1"
  by (rule checked_op_narrow_u, simp add: checked_op_defs, rule unsigned_in_range(2), simp_all)

interpretation sub_u16: checked_op sub_checked_u16 uint "(-)" 0 "2 ^ LENGTH(16) - 1"
  by (rule checked_op_narrow_u, simp add: checked_op_defs, rule unsigned_in_range(2), simp_all)

interpretation sub_u32: checked_op sub_checked_u32 uint "(-)" 0 "2 ^ LENGTH(32) - 1"
  by (rule checked_op_narrow_u, simp add: checked_op_defs, rule unsigned_in_range(2), simp_all)

interpretation sub_s8: checked_op sub_checked_s8 sint "(-)" "- (2 ^ (LENGTH(8) - 1))" "2 ^ (LENGTH(8) - 1) - 1"
  by (rule checked_op_narrow_s, simp add: checked_op_defs, rule signed_in_range(2), simp_all)

interpretation sub_s16: checked_op sub_checked_s16 sint "(-)" "- (2 ^ (LENGTH(16) - 1))" "2 ^ (LENGTH(16) - 1) - 1"
  by (rule checked_op_narrow_s, simp add: checked_op_defs, rule signed_in_range(2), simp_all)

interpretation mul_u8: checked_op mul_checked_u8 uint "(\<lambda>x y. x * y)" 0 "2 ^ LENGTH(8) - 1"
  by (rule checked_op_narrow_u, simp add: checked_op_defs, rule unsigned_in_range(3), simp_all)

interpretation mul_u16: checked_op mul_checked_u16 uint "(\<lambda>x y. x * y)" 0 "2 ^ LENGTH(16) - 1"
  by (rule checked_op_narrow_u, simp add: checked_op_defs, rule unsigned_in_range(3), simp_all)

interpretation mul_u32: checked_op mul_checked_u32 uint "(\<lambda>x y. x * y)" 0 "2 ^ LENGTH(32) - 1"
  by (rule checked_op_narrow_u, simp add: checked_op_defs, rule unsigned_in_range(3), simp_all)

interpretation mul_s8: checked_op mul_checked_s8 sint "(\<lambda>x y. x * y)" "- (2 ^ (LENGTH(8) - 1))" "2 ^ (LENGTH(8) - 1) - 1"
  by (rule checked_op_narrow_s, simp add: checked_op_defs, rule signed_in_range(3), simp_all)

interpretation mul_s16: checked_op mul_checked_s16 sint "(\<lambda>x y. x * y)" "- (2 ^ (LENGTH(16) - 1))" "2 ^ (LENGTH(16) - 1) - 1"
  by (rule checked_op_narrow_s, simp add: checked_op_defs, rule signed_in_range(3), simp_all)

interpretation mul_s32: checked_op mul_checked_s32 sint "(\<lambda>x y. x * y)" "- (2 ^ (LENGTH(32) - 1))" "2 ^ (LENGTH(32) - 1) - 1"
  by (rule checked_op_narrow_s, simp add: checked_op_defs, rule signed_in_range(3), simp_all)

subsection \<open>The 64 bit operations\<close>

lemma word_of_int_signed_arith:
  "word_of_int (sint a + sint b) = (a + b :: 'a::len word)"
  "word_of_int (sint a - sint b) = (a - b :: 'a::len word)"
  "word_of_int (sint a * sint b) = (a * b :: 'a::len word)"
  by simp_all

lemma s64_sint_range: "INT64_MIN \<le> sint (a :: s64)" "sint (a :: s64) \<le> INT64_MAX"
  using sint_range [of a] by simp_all

lemma sint_s64_eqI:
  "word_of_int k = (w :: s64) \<Longrightarrow> INT64_MIN \<le> k \<Longrightarrow> k \<le> INT64_MAX \<Longrightarrow> sint w = k"
  using sint_word_of_int_range [of k, where 'a = 64] by auto

interpretation add_u64: checked_op add_checked_u64 uint "(+)" 0 "2 ^ 64 - 1"
proof
  fix a b :: u64
  show "fst (add_checked_u64 a b) \<longleftrightarrow> 0 \<le> uint a + uint b \<and> uint a + uint b \<le> 2 ^ 64 - 1"
    using uint_range [of a] uint_range [of b]
    by (auto simp: add_checked_u64_def Let_def word_le_def uint_plus_if')
  then show "fst (add_checked_u64 a b) \<Longrightarrow> uint (snd (add_checked_u64 a b)) = uint a + uint b"
    by (simp add: add_checked_u64_def Let_def uint_plus_if')
qed

interpretation sub_u64: checked_op sub_checked_u64 uint "(-)" 0 "2 ^ 64 - 1"
proof
  fix a b :: u64
  have bounds: "uint a < 18446744073709551616" "0 \<le> uint b" "(2 :: int) ^ 64 - 1 = 18446744073709551615"
    using uint_range(2) [of a] by simp_all
  show "fst (sub_checked_u64 a b) \<longleftrightarrow> 0 \<le> uint a - uint b \<and> uint a - uint b \<le> 2 ^ 64 - 1"
    using bounds unfolding sub_checked_u64_def word_le_def fst_conv
    by (intro iffI conjI) linarith+
  then show "fst (sub_checked_u64 a b) \<Longrightarrow> uint (snd (sub_checked_u64 a b)) = uint a - uint b"
    by (simp add: sub_checked_u64_def uint_sub_if')
qed

interpretation mul_u64: checked_op mul_checked_u64 uint "\<lambda>x y. x * y" 0 "2 ^ 64 - 1"
proof
  fix a b :: u64
  show accepts: "fst (mul_checked_u64 a b) \<longleftrightarrow> 0 \<le> uint a * uint b \<and> uint a * uint b \<le> 2 ^ 64 - 1"
    by (auto simp: mul_checked_u64_def)
  show "fst (mul_checked_u64 a b) \<Longrightarrow> uint (snd (mul_checked_u64 a b)) = uint a * uint b"
    by (simp add: mul_checked_u64_def uint_word_arith_bintrs take_bit_int_eq_self)
qed

interpretation add_s64: checked_op add_checked_s64 sint "(+)" INT64_MIN INT64_MAX
proof
  fix a b :: s64
  show accepts: "fst (add_checked_s64 a b) \<longleftrightarrow> INT64_MIN \<le> sint a + sint b \<and> sint a + sint b \<le> INT64_MAX"
    using s64_sint_range [of a] s64_sint_range [of b]
    by (simp add: add_checked_s64_def) linarith
  show "fst (add_checked_s64 a b) \<Longrightarrow> sint (snd (add_checked_s64 a b)) = sint a + sint b"
    unfolding accepts by (rule sint_s64_eqI) (simp_all add: add_checked_s64_def)
qed

interpretation mul_s64: checked_op mul_checked_s64 sint "\<lambda>x y. x * y" INT64_MIN INT64_MAX
proof
  fix a b :: s64
  show accepts: "fst (mul_checked_s64 a b) \<longleftrightarrow> INT64_MIN \<le> sint a * sint b \<and> sint a * sint b \<le> INT64_MAX"
    by (simp add: mul_checked_s64_def)
  show "fst (mul_checked_s64 a b) \<Longrightarrow> sint (snd (mul_checked_s64 a b)) = sint a * sint b"
    unfolding accepts by (rule sint_s64_eqI) (simp_all add: mul_checked_s64_def)
qed

section \<open>Operations that do not honour the contract\<close>

text \<open>
  \<open>sub_checked_s64\<close> looks at the sign of the wrapped result, but not when the minuend is
  zero: \<open>0 - INT64_MIN\<close> is accepted and stores \<open>INT64_MIN\<close>. It is right everywhere else.
\<close>

lemma sint_sub_wrap:
  fixes a b :: s64
  shows "sint (a - b) =
    (if sint a - sint b < INT64_MIN then sint a - sint b + 2 ^ 64
     else if sint a - sint b > INT64_MAX then sint a - sint b - 2 ^ 64
     else sint a - sint b)"
proof -
  have shift: "word_of_int (sint a - sint b + 2 ^ 64) = a - b" "word_of_int (sint a - sint b - 2 ^ 64) = a - b"
    by simp_all
  note range = s64_sint_range [of a] s64_sint_range [of b]
  have p: "(2 :: int) ^ 63 = 9223372036854775808" "(2 :: int) ^ 64 = 18446744073709551616" by simp_all
  consider "sint a - sint b < INT64_MIN" | "sint a - sint b > INT64_MAX"
    | "INT64_MIN \<le> sint a - sint b" "sint a - sint b \<le> INT64_MAX" by linarith
  then show ?thesis
  proof cases
    case 1
    with range have "sint (a - b) = sint a - sint b + 2 ^ 64"
      unfolding p by (intro sint_s64_eqI [OF shift(1), unfolded p]) linarith+
    with 1 show ?thesis by simp
  next
    case 2
    with range have "sint (a - b) = sint a - sint b - 2 ^ 64"
      unfolding p by (intro sint_s64_eqI [OF shift(2), unfolded p]) linarith+
    with 2 show ?thesis by simp
  next
    case 3
    then have "sint (a - b) = sint a - sint b" by (intro sint_s64_eqI) simp_all
    with 3 show ?thesis by simp
  qed
qed

lemma sub_checked_s64_fst:
  "fst (sub_checked_s64 a b) \<longleftrightarrow>
    (INT64_MIN \<le> sint a - sint b \<and> sint a - sint b \<le> INT64_MAX) \<or> (sint a = 0 \<and> sint b = INT64_MIN)"
  using s64_sint_range [of a] s64_sint_range [of b]
  by (simp add: sub_checked_s64_def Let_def sint_sub_wrap)

lemma sub_checked_s64_snd: "snd (sub_checked_s64 a b) = a - b"
  by (simp add: sub_checked_s64_def Let_def)

text \<open>\<open>sub_checked_s32\<close> accepts exactly the differences that fit in 16 bits.\<close>

lemma sub_checked_s32_fst:
  "fst (sub_checked_s32 a b) \<longleftrightarrow> - (2 ^ 15) \<le> sint a - sint b \<and> sint a - sint b \<le> 2 ^ 15 - 1"
proof -
  have "sint (word_of_int (sint a - sint b) :: s64) = sint a - sint b"
    using signed_in_range(2) [of a b] by (intro sint_word_of_int_range) simp_all
  then show ?thesis by (simp add: sub_checked_s32_def Let_def)
qed

lemma sub_checked_s32_snd:
  assumes "fst (sub_checked_s32 a b)"
  shows "sint (snd (sub_checked_s32 a b)) = sint a - sint b"
proof -
  let ?d = "sint a - sint b"
  have d: "- (2 ^ 15) \<le> ?d" "?d < 2 ^ 15" using assms by (auto simp: sub_checked_s32_fst)
  have "ucast (word_of_int ?d :: s64) = (word_of_int ?d :: s16)"
    by (rule ucast_word_of_int) simp
  then have "snd (sub_checked_s32 a b) = scast (word_of_int ?d :: s16)"
    by (simp add: sub_checked_s32_def Let_def)
  also have "sint (scast (word_of_int ?d :: s16) :: s32) = sint (word_of_int ?d :: s16)"
    using sint_bounds_of_length [of 32 "word_of_int ?d :: s16"]
    by (simp add: signed_scast_eq signed_take_bit_int_eq_self_iff)
  also have "\<dots> = ?d" using d by (intro sint_word_of_int_range) simp_all
  finally show ?thesis .
qed

section \<open>The two compiler branches of the 64 bit multiplications\<close>

lemma mul_checked_u64_msvc_eq: "mul_checked_u64_msvc a b = mul_checked_u64 a b"
proof -
  let ?p = "uint a * uint b"
  have p: "0 \<le> ?p" by simp
  have "?p < 2 ^ 64 * 2 ^ 64"
    using uint_range [of a] uint_range [of b] by (intro mult_strict_mono') simp_all
  then have div_less: "?p div 2 ^ 64 < 2 ^ 64" by simp
  have high: "word_of_int (?p div 2 ^ 64) = (0 :: u64) \<longleftrightarrow> ?p < 2 ^ 64"
  proof
    assume "word_of_int (?p div 2 ^ 64) = (0 :: u64)"
    then have "uint (word_of_int (?p div 2 ^ 64) :: u64) = 0" by simp
    moreover have "uint (word_of_int (?p div 2 ^ 64) :: u64) = ?p div 2 ^ 64"
      using div_less p by (intro uint_word_of_int_range) (simp_all add: pos_imp_zdiv_nonneg_iff)
    ultimately show "?p < 2 ^ 64" using p by (simp add: div_eq_0_iff)
  qed (use p in simp)
  have low: "a \<noteq> 0 \<Longrightarrow> b \<noteq> 0 \<Longrightarrow> ?p < 2 ^ 64 \<Longrightarrow> a \<le> word_of_int ?p \<and> b \<le> word_of_int ?p"
  proof -
    assume ne: "a \<noteq> 0" "b \<noteq> 0" and fits: "?p < 2 ^ 64"
    then have "1 \<le> uint a" "1 \<le> uint b"
      using uint_range(1) [of a] uint_range(1) [of b] by (simp_all add: int_one_le_iff_zero_less order_less_le uint_0_iff)
    then have "uint a * 1 \<le> ?p" "1 * uint b \<le> ?p"
      by (intro mult_mono; simp)+
    moreover have "uint (word_of_int ?p :: u64) = ?p"
      using fits p by (intro uint_word_of_int_range) simp_all
    ultimately show ?thesis by (simp only: word_le_def) simp
  qed
  have "fst (mul_checked_u64_msvc a b) = fst (mul_checked_u64 a b)"
    using low high by (cases "a = 0 \<or> b = 0") (auto simp: mul_checked_u64_msvc_def mul_checked_u64_def Let_def)
  then show ?thesis
    by (simp add: prod_eq_iff) (simp add: mul_checked_u64_msvc_def mul_checked_u64_def Let_def)
qed

end
