(* ===== verification/BitwiseOps.thy ===== *)
theory BitwiseOps
  imports CheckedArith "HOL-Library.Signed_Division"
begin

text \<open>
  The operations of src/core/comp_values.cpp on integers stored as little-endian byte
  ranges: the checked arithmetic of \<open>bitwise_binary_arithmetic_op\<close> behind \<open>bitwise_add\<close>,
  \<open>bitwise_sub\<close>, \<open>bitwise_mul\<close>, \<open>bitwise_div\<close> and \<open>bitwise_mod\<close>, the shifts, negation
  and complement. A byte range is a list of bytes, a destination range is the list before
  the call, and the result is the list after it. Source and destination do not overlap. An
  index past a range fails the assertion of its \<open>operator[]\<close> (src/infra/range.hpp).
\<close>

section \<open>Memory access\<close>

text \<open>
  \<open>load_le n bs\<close> is the unsigned integer in the first \<open>n\<close> bytes, as an x86-64 load
  through a \<open>reinterpret_cast\<close> pointer reads it; \<open>store_le n v\<close> is what \<open>memcpy\<close> of the
  first \<open>n\<close> bytes of \<open>v\<close> writes.
\<close>

definition load_le :: "nat \<Rightarrow> u8 list \<Rightarrow> int" where
  "load_le n bs = horner_sum uint 256 (take n bs)"

definition store_le :: "nat \<Rightarrow> u64 \<Rightarrow> u8 list" where
  "store_le n v = map (\<lambda>i. ucast (drop_bit (8 * i) v)) [0..<n]"

definition read_signed :: "u16 \<Rightarrow> u8 list \<Rightarrow> s64 outcome" where
  "read_signed bits bs =
     (if bits = 8 then Inr (scast (word_of_int (load_le 1 bs) :: s8))
      else if bits = 16 then Inr (scast (word_of_int (load_le 2 bs) :: s16))
      else if bits = 32 then Inr (scast (word_of_int (load_le 4 bs) :: s32))
      else ensure Assertion (bits = 64) (Inr (word_of_int (load_le 8 bs))))"

definition read_unsigned :: "u16 \<Rightarrow> u8 list \<Rightarrow> u64 outcome" where
  "read_unsigned bits bs =
     (if bits = 8 then Inr (ucast (word_of_int (load_le 1 bs) :: u8))
      else if bits = 16 then Inr (ucast (word_of_int (load_le 2 bs) :: u16))
      else if bits = 32 then Inr (ucast (word_of_int (load_le 4 bs) :: u32))
      else ensure Assertion (bits = 64) (Inr (word_of_int (load_le 8 bs))))"

section \<open>Checked arithmetic on byte ranges\<close>

datatype BinaryArithmeticOp = Arith_Add | Arith_Sub | Arith_Mul | Arith_Div | Arith_Mod

text \<open>
  The 64 bit step of the two branches; \<open>Inr None\<close> is the early \<open>return false\<close>. Dividing
  the least \<open>s64\<close> by minus one has no defined result in C++ (and traps on x86-64).
\<close>

definition of_checked :: "bool \<times> 'a \<Rightarrow> 'a option outcome" where
  "of_checked r = Inr (if fst r then Some (snd r) else None)"

definition arith_s64 :: "BinaryArithmeticOp \<Rightarrow> s64 \<Rightarrow> s64 \<Rightarrow> s64 option outcome" where
  "arith_s64 oper lhs rhs =
     (case oper of
        Arith_Add \<Rightarrow> of_checked (add_checked_s64 lhs rhs)
      | Arith_Sub \<Rightarrow> of_checked (sub_checked_s64 lhs rhs)
      | Arith_Mul \<Rightarrow> of_checked (mul_checked_s64 lhs rhs)
      | Arith_Div \<Rightarrow>
          (if rhs = 0 then Inr None
           else ensure Undefined (\<not> (sint lhs = INT64_MIN \<and> sint rhs = - 1))
             (Inr (Some (word_of_int (sint lhs sdiv sint rhs)))))
      | Arith_Mod \<Rightarrow>
          (if rhs = 0 then Inr None
           else ensure Undefined (\<not> (sint lhs = INT64_MIN \<and> sint rhs = - 1))
             (Inr (Some (word_of_int (sint lhs smod sint rhs))))))"

definition arith_u64 :: "BinaryArithmeticOp \<Rightarrow> u64 \<Rightarrow> u64 \<Rightarrow> u64 option outcome" where
  "arith_u64 oper lhs rhs =
     (case oper of
        Arith_Add \<Rightarrow> of_checked (add_checked_u64 lhs rhs)
      | Arith_Sub \<Rightarrow> of_checked (sub_checked_u64 lhs rhs)
      | Arith_Mul \<Rightarrow> of_checked (mul_checked_u64 lhs rhs)
      | Arith_Div \<Rightarrow> Inr (if rhs = 0 then None else Some (lhs div rhs))
      | Arith_Mod \<Rightarrow> Inr (if rhs = 0 then None else Some (lhs mod rhs)))"

definition bitwise_binary_arithmetic_op ::
  "BinaryArithmeticOp \<Rightarrow> u16 \<Rightarrow> bool \<Rightarrow> u8 list \<Rightarrow> u8 list \<Rightarrow> u8 list \<Rightarrow> (bool \<times> u8 list) outcome" where
  "bitwise_binary_arithmetic_op oper bits is_signed dst lhs rhs =
     ensure Assertion (8 \<le> bits \<and> bits \<le> 64 \<and> is_pow2 bits)
     (ensure Assertion (dst \<noteq> [] \<and> length dst = length lhs \<and> length dst = length rhs
        \<and> length dst = unat bits div 8)
     (if is_signed then
        obind (read_signed bits lhs) (\<lambda>lhs_value.
        obind (read_signed bits rhs) (\<lambda>rhs_value.
        obind (arith_s64 oper lhs_value rhs_value) (\<lambda>dst_value.
          Inr (case dst_value of
             None \<Rightarrow> (False, dst)
           | Some v \<Rightarrow>
               if bits \<noteq> 64 \<and> (sint v < - (2 ^ (unat bits - 1)) \<or> sint v > 2 ^ (unat bits - 1) - 1)
               then (False, dst)
               else (True, store_le (length dst) v)))))
      else
        obind (read_unsigned bits lhs) (\<lambda>lhs_value.
        obind (read_unsigned bits rhs) (\<lambda>rhs_value.
        obind (arith_u64 oper lhs_value rhs_value) (\<lambda>dst_value.
          Inr (case dst_value of
             None \<Rightarrow> (False, dst)
           | Some v \<Rightarrow>
               if bits \<noteq> 64 \<and> uint v > 2 ^ unat bits - 1
               then (False, dst)
               else (True, store_le (length dst) v)))))))"

definition bitwise_add :: "u16 \<Rightarrow> bool \<Rightarrow> u8 list \<Rightarrow> u8 list \<Rightarrow> u8 list \<Rightarrow> (bool \<times> u8 list) outcome" where
  "bitwise_add = bitwise_binary_arithmetic_op Arith_Add"

definition bitwise_sub :: "u16 \<Rightarrow> bool \<Rightarrow> u8 list \<Rightarrow> u8 list \<Rightarrow> u8 list \<Rightarrow> (bool \<times> u8 list) outcome" where
  "bitwise_sub = bitwise_binary_arithmetic_op Arith_Sub"

definition bitwise_mul :: "u16 \<Rightarrow> bool \<Rightarrow> u8 list \<Rightarrow> u8 list \<Rightarrow> u8 list \<Rightarrow> (bool \<times> u8 list) outcome" where
  "bitwise_mul = bitwise_binary_arithmetic_op Arith_Mul"

definition bitwise_div :: "u16 \<Rightarrow> bool \<Rightarrow> u8 list \<Rightarrow> u8 list \<Rightarrow> u8 list \<Rightarrow> (bool \<times> u8 list) outcome" where
  "bitwise_div = bitwise_binary_arithmetic_op Arith_Div"

definition bitwise_mod :: "u16 \<Rightarrow> bool \<Rightarrow> u8 list \<Rightarrow> u8 list \<Rightarrow> u8 list \<Rightarrow> (bool \<times> u8 list) outcome" where
  "bitwise_mod = bitwise_binary_arithmetic_op Arith_Mod"

section \<open>Shifts, complement and negation\<close>

text \<open>
  The byte loop of \<open>bitwise_shift_left\<close>: bytes \<open>i, i + 1, \<dots>\<close> of \<open>lhs\<close> go to
  \<open>dst[i + shift_by_bytes]\<close> with the carry of the byte below. The loop runs \<open>n\<close> more times.
\<close>

fun shift_left_loop :: "nat \<Rightarrow> nat \<Rightarrow> nat \<Rightarrow> nat \<Rightarrow> u8 \<Rightarrow> u8 list \<Rightarrow> u8 list \<Rightarrow> u8 list" where
  "shift_left_loop 0 i by_bytes by_bits carry lhs dst = dst"
| "shift_left_loop (Suc n) i by_bytes by_bits carry lhs dst =
     (let shifted = push_bit by_bits (ucast (lhs ! i)) OR ucast carry :: u16
      in shift_left_loop n (Suc i) by_bytes by_bits (ucast (drop_bit 8 shifted)) lhs
           (dst[i + by_bytes := ucast shifted]))"

definition bitwise_shift_left :: "u16 \<Rightarrow> u8 list \<Rightarrow> u8 list \<Rightarrow> u64 \<Rightarrow> u8 list outcome" where
  "bitwise_shift_left bits dst lhs rhs =
     ensure Assertion (uint rhs < uint bits)
     (let shift_by_bytes = unat rhs div 8;
          shift_by_bits = unat rhs mod 8;
          lhs_size = unat bits div 8;
          extra_bits = unat bits mod 8;
          shift_size = lhs_size - shift_by_bytes;
          cleared = take shift_size dst @ replicate shift_by_bytes 0 @ drop (shift_size + shift_by_bytes) dst
      in ensure Assertion (lhs_size \<le> length dst \<and> lhs_size \<le> length lhs)
         (let res = shift_left_loop shift_size 0 shift_by_bytes shift_by_bits 0 lhs cleared
          in if extra_bits \<noteq> 0 then Inl Todo else Inr res))"

fun shift_right_loop :: "nat \<Rightarrow> nat \<Rightarrow> nat \<Rightarrow> nat \<Rightarrow> u8 \<Rightarrow> u8 list \<Rightarrow> u8 list \<Rightarrow> u8 list" where
  "shift_right_loop 0 i by_bytes by_bits carry lhs dst = dst"
| "shift_right_loop (Suc n) i by_bytes by_bits carry lhs dst =
     (let lhs_byte = lhs ! (i + by_bytes);
          shifted = drop_bit by_bits lhs_byte OR carry
      in shift_right_loop n (Suc i) by_bytes by_bits
           (ucast (push_bit (8 - by_bits) (ucast lhs_byte :: u16))) lhs
           (dst[i + by_bytes := shifted]))"

definition bitwise_shift_right :: "u16 \<Rightarrow> u8 list \<Rightarrow> u8 list \<Rightarrow> u64 \<Rightarrow> bool \<Rightarrow> u8 list outcome" where
  "bitwise_shift_right bits dst lhs rhs is_arithmetic_shift =
     ensure Assertion (uint rhs < uint bits)
     (let shift_by_bytes = unat rhs div 8;
          shift_by_bits = unat rhs mod 8;
          lhs_size = unat bits div 8;
          extra_bits = unat bits mod 8;
          shift_size = lhs_size - shift_by_bytes
      in ensure Assertion (lhs_size \<le> length dst \<and> lhs_size + (if extra_bits = 0 then 0 else 1) \<le> length lhs)
         (let fill = (if is_arithmetic_shift
                      then (if extra_bits = 0
                            then (if lhs ! (lhs_size - 1) AND 0x80 \<noteq> 0 then 0xFF else 0)
                            else (if lhs ! lhs_size AND push_bit (extra_bits - 1) 1 \<noteq> 0 then 0xFF else 0))
                      else 0 :: u8);
              filled = replicate shift_by_bytes fill @ drop shift_by_bytes dst
          in if extra_bits \<noteq> 0 then Inl Todo
             else Inr (shift_right_loop shift_size 0 shift_by_bytes shift_by_bits 0 lhs filled)))"

text \<open>
  In \<open>bitwise_not\<close> the mask of the last, partial byte is \<open>(1 << bits) - 1\<close> on a 32 bit
  \<open>int\<close>, cast to a byte: a shift by 31 or more leaves the range of \<open>int\<close>.
\<close>

definition bitwise_not :: "u16 \<Rightarrow> u8 list \<Rightarrow> u8 list \<Rightarrow> u8 list outcome" where
  "bitwise_not bits dst operand =
     ensure Assertion (dst \<noteq> [] \<and> length dst = length operand \<and> length dst = (unat bits + 7) div 8)
     (let bytes = unat bits div 8;
          whole = map (\<lambda>b. NOT b) (take bytes operand)
      in if unat bits mod 8 \<noteq> 0
         then ensure Undefined (unat bits < 31)
           (Inr (whole @ [operand ! bytes XOR word_of_int (2 ^ unat bits - 1)]))
         else Inr whole)"

text \<open>The increment loop of \<open>bitwise_neg\<close>: it stops at the first byte that does not wrap.\<close>

fun neg_loop :: "nat \<Rightarrow> nat \<Rightarrow> u8 list \<Rightarrow> bool \<times> u8 list" where
  "neg_loop 0 i dst = (False, dst)"
| "neg_loop (Suc n) i dst =
     (let prev = dst ! i; dst' = dst[i := prev + 1]
      in if prev \<noteq> 0xFF then (True, dst') else neg_loop n (Suc i) dst')"

definition bitwise_neg :: "u16 \<Rightarrow> u8 list \<Rightarrow> u8 list \<Rightarrow> (bool \<times> u8 list) outcome" where
  "bitwise_neg bits dst operand =
     ensure Assertion (dst \<noteq> [] \<and> length dst = length operand \<and> length dst = (unat bits + 7) div 8)
     (obind (bitwise_not bits dst operand) (\<lambda>dst.
        let bytes = unat bits div 8 in
        case neg_loop bytes 0 dst of
          (True, dst') \<Rightarrow> Inr (True, dst')
        | (False, dst') \<Rightarrow>
            if unat bits mod 8 \<noteq> 0
            then (let mask = word_of_int (2 ^ (unat bits mod 8) - 1) :: u8;
                      prev = dst' ! bytes;
                      prev_masked = prev AND mask
                  in if prev_masked \<noteq> mask
                     then Inr (True, dst'[bytes := (prev_masked OR (prev AND NOT mask)) + 1])
                     else Inr (False, dst'))
            else Inr (False, dst')))"

section \<open>Loads and stores\<close>

lemma length_store_le [simp]: "length (store_le n v) = n"
  by (simp add: store_le_def)

lemma store_le_Suc: "store_le (Suc n) v = ucast v # store_le n (drop_bit 8 v)"
  by (rule nth_equalityI)
    (auto simp: store_le_def nth_Cons drop_bit_drop_bit add.commute simp del: upt_Suc split: nat.splits)

lemma uint_ucast_u8: "uint (ucast (v :: 'a::len word) :: u8) = uint v mod 256"
  by (simp add: unsigned_ucast_eq take_bit_eq_mod)

lemma load_store_le: "load_le n (store_le n v) = take_bit (8 * n) (uint v)"
proof (induction n arbitrary: v)
  case 0
  then show ?case by (simp add: load_le_def)
next
  case (Suc n)
  have "load_le (Suc n) (store_le (Suc n) v) = uint v mod 256 + 256 * take_bit (8 * n) (uint v div 256)"
    using Suc [of "drop_bit 8 v"]
    by (simp add: store_le_Suc load_le_def uint_ucast_u8 uint_div_distrib drop_bit_eq_div)
  also have "\<dots> = uint v mod (256 * 2 ^ (8 * n))"
    by (simp add: take_bit_eq_mod zmod_zmult2_eq)
  also have "\<dots> = take_bit (8 * Suc n) (uint v)"
    by (simp add: take_bit_eq_mod power_add)
  finally show ?case .
qed

lemma load_le_nonneg: "0 \<le> load_le n bs"
  unfolding load_le_def by (induction bs arbitrary: n) (auto simp: take_Cons' )

lemma load_le_less: "load_le n bs < 256 ^ n"
proof (induction n arbitrary: bs)
  case 0
  then show ?case by (simp add: load_le_def)
next
  case (Suc n)
  show ?case
  proof (cases bs)
    case Nil
    then show ?thesis by (simp add: load_le_def)
  next
    case (Cons b bs')
    have "uint b \<le> 255" using uint_range(2) [of b] by simp
    moreover have "load_le n bs' \<le> 256 ^ n - 1" using Suc [of bs'] by simp
    moreover have "load_le (Suc n) bs = uint b + 256 * load_le n bs'"
      using Cons by (simp add: load_le_def)
    ultimately show ?thesis by simp
  qed
qed

section \<open>What the arithmetic computes\<close>

text \<open>The integer a byte range of \<open>n\<close> bytes stands for, and the range of the type.\<close>

definition byte_value :: "bool \<Rightarrow> nat \<Rightarrow> u8 list \<Rightarrow> int" where
  "byte_value is_signed n bs =
     (if is_signed then signed_take_bit (8 * n - 1) (load_le n bs) else load_le n bs)"

definition fits_type :: "bool \<Rightarrow> nat \<Rightarrow> int \<Rightarrow> bool" where
  "fits_type is_signed bits v \<longleftrightarrow>
     (if is_signed then - (2 ^ (bits - 1)) \<le> v \<and> v \<le> 2 ^ (bits - 1) - 1
      else 0 \<le> v \<and> v \<le> 2 ^ bits - 1)"

fun exact_op :: "BinaryArithmeticOp \<Rightarrow> int \<Rightarrow> int \<Rightarrow> int option" where
  "exact_op Arith_Add x y = Some (x + y)"
| "exact_op Arith_Sub x y = Some (x - y)"
| "exact_op Arith_Mul x y = Some (x * y)"
| "exact_op Arith_Div x y = (if y = 0 then None else Some (x sdiv y))"
| "exact_op Arith_Mod x y = (if y = 0 then None else Some (x smod y))"

text \<open>The operands on which the 64 bit signed arithmetic does not give the exact result.\<close>

definition exceptional :: "BinaryArithmeticOp \<Rightarrow> bool \<Rightarrow> nat \<Rightarrow> int \<Rightarrow> int \<Rightarrow> bool" where
  "exceptional oper is_signed bits x y \<longleftrightarrow> is_signed \<and> bits = 64 \<and>
     ((oper = Arith_Sub \<and> x = 0 \<and> y = INT64_MIN)
      \<or> ((oper = Arith_Div \<or> oper = Arith_Mod) \<and> x = INT64_MIN \<and> y = - 1))"

lemma read_signed_value:
  assumes "n \<in> {1, 2, 4, 8}"
  obtains w where "read_signed (word_of_nat (8 * n)) bs = Inr w" and "sint w = byte_value True n bs"
proof -
  have sint: "sint (word_of_int k :: 'a::len word) = signed_take_bit (LENGTH('a) - 1) k" for k
    by (simp add: signed_of_int)
  from assms consider "n = 1" | "n = 2" | "n = 4" | "n = 8" by auto
  then show thesis
  proof cases
    case 1
    then show ?thesis
      by (intro that [of "scast (word_of_int (load_le 1 bs) :: s8)"])
        (simp_all add: read_signed_def byte_value_def sint_scast_s64 sint)
  next
    case 2
    then show ?thesis
      by (intro that [of "scast (word_of_int (load_le 2 bs) :: s16)"])
        (simp_all add: read_signed_def byte_value_def sint_scast_s64 sint)
  next
    case 3
    then show ?thesis
      by (intro that [of "scast (word_of_int (load_le 4 bs) :: s32)"])
        (simp_all add: read_signed_def byte_value_def sint_scast_s64 sint)
  next
    case 4
    then show ?thesis
      by (intro that [of "word_of_int (load_le 8 bs)"])
        (simp_all add: read_signed_def byte_value_def sint)
  qed
qed

lemma read_unsigned_value:
  assumes "n \<in> {1, 2, 4, 8}"
  obtains w where "read_unsigned (word_of_nat (8 * n)) bs = Inr w" and "uint w = byte_value False n bs"
proof -
  have bound: "load_le n bs < 256 ^ n" "0 \<le> load_le n bs" for n
    by (simp_all add: load_le_less load_le_nonneg)
  have uint: "uint (word_of_int (load_le n bs) :: 'a::len word) = load_le n bs" if "LENGTH('a) = 8 * n" for n
    using bound [of n] that by (intro uint_word_of_int_range) (simp_all add: power_mult)
  from assms consider "n = 1" | "n = 2" | "n = 4" | "n = 8" by auto
  then show thesis
  proof cases
    case 1
    then show ?thesis
      by (intro that [of "ucast (word_of_int (load_le 1 bs) :: u8)"])
        (simp_all add: read_unsigned_def byte_value_def uint_ucast_u64 uint [of "Suc 0"])
  next
    case 2
    then show ?thesis
      by (intro that [of "ucast (word_of_int (load_le 2 bs) :: u16)"])
        (simp_all add: read_unsigned_def byte_value_def uint_ucast_u64 uint)
  next
    case 3
    then show ?thesis
      by (intro that [of "ucast (word_of_int (load_le 4 bs) :: u32)"])
        (simp_all add: read_unsigned_def byte_value_def uint_ucast_u64 uint)
  next
    case 4
    then show ?thesis
      by (intro that [of "word_of_int (load_le 8 bs)"])
        (simp_all add: read_unsigned_def byte_value_def uint)
  qed
qed

lemma byte_value_store:
  assumes "n \<in> {1, 2, 4, 8}" and "fits_type is_signed (8 * n) v"
  shows "byte_value is_signed n (store_le n (word_of_int v)) = v"
proof -
  have n: "0 < n" "8 * n \<le> 64" using assms(1) by auto
  then have "load_le n (store_le n (word_of_int v)) = take_bit (8 * n) v"
    by (simp add: load_store_le unsigned_of_int min_def)
  moreover have "signed_take_bit (8 * n - 1) (take_bit (8 * n) v) = signed_take_bit (8 * n - 1) v"
  proof -
    have "\<not> 8 * n \<le> 8 * n - 1" using n by simp
    then show ?thesis by (simp only: signed_take_bit_take_bit if_False)
  qed
  moreover have "is_signed \<Longrightarrow> signed_take_bit (8 * n - 1) v = v"
    using assms(2) by (simp add: fits_type_def signed_take_bit_int_eq_self)
  moreover have "\<not> is_signed \<Longrightarrow> take_bit (8 * n) v = v"
    using assms(2) by (simp add: fits_type_def take_bit_int_eq_self)
  ultimately show ?thesis by (simp add: byte_value_def)
qed

lemma sint_0_iff: "sint w = 0 \<longleftrightarrow> w = (0 :: 'a::len word)"
  by (metis signed_0 signed_word_eqI)

lemma sdiv_nonneg: "0 \<le> x \<Longrightarrow> 0 \<le> y \<Longrightarrow> x sdiv y = x div (y :: int)"
  by (auto simp: signed_divide_int_def sgn_if)

lemma sdiv_fits:
  assumes "fits_type True 64 x" and "\<not> (x = INT64_MIN \<and> y = - 1)"
  shows "fits_type True 64 (x sdiv y)"
proof -
  have range: "- \<bar>x\<bar> \<le> x sdiv y" "x sdiv y \<le> \<bar>x\<bar>"
    using sdiv_int_range [of x y] by simp_all
  show ?thesis
  proof (cases "x = INT64_MIN")
    case True
    then have "x sdiv y \<noteq> - x"
      using assms(2) by (subst int_sdiv_negated_is_minus1) auto
    with range True show ?thesis by (simp add: fits_type_def)
  next
    case False
    with assms(1) have "\<bar>x\<bar> \<le> 9223372036854775807" by (auto simp: fits_type_def)
    with range have "- 9223372036854775808 \<le> x sdiv y" "x sdiv y \<le> 9223372036854775807"
      by linarith+
    then show ?thesis by (simp add: fits_type_def)
  qed
qed

lemma smod_fits:
  assumes "fits_type True 64 y" and "y \<noteq> 0"
  shows "fits_type True 64 (x smod y)"
  using smod_int_range [OF assms(2), of x] assms(1) by (auto simp: fits_type_def)

lemma sint_fits_s64: "fits_type True 64 (sint (w :: s64))"
  using s64_sint_range [of w] by (simp add: fits_type_def)

lemma uint_fits_u64: "fits_type False 64 (uint (w :: u64))"
  using uint_range(2) [of w] by (simp add: fits_type_def)

lemma arith_s64_exact:
  assumes "\<not> exceptional oper True 64 (sint l) (sint r)"
  shows "arith_s64 oper l r = Inr (case exact_op oper (sint l) (sint r) of
      None \<Rightarrow> None
    | Some v \<Rightarrow> if fits_type True 64 v then Some (word_of_int v) else None)"
proof (cases oper)
  case Arith_Add
  then show ?thesis
    using add_s64.accepts [of l r]
    by (simp add: arith_s64_def of_checked_def fits_type_def) (simp add: add_checked_s64_def)
next
  case Arith_Sub
  with assms show ?thesis
    by (auto simp: arith_s64_def of_checked_def fits_type_def sub_checked_s64_fst sub_checked_s64_snd
      exceptional_def)
next
  case Arith_Mul
  then show ?thesis
    using mul_s64.accepts [of l r]
    by (simp add: arith_s64_def of_checked_def fits_type_def) (simp add: mul_checked_s64_def)
next
  case Arith_Div
  with assms sdiv_fits [OF sint_fits_s64, of l "sint r"] show ?thesis
    by (auto simp: arith_s64_def exceptional_def sint_0_iff)
next
  case Arith_Mod
  with assms smod_fits [OF sint_fits_s64, of r "sint l"] show ?thesis
    by (auto simp: arith_s64_def exceptional_def sint_0_iff)
qed

lemma arith_u64_exact:
  "arith_u64 oper l r = Inr (case exact_op oper (uint l) (uint r) of
      None \<Rightarrow> None
    | Some v \<Rightarrow> if fits_type False 64 v then Some (word_of_int v) else None)"
proof (cases oper)
  case Arith_Add
  then show ?thesis
    using add_u64.accepts [of l r]
    by (simp add: arith_u64_def of_checked_def fits_type_def) (simp add: add_checked_u64_def Let_def)
next
  case Arith_Sub
  then show ?thesis
    using sub_u64.accepts [of l r]
    by (simp add: arith_u64_def of_checked_def fits_type_def) (simp add: sub_checked_u64_def)
next
  case Arith_Mul
  then show ?thesis
    using mul_u64.accepts [of l r]
    by (simp add: arith_u64_def of_checked_def fits_type_def) (simp add: mul_checked_u64_def)
next
  case Arith_Div
  have "uint (l div r) = uint l sdiv uint r"
    by (simp add: uint_div_distrib sdiv_nonneg)
  moreover from this have "word_of_int (uint l sdiv uint r) = l div r"
    by (metis of_int_uint ucast_id)
  ultimately show ?thesis
    using Arith_Div uint_fits_u64 [of "l div r"] by (auto simp: arith_u64_def uint_0_iff)
next
  case Arith_Mod
  have "uint (l mod r) = uint l smod uint r"
    by (simp add: uint_mod_distrib smod_mod_positive)
  moreover from this have "word_of_int (uint l smod uint r) = l mod r"
    by (metis of_int_uint ucast_id)
  ultimately show ?thesis
    using Arith_Mod uint_fits_u64 [of "l mod r"] by (auto simp: arith_u64_def uint_0_iff)
qed

lemma read_signed_wide_range:
  assumes "n \<in> {1, 2, 4, 8}"
  shows "fits_type True (8 * n) (byte_value True n bs)"
proof -
  have "signed_take_bit k v < 2 ^ k" "- (2 ^ k) \<le> signed_take_bit k v" for k and v :: int
    by (simp_all add: signed_take_bit_int_less_exp signed_take_bit_int_greater_eq_minus_exp)
  then show ?thesis by (simp add: byte_value_def fits_type_def)
qed

text \<open>
  The tail shared by the two branches: the 64 bit result is checked against the limits of
  a narrower type and stored.
\<close>

definition exact_result :: "BinaryArithmeticOp \<Rightarrow> bool \<Rightarrow> nat \<Rightarrow> u8 list \<Rightarrow> u8 list \<Rightarrow> int option" where
  "exact_result oper is_signed n lhs rhs =
     (case exact_op oper (byte_value is_signed n lhs) (byte_value is_signed n rhs) of
        None \<Rightarrow> None
      | Some v \<Rightarrow> if fits_type is_signed (8 * n) v then Some v else None)"

lemma fits_type_mono:
  assumes "fits_type is_signed m v" and "m \<le> k" and "0 < m"
  shows "fits_type is_signed k v"
proof -
  have "(2::int) ^ (m - 1) \<le> 2 ^ (k - 1)" "(2::int) ^ m \<le> 2 ^ k"
    using assms(2) by (auto intro: power_increasing)
  with assms(1) show ?thesis by (cases is_signed) (simp_all only: fits_type_def if_True if_False simp_thms, linarith+)
qed

lemma unat_bits:
  assumes "n \<in> {1, 2, 4, 8 :: nat}"
  shows "unat (word_of_nat (8 * n) :: u16) = 8 * n"
  using assms by auto

lemma arith_operands_ok:
  assumes "n \<in> {1, 2, 4, 8 :: nat}"
  shows "8 \<le> (word_of_nat (8 * n) :: u16) \<and> word_of_nat (8 * n) \<le> (64 :: u16)
    \<and> is_pow2 (word_of_nat (8 * n) :: u16)"
  using assms by (auto simp: is_pow2_def word_le_nat_alt)

lemma bits_eq_64:
  assumes "n \<in> {1, 2, 4, 8 :: nat}"
  shows "(word_of_nat (8 * n) :: u16) = 64 \<longleftrightarrow> n = 8"
  using assms by auto

lemma bitwise_signed_exact:
  assumes n: "n \<in> {1, 2, 4, 8}" and len: "length dst = n" "length lhs = n" "length rhs = n"
    and ok: "\<not> exceptional oper True (8 * n) (byte_value True n lhs) (byte_value True n rhs)"
  shows "bitwise_binary_arithmetic_op oper (word_of_nat (8 * n)) True dst lhs rhs =
    Inr (case exact_result oper True n lhs rhs of
           None \<Rightarrow> (False, dst) | Some v \<Rightarrow> (True, store_le n (word_of_int v)))"
proof -
  define b where "b = (word_of_nat (8 * n) :: u16)"
  have b: "unat b = 8 * n" "b = 64 \<longleftrightarrow> n = 8" "8 \<le> b" "b \<le> 64" "is_pow2 b"
    unfolding b_def using unat_bits [OF n] bits_eq_64 [OF n] arith_operands_ok [OF n] by blast+
  obtain l where l: "read_signed b lhs = Inr l" "sint l = byte_value True n lhs"
    using read_signed_value [OF n] unfolding b_def .
  obtain r where r: "read_signed b rhs = Inr r" "sint r = byte_value True n rhs"
    using read_signed_value [OF n] unfolding b_def .
  have "\<not> exceptional oper True 64 (sint l) (sint r)"
  proof
    assume *: "exceptional oper True 64 (sint l) (sint r)"
    then have min: "sint l = INT64_MIN \<or> sint r = INT64_MIN" by (auto simp: exceptional_def)
    have "fits_type True (8 * n) (sint l)" "fits_type True (8 * n) (sint r)"
      using read_signed_wide_range [OF n] by (simp_all add: l r)
    with min have "\<not> n \<in> {1, 2, 4}" by (auto simp: fits_type_def)
    with n have "n = 8" by simp
    with * ok l r show False by simp
  qed
  note arith = arith_s64_exact [OF this]
  have narrow: "fits_type True 64 v" if "fits_type True (8 * n) v" for v
    using fits_type_mono [OF that, of 64] n by auto
  have wide: "sint (word_of_int v :: s64) = v" if "fits_type True 64 v" for v
    using that by (intro sint_word_of_int_range) (simp_all add: fits_type_def)
  have tail: "(case (if fits_type True 64 v then Some (word_of_int v :: s64) else None) of
        None \<Rightarrow> (False, dst)
      | Some v \<Rightarrow> if b \<noteq> 64 \<and> (sint v < - (2 ^ (unat b - 1)) \<or> sint v > 2 ^ (unat b - 1) - 1) then (False, dst)
          else (True, store_le (length dst) v)) =
    (if fits_type True (8 * n) v then (True, store_le n (word_of_int v)) else (False, dst))" for v
  proof (cases "fits_type True 64 v")
    case True
    then have "fits_type True (8 * n) v \<longleftrightarrow> \<not> (b \<noteq> 64 \<and> (sint (word_of_int v :: s64) < - (2 ^ (unat b - 1)) \<or> sint (word_of_int v :: s64) > 2 ^ (unat b - 1) - 1))"
      unfolding b wide [OF True] by (cases "n = 8") (auto simp: fits_type_def)
    with True show ?thesis by (simp only: option.case if_True if_False len split: if_split) blast
  next
    case False
    then have "\<not> fits_type True (8 * n) v" using narrow by blast
    with False show ?thesis by simp
  qed
  have "dst \<noteq> []" "unat b div 8 = n" using n len b by auto
  then have "bitwise_binary_arithmetic_op oper b True dst lhs rhs =
      Inr (case exact_op oper (sint l) (sint r) of
             None \<Rightarrow> (False, dst)
           | Some v \<Rightarrow> if fits_type True (8 * n) v then (True, store_le n (word_of_int v)) else (False, dst))"
    unfolding bitwise_binary_arithmetic_op_def using b len
    by (cases "exact_op oper (sint l) (sint r)")
      (simp_all only: l(1) r(1) arith tail [unfolded b len] if_True if_False obind_Inr ensure_True option.case simp_thms
        refl not_False_eq_True)
  then show ?thesis
    unfolding exact_result_def l(2) r(2) b_def by (auto split: option.split)
qed

lemma bitwise_unsigned_exact:
  assumes n: "n \<in> {1, 2, 4, 8}" and len: "length dst = n" "length lhs = n" "length rhs = n"
  shows "bitwise_binary_arithmetic_op oper (word_of_nat (8 * n)) False dst lhs rhs =
    Inr (case exact_result oper False n lhs rhs of
           None \<Rightarrow> (False, dst) | Some v \<Rightarrow> (True, store_le n (word_of_int v)))"
proof -
  define b where "b = (word_of_nat (8 * n) :: u16)"
  have b: "unat b = 8 * n" "b = 64 \<longleftrightarrow> n = 8" "8 \<le> b" "b \<le> 64" "is_pow2 b"
    unfolding b_def using unat_bits [OF n] bits_eq_64 [OF n] arith_operands_ok [OF n] by blast+
  obtain l where l: "read_unsigned b lhs = Inr l" "uint l = byte_value False n lhs"
    using read_unsigned_value [OF n] unfolding b_def .
  obtain r where r: "read_unsigned b rhs = Inr r" "uint r = byte_value False n rhs"
    using read_unsigned_value [OF n] unfolding b_def .
  note arith = arith_u64_exact [of oper l r]
  have narrow: "fits_type False 64 v" if "fits_type False (8 * n) v" for v
    using fits_type_mono [OF that, of 64] n by auto
  have wide: "uint (word_of_int v :: u64) = v" if "fits_type False 64 v" for v
    using that by (intro uint_word_of_int_range) (simp_all add: fits_type_def)
  have tail: "(case (if fits_type False 64 v then Some (word_of_int v :: u64) else None) of
        None \<Rightarrow> (False, dst)
      | Some v \<Rightarrow> if b \<noteq> 64 \<and> uint v > 2 ^ unat b - 1 then (False, dst)
          else (True, store_le (length dst) v)) =
    (if fits_type False (8 * n) v then (True, store_le n (word_of_int v)) else (False, dst))" for v
  proof (cases "fits_type False 64 v")
    case True
    then have "fits_type False (8 * n) v \<longleftrightarrow> \<not> (b \<noteq> 64 \<and> uint (word_of_int v :: u64) > 2 ^ unat b - 1)"
      unfolding b wide [OF True] by (cases "n = 8") (auto simp: fits_type_def)
    with True show ?thesis by (simp only: option.case if_True if_False len split: if_split) blast
  next
    case False
    then have "\<not> fits_type False (8 * n) v" using narrow by blast
    with False show ?thesis by simp
  qed
  have "dst \<noteq> []" "unat b div 8 = n" using n len b by auto
  then have "bitwise_binary_arithmetic_op oper b False dst lhs rhs =
      Inr (case exact_op oper (uint l) (uint r) of
             None \<Rightarrow> (False, dst)
           | Some v \<Rightarrow> if fits_type False (8 * n) v then (True, store_le n (word_of_int v)) else (False, dst))"
    unfolding bitwise_binary_arithmetic_op_def using b len
    by (cases "exact_op oper (uint l) (uint r)")
      (simp_all only: l(1) r(1) arith tail [unfolded b len] if_True if_False obind_Inr ensure_True option.case simp_thms
        refl not_False_eq_True)
  then show ?thesis
    unfolding exact_result_def l(2) r(2) b_def by (auto split: option.split)
qed

lemma exact_result_fits: "exact_result oper is_signed n lhs rhs = Some v \<Longrightarrow> fits_type is_signed (8 * n) v"
  by (auto simp: exact_result_def split: option.splits if_splits)

section \<open>Shifts\<close>

lemma load_le_0 [simp]: "load_le 0 bs = 0"
  by (simp add: load_le_def)

lemma load_le_Suc_drop:
  "i < length bs \<Longrightarrow> load_le (Suc n) (drop i bs) = uint (bs ! i) + 256 * load_le n (drop (Suc i) bs)"
  by (simp add: load_le_def flip: Cons_nth_drop_Suc)

lemma load_le_append: "load_le (length xs + n) (xs @ ys) = load_le (length xs) xs + 256 ^ length xs * load_le n ys"
  by (simp add: load_le_def horner_sum_append)

lemma uint_shift_carry:
  fixes b :: u8 and c :: u8
  assumes "k < 8" and "uint c < 2 ^ k"
  shows "uint (push_bit k (ucast b) OR ucast c :: u16) = 2 ^ k * uint b + uint c"
proof -
  have "uint (push_bit k (ucast b) OR ucast c :: u16) = push_bit k (uint b) OR uint c"
  proof (rule bit_eqI)
    fix j
    have "j < 16 \<and> j - k < 8" if "k \<le> j" "bit b (j - k)"
      using bit_imp_le_length [OF that(2)] assms(1) by simp
    moreover have "j < 8" if "bit c j"
      using bit_imp_le_length [OF that] by simp
    ultimately show "bit (uint (push_bit k (ucast b) OR ucast c :: u16)) j
        = bit (push_bit k (uint b) OR uint c) j"
      by (auto simp: bit_uint_iff bit_or_iff bit_push_bit_iff bit_ucast_iff)
  qed
  moreover have "push_bit k (uint b) AND uint c = 0"
  proof (rule bit_eqI)
    fix m
    have "\<not> bit (uint c) m" if "k \<le> m"
      using assms(2) that
      by (metis bit_take_bit_iff linorder_not_le take_bit_int_eq_self uint_range(1))
    then show "bit (push_bit k (uint b) AND uint c) m \<longleftrightarrow> bit 0 m"
      by (auto simp: bit_and_iff bit_push_bit_iff)
  qed
  ultimately show ?thesis
    using disjunctive_add_eq_or [of "push_bit k (uint b)" "uint c"]
    by (simp add: push_bit_eq_mult mult.commute)
qed

lemma shift_left_loop_value:
  assumes "k < 8" and "uint c < 2 ^ k" and "i + n \<le> length lhs" and "i + m + n \<le> length dst"
  defines "r \<equiv> shift_left_loop n i m k c lhs dst"
  shows "length r = length dst \<and> take (i + m) r = take (i + m) dst
    \<and> load_le n (drop (i + m) r) = (2 ^ k * load_le n (drop i lhs) + uint c) mod 256 ^ n"
  using assms(2-4) unfolding r_def
proof (induction n arbitrary: i c dst)
  case 0
  then show ?case by simp
next
  case (Suc n)
  define sh where "sh = (push_bit k (ucast (lhs ! i)) OR ucast c :: u16)"
  define dst' where "dst' = dst[i + m := ucast sh]"
  define r where "r = shift_left_loop n (Suc i) m k (ucast (drop_bit 8 sh)) lhs dst'"
  have sh: "uint sh = 2 ^ k * uint (lhs ! i) + uint c"
    unfolding sh_def using assms(1) Suc.prems(1) by (rule uint_shift_carry)
  have lo: "uint (ucast sh :: u8) = uint sh mod 256"
    by (rule uint_ucast_u8)
  have "uint (lhs ! i) \<le> 255" using uint_range(2) [of "lhs ! i"] by simp
  then have "2 ^ k * uint (lhs ! i) \<le> 2 ^ k * 255" by simp
  then have "uint sh < 2 ^ k * 256"
    using Suc.prems(1) sh by linarith
  then have carry_less: "uint sh div 256 < 2 ^ k" by (simp add: div_less_iff_less_mult)
  also have "(2::int) ^ k \<le> 2 ^ 7" using assms(1) by (intro power_increasing) auto
  finally have "uint sh div 256 < 128" by simp
  moreover have "0 \<le> uint sh div 256" by (simp add: pos_imp_zdiv_nonneg_iff del: div_pos_pos_trivial)
  ultimately have "uint sh div 256 mod 256 = uint sh div 256" by (intro mod_pos_pos_trivial) linarith+
  then have hi: "uint (ucast (drop_bit 8 sh) :: u8) = uint sh div 256"
    by (simp add: uint_ucast_u8 drop_bit_eq_div uint_div_distrib)
  have IH: "length r = length dst'" "take (Suc i + m) r = take (Suc i + m) dst'"
    "load_le n (drop (Suc i + m) r) = (2 ^ k * load_le n (drop (Suc i) lhs) + uint sh div 256) mod 256 ^ n"
    using Suc.IH [of "ucast (drop_bit 8 sh)" "Suc i" dst'] Suc.prems carry_less
    by (simp_all add: hi r_def dst'_def)
  have at: "r ! (i + m) = ucast sh"
    using IH(1,2) Suc.prems by (metis (no_types, lifting) add_Suc add_Suc_right add_leD1 dst'_def
      length_list_update lessI nth_list_update_eq nth_take order_less_le_trans)
  have "take (i + m) r = take (i + m) (take (Suc i + m) r)" by simp
  also have "\<dots> = take (i + m) dst'" unfolding IH(2) by simp
  also have "\<dots> = take (i + m) dst" by (simp add: dst'_def)
  finally have keep: "take (i + m) r = take (i + m) dst" .
  have "load_le (Suc n) (drop (i + m) r) =
      uint sh mod 256 + 256 * ((2 ^ k * load_le n (drop (Suc i) lhs) + uint sh div 256) mod 256 ^ n)"
    using IH Suc.prems by (simp add: load_le_Suc_drop at lo dst'_def)
  also have "\<dots> = (uint sh + 256 * (2 ^ k * load_le n (drop (Suc i) lhs))) mod (256 * 256 ^ n)"
    by (simp add: zmod_zmult2_eq add.commute div_mult_self2)
  also have "uint sh + 256 * (2 ^ k * load_le n (drop (Suc i) lhs)) = 2 ^ k * load_le (Suc n) (drop i lhs) + uint c"
    using Suc.prems by (simp add: load_le_Suc_drop sh algebra_simps)
  finally show ?case
    using IH(1) keep by (simp add: r_def dst'_def sh_def Let_def)
qed

lemma unat_8n: "8 * n < 65536 \<Longrightarrow> unat (word_of_nat (8 * n) :: u16) = 8 * n"
  by (simp add: unsigned_of_nat take_bit_nat_eq_self del: of_nat_mult)

text \<open>
  \<open>bitwise_shift_left\<close> on whole bytes never fails for a shift below the width, and stores
  \<open>lhs\<close> times the power of two, cut to the width, in the bytes from \<open>rhs div 8\<close> on. The
  bytes below keep what the destination held before the call (the code clears the bytes at
  the other end), so the result is the shifted value only when they were zero.
\<close>

theorem bitwise_shift_left_result:
  assumes n: "0 < n" "8 * n < 65536" and len: "length dst = n" "length lhs = n" and sh: "unat rhs < 8 * n"
  defines "m \<equiv> unat rhs div 8"
  shows "\<exists>out. bitwise_shift_left (word_of_nat (8 * n)) dst lhs rhs = Inr out \<and> length out = n
    \<and> load_le n out = load_le m (take (n - m) dst @ replicate m 0)
        + 256 ^ m * ((2 ^ (unat rhs mod 8) * load_le (n - m) lhs) mod 256 ^ (n - m))"
proof -
  define cleared where "cleared = take (n - m) dst @ replicate m 0 @ drop (n - m + m) dst"
  define out where "out = shift_left_loop (n - m) 0 m (unat rhs mod 8) 0 lhs cleared"
  have m: "m < n" using sh by (simp add: m_def)
  then have cleared: "length cleared = n" "cleared = take (n - m) dst @ replicate m 0"
    using len by (simp_all add: cleared_def)
  have loop: "length out = length cleared \<and> take (0 + m) out = take (0 + m) cleared
    \<and> load_le (n - m) (drop (0 + m) out) = (2 ^ (unat rhs mod 8) * load_le (n - m) (drop 0 lhs) + uint (0::u8)) mod 256 ^ (n - m)"
    unfolding out_def using m len cleared(1) by (intro shift_left_loop_value) simp_all
  have "uint rhs < uint (word_of_nat (8 * n) :: u16)"
    using sh unat_8n [OF n(2)] by (metis of_nat_less_iff of_nat_unat)
  then have "bitwise_shift_left (word_of_nat (8 * n)) dst lhs rhs = Inr out"
    using len unat_8n [OF n(2)]
    by (simp add: bitwise_shift_left_def out_def cleared_def m_def Let_def del: of_nat_mult)
  moreover have "load_le n out = load_le m out + 256 ^ m * load_le (n - m) (drop m out)"
    using load_le_append [of "take m out" "n - m" "drop m out"] loop m cleared(1)
    by (simp add: load_le_def)
  moreover have "load_le m out = load_le m cleared"
    using loop by (simp add: load_le_def)
  ultimately show ?thesis
    using loop cleared by auto
qed

theorem bitwise_shift_left_result_witness:
  "\<exists>out. bitwise_shift_left (word_of_nat (8 * 2)) [7, 7] [1, 2] 9 = Inr out \<and> length out = 2
    \<and> load_le 2 out = load_le 1 [7, 0] + 256 ^ 1 * ((2 ^ 1 * load_le 1 [1, 2]) mod 256 ^ 1)"
  using bitwise_shift_left_result [of 2 "[7, 7]" "[1, 2]" 9] by simp

section \<open>Complement and negation\<close>

lemma uint_not_u8: "uint (NOT b :: u8) = 255 - uint b"
proof -
  have "NOT b = word_of_int (255 - uint b)" by (simp add: not_eq_complement)
  then have "uint (NOT b) = (255 - uint b) mod 256"
    by (simp only: unsigned_of_int take_bit_eq_mod) simp
  moreover have "uint b < 256" "0 \<le> uint b" using uint_range [of b] by simp_all
  ultimately show ?thesis by (simp add: mod_pos_pos_trivial)
qed

lemma load_le_map_not: "load_le (length bs) (map (\<lambda>b. NOT b) bs) = 256 ^ length bs - 1 - load_le (length bs) bs"
  by (induction bs) (simp_all add: load_le_def uint_not_u8 algebra_simps)

lemma neg_loop_value:
  assumes "i + n = length dst"
  shows "case neg_loop n i dst of (stopped, out) \<Rightarrow> length out = length dst \<and> take i out = take i dst
    \<and> load_le n (drop i out) = (load_le n (drop i dst) + 1) mod 256 ^ n
    \<and> (stopped \<longleftrightarrow> load_le n (drop i dst) + 1 < 256 ^ n)"
  using assms
proof (induction n arbitrary: i dst)
  case 0
  then show ?case by simp
next
  case (Suc n)
  have i: "i < length dst" using Suc.prems by simp
  have b: "uint (dst ! i) < 256" "0 \<le> uint (dst ! i)" using uint_range [of "dst ! i"] by simp_all
  have L: "load_le n (drop (Suc i) dst) < 256 ^ n" "0 \<le> load_le n (drop (Suc i) dst)"
    by (simp_all add: load_le_less load_le_nonneg)
  show ?case
  proof (cases "dst ! i = 0xFF")
    case False
    then have ne: "uint (dst ! i) \<noteq> 255" by (auto simp: word_uint_eq_iff)
    then have inc: "uint (dst ! i + 1) = uint (dst ! i) + 1"
      using b by (simp add: uint_plus_if')
    have "load_le (Suc n) (drop i dst) + 1 < 256 ^ Suc n"
      using ne b L i by (simp add: load_le_Suc_drop)
    with False i inc L b ne show ?thesis
      by (simp add: load_le_Suc_drop Let_def)
  next
    case True
    then have u: "uint (dst ! i) = 255" by simp
    have IH: "case neg_loop n (Suc i) (dst[i := 0]) of (stopped, out) \<Rightarrow> length out = length (dst[i := 0])
      \<and> take (Suc i) out = take (Suc i) (dst[i := 0])
      \<and> load_le n (drop (Suc i) out) = (load_le n (drop (Suc i) (dst[i := 0])) + 1) mod 256 ^ n
      \<and> (stopped \<longleftrightarrow> load_le n (drop (Suc i) (dst[i := 0])) + 1 < 256 ^ n)"
      using Suc.prems by (intro Suc.IH) simp
    obtain st out where r: "neg_loop n (Suc i) (dst[i := 0]) = (st, out)" by fastforce
    have *: "length out = length dst" "take (Suc i) out = take (Suc i) (dst[i := 0])"
      "load_le n (drop (Suc i) out) = (load_le n (drop (Suc i) dst) + 1) mod 256 ^ n"
      "st \<longleftrightarrow> load_le n (drop (Suc i) dst) + 1 < 256 ^ n"
      using IH by (simp_all add: r)
    have at: "out ! i = 0"
      using arg_cong [OF *(2), of "\<lambda>l. l ! i"] i by simp
    have keep: "take i out = take i dst"
      using arg_cong [OF *(2), of "take i"] by simp
    have "255 + 256 * load_le n (drop (Suc i) dst) + 1 = 256 * (load_le n (drop (Suc i) dst) + 1)" by simp
    then have "(255 + 256 * load_le n (drop (Suc i) dst) + 1) mod (256 * 256 ^ n)
        = 256 * ((load_le n (drop (Suc i) dst) + 1) mod 256 ^ n)"
      by (simp only: mult_mod_right)
    moreover have "neg_loop (Suc n) i dst = (st, out)"
    proof -
      have wrap: "dst ! i + 1 = 0" unfolding True by simp
      show ?thesis unfolding neg_loop.simps Let_def wrap using True r by simp
    qed
    moreover have "255 + 256 * load_le n (drop (Suc i) dst) + 1 < 256 * 256 ^ n
        \<longleftrightarrow> load_le n (drop (Suc i) dst) + 1 < 256 ^ n"
      by linarith
    ultimately show ?thesis
      using i * at keep by (simp add: load_le_Suc_drop u del: neg_loop.simps)
  qed
qed

text \<open>
  \<open>bitwise_neg\<close> on whole bytes stores the two's complement negation of its operand for
  every operand, and returns true exactly when the operand is not zero.
\<close>

theorem bitwise_neg_result:
  assumes n: "0 < n" "8 * n < 65536" and len: "length dst = n" "length operand = n"
  shows "\<exists>out. bitwise_neg (word_of_nat (8 * n)) dst operand = Inr (load_le n operand \<noteq> 0, out) \<and> length out = n
    \<and> load_le n out = (- load_le n operand) mod 256 ^ n"
proof -
  define d where "d = map (\<lambda>b. NOT b) operand"
  have not_eq: "bitwise_not (word_of_nat (8 * n)) dst operand = Inr d"
    using n len unat_8n [OF n(2)] by (simp add: bitwise_not_def d_def Let_def del: of_nat_mult) auto
  have d: "length d = n" "load_le n d = 256 ^ n - 1 - load_le n operand"
    using len load_le_map_not [of operand] by (simp_all add: d_def)
  obtain st out where r: "neg_loop n 0 d = (st, out)" by fastforce
  have "length out = n" "load_le n out = (256 ^ n - load_le n operand) mod 256 ^ n"
    "st \<longleftrightarrow> load_le n operand \<noteq> 0"
    using neg_loop_value [of 0 n d] load_le_nonneg [of n operand] d by (auto simp: r)
  moreover have "(256 ^ n - load_le n operand) mod 256 ^ n = (- load_le n operand) mod (256 ^ n :: int)"
    using mod_add_self1 [of "256 ^ n :: int" "- load_le n operand"] by simp
  moreover have "bitwise_neg (word_of_nat (8 * n)) dst operand = Inr (st, out)"
    using n len unat_8n [OF n(2)] not_eq r
    by (cases st) (auto simp: bitwise_neg_def Let_def simp del: of_nat_mult)
  ultimately show ?thesis by auto
qed

theorem bitwise_neg_result_witness:
  "\<exists>out. bitwise_neg (word_of_nat (8 * 2)) [0, 0] [1, 2] = Inr (load_le 2 [1, 2] \<noteq> 0, out) \<and> length out = 2
    \<and> load_le 2 out = (- load_le 2 [1, 2]) mod 256 ^ 2"
  using bitwise_neg_result [of 2 "[0, 0]" "[1, 2]"] by simp

section \<open>The arithmetic is exact\<close>



text \<open>
  What happens at the exceptions: the subtraction of \<open>INT64_MIN\<close> from zero reports success
  with the wrapped value, and the two divisions have no defined result.
\<close>

lemma arith_s64_exceptions:
  "arith_s64 Arith_Sub 0 (word_of_int INT64_MIN) = Inr (Some (word_of_int INT64_MIN))"
  "arith_s64 Arith_Div (word_of_int INT64_MIN) (- 1) = Inl Undefined"
  "arith_s64 Arith_Mod (word_of_int INT64_MIN) (- 1) = Inl Undefined"
proof -
  have min: "sint (word_of_int INT64_MIN :: s64) = INT64_MIN"
    by (intro sint_word_of_int_range) simp_all
  show "arith_s64 Arith_Sub 0 (word_of_int INT64_MIN) = Inr (Some (word_of_int INT64_MIN))"
    unfolding arith_s64_def of_checked_def BinaryArithmeticOp.case sub_checked_s64_fst sub_checked_s64_snd min
    by simp
  show "arith_s64 Arith_Div (word_of_int INT64_MIN) (- 1) = Inl Undefined"
    unfolding arith_s64_def BinaryArithmeticOp.case min by simp
  show "arith_s64 Arith_Mod (word_of_int INT64_MIN) (- 1) = Inl Undefined"
    unfolding arith_s64_def BinaryArithmeticOp.case min by simp
qed

end
