(* ===== verification/CompInteger.thy ===== *)
theory CompInteger
  imports BitwiseOps
begin

text \<open>
  Compile-time integers: \<open>CompIntegerValue\<close> of src/core/comp_values.cpp and its operations.
  A value is one 64 bit \<open>rep\<close>; when its lowest bit is clear the integer is inlined in the
  other 63 bits, which is the only representation the code supports. The lemmas relate
  every operation to the operation on \<open>int\<close>: \<open>ci_make k\<close> is the representation of \<open>k\<close>, and
  each operation on representations gives the representation of the exact result, or what
  the code does instead. Right shifts of signed values are arithmetic and left shifts wrap,
  as the supported compilers define them.
\<close>

section \<open>Representation\<close>

record CompIntegerValue =
  rep :: u64

abbreviation COMP_INTEGER_MAX :: int where "COMP_INTEGER_MAX \<equiv> 2 ^ 62 - 1"

abbreviation COMP_INTEGER_MIN :: int where "COMP_INTEGER_MIN \<equiv> - (2 ^ 62)"

datatype StrongCompareOrdering = LessThan | Equal | GreaterThan

definition is_inlined :: "CompIntegerValue \<Rightarrow> bool" where
  "is_inlined value = (rep value AND 1 = 0)"

definition is_negative :: "CompIntegerValue \<Rightarrow> bool outcome" where
  "is_negative value = ensure Assertion (is_inlined value) (Inr (sint (rep value) < 0))"

text \<open>The signed reading \<open>static_cast<s64>(value.rep) >> 1\<close>.\<close>

definition signed_value :: "CompIntegerValue \<Rightarrow> s64" where
  "signed_value value = signed_drop_bit 1 (rep value)"

definition both_inlined :: "CompIntegerValue \<Rightarrow> CompIntegerValue \<Rightarrow> 'a outcome \<Rightarrow> 'a outcome" where
  "both_inlined lhs rhs x = ensure Panic (is_inlined lhs \<and> is_inlined rhs) x"

section \<open>Conversions\<close>

definition comp_integer_from_u64 :: "u64 \<Rightarrow> CompIntegerValue outcome" where
  "comp_integer_from_u64 value =
     ensure Panic (uint value \<le> COMP_INTEGER_MAX) (Inr \<lparr>rep = push_bit 1 value\<rparr>)"

definition comp_integer_from_s64 :: "s64 \<Rightarrow> CompIntegerValue outcome" where
  "comp_integer_from_s64 value =
     ensure Panic (COMP_INTEGER_MIN \<le> sint value)
       (ensure Panic (uint value \<le> COMP_INTEGER_MAX) (Inr \<lparr>rep = push_bit 1 value\<rparr>))"

definition u64_from_comp_integer :: "CompIntegerValue \<Rightarrow> u8 \<Rightarrow> u64 option outcome" where
  "u64_from_comp_integer value bits =
     ensure Assertion (bits \<le> 64)
     (ensure Panic (is_inlined value)
     (obind (is_negative value) (\<lambda>negative.
        if negative then Inr None
        else (let u64_value = drop_bit 1 (rep value)
              in if bits \<noteq> 64 \<and> u64_value \<ge> push_bit (unat bits) 1 then Inr None
                 else Inr (Some u64_value)))))"

text \<open>For a width of zero bits the shift by \<open>bits - 1\<close> has no defined result.\<close>

definition s64_from_comp_integer :: "CompIntegerValue \<Rightarrow> u8 \<Rightarrow> s64 option outcome" where
  "s64_from_comp_integer value bits =
     ensure Assertion (bits \<le> 64)
     (ensure Panic (is_inlined value)
     (let s64_value = signed_value value
      in if bits = 64 then Inr (Some s64_value)
         else ensure Undefined (bits \<noteq> 0)
           (if sint s64_value < - (2 ^ (unat bits - 1)) \<or> sint s64_value \<ge> 2 ^ (unat bits - 1)
            then Inr None else Inr (Some s64_value))))"

text \<open>
  \<open>bits_from_comp_integer\<close> writes the low \<open>bits\<close> bits through \<open>out\<close>: \<open>out\<close> is the byte range
  before the call, and the result the range after it (\<open>None\<close> is the result false, which
  leaves it alone).
\<close>

definition bits_from_comp_integer :: "CompIntegerValue \<Rightarrow> u32 \<Rightarrow> bool \<Rightarrow> u8 list \<Rightarrow> u8 list option outcome" where
  "bits_from_comp_integer value bits is_signed out =
     ensure Panic (is_inlined value)
     (obind (is_negative value) (\<lambda>negative.
        let s64_value = signed_value value in
        if \<not> is_signed \<and> negative then Inr None
        else if bits < 64 \<and> push_bit (unat bits) 1 \<le> (if negative then NOT s64_value else s64_value)
        then Inr None
        else
          let full_byte_size = unat bits div 8;
              copy_size = (if full_byte_size > 8 then 8 else full_byte_size);
              filled = store_le copy_size s64_value
                @ replicate (full_byte_size - copy_size) (if negative then 0xFF else 0)
                @ drop full_byte_size out
          in ensure Undefined (full_byte_size + (if unat bits mod 8 = 0 then 0 else 1) \<le> length out)
             (if unat bits mod 8 \<noteq> 0
              then (let update_mask = push_bit (unat bits mod 8) 1 - 1 :: u8;
                        updated_part =
                          (if bits < 64
                           then ucast (signed_drop_bit (8 * full_byte_size) s64_value) AND update_mask
                           else if negative then update_mask else 0);
                        preserved_part = filled ! full_byte_size AND NOT update_mask
                    in Inr (Some (filled[full_byte_size := preserved_part OR updated_part])))
              else Inr (Some filled))))"

section \<open>Arithmetic\<close>

definition comp_integer_add :: "CompIntegerValue \<Rightarrow> CompIntegerValue \<Rightarrow> CompIntegerValue outcome" where
  "comp_integer_add lhs rhs =
     both_inlined lhs rhs
     (case add_checked_s64 (rep lhs) (rep rhs) of
        (ok, result) \<Rightarrow> ensure Panic ok (Inr \<lparr>rep = result\<rparr>))"

definition comp_integer_sub :: "CompIntegerValue \<Rightarrow> CompIntegerValue \<Rightarrow> CompIntegerValue outcome" where
  "comp_integer_sub lhs rhs =
     both_inlined lhs rhs
     (case sub_checked_s64 (rep lhs) (rep rhs) of
        (ok, result) \<Rightarrow> ensure Panic ok (Inr \<lparr>rep = result\<rparr>))"

definition comp_integer_mul :: "CompIntegerValue \<Rightarrow> CompIntegerValue \<Rightarrow> CompIntegerValue outcome" where
  "comp_integer_mul lhs rhs =
     both_inlined lhs rhs
     (case mul_checked_s64 (rep lhs) (signed_value rhs) of
        (ok, result) \<Rightarrow> ensure Panic ok (Inr \<lparr>rep = result\<rparr>))"

definition comp_integer_div :: "CompIntegerValue \<Rightarrow> CompIntegerValue \<Rightarrow> CompIntegerValue option outcome" where
  "comp_integer_div lhs rhs =
     both_inlined lhs rhs
     (let lhs_value = signed_value lhs; rhs_value = signed_value rhs
      in if rhs_value = 0 then Inr None
         else Inr (Some \<lparr>rep = push_bit 1 (word_of_int (sint lhs_value sdiv sint rhs_value))\<rparr>))"

definition comp_integer_mod :: "CompIntegerValue \<Rightarrow> CompIntegerValue \<Rightarrow> CompIntegerValue option outcome" where
  "comp_integer_mod lhs rhs =
     both_inlined lhs rhs
     (let lhs_value = signed_value lhs; rhs_value = signed_value rhs
      in if rhs_value = 0 then Inr None
         else Inr (Some \<lparr>rep = push_bit 1 (word_of_int (sint lhs_value smod sint rhs_value))\<rparr>))"

definition comp_integer_neg :: "CompIntegerValue \<Rightarrow> CompIntegerValue outcome" where
  "comp_integer_neg value =
     ensure Panic (is_inlined value)
     (ensure Panic (rep value \<noteq> push_bit 1 (word_of_int COMP_INTEGER_MIN))
        (Inr \<lparr>rep = push_bit 1 (- drop_bit 1 (rep value))\<rparr>))"

text \<open>
  The shifts: a shift of a 64 bit integer by 64 or more has no defined result, and a shift
  by zero makes the code shift its sign mask by \<open>2^64 - 1\<close>.
\<close>

definition comp_integer_shift_left :: "CompIntegerValue \<Rightarrow> CompIntegerValue \<Rightarrow> CompIntegerValue option outcome" where
  "comp_integer_shift_left lhs rhs =
     both_inlined lhs rhs
     (obind (is_negative rhs) (\<lambda>negative.
        if negative then Inr None
        else
          let shift = drop_bit 1 (rep rhs)
          in ensure Undefined (shift - 1 < 64)
            (let sign_mask = push_bit (unat (shift - 1)) (- 1);
                 sign_bits = rep lhs AND sign_mask
             in ensure Panic (\<not> (sign_bits \<noteq> 0 \<and> sign_bits \<noteq> sign_mask))
               (ensure Undefined (shift < 64)
                 (Inr (Some \<lparr>rep = push_bit (unat shift) (rep lhs)\<rparr>))))))"

definition comp_integer_shift_right :: "CompIntegerValue \<Rightarrow> CompIntegerValue \<Rightarrow> CompIntegerValue option outcome" where
  "comp_integer_shift_right lhs rhs =
     both_inlined lhs rhs
     (obind (is_negative rhs) (\<lambda>negative.
        if negative then Inr None
        else
          let shift = drop_bit 1 (rep rhs)
          in ensure Undefined (shift < 64)
            (Inr (Some \<lparr>rep = drop_bit (unat shift) (rep lhs) AND NOT 1\<rparr>))))"

definition comp_integer_bit_and :: "CompIntegerValue \<Rightarrow> CompIntegerValue \<Rightarrow> CompIntegerValue outcome" where
  "comp_integer_bit_and lhs rhs = both_inlined lhs rhs (Inr \<lparr>rep = rep lhs AND rep rhs\<rparr>)"

definition comp_integer_bit_or :: "CompIntegerValue \<Rightarrow> CompIntegerValue \<Rightarrow> CompIntegerValue outcome" where
  "comp_integer_bit_or lhs rhs = both_inlined lhs rhs (Inr \<lparr>rep = rep lhs OR rep rhs\<rparr>)"

definition comp_integer_bit_xor :: "CompIntegerValue \<Rightarrow> CompIntegerValue \<Rightarrow> CompIntegerValue outcome" where
  "comp_integer_bit_xor lhs rhs = both_inlined lhs rhs (Inr \<lparr>rep = rep lhs XOR rep rhs\<rparr>)"

definition comp_integer_bit_not :: "CompIntegerValue \<Rightarrow> CompIntegerValue outcome" where
  "comp_integer_bit_not value =
     ensure Panic (is_inlined value) (Inr \<lparr>rep = NOT (rep value) XOR 1\<rparr>)"

definition comp_integer_compare :: "CompIntegerValue \<Rightarrow> CompIntegerValue \<Rightarrow> StrongCompareOrdering outcome" where
  "comp_integer_compare lhs rhs =
     both_inlined lhs rhs
     (if rep lhs = rep rhs then Inr Equal
      else if rep lhs < rep rhs then Inr LessThan
      else Inr GreaterThan)"

section \<open>The integers a value stands for\<close>

definition ci_make :: "int \<Rightarrow> CompIntegerValue" where
  "ci_make k = \<lparr>rep = word_of_int (2 * k)\<rparr>"

definition ci_int :: "CompIntegerValue \<Rightarrow> int" where
  "ci_int v = sint (rep v) div 2"

definition representable :: "int \<Rightarrow> bool" where
  "representable k \<longleftrightarrow> COMP_INTEGER_MIN \<le> k \<and> k \<le> COMP_INTEGER_MAX"

lemma even_word_iff: "(w :: 'a::len word) AND 1 = 0 \<longleftrightarrow> even (sint w)"
  by (metis and_one_eq bit_0 bit_sint_iff diff_0_eq_0 even_iff_mod_2_eq_zero len_gt_0
    linorder_not_le of_bool_eq_0_iff zero_order(1))

lemma sint_rep_make: "representable k \<Longrightarrow> sint (rep (ci_make k)) = 2 * k"
  unfolding ci_make_def representable_def CompIntegerValue.simps
  by (intro sint_word_of_int_range) simp_all

lemma ci_int_make [simp]: "representable k \<Longrightarrow> ci_int (ci_make k) = k"
  by (simp add: ci_int_def sint_rep_make)

lemma is_inlined_make [simp]: "is_inlined (ci_make k)"
  by (simp add: is_inlined_def ci_make_def and_one_eq mod_2_eq_odd)

lemma inlined_cases:
  assumes "is_inlined v"
  obtains k where "representable k" and "v = ci_make k"
proof
  have "even (sint (rep v))" using assms by (simp add: is_inlined_def even_word_iff)
  then have two: "2 * ci_int v = sint (rep v)" by (simp add: ci_int_def)
  show "representable (ci_int v)"
    using two s64_sint_range [of "rep v"] by (simp add: representable_def)
  show "v = ci_make (ci_int v)"
    by (simp add: ci_make_def two)
qed

lemma signed_value_make [simp]: "representable k \<Longrightarrow> sint (signed_value (ci_make k)) = k"
  by (simp add: signed_value_def sint_signed_drop_bit_eq sint_rep_make drop_bit_eq_div)

lemma is_negative_make [simp]: "representable k \<Longrightarrow> is_negative (ci_make k) = Inr (k < 0)"
  by (simp add: is_negative_def sint_rep_make)

lemma both_inlined_make [simp]: "both_inlined (ci_make x) (ci_make y) r = r"
  by (simp add: both_inlined_def)

lemma signed_value_0_iff: "representable k \<Longrightarrow> signed_value (ci_make k) = 0 \<longleftrightarrow> k = 0"
  by (metis signed_value_make sint_0_iff)

lemma ci_make_eqI: "rep v = word_of_int (2 * k) \<Longrightarrow> v = ci_make k"
  by (simp add: ci_make_def)

lemma sint_double_eqI:
  assumes "sint w = 2 * k"
  shows "\<lparr>rep = w\<rparr> = ci_make k"
  by (rule ci_make_eqI) (simp flip: assms)

lemma uint_sint_s64: "uint (w :: s64) = (if sint w < 0 then sint w + 2 ^ 64 else sint w)"
proof -
  have "uint w = sint w mod 2 ^ 64" by (simp add: uint_sint take_bit_eq_mod)
  moreover have "(sint w + 2 ^ 64) mod 2 ^ 64 = sint w + 2 ^ 64" if "sint w < 0"
    using that s64_sint_range [of w] by (intro mod_pos_pos_trivial) simp_all
  moreover have "sint w mod 2 ^ 64 = sint w" if "\<not> sint w < 0"
    using that s64_sint_range [of w] by (intro mod_pos_pos_trivial) simp_all
  ultimately show ?thesis by auto
qed

section \<open>Arithmetic is exact or panics\<close>

lemma double_range:
  "INT64_MIN \<le> 2 * k \<and> 2 * k \<le> INT64_MAX \<longleftrightarrow> representable k"
  by (auto simp: representable_def)

lemma push_bit_1_word: "push_bit 1 (word_of_int k) = (word_of_int (2 * k) :: 'a::len word)"
  by (simp add: push_bit_eq_mult mult.commute)

lemma comp_integer_add_value:
  assumes "representable x" and "representable y"
  shows "comp_integer_add (ci_make x) (ci_make y) =
      (if representable (x + y) then Inr (ci_make (x + y)) else Inl Panic)"
proof -
  let ?a = "add_checked_s64 (rep (ci_make x)) (rep (ci_make y))"
  have "fst ?a \<longleftrightarrow> representable (x + y)"
    using double_range [of "x + y"] assms by (simp add: add_s64.accepts sint_rep_make)
  moreover have "fst ?a \<Longrightarrow> \<lparr>rep = snd ?a\<rparr> = ci_make (x + y)"
    using assms by (intro sint_double_eqI) (simp add: add_s64.stored sint_rep_make)
  ultimately show ?thesis by (cases ?a) (auto simp: comp_integer_add_def)
qed

lemma comp_integer_mul_value:
  assumes "representable x" and "representable y"
  shows "comp_integer_mul (ci_make x) (ci_make y) =
      (if representable (x * y) then Inr (ci_make (x * y)) else Inl Panic)"
proof -
  let ?m = "mul_checked_s64 (rep (ci_make x)) (signed_value (ci_make y))"
  have "fst ?m \<longleftrightarrow> representable (x * y)"
    using double_range [of "x * y"] assms by (simp add: mul_s64.accepts sint_rep_make mult.assoc)
  moreover have "fst ?m \<Longrightarrow> \<lparr>rep = snd ?m\<rparr> = ci_make (x * y)"
    using assms by (intro sint_double_eqI) (simp add: mul_s64.stored sint_rep_make)
  ultimately show ?thesis by (cases ?m) (auto simp: comp_integer_mul_def)
qed

lemma comp_integer_from_u64_value:
  "uint w \<le> COMP_INTEGER_MAX \<Longrightarrow> comp_integer_from_u64 w = Inr (ci_make (uint w))"
  using push_bit_1_word [of "uint w", where 'a = 64] by (simp add: comp_integer_from_u64_def ci_make_def)

text \<open>
  C37: addition and multiplication of compile-time integers give the exact result when it is
  representable in 63 bits and panic otherwise, never a wrapped value.
\<close>

theorem comp_integer_add_mul_exact:
  assumes "representable x" and "representable y"
  shows "comp_integer_add (ci_make x) (ci_make y) =
      (if representable (x + y) then Inr (ci_make (x + y)) else Inl Panic) \<and>
    comp_integer_mul (ci_make x) (ci_make y) =
      (if representable (x * y) then Inr (ci_make (x * y)) else Inl Panic)"
  using assms by (intro conjI comp_integer_add_value comp_integer_mul_value)

theorem comp_integer_add_mul_exact_witness:
  "comp_integer_add (ci_make 5) (ci_make (- 7)) =
      (if representable (5 + - 7) then Inr (ci_make (5 + - 7)) else Inl Panic) \<and>
    comp_integer_mul (ci_make 5) (ci_make (- 7)) =
      (if representable (5 * - 7) then Inr (ci_make (5 * - 7)) else Inl Panic)"
  by (rule comp_integer_add_mul_exact) (simp_all add: representable_def)

text \<open>
  subtraction is exact or panics, except that \<open>0 - COMP_INTEGER_MIN\<close> silently gives
  \<open>COMP_INTEGER_MIN\<close>, the one exact result that is not representable and not reported.
\<close>

theorem comp_integer_sub_exact:
  assumes "representable x" and "representable y"
  shows "comp_integer_sub (ci_make x) (ci_make y) =
      (if representable (x - y) then Inr (ci_make (x - y))
       else if x = 0 \<and> y = COMP_INTEGER_MIN then Inr (ci_make COMP_INTEGER_MIN)
       else Inl Panic)"
proof -
  let ?s = "sub_checked_s64 (rep (ci_make x)) (rep (ci_make y))"
  have ok: "fst ?s \<longleftrightarrow> representable (x - y) \<or> (x = 0 \<and> y = COMP_INTEGER_MIN)"
    using double_range [of "x - y"] assms by (auto simp: sub_checked_s64_fst sint_rep_make)
  have "snd ?s = word_of_int (2 * (x - y))"
    by (simp add: sub_checked_s64_snd ci_make_def algebra_simps)
  then have val: "\<lparr>rep = snd ?s\<rparr> = ci_make (x - y)"
    by (simp add: ci_make_def)
  have wrap: "ci_make (2 ^ 62) = ci_make COMP_INTEGER_MIN"
    by (simp add: ci_make_def)
  show ?thesis
    using ok val wrap by (cases ?s) (auto simp: comp_integer_sub_def)
qed

theorem comp_integer_sub_exact_witness:
  "comp_integer_sub (ci_make 0) (ci_make COMP_INTEGER_MIN) =
      (if representable (0 - COMP_INTEGER_MIN) then Inr (ci_make (0 - COMP_INTEGER_MIN))
       else if 0 = (0 :: int) \<and> COMP_INTEGER_MIN = COMP_INTEGER_MIN then Inr (ci_make COMP_INTEGER_MIN)
       else Inl Panic)"
  by (rule comp_integer_sub_exact) (simp_all add: representable_def)

text \<open>
  C38: division and remainder return false exactly for a zero divisor, and otherwise give the
  truncated quotient and the remainder with the sign of the dividend; both never fail. The
  quotient \<open>COMP_INTEGER_MIN / -1\<close> wraps to \<open>COMP_INTEGER_MIN\<close>.
\<close>

theorem comp_integer_div_mod_exact:
  assumes "representable x" and "representable y"
  shows "comp_integer_div (ci_make x) (ci_make y) =
      Inr (if y = 0 then None
           else if x = COMP_INTEGER_MIN \<and> y = - 1 then Some (ci_make COMP_INTEGER_MIN)
           else Some (ci_make (x sdiv y))) \<and>
    comp_integer_mod (ci_make x) (ci_make y) = Inr (if y = 0 then None else Some (ci_make (x smod y)))
    \<and> (y \<noteq> 0 \<longrightarrow> representable (x smod y))
    \<and> (y \<noteq> 0 \<longrightarrow> \<not> (x = COMP_INTEGER_MIN \<and> y = - 1) \<longrightarrow> representable (x sdiv y))"
proof -
  have wrap: "ci_make (2 ^ 62) = ci_make COMP_INTEGER_MIN"
    by (simp add: ci_make_def)
  have div: "\<lparr>rep = push_bit 1 (word_of_int k)\<rparr> = ci_make k" for k
    by (simp only: ci_make_def push_bit_1_word)
  have "\<bar>x\<bar> \<le> 2 ^ 62" using assms(1) by (auto simp: representable_def)
  then have quot: "\<bar>x sdiv y\<bar> \<le> 2 ^ 62"
    using sdiv_int_range [of x y] by auto
  have "representable (x smod y)" if "y \<noteq> 0"
    using smod_int_range [OF that, of x] assms(2) by (auto simp: representable_def)
  moreover have "representable (x sdiv y)" if "y \<noteq> 0" "\<not> (x = COMP_INTEGER_MIN \<and> y = - 1)"
  proof (cases "x = COMP_INTEGER_MIN")
    case True
    with that have "x sdiv y \<noteq> - x" by (subst int_sdiv_negated_is_minus1) auto
    with quot True show ?thesis by (auto simp: representable_def)
  next
    case False
    with assms(1) have "\<bar>x\<bar> \<le> 2 ^ 62 - 1" by (auto simp: representable_def)
    with sdiv_int_range [of x y] show ?thesis by (auto simp: representable_def)
  qed
  moreover have "comp_integer_div (ci_make x) (ci_make y) = Inr (if y = 0 then None else Some (ci_make (x sdiv y)))"
    "comp_integer_mod (ci_make x) (ci_make y) = Inr (if y = 0 then None else Some (ci_make (x smod y)))"
    unfolding comp_integer_div_def comp_integer_mod_def Let_def div both_inlined_make
      signed_value_make [OF assms(1)] signed_value_make [OF assms(2)] signed_value_0_iff [OF assms(2)]
    by simp_all
  moreover have "ci_make (COMP_INTEGER_MIN sdiv - 1) = ci_make COMP_INTEGER_MIN"
    using wrap by simp
  ultimately show ?thesis by auto
qed

theorem comp_integer_div_mod_exact_witness:
  "comp_integer_div (ci_make (- 7)) (ci_make 2) = Inr (Some (ci_make (- 3))) \<and>
    comp_integer_mod (ci_make (- 7)) (ci_make 2) = Inr (Some (ci_make (- 1)))"
  using comp_integer_div_mod_exact [of "- 7" 2] by (simp add: representable_def)

section \<open>Conversions\<close>

text \<open>
  C39: \<open>comp_integer_from_u64\<close> panics exactly above \<open>COMP_INTEGER_MAX\<close>, and reading the value
  back at a width of up to 64 bits gives it exactly when it fits the width.
\<close>

theorem comp_integer_u64_roundtrip:
  "comp_integer_from_u64 w = (if uint w \<le> COMP_INTEGER_MAX then Inr (ci_make (uint w)) else Inl Panic) \<and>
   (uint w \<le> COMP_INTEGER_MAX \<longrightarrow> bits \<le> 64 \<longrightarrow>
     u64_from_comp_integer (ci_make (uint w)) bits = Inr (if uint w < 2 ^ unat bits then Some w else None))"
proof
  show "comp_integer_from_u64 w = (if uint w \<le> COMP_INTEGER_MAX then Inr (ci_make (uint w)) else Inl Panic)"
    by (simp add: comp_integer_from_u64_def ci_make_def mult.commute)
  show "uint w \<le> COMP_INTEGER_MAX \<longrightarrow> bits \<le> 64 \<longrightarrow>
     u64_from_comp_integer (ci_make (uint w)) bits = Inr (if uint w < 2 ^ unat bits then Some w else None)"
  proof (intro impI)
    assume w: "uint w \<le> COMP_INTEGER_MAX" and bits: "bits \<le> 64"
    have r: "representable (uint w)" using w uint_range(1) [of w] unfolding representable_def by linarith
    have "uint (rep (ci_make (uint w))) = 2 * uint w"
      unfolding ci_make_def CompIntegerValue.simps
      using w uint_range(1) [of w] by (intro uint_word_of_int_range) simp_all
    then have "uint (drop_bit 1 (rep (ci_make (uint w)))) = uint w"
      by (simp add: drop_bit_eq_div uint_div_distrib)
    then have val: "drop_bit 1 (rep (ci_make (uint w))) = w" by (simp add: word_uint_eq_iff)
    have exp: "uint (push_bit (unat bits) 1 :: u64) = 2 ^ unat bits" if "bits \<noteq> 64"
    proof -
      have "unat bits < 64"
        using bits that by (simp add: word_le_nat_alt word_unat_eq_iff)
      then show ?thesis using uint_exp_word [where 'a = 64, of "unat bits"]
        by (simp add: push_bit_eq_mult)
    qed
    have "uint w < 2 ^ unat (64 :: u8)" using uint_range(2) [of w] by simp
    then have fits: "(bits \<noteq> 64 \<and> push_bit (unat bits) 1 \<le> w) \<longleftrightarrow> \<not> uint w < 2 ^ unat bits"
      using exp by (cases "bits = 64") (auto simp: word_le_def)
    have "0 \<le> uint w" by simp
    then have "is_negative (ci_make (uint w)) = Inr False" using r by simp
    then show "u64_from_comp_integer (ci_make (uint w)) bits = Inr (if uint w < 2 ^ unat bits then Some w else None)"
      using bits by (simp only: u64_from_comp_integer_def val Let_def fits obind_Inr ensure_True is_inlined_make
        if_False) auto
  qed
qed

theorem comp_integer_u64_roundtrip_witness:
  "comp_integer_from_u64 300 = Inr (ci_make (uint (300 :: u64))) \<and>
   u64_from_comp_integer (ci_make (uint (300 :: u64))) 8 = Inr None"
  using comp_integer_u64_roundtrip [of 300 8] by simp

text \<open>
  \<open>s64_from_comp_integer\<close> gives the value exactly when it fits the signed type of the
  given width (0 bits excepted, where its shift has no defined result).
\<close>

theorem s64_from_comp_integer_exact:
  assumes "representable k" and "0 < bits" and "bits \<le> 64"
  shows "s64_from_comp_integer (ci_make k) bits =
    Inr (if fits_type True (unat bits) k then Some (word_of_int k) else None)"
proof -
  have v: "signed_value (ci_make k) = word_of_int k"
    by (metis assms(1) signed_value_make word_of_int_sint_eq)
  have "fits_type True 64 k" using assms(1) by (auto simp: representable_def fits_type_def)
  then have "bits = 64 \<Longrightarrow> fits_type True (unat bits) k" by simp
  then show ?thesis
    using assms by (auto simp: s64_from_comp_integer_def Let_def fits_type_def word_gt_0 v
      signed_value_make [OF assms(1), unfolded v])
qed

theorem s64_from_comp_integer_exact_witness:
  "s64_from_comp_integer (ci_make (- 129)) 8 = Inr None"
  using s64_from_comp_integer_exact [of "- 129" 8] by (simp add: representable_def fits_type_def)

text \<open>
  \<open>comp_integer_from_s64\<close> panics on every negative value, although the least value it
  compares with is \<open>COMP_INTEGER_MIN\<close>.
\<close>

theorem comp_integer_from_s64_result:
  "comp_integer_from_s64 w =
     (if 0 \<le> sint w \<and> sint w \<le> COMP_INTEGER_MAX then Inr (ci_make (sint w)) else Inl Panic)"
proof (cases "0 \<le> sint w")
  case True
  then have "uint w = sint w" by (simp add: uint_sint_s64)
  then have "ci_make (uint w) = ci_make (sint w)" by simp
  then have "\<lparr>rep = push_bit 1 w\<rparr> = ci_make (sint w)"
    by (simp add: ci_make_def mult.commute)
  with True \<open>uint w = sint w\<close> show ?thesis by (auto simp: comp_integer_from_s64_def ensure_def)
next
  case False
  then have "uint w = sint w + 2 ^ 64" by (simp add: uint_sint_s64)
  moreover have "- (2 ^ 63) \<le> sint w" using s64_sint_range [of w] by simp
  ultimately have "\<not> uint w \<le> COMP_INTEGER_MAX" by simp
  with False show ?thesis by (simp add: comp_integer_from_s64_def ensure_def)
qed

section \<open>Bitwise operations, negation and comparison\<close>

lemma bit_rep_make: "bit (rep (ci_make k)) n \<longleftrightarrow> n < 64 \<and> 0 < n \<and> bit k (n - 1)"
proof -
  have "bit (rep (ci_make k)) n \<longleftrightarrow> n < 64 \<and> bit (2 * k) n"
    unfolding ci_make_def CompIntegerValue.simps bit_word_of_int_iff by simp
  then show ?thesis by (auto simp: bit_double_iff)
qed

text \<open>
  \<open>and\<close>, \<open>or\<close>, \<open>xor\<close> and \<open>not\<close> of compile-time integers are the two's complement
  operations on the integers they stand for, for operands of any sign, and never panic.
\<close>

theorem comp_integer_bitwise_exact:
  "comp_integer_bit_and (ci_make x) (ci_make y) = Inr (ci_make (x AND y)) \<and>
   comp_integer_bit_or (ci_make x) (ci_make y) = Inr (ci_make (x OR y)) \<and>
   comp_integer_bit_xor (ci_make x) (ci_make y) = Inr (ci_make (x XOR y)) \<and>
   comp_integer_bit_not (ci_make x) = Inr (ci_make (NOT x))"
proof -
  have eq: "\<lparr>rep = w\<rparr> = ci_make k" if "w = rep (ci_make k)" for w k
    using that by simp
  have "rep (ci_make x) AND rep (ci_make y) = rep (ci_make (x AND y))"
    by (rule bit_word_eqI) (auto simp: bit_and_iff bit_rep_make)
  moreover have "rep (ci_make x) OR rep (ci_make y) = rep (ci_make (x OR y))"
    by (rule bit_word_eqI) (auto simp: bit_or_iff bit_rep_make)
  moreover have "rep (ci_make x) XOR rep (ci_make y) = rep (ci_make (x XOR y))"
    by (rule bit_word_eqI) (auto simp: bit_xor_iff bit_rep_make)
  moreover have "NOT (rep (ci_make x)) XOR 1 = rep (ci_make (NOT x))"
    by (rule bit_word_eqI) (auto simp: bit_xor_iff bit_not_iff bit_1_iff bit_rep_make)
  ultimately show ?thesis
    by (simp only: comp_integer_bit_and_def comp_integer_bit_or_def comp_integer_bit_xor_def
      comp_integer_bit_not_def both_inlined_make is_inlined_make ensure_True eq)
qed

text \<open>
  negation is exact for every representable integer but \<open>COMP_INTEGER_MIN\<close>, on which it
  panics.
\<close>

theorem comp_integer_neg_exact:
  assumes "representable k"
  shows "comp_integer_neg (ci_make k) = (if representable (- k) then Inr (ci_make (- k)) else Inl Panic)"
proof -
  have "rep (ci_make k) = push_bit 1 (word_of_int COMP_INTEGER_MIN) \<longleftrightarrow> k = COMP_INTEGER_MIN"
  proof
    assume "rep (ci_make k) = push_bit 1 (word_of_int COMP_INTEGER_MIN)"
    then have "rep (ci_make k) = rep (ci_make COMP_INTEGER_MIN)"
      by (simp only: push_bit_1_word ci_make_def CompIntegerValue.simps)
    then have "2 * k = 2 * COMP_INTEGER_MIN"
      by (metis assms eq_refl representable_def sint_rep_make neg_le_iff_le zle_diff1_eq
        zero_less_numeral zero_less_power neg_less_pos)
    then show "k = COMP_INTEGER_MIN" by simp
  qed (simp add: ci_make_def)
  moreover have "representable (- k) \<longleftrightarrow> k \<noteq> COMP_INTEGER_MIN"
    using assms by (auto simp: representable_def)
  moreover have "\<lparr>rep = push_bit 1 (- drop_bit 1 (rep (ci_make k)))\<rparr> = ci_make (- k)"
  proof (rule ci_make_eqI)
    have "push_bit 1 (drop_bit 1 (rep (ci_make k))) = rep (ci_make k)"
      by (rule bit_word_eqI) (simp only: bit_push_bit_iff bit_drop_bit_eq bit_rep_make o_def, auto)
    then have "2 * drop_bit 1 (rep (ci_make k)) = word_of_int (2 * k)"
      by (simp add: push_bit_eq_mult mult.commute ci_make_def)
    then show "rep \<lparr>rep = push_bit 1 (- drop_bit 1 (rep (ci_make k)))\<rparr> = word_of_int (2 * - k)"
      by (simp add: push_bit_eq_mult mult.commute)
  qed
  ultimately show ?thesis
    by (simp only: comp_integer_neg_def is_inlined_make ensure_True) (simp add: ensure_def)
qed

theorem comp_integer_neg_exact_witness:
  "comp_integer_neg (ci_make (- 5)) = (if representable (- (- 5)) then Inr (ci_make (- (- 5))) else Inl Panic)"
  by (rule comp_integer_neg_exact) (simp add: representable_def)

text \<open>
  the comparison orders two integers of the same sign correctly and finds equality, but
  compares the representations as unsigned: every negative integer is greater than every
  non-negative one.
\<close>

theorem comp_integer_compare_result:
  assumes "representable x" and "representable y"
  shows "comp_integer_compare (ci_make x) (ci_make y) = Inr
    (if x = y then Equal
     else if (x < 0) = (y < 0) then (if x < y then LessThan else GreaterThan)
     else if x < 0 then GreaterThan else LessThan)"
proof -
  have u: "uint (rep (ci_make k)) = (if k < 0 then 2 * k + 2 ^ 64 else 2 * k)" if "representable k" for k
    using that by (simp add: uint_sint_s64 sint_rep_make)
  have same: "rep (ci_make x) = rep (ci_make y) \<longleftrightarrow> x = y"
  proof
    assume "rep (ci_make x) = rep (ci_make y)"
    then have "2 * x = 2 * y"
      unfolding sint_rep_make [OF assms(1), symmetric] sint_rep_make [OF assms(2), symmetric]
      by (rule arg_cong)
    then show "x = y" by simp
  qed simp
  have less: "rep (ci_make x) < rep (ci_make y) \<longleftrightarrow>
      (if (x < 0) = (y < 0) then x < y else 0 \<le> x)"
    unfolding word_less_def u [OF assms(1)] u [OF assms(2)]
    using assms by (cases "x < 0"; cases "y < 0") (simp_all add: representable_def)
  show ?thesis
    unfolding comp_integer_compare_def both_inlined_make same less
    by (cases "x < 0"; cases "y < 0") simp_all
qed

theorem comp_integer_compare_result_witness:
  "comp_integer_compare (ci_make (- 1)) (ci_make 1) = Inr GreaterThan"
  using comp_integer_compare_result [of "- 1" 1] by (simp add: representable_def)

section \<open>Shifts\<close>

lemma drop_bit_rep_make:
  assumes "0 \<le> k" and "representable k"
  shows "uint (drop_bit 1 (rep (ci_make k))) = k"
proof -
  have "uint (rep (ci_make k)) = 2 * k"
    using assms by (simp add: uint_sint_s64 sint_rep_make)
  then show ?thesis by (simp add: drop_bit_eq_div uint_div_distrib)
qed

text \<open>
  a left shift by one to 63 places of a non-negative integer \<open>x\<close> is refused with a panic
  as soon as \<open>2 * x\<close> has a bit at or above position \<open>n - 1\<close> (so \<open>1\<close> shifted by one place
  panics), and otherwise wraps at 64 bits; a negative shift count returns false. The check looks at
  the bits above the shift count instead of at the bits shifted out.
\<close>

theorem comp_integer_shift_left_result:
  assumes "representable x" and "0 \<le> x" and "1 \<le> n" and "n \<le> 63"
  shows "comp_integer_shift_left (ci_make x) (ci_make n) =
      (if 2 * x < 2 ^ nat (n - 1) then Inr (Some (ci_make (x * 2 ^ nat n))) else Inl Panic)
    \<and> comp_integer_shift_left (ci_make x) (ci_make (- n)) = Inr None"
proof
  have rn: "representable n" "representable (- n)" using assms by (simp_all add: representable_def)
  show "comp_integer_shift_left (ci_make x) (ci_make (- n)) = Inr None"
    using assms rn by (simp add: comp_integer_shift_left_def)
  define s where "s = drop_bit 1 (rep (ci_make n))"
  have us: "uint s = n" using drop_bit_rep_make [of n] assms rn by (simp add: s_def)
  have us1: "uint (s - 1) = n - 1" using assms us by (simp add: uint_sub_if')
  have ns: "unat s = nat n" "unat (s - 1) = nat (n - 1)" using us us1 by (simp_all add: unat_eq_nat_uint)
  have bounds: "s < 64" "s - 1 < 64" using us us1 assms by (simp_all add: word_less_def)
  define sign_mask where "sign_mask = (push_bit (nat (n - 1)) (- 1) :: u64)"
  have ux: "uint (rep (ci_make x)) = 2 * x"
    using assms by (simp add: uint_sint_s64 sint_rep_make)
  have bit63: "\<not> bit (rep (ci_make x)) 63"
  proof
    assume "bit (rep (ci_make x)) 63"
    then have "bit x 62" by (simp add: bit_rep_make)
    moreover have "x = take_bit 62 x" using assms(1,2) by (simp add: representable_def take_bit_int_eq_self)
    ultimately show False by (metis bit_take_bit_iff less_irrefl)
  qed
  have "rep (ci_make x) AND sign_mask \<noteq> sign_mask"
  proof
    assume "rep (ci_make x) AND sign_mask = sign_mask"
    then have "bit (rep (ci_make x) AND sign_mask) 63 = bit sign_mask 63" by simp
    moreover have "bit sign_mask 63" using assms(3,4) by (simp add: sign_mask_def bit_push_bit_iff bit_minus_1_iff bit_not_iff bit_mask_iff)
    ultimately show False using bit63 by (simp add: bit_and_iff)
  qed
  moreover have "rep (ci_make x) AND sign_mask = 0 \<longleftrightarrow> 2 * x < 2 ^ nat (n - 1)"
  proof -
    have "rep (ci_make x) AND sign_mask = 0 \<longleftrightarrow> (\<forall>m < 64. nat (n - 1) \<le> m \<longrightarrow> \<not> bit (rep (ci_make x)) m)"
      by (auto simp: bit_eq_iff bit_and_iff sign_mask_def bit_push_bit_iff bit_minus_1_iff bit_not_iff bit_mask_iff)
    also have "\<dots> \<longleftrightarrow> take_bit (nat (n - 1)) (2 * x) = 2 * x"
    proof -
      have "bit (rep (ci_make x)) m \<longleftrightarrow> bit (2 * x) m" for m
        using ux bit_uint_iff [of "rep (ci_make x)" m] by (metis bit_imp_le_length)
      moreover have "bit (rep (ci_make x)) m \<Longrightarrow> m < 64" for m using bit_imp_le_length by fastforce
      ultimately show ?thesis
        by (simp add: bit_eq_iff bit_take_bit_iff) (meson not_le)
    qed
    also have "\<dots> \<longleftrightarrow> 2 * x < 2 ^ nat (n - 1)"
      using assms(2) by (auto simp: take_bit_int_eq_self_iff)
    finally show ?thesis .
  qed
  moreover have "\<lparr>rep = push_bit (nat n) (rep (ci_make x))\<rparr> = ci_make (x * 2 ^ nat n)"
    by (simp add: ci_make_def push_bit_eq_mult mult.commute mult.left_commute)
  ultimately show "comp_integer_shift_left (ci_make x) (ci_make n) =
      (if 2 * x < 2 ^ nat (n - 1) then Inr (Some (ci_make (x * 2 ^ nat n))) else Inl Panic)"
    unfolding comp_integer_shift_left_def both_inlined_make is_negative_make [OF rn(1)] obind_Inr Let_def
      s_def [symmetric] ns sign_mask_def [symmetric]
    using bounds assms(3) by simp
qed

theorem comp_integer_shift_left_result_witness:
  "comp_integer_shift_left (ci_make 1) (ci_make 1) = Inl Panic \<and>
    comp_integer_shift_left (ci_make 1) (ci_make (- 1)) = Inr None"
  using comp_integer_shift_left_result [of 1 1] by (simp add: representable_def)

text \<open>
  a right shift by less than 64 places of a non-negative integer is exact division by the
  power of two; of a negative integer it shifts zeros in, so the result is positive for every
  positive shift count.
\<close>

theorem comp_integer_shift_right_result:
  assumes "representable x" and "0 \<le> n" and "n < 64"
  shows "comp_integer_shift_right (ci_make x) (ci_make n) =
    Inr (Some (ci_make (if 0 \<le> x \<or> n = 0 then x div 2 ^ nat n else (2 ^ 63 + x) div 2 ^ nat n)))"
proof -
  have rn: "representable n" using assms by (simp add: representable_def)
  define s where "s = drop_bit 1 (rep (ci_make n))"
  have us: "uint s = n" using drop_bit_rep_make [of n] assms rn by (simp add: s_def)
  have ns: "unat s = nat n" using us by (simp add: unat_eq_nat_uint)
  have bound: "s < 64" using us assms by (simp add: word_less_def)
  define y where "y = (if 0 \<le> x then x else 2 ^ 63 + x)"
  have y: "rep (ci_make x) = word_of_int (2 * y)" "0 \<le> y" "2 * y < 2 ^ 64"
    using assms(1) by (auto simp: y_def ci_make_def representable_def)
  have bity: "bit (rep (ci_make x)) m \<longleftrightarrow> bit (2 * y) m" for m
  proof -
    have "uint (rep (ci_make x)) = 2 * y"
      unfolding y(1) using y(2,3) by (intro uint_word_of_int_range) simp_all
    then show ?thesis using bit_uint_iff [of "rep (ci_make x)" m] by (metis bit_imp_le_length)
  qed
  have "drop_bit (nat n) (rep (ci_make x)) AND NOT 1 = rep (ci_make (y div 2 ^ nat n))"
  proof (rule bit_word_eqI)
    fix m
    show "bit (drop_bit (nat n) (rep (ci_make x)) AND NOT 1) m = bit (rep (ci_make (y div 2 ^ nat n))) m"
      if "m < LENGTH(64)"
      using that
      by (cases m) (auto simp: bit_and_iff bit_drop_bit_eq bit_not_iff bit_1_iff bity
        bit_rep_make [of "drop_bit (nat n) y"] bit_double_iff simp flip: drop_bit_eq_div)
  qed
  moreover have "ci_make (y div 2 ^ nat n) = ci_make (if 0 \<le> x \<or> n = 0 then x div 2 ^ nat n else (2 ^ 63 + x) div 2 ^ nat n)"
    by (auto simp: y_def ci_make_def)
  ultimately show ?thesis
    unfolding comp_integer_shift_right_def both_inlined_make is_negative_make [OF rn(1)] obind_Inr Let_def
      s_def [symmetric] ns
    using bound assms(2) by simp
qed

theorem comp_integer_shift_right_result_witness:
  "comp_integer_shift_right (ci_make (- 4)) (ci_make 1) = Inr (Some (ci_make (2 ^ 62 - 2)))"
  using comp_integer_shift_right_result [of "- 4" 1] by (simp add: representable_def)

end
