(* ===== verification/InplaceSort.thy ===== *)
theory InplaceSort
  imports Prelude "HOL-Library.Multiset"
begin

text \<open>
  \<open>inplace_sort\<close> of src/infra/inplace_sort.hpp: insertion sort for up to eight elements and
  heap sort above, with the comparator as a parameter, and its use in \<open>sort_members\<close> of
  src/core/opcode_pool.cpp. The locale \<open>comparator\<close> is the contract of a comparator; its
  interpretations are the comparators of src/core. The sort always permutes its input; it
  sorts up to eight elements. Above that it does not sort: \<open>make_heap\<close> passes the
  arguments of \<open>heap_sift\<close> in the wrong order, and the lemmas show that it does nothing.
\<close>

section \<open>The sort\<close>

definition heap_parent :: "nat \<Rightarrow> nat" where
  "heap_parent index = (index - 1) div 2"

definition heap_child :: "nat \<Rightarrow> nat" where
  "heap_child index = index * 2 + 1"

definition swap_at :: "nat \<Rightarrow> nat \<Rightarrow> 'a list \<Rightarrow> 'a list" where
  "swap_at i j xs = xs[i := xs ! j, j := xs ! i]"

function heap_sift :: "('a \<Rightarrow> 'a \<Rightarrow> int) \<Rightarrow> nat \<Rightarrow> 'a list \<Rightarrow> nat \<Rightarrow> 'a list" where
  "heap_sift cmp cnt begin root =
     (if heap_child root < cnt then
        let child = heap_child root;
            child = (if child + 1 < cnt \<and> cmp (begin ! child) (begin ! (child + 1)) < 0 then child + 1 else child)
        in if cmp (begin ! root) (begin ! child) \<ge> 0 then begin
           else heap_sift cmp cnt (swap_at root child begin) child
      else begin)"
  by pat_completeness auto
termination
  by (relation "measure (\<lambda>(cmp, cnt, begin, root). cnt - root)") (auto simp: heap_child_def)

declare heap_sift.simps [simp del]

text \<open>The loop of \<open>make_heap\<close> runs from \<open>heap_parent (cnt - 1)\<close> down to 0.\<close>

fun make_heap_loop :: "('a \<Rightarrow> 'a \<Rightarrow> int) \<Rightarrow> nat \<Rightarrow> 'a list \<Rightarrow> nat \<Rightarrow> 'a list" where
  "make_heap_loop cmp cnt begin 0 = heap_sift cmp 0 begin cnt"
| "make_heap_loop cmp cnt begin (Suc n) =
     make_heap_loop cmp cnt (heap_sift cmp (Suc n) begin cnt) n"

definition make_heap :: "('a \<Rightarrow> 'a \<Rightarrow> int) \<Rightarrow> nat \<Rightarrow> 'a list \<Rightarrow> 'a list" where
  "make_heap cmp cnt begin = make_heap_loop cmp cnt begin (heap_parent (cnt - 1))"

fun insertion_step :: "('a \<Rightarrow> 'a \<Rightarrow> int) \<Rightarrow> nat \<Rightarrow> 'a list \<Rightarrow> 'a list" where
  "insertion_step cmp 0 begin = begin"
| "insertion_step cmp (Suc j) begin =
     (if cmp (begin ! Suc j) (begin ! j) < 0
      then insertion_step cmp j (swap_at (Suc j) j begin) else begin)"

definition insertion_sort :: "('a \<Rightarrow> 'a \<Rightarrow> int) \<Rightarrow> nat \<Rightarrow> 'a list \<Rightarrow> 'a list" where
  "insertion_sort cmp cnt begin = fold (insertion_step cmp) [1..<cnt] begin"

text \<open>The extraction loop of the heap sort, for \<open>i\<close> from \<open>cnt - 1\<close> down to 1.\<close>

fun extract_loop :: "('a \<Rightarrow> 'a \<Rightarrow> int) \<Rightarrow> 'a list \<Rightarrow> nat \<Rightarrow> 'a list" where
  "extract_loop cmp begin 0 = begin"
| "extract_loop cmp begin (Suc i) =
     extract_loop cmp (heap_sift cmp (Suc i) (swap_at (Suc i) 0 begin) 0) i"

definition inplace_sort :: "('a \<Rightarrow> 'a \<Rightarrow> int) \<Rightarrow> 'a list \<Rightarrow> 'a list" where
  "inplace_sort cmp elems =
     (if length elems \<le> 8 then insertion_sort cmp (length elems) elems
      else extract_loop cmp (make_heap cmp (length elems) elems) (length elems - 1))"

section \<open>Comparators of the program\<close>

record ShadowLayoutMemberInitializer =
  offset_in_type :: u64
  rank_in_type :: u16

definition offset_compare :: "ShadowLayoutMemberInitializer \<Rightarrow> ShadowLayoutMemberInitializer \<Rightarrow> int" where
  "offset_compare a b =
     (if offset_in_type a < offset_in_type b then - 1
      else if offset_in_type a > offset_in_type b then 1
      else if rank_in_type a < rank_in_type b then - 1
      else if rank_in_type a > rank_in_type b then 1
      else 0)"

record MemoryRangeRequirement =
  range_size :: u64
  max_offset :: u64

definition max_offset_compare :: "MemoryRangeRequirement \<Rightarrow> MemoryRangeRequirement \<Rightarrow> int" where
  "max_offset_compare a b =
     (if max_offset a < max_offset b then - 1 else if max_offset a > max_offset b then 1 else 0)"

text \<open>
  \<open>MemberSortInfo\<close>: the union of \<open>name\<close> and \<open>opcode_index\<close> is one 32 bit word. The
  comparators subtract signed 32 bit integers; identifier ids and indices are below \<open>2^31\<close>.
\<close>

record MemberSortInfo =
  name_or_opcode_index :: u32
  ast_index :: u32

definition by_name_compare :: "MemberSortInfo \<Rightarrow> MemberSortInfo \<Rightarrow> int" where
  "by_name_compare a b = sint (name_or_opcode_index a - name_or_opcode_index b)"

definition by_ast_index_compare :: "MemberSortInfo \<Rightarrow> MemberSortInfo \<Rightarrow> int" where
  "by_ast_index_compare a b = sint (ast_index a - ast_index b)"

text \<open>The sorting part of \<open>sort_members\<close>, on the names of the members in source order.\<close>

definition sort_members :: "u32 list \<Rightarrow> MemberSortInfo list" where
  "sort_members names =
     (let sorted = map (\<lambda>i. \<lparr>name_or_opcode_index = names ! i, ast_index = of_nat i\<rparr>) [0..<length names];
          by_name = inplace_sort by_name_compare sorted;
          numbered = map (\<lambda>i. (by_name ! i)\<lparr>name_or_opcode_index := of_nat i\<rparr>) [0..<length names]
      in inplace_sort by_ast_index_compare numbered)"

section \<open>Every step permutes\<close>

lemma mset_swap_at: "i < length xs \<Longrightarrow> j < length xs \<Longrightarrow> mset (swap_at i j xs) = mset xs"
  by (simp add: swap_at_def mset_swap)

lemma length_swap_at [simp]: "length (swap_at i j xs) = length xs"
  by (simp add: swap_at_def)

lemma heap_sift_mset:
  "cnt \<le> length xs \<Longrightarrow> mset (heap_sift cmp cnt xs root) = mset xs"
proof (induction cmp cnt xs root rule: heap_sift.induct)
  case (1 cmp cnt xs root)
  define child where "child = (if heap_child root + 1 < cnt \<and>
      cmp (xs ! heap_child root) (xs ! (heap_child root + 1)) < 0 then heap_child root + 1 else heap_child root)"
  show ?case
  proof (cases "heap_child root < cnt \<and> \<not> cmp (xs ! root) (xs ! child) \<ge> 0")
    case True
    then have "child < cnt" "root < cnt" by (auto simp: child_def heap_child_def split: if_splits)
    then have "mset (swap_at root child xs) = mset xs" using 1(2) by (intro mset_swap_at) simp_all
    moreover have "heap_sift cmp cnt xs root = heap_sift cmp cnt (swap_at root child xs) child"
      using True by (subst heap_sift.simps) (simp add: child_def Let_def)
    moreover have "mset (heap_sift cmp cnt (swap_at root child xs) child) = mset (swap_at root child xs)"
      using True 1(2) by (intro 1(1)) (auto simp: child_def)
    ultimately show ?thesis by simp
  next
    case False
    then show ?thesis by (subst heap_sift.simps) (auto simp: child_def Let_def)
  qed
qed

lemma insertion_step_mset: "j < length xs \<Longrightarrow> mset (insertion_step cmp j xs) = mset xs"
proof (induction j arbitrary: xs)
  case (Suc j)
  then show ?case by (simp add: mset_swap_at)
qed simp

lemma extract_loop_mset: "i < length xs \<Longrightarrow> mset (extract_loop cmp xs i) = mset xs"
proof (induction i arbitrary: xs)
  case (Suc i)
  let ?ys = "heap_sift cmp (Suc i) (swap_at (Suc i) 0 xs) 0"
  have "0 < length xs" using Suc.prems by linarith
  then have m: "mset (swap_at (Suc i) 0 xs) = mset xs" using Suc.prems by (intro mset_swap_at)
  moreover have "mset ?ys = mset (swap_at (Suc i) 0 xs)"
    using Suc.prems by (intro heap_sift_mset) simp
  ultimately have ys: "mset ?ys = mset xs" by simp
  then have "length ?ys = length xs" by (rule mset_eq_length)
  with Suc ys show ?case by simp
qed simp

text \<open>\<open>make_heap\<close> does not touch the array: its call sifts at an index behind the heap.\<close>

lemma heap_sift_behind: "cnt \<le> root \<Longrightarrow> heap_sift cmp cnt xs root = xs"
  by (subst heap_sift.simps) (simp add: heap_child_def)

lemma make_heap_loop_id: "n < cnt \<Longrightarrow> make_heap_loop cmp cnt xs n = xs"
  by (induction n) (simp_all add: heap_sift_behind)

lemma make_heap_id: "0 < cnt \<Longrightarrow> make_heap cmp cnt xs = xs"
  unfolding make_heap_def by (intro make_heap_loop_id) (simp add: heap_parent_def)

lemma fold_mset:
  assumes "\<And>i ys. i \<in> set is \<Longrightarrow> mset ys = mset xs \<Longrightarrow> mset (f i ys) = mset ys"
  shows "mset (fold f is xs) = mset xs"
proof -
  have "mset ys = mset xs \<Longrightarrow> mset (fold f is ys) = mset xs" for ys
    using assms by (induction "is" arbitrary: ys) simp_all
  then show ?thesis by simp
qed

lemma inplace_sort_mset: "mset (inplace_sort cmp xs) = mset xs"
proof (cases "length xs \<le> 8")
  case True
  have "mset (insertion_sort cmp (length xs) xs) = mset xs"
    unfolding insertion_sort_def
    by (rule fold_mset) (metis atLeastLessThan_iff insertion_step_mset mset_eq_length set_upt)
  with True show ?thesis by (simp add: inplace_sort_def)
next
  case False
  then have "make_heap cmp (length xs) xs = xs" by (intro make_heap_id) linarith
  with False show ?thesis by (simp add: inplace_sort_def extract_loop_mset)
qed

text \<open>
  the sort rearranges its elements for every comparator and every length: none is lost
  or duplicated. Above eight elements the heap phase leaves the array as it is, so
  the extraction loop alone determines the result.
\<close>

theorem inplace_sort_permutes:
  "mset (inplace_sort cmp xs) = mset xs \<and>
   inplace_sort cmp xs =
     (if length xs \<le> 8 then insertion_sort cmp (length xs) xs else extract_loop cmp xs (length xs - 1))"
proof -
  have "make_heap cmp (length xs) xs = xs" if "\<not> length xs \<le> 8"
    using that by (intro make_heap_id) linarith
  then show ?thesis by (simp add: inplace_sort_mset) (simp add: inplace_sort_def)
qed

text \<open>Nine elements that the sort leaves unsorted.\<close>

lemma inplace_sort_nine:
  "inplace_sort (\<lambda>a b. a - b) [1, 0, 0, 0, 0, 0, 0, 0, 2 :: int] = [0, 0, 0, 0, 0, 0, 0, 2, 1]"
proof -
  have "make_heap (\<lambda>a b. a - b) 9 [1, 0, 0, 0, 0, 0, 0, 0, 2 :: int] = [1, 0, 0, 0, 0, 0, 0, 0, 2]"
    by (rule make_heap_id) simp
  then show ?thesis
    by (simp add: inplace_sort_def heap_sift.simps heap_child_def swap_at_def numeral_eq_Suc)
qed

section \<open>The contract of a comparator\<close>

text \<open>
  A comparator orders the elements that satisfy \<open>elem_ok\<close> like the relation \<open>le\<close>, which is
  total and transitive on them.
\<close>

locale comparator =
  fixes cmp :: "'a \<Rightarrow> 'a \<Rightarrow> int"
    and le :: "'a \<Rightarrow> 'a \<Rightarrow> bool"
    and elem_ok :: "'a \<Rightarrow> bool"
  assumes less_law: "elem_ok a \<Longrightarrow> elem_ok b \<Longrightarrow> cmp a b < 0 \<longleftrightarrow> \<not> le b a"
    and total_law: "elem_ok a \<Longrightarrow> elem_ok b \<Longrightarrow> le a b \<or> le b a"
    and trans_law: "elem_ok a \<Longrightarrow> elem_ok b \<Longrightarrow> elem_ok c \<Longrightarrow> le a b \<Longrightarrow> le b c \<Longrightarrow> le a c"
begin

definition all_ok :: "'a list \<Rightarrow> bool" where "all_ok xs \<longleftrightarrow> (\<forall>x \<in> set xs. elem_ok x)"

lemma all_ok_mset: "mset ys = mset xs \<Longrightarrow> all_ok xs \<Longrightarrow> all_ok ys"
  by (metis all_ok_def set_mset_mset)

lemma all_ok_nth: "all_ok xs \<Longrightarrow> i < length xs \<Longrightarrow> elem_ok (xs ! i)"
  by (simp add: all_ok_def)

text \<open>
  \<open>gap_sorted j n xs\<close>: the first \<open>n\<close> elements are sorted but for the one at \<open>j\<close>, which is
  still to sink.
\<close>

definition gap_sorted :: "nat \<Rightarrow> nat \<Rightarrow> 'a list \<Rightarrow> bool" where
  "gap_sorted j n xs \<longleftrightarrow> (\<forall>k l. k < l \<longrightarrow> l < n \<longrightarrow> l \<noteq> j \<longrightarrow> le (xs ! k) (xs ! l))"

definition prefix_sorted :: "nat \<Rightarrow> 'a list \<Rightarrow> bool" where
  "prefix_sorted n xs \<longleftrightarrow> (\<forall>k l. k < l \<longrightarrow> l < n \<longrightarrow> le (xs ! k) (xs ! l))"

lemma insertion_step_sorts:
  assumes "gap_sorted j n xs" and "j < n" and "n \<le> length xs" and "all_ok xs"
  shows "prefix_sorted n (insertion_step cmp j xs)"
  using assms
proof (induction j arbitrary: xs)
  case 0
  then show ?case by (fastforce simp: gap_sorted_def prefix_sorted_def)
next
  case (Suc j)
  have len: "Suc j < length xs" "j < length xs" using Suc.prems(2,3) by auto
  note ok = all_ok_nth [OF Suc.prems(4)]
  show ?case
  proof (cases "cmp (xs ! Suc j) (xs ! j) < 0")
    case True
    let ?ys = "swap_at (Suc j) j xs"
    have less: "\<not> le (xs ! j) (xs ! Suc j)" using True less_law ok len by simp
    then have le': "le (xs ! Suc j) (xs ! j)" using total_law ok len by blast
    have ys: "?ys ! k = (if k = j then xs ! Suc j else if k = Suc j then xs ! j else xs ! k)" if "k < n" for k
      using that len Suc.prems(3) by (simp add: swap_at_def nth_list_update)
    have "le (?ys ! k) (?ys ! l)" if "k < l" "l < n" "l \<noteq> j" for k l
    proof -
      have gs: "le (xs ! a) (xs ! b)" if "a < b" "b < n" "b \<noteq> Suc j" for a b
        using Suc.prems(1) that by (simp add: gap_sorted_def)
      have kn: "k < n" using that by simp
      consider "k = j" "l = Suc j" | "k = j" "Suc j < l" | "k = Suc j" "Suc j < l" | "k < j" "l = Suc j"
        | "k \<noteq> j" "k \<noteq> Suc j" "l \<noteq> Suc j" using \<open>k < l\<close> \<open>l \<noteq> j\<close> by linarith
      then show ?thesis
      proof cases
        case 1 then show ?thesis using le' ys [OF kn] ys [OF \<open>l < n\<close>] by simp
      next
        case 2 then show ?thesis using gs [of "Suc j" l] ys [OF kn] ys [OF \<open>l < n\<close>] \<open>l < n\<close> by simp
      next
        case 3 then show ?thesis using gs [of j l] ys [OF kn] ys [OF \<open>l < n\<close>] \<open>l < n\<close> by simp
      next
        case 4 then show ?thesis using gs [of k j] ys [OF kn] ys [OF \<open>l < n\<close>] \<open>l < n\<close> by simp
      next
        case 5 then show ?thesis using gs [of k l] ys [OF kn] ys [OF \<open>l < n\<close>] that by simp
      qed
    qed
    then have "gap_sorted j n ?ys" by (simp add: gap_sorted_def)
    moreover have "all_ok ?ys" using all_ok_mset [OF mset_swap_at [OF len] Suc.prems(4)] .
    ultimately have "prefix_sorted n (insertion_step cmp j ?ys)"
      using Suc.prems by (intro Suc.IH) simp_all
    with True show ?thesis by simp
  next
    case False
    then have last: "le (xs ! j) (xs ! Suc j)" using less_law ok len by blast
    have "le (xs ! k) (xs ! l)" if "k < l" "l < n" for k l
    proof (cases "l = Suc j")
      case True
      show ?thesis
      proof (cases "k = j")
        case False
        then have "k < j" using True that by simp
        then have "le (xs ! k) (xs ! j)" using Suc.prems(1) that True by (simp add: gap_sorted_def)
        moreover have "k < length xs" using that Suc.prems(3) by simp
        ultimately show ?thesis using last True trans_law [of "xs ! k" "xs ! j" "xs ! Suc j"] ok len by simp
      qed (use last True in simp)
    next
      case False
      with that Suc.prems(1) show ?thesis by (simp add: gap_sorted_def)
    qed
    with False show ?thesis by (simp add: prefix_sorted_def)
  qed
qed

lemma insertion_sort_prefix:
  assumes "n \<le> length xs" and "all_ok xs"
  shows "prefix_sorted n (fold (insertion_step cmp) [1..<n] xs)
    \<and> mset (fold (insertion_step cmp) [1..<n] xs) = mset xs"
  using assms
proof (induction n)
  case 0
  then show ?case by (simp add: prefix_sorted_def)
next
  case (Suc n)
  let ?ys = "fold (insertion_step cmp) [1..<n] xs"
  have ys: "prefix_sorted n ?ys" "mset ?ys = mset xs" using Suc by simp_all
  show ?case
  proof (cases n)
    case 0
    then show ?thesis by (simp add: prefix_sorted_def)
  next
    case (Suc k)
    have len: "length ?ys = length xs" using ys(2) by (rule mset_eq_length)
    have "gap_sorted n (Suc n) ?ys"
      using ys(1) by (auto simp: gap_sorted_def prefix_sorted_def less_Suc_eq)
    then have "prefix_sorted (Suc n) (insertion_step cmp n ?ys)"
      using Suc.prems len all_ok_mset [OF ys(2)] by (intro insertion_step_sorts) simp_all
    moreover have "mset (insertion_step cmp n ?ys) = mset ?ys"
      using Suc.prems len by (intro insertion_step_mset) simp
    ultimately show ?thesis using Suc ys(2) by simp
  qed
qed

text \<open>Up to eight elements the result is sorted.\<close>

lemma short_sort:
  assumes "length xs \<le> 8" and "all_ok xs"
  shows "sorted_wrt le (inplace_sort cmp xs)"
proof -
  have "prefix_sorted (length xs) (inplace_sort cmp xs)" "mset (inplace_sort cmp xs) = mset xs"
    using insertion_sort_prefix [of "length xs" xs] assms by (simp_all add: inplace_sort_def insertion_sort_def)
  moreover from this(2) have "length (inplace_sort cmp xs) = length xs" by (rule mset_eq_length)
  ultimately show ?thesis by (simp add: sorted_wrt_iff_nth_less prefix_sorted_def)
qed

end

section \<open>The comparators honour the contract\<close>

definition offset_le :: "ShadowLayoutMemberInitializer \<Rightarrow> ShadowLayoutMemberInitializer \<Rightarrow> bool" where
  "offset_le a b \<longleftrightarrow> offset_in_type a < offset_in_type b
     \<or> (offset_in_type a = offset_in_type b \<and> rank_in_type a \<le> rank_in_type b)"

interpretation offset_order: comparator offset_compare offset_le "\<lambda>_. True"
  by unfold_locales (auto simp: offset_compare_def offset_le_def)

interpretation max_offset_order: comparator max_offset_compare "\<lambda>a b. max_offset a \<le> max_offset b" "\<lambda>_. True"
  by unfold_locales (auto simp: max_offset_compare_def)

lemma sint_diff_small:
  fixes a b :: u32
  assumes "uint a < 2 ^ 31" and "uint b < 2 ^ 31"
  shows "sint (a - b) = uint a - uint b"
proof -
  have "a - b = word_of_int (uint a - uint b)" by simp
  moreover have "sint (word_of_int (uint a - uint b) :: u32) = uint a - uint b"
  proof (rule sint_word_of_int_range)
    have p: "(2::int) ^ (LENGTH(32) - 1) = 2147483648" by simp
    have "uint a < 2147483648" "uint b < 2147483648" using assms by simp_all
    then show "- (2 ^ (LENGTH(32) - 1)) \<le> uint a - uint b" "uint a - uint b < 2 ^ (LENGTH(32) - 1)"
      unfolding p using uint_range(1) [of a] uint_range(1) [of b] by linarith+
  qed
  ultimately show ?thesis by simp
qed

interpretation by_name: comparator by_name_compare
  "\<lambda>a b. name_or_opcode_index a \<le> name_or_opcode_index b" "\<lambda>a. uint (name_or_opcode_index a) < 2 ^ 31"
  by unfold_locales (auto simp: by_name_compare_def sint_diff_small word_le_def)

interpretation by_ast_index: comparator by_ast_index_compare
  "\<lambda>a b. ast_index a \<le> ast_index b" "\<lambda>a. uint (ast_index a) < 2 ^ 31"
  by unfold_locales (auto simp: by_ast_index_compare_def sint_diff_small word_le_def)

text \<open>
  up to eight shadow layout members and up to eight memory range requirements are
  sorted, by offset and rank and by their largest offset.
\<close>

theorem inplace_sort_short_sorts:
  "(length members \<le> 8 \<longrightarrow> sorted_wrt offset_le (inplace_sort offset_compare members)) \<and>
   (length ranges \<le> 8 \<longrightarrow>
     sorted_wrt (\<lambda>a b. max_offset a \<le> max_offset b) (inplace_sort max_offset_compare ranges))"
  using offset_order.short_sort [of members] max_offset_order.short_sort [of ranges]
  by (simp add: offset_order.all_ok_def max_offset_order.all_ok_def)

theorem inplace_sort_short_sorts_witness:
  "sorted_wrt offset_le (inplace_sort offset_compare [\<lparr>offset_in_type = 8, rank_in_type = 0\<rparr>, \<lparr>offset_in_type = 0, rank_in_type = 1\<rparr>])"
  using inplace_sort_short_sorts
    [of "[\<lparr>offset_in_type = 8, rank_in_type = 0\<rparr>, \<lparr>offset_in_type = 0, rank_in_type = 1\<rparr>]" "[]"]
  by simp

section \<open>Sorting the members of a definition\<close>

lemma sorted_ast_index:
  assumes "mset xs = mset ys" and "sorted_wrt (\<lambda>a b. ast_index a \<le> ast_index b) xs"
    and "sorted_wrt (\<lambda>a b. ast_index a < ast_index b) ys"
  shows "xs = ys"
proof -
  have inj: "inj_on ast_index (set ys)"
  proof (rule inj_onI)
    fix x y assume "x \<in> set ys" "y \<in> set ys" "ast_index x = ast_index y"
    then obtain i j where "i < length ys" "j < length ys" "x = ys ! i" "y = ys ! j" by (auto simp: in_set_conv_nth)
    with assms(3) \<open>ast_index x = ast_index y\<close> show "x = y"
      by (metis less_irrefl linorder_neqE_nat sorted_wrt_nth_less)
  qed
  have "sorted (map ast_index xs)" "sorted (map ast_index ys)"
    using assms(2,3) by (auto simp: sorted_map elim: sorted_wrt_mono_rel [rotated])
  moreover have "mset (map ast_index xs) = mset (map ast_index ys)" using assms(1) by simp
  ultimately have "map ast_index xs = map ast_index ys" by (metis properties_for_sort)
  moreover have "set xs = set ys" using assms(1) by (metis set_mset_mset)
  ultimately show ?thesis using inj by (metis inj_on_map_eq_map sup.idem)
qed

text \<open>
  C35: for up to eight members, \<open>sort_members\<close> returns them in source order, and the indices
  it gives them follow the order of their names: each member has one of the indices
  \<open>0 .. n - 1\<close>, no two the same, and a smaller name has a smaller index.
\<close>

theorem sort_members_ranks:
  assumes "length names \<le> 8" and "\<forall>x \<in> set names. uint x < 2 ^ 31"
  shows "map ast_index (sort_members names) = map of_nat [0..<length names]
    \<and> name_or_opcode_index ` set (sort_members names) = of_nat ` {..<length names}
    \<and> (\<forall>i < length names. \<forall>j < length names. names ! i < names ! j \<longrightarrow>
        name_or_opcode_index (sort_members names ! i) < name_or_opcode_index (sort_members names ! j))"
proof -
  let ?n = "length names"
  define sorted where "sorted = map (\<lambda>i. \<lparr>name_or_opcode_index = names ! i, ast_index = of_nat i\<rparr>) [0..<?n]"
  define by_nm where "by_nm = inplace_sort by_name_compare sorted"
  define numbered where "numbered = map (\<lambda>i. (by_nm ! i)\<lparr>name_or_opcode_index := of_nat i\<rparr>) [0..<?n]"
  have res: "sort_members names = inplace_sort by_ast_index_compare numbered"
    by (simp add: sort_members_def sorted_def by_nm_def numbered_def Let_def)
  have u: "unat (of_nat i :: u32) = i" "uint (of_nat i :: u32) < 2 ^ 31" if "i < ?n" for i
    using that assms(1) by (simp_all add: unat_of_nat_u32 uint_nat)
  have perm: "mset by_nm = mset sorted" unfolding by_nm_def by (rule inplace_sort_mset)
  then have len: "length by_nm = ?n" "length numbered = ?n"
    using mset_eq_length [OF perm] by (simp_all add: sorted_def numbered_def)
  obtain p where p: "bij_betw p {..<?n} {..<?n}" "\<forall>r < ?n. by_nm ! r = sorted ! p r"
  proof -
    have "distinct sorted"
      using u(1) by (auto simp: sorted_def distinct_map inj_on_def) (metis u(1))
    then have dist: "distinct by_nm" using perm by (metis mset_eq_imp_distinct_iff)
    have "\<forall>r \<in> {..<?n}. \<exists>i. i < ?n \<and> by_nm ! r = sorted ! i"
    proof
      fix r assume "r \<in> {..<?n}"
      then have "by_nm ! r \<in> set sorted" using len(1) perm by (metis lessThan_iff nth_mem set_mset_mset)
      then show "\<exists>i. i < ?n \<and> by_nm ! r = sorted ! i" by (auto simp: in_set_conv_nth sorted_def)
    qed
    then obtain p where p: "\<forall>r \<in> {..<?n}. p r < ?n \<and> by_nm ! r = sorted ! p r"
      using bchoice [of "{..<?n}" "\<lambda>r i. i < ?n \<and> by_nm ! r = sorted ! i"] by blast
    have inj: "inj_on p {..<?n}"
    proof (rule inj_onI)
      fix r t assume "r \<in> {..<?n}" "t \<in> {..<?n}" "p r = p t"
      with p have "by_nm ! r = by_nm ! t" by simp
      with dist len(1) \<open>r \<in> _\<close> \<open>t \<in> _\<close> show "r = t" by (simp add: nth_eq_iff_index_eq)
    qed
    have "p ` {..<?n} = {..<?n}" using p inj by (intro endo_inj_surj) auto
    with inj p show thesis by (intro that [of p]) (auto simp: bij_betw_def)
  qed
  define q where "q = the_inv_into {..<?n} p"
  have q: "bij_betw q {..<?n} {..<?n}" unfolding q_def by (rule bij_betw_the_inv_into [OF p(1)])
  have qn: "q i < ?n" "p (q i) = i" if "i < ?n" for i
    using that q bij_betw_apply [OF q, of i] f_the_inv_into_f_bij_betw [OF p(1), of i] by (auto simp: q_def)
  have pq: "q (p r) = r" "p r < ?n" if "r < ?n" for r
    using that bij_betw_apply [OF p(1), of r] the_inv_into_f_f [of p "{..<?n}" r] p(1)
    by (auto simp: q_def bij_betw_def)
  have num: "numbered ! r = \<lparr>name_or_opcode_index = of_nat r, ast_index = of_nat (p r)\<rparr>" if "r < ?n" for r
    using that p(2) pq(2) [OF that] by (simp add: numbered_def sorted_def)
  define ys where "ys = map (\<lambda>i. \<lparr>name_or_opcode_index = of_nat (q i), ast_index = of_nat i\<rparr> :: MemberSortInfo) [0..<?n]"
  have "ys = map (\<lambda>i. numbered ! q i) [0..<?n]"
    using num qn by (simp add: ys_def)
  moreover have "mset (map (\<lambda>i. numbered ! q i) [0..<?n]) = mset (map (\<lambda>i. numbered ! i) [0..<?n])"
  proof -
    have "image_mset q (mset_set {..<?n}) = mset_set {..<?n}"
      using q by (metis bij_betw_def image_mset_mset_set)
    then have "image_mset (\<lambda>i. numbered ! q i) (mset_set {..<?n}) = image_mset (\<lambda>i. numbered ! i) (mset_set {..<?n})"
      by (metis (no_types, lifting) image_mset.compositionality comp_def image_mset_cong)
    then show ?thesis by (simp only: mset_map mset_upt lessThan_atLeast0)
  qed
  moreover have "map (\<lambda>i. numbered ! i) [0..<?n] = numbered" using len(2) by (metis map_nth)
  ultimately have ys: "mset ys = mset numbered" by simp
  have "sorted_wrt (\<lambda>a b. ast_index a < ast_index b) ys"
    by (auto simp: ys_def sorted_wrt_iff_nth_less word_less_nat_alt u)
  moreover have "sorted_wrt (\<lambda>a b. ast_index a \<le> ast_index b) (sort_members names)"
  proof -
    have "by_ast_index.all_ok ys" unfolding by_ast_index.all_ok_def using u(2) by (auto simp: ys_def)
    then have "by_ast_index.all_ok numbered" by (rule by_ast_index.all_ok_mset [OF ys [symmetric]])
    then show ?thesis unfolding res using assms(1) len by (intro by_ast_index.short_sort) simp_all
  qed
  moreover have "mset (sort_members names) = mset ys" unfolding res ys by (rule inplace_sort_mset)
  ultimately have out: "sort_members names = ys" by (intro sorted_ast_index)
  have "by_name.all_ok sorted" unfolding by_name.all_ok_def using assms by (auto simp: sorted_def)
  then have "sorted_wrt (\<lambda>a b. name_or_opcode_index a \<le> name_or_opcode_index b) by_nm"
    unfolding by_nm_def using assms(1) by (intro by_name.short_sort) (simp_all add: sorted_def)
  then have mono: "names ! p r \<le> names ! p s" if "r \<le> s" "s < ?n" for r s
    using that p(2) pq(2) len by (cases "r = s") (auto simp: sorted_wrt_iff_nth_less sorted_def)
  have rank: "q i < q j" if "i < ?n" "j < ?n" "names ! i < names ! j" for i j
  proof (rule ccontr)
    assume "\<not> q i < q j"
    then have "names ! p (q j) \<le> names ! p (q i)" using qn that by (intro mono) simp_all
    with qn that show False by simp
  qed
  have "q ` {..<?n} = {..<?n}" using q by (simp add: bij_betw_def)
  then have "name_or_opcode_index ` set ys = of_nat ` {..<?n}"
    by (simp add: ys_def image_image lessThan_atLeast0) (metis image_image)
  moreover have "map ast_index ys = map of_nat [0..<?n]" by (simp add: ys_def)
  moreover have "name_or_opcode_index (ys ! i) < name_or_opcode_index (ys ! j)"
    if "i < ?n" "j < ?n" "names ! i < names ! j" for i j
    using that rank [OF that] qn u by (simp add: ys_def word_less_nat_alt)
  ultimately show ?thesis unfolding out by blast
qed

theorem sort_members_ranks_witness:
  "map ast_index (sort_members [70000, 65536, 65600]) = [0, 1, 2] \<and>
   name_or_opcode_index (sort_members [70000, 65536, 65600] ! 1)
     < name_or_opcode_index (sort_members [70000, 65536, 65600] ! 0)"
proof -
  let ?n = "[70000, 65536, 65600] :: u32 list"
  have n: "length ?n = 3" by simp
  have "map ast_index (sort_members ?n) = map of_nat [0..<3]
    \<and> (\<forall>i < 3. \<forall>j < 3. ?n ! i < ?n ! j \<longrightarrow>
        name_or_opcode_index (sort_members ?n ! i) < name_or_opcode_index (sort_members ?n ! j))"
    using sort_members_ranks [of ?n, unfolded n] by simp
  moreover have "map of_nat [0..<3] = [0, 1, 2 :: u32]" by (simp add: upt_rec numeral_eq_Suc)
  moreover have "?n ! 1 < ?n ! 0" by simp
  ultimately show ?thesis by (metis zero_less_numeral one_less_numeral_iff semiring_norm(77))
qed

end
