(* ===== verification/VecReserve.thy ===== *)
theory VecReserve
  imports InfraMath
begin

text \<open>
  \<open>ReservedVec\<close> of src/infra/container/reserved_vec.hpp: an array in reserved address space
  of which a prefix is committed, with \<open>Index\<close> = \<open>u32\<close> as in all its uses. \<open>m_memory\<close> gives
  the element at every index of the reserved range, used or not. \<open>os_commit\<close> is the
  platform: its answer to \<open>minos::mem_commit\<close> when the committed prefix is to grow to the
  given number of elements.
\<close>

record 'a ReservedVec =
  m_memory :: "nat \<Rightarrow> 'a"
  m_used :: u32
  m_committed :: u32
  m_commit_increment :: u32
  m_reserved :: u32
  os_commit :: "u32 \<Rightarrow> bool"

section \<open>Operations\<close>

definition rv_ensure_capacity :: "'a ReservedVec \<Rightarrow> u32 \<Rightarrow> 'a ReservedVec outcome" where
  "rv_ensure_capacity v extra_used =
     (let required_commit = m_used v + extra_used in
      if required_commit \<le> m_committed v then Inr v
      else if required_commit > m_reserved v then Inl Panic
      else obind (next_multiple required_commit (m_commit_increment v)) (\<lambda>new_commit.
        if os_commit v new_commit then Inr (v\<lparr>m_committed := new_commit\<rparr>) else Inl Panic))"

definition rv_init :: "(nat \<Rightarrow> 'a) \<Rightarrow> u32 \<Rightarrow> u32 \<Rightarrow> (u32 \<Rightarrow> bool) \<Rightarrow> 'a ReservedVec outcome" where
  "rv_init memory reserved commit_increment os =
     ensure Assertion (commit_increment \<le> reserved)
     (if os commit_increment
      then Inr \<lparr>m_memory = memory, m_used = 0, m_committed = commit_increment,
                m_commit_increment = commit_increment, m_reserved = reserved, os_commit = os\<rparr>
      else Inl Panic)"

text \<open>\<open>write_at f i xs\<close> is the memory after the elements \<open>xs\<close> are copied to index \<open>i\<close> on.\<close>

definition write_at :: "(nat \<Rightarrow> 'a) \<Rightarrow> nat \<Rightarrow> 'a list \<Rightarrow> nat \<Rightarrow> 'a" where
  "write_at f i xs = (\<lambda>j. if i \<le> j \<and> j < i + length xs then xs ! (j - i) else f j)"

definition rv_append :: "'a ReservedVec \<Rightarrow> 'a list \<Rightarrow> 'a ReservedVec outcome" where
  "rv_append v data =
     obind (rv_ensure_capacity v (of_nat (length data))) (\<lambda>v.
       Inr (v\<lparr>m_memory := write_at (m_memory v) (unat (m_used v)) data,
              m_used := m_used v + of_nat (length data)\<rparr>))"

text \<open>\<open>reserve\<close> returns the index of the first reserved element.\<close>

definition rv_reserve :: "'a ReservedVec \<Rightarrow> u32 \<Rightarrow> ('a ReservedVec \<times> u32) outcome" where
  "rv_reserve v count =
     obind (rv_ensure_capacity v count) (\<lambda>v.
       Inr (v\<lparr>m_used := m_used v + count\<rparr>, m_used v))"

text \<open>The byte-count variants, for elements of \<open>elem_size\<close> bytes.\<close>

definition rv_reserve_exact :: "u32 \<Rightarrow> 'a ReservedVec \<Rightarrow> u32 \<Rightarrow> ('a ReservedVec \<times> u32) outcome" where
  "rv_reserve_exact elem_size v bytes =
     ensure Assertion (bytes mod elem_size = 0)
     (let count = bytes div elem_size in
      obind (rv_ensure_capacity v count) (\<lambda>v.
        let result = m_used v in Inr (v\<lparr>m_used := m_used v + count\<rparr>, result)))"

definition rv_reserve_padded :: "u32 \<Rightarrow> 'a ReservedVec \<Rightarrow> u32 \<Rightarrow> ('a ReservedVec \<times> u32) outcome" where
  "rv_reserve_padded elem_size v bytes =
     (let count = (bytes + elem_size - 1) div elem_size in
      obind (rv_ensure_capacity v count) (\<lambda>v.
        let result = m_used v in Inr (v\<lparr>m_used := m_used v + count\<rparr>, result)))"

definition rv_append_exact :: "u32 \<Rightarrow> 'a ReservedVec \<Rightarrow> 'a list \<Rightarrow> u32 \<Rightarrow> 'a ReservedVec outcome" where
  "rv_append_exact elem_size v data bytes =
     ensure Assertion (bytes mod elem_size = 0)
     (let count = bytes div elem_size in
      obind (rv_ensure_capacity v count) (\<lambda>v.
        Inr (v\<lparr>m_memory := write_at (m_memory v) (unat (m_used v)) (take (unat count) data),
               m_used := m_used v + count\<rparr>)))"

definition rv_pad_to_alignment :: "u32 \<Rightarrow> 'a ReservedVec \<Rightarrow> u32 \<Rightarrow> 'a ReservedVec outcome" where
  "rv_pad_to_alignment elem_size v alignment =
     ensure Assertion (is_pow2 alignment)
     (if alignment < elem_size then Inr v
      else obind (next_multiple (m_used v) (alignment div elem_size)) (\<lambda>new_used.
        obind (rv_ensure_capacity v (new_used - m_used v)) (\<lambda>v.
          Inr (v\<lparr>m_used := new_used\<rparr>))))"

text \<open>\<open>page_bytes\<close> is the page size of the platform; the decommitted tail loses its contents.\<close>

definition rv_reset :: "u32 \<Rightarrow> 'a ReservedVec \<Rightarrow> u32 \<Rightarrow> 'a ReservedVec" where
  "rv_reset page_bytes v preserved_commit =
     (let v = v\<lparr>m_used := 0\<rparr> in
      if preserved_commit \<ge> m_committed v then v
      else v\<lparr>m_committed := (preserved_commit + page_bytes - 1) AND NOT (page_bytes - 1)\<rparr>)"

definition rv_top :: "'a ReservedVec \<Rightarrow> 'a outcome" where
  "rv_top v = ensure Assertion (m_used v \<noteq> 0) (Inr (m_memory v (unat (m_used v - 1))))"

definition rv_pop_by :: "'a ReservedVec \<Rightarrow> u32 \<Rightarrow> 'a ReservedVec outcome" where
  "rv_pop_by v count = ensure Assertion (count \<le> m_used v) (Inr (v\<lparr>m_used := m_used v - count\<rparr>))"

definition rv_pop_to :: "'a ReservedVec \<Rightarrow> u32 \<Rightarrow> 'a ReservedVec outcome" where
  "rv_pop_to v count = ensure Assertion (count \<le> m_used v) (Inr (v\<lparr>m_used := count\<rparr>))"

text \<open>The elements in use, in order.\<close>

definition rv_elems :: "'a ReservedVec \<Rightarrow> 'a list" where
  "rv_elems v = map (m_memory v) [0..<unat (m_used v)]"

section \<open>The vector behaves as a list\<close>

text \<open>
  The shape every vector keeps: the used elements are committed, the committed ones
  reserved, and the reserve is a multiple of the increment, as its initialisation has it.
\<close>

definition rv_ok :: "'a ReservedVec \<Rightarrow> bool" where
  "rv_ok v \<longleftrightarrow> m_used v \<le> m_committed v \<and> m_committed v \<le> m_reserved v
     \<and> m_commit_increment v \<noteq> 0 \<and> uint (m_commit_increment v) dvd uint (m_reserved v)
     \<and> uint (m_reserved v) + uint (m_commit_increment v) < 2 ^ 32"

lemma uint_mult_eq_mod: "uint ((a :: u32) * b) = uint a * uint b mod 4294967296"
  by (simp add: uint_word_arith_bintrs take_bit_eq_mod)

lemma next_multiple_bounds:
  fixes n f m :: u32
  assumes "f \<noteq> 0" and "n \<le> m" and "uint f dvd uint m" and "uint m + uint f < 2 ^ 32"
  obtains r where "next_multiple n f = Inr r" and "n \<le> r" and "r \<le> m"
proof -
  have f: "0 < uint f" using assms(1) by (metis uint_0_iff uint_range(1) order_le_less)
  have p: "(2::int) ^ 32 = 4294967296" by simp
  define q where "q = (uint n + uint f - 1) div uint f"
  have s: "uint (n + f - 1) = uint n + uint f - 1"
  proof -
    have "n + f - 1 = word_of_int (uint n + uint f - 1)" by simp
    moreover have "0 \<le> uint n + uint f - 1" "uint n + uint f - 1 < 2 ^ 32"
      using assms(2,4) f uint_range(1) [of n] unfolding word_le_def p by linarith+
    ultimately show ?thesis by (simp only:) (rule uint_word_of_int_range, auto)
  qed
  obtain k where k: "uint m = k * uint f"
    using assms(3) by (metis dvd_def mult.commute)
  have "uint n + uint f - 1 < (k + 1) * uint f"
    using assms(2) k f by (simp add: word_le_def distrib_right)
  moreover have "q * uint f \<le> uint n + uint f - 1"
    using div_mult_mod_eq [of "uint n + uint f - 1" "uint f"] pos_mod_sign [OF f, of "uint n + uint f - 1"]
    unfolding q_def by linarith
  ultimately have "q * uint f < (k + 1) * uint f" by linarith
  then have "q < k + 1" using f by simp
  then have "q \<le> k" by simp
  then have qm: "q * uint f \<le> uint m" using k f by simp
  have qn: "uint n \<le> q * uint f" unfolding q_def using round_up_bounds(1) [OF f, of "uint n"] .
  have r: "uint ((n + f - 1) div f * f) = q * uint f"
  proof -
    have "q * uint f mod 4294967296 = q * uint f"
      using order_trans [OF uint_range(1) [of n] qn] qm uint_range(2) [of m]
      by (intro mod_pos_pos_trivial) simp_all
    moreover have "uint ((n + f - 1) div f) = q" unfolding q_def uint_div_distrib s ..
    ultimately show ?thesis by (simp only: uint_mult_eq_mod)
  qed
  show thesis
    using qn qm assms(1) by (intro that [of "(n + f - 1) div f * f"]) (simp_all add: next_multiple_def word_le_def r)
qed

lemma rv_ensure_capacity_cases:
  assumes "rv_ok v" and "uint (m_used v) + uint n < 2 ^ 32"
  shows "(\<exists>c. rv_ensure_capacity v n = Inr (v\<lparr>m_committed := c\<rparr>) \<and> m_used v + n \<le> c \<and> rv_ok (v\<lparr>m_committed := c\<rparr>)
      \<and> m_used v + n \<le> m_reserved v)
    \<or> (rv_ensure_capacity v n = Inl Panic \<and> (m_reserved v < m_used v + n \<or> (\<exists>c. \<not> os_commit v c)))"
proof -
  have le: "m_used v \<le> m_used v + n"
    using assms(2) uint_range(1) [of n] by (simp add: word_le_def uint_plus_if')
  consider "m_used v + n \<le> m_committed v" | "m_committed v < m_used v + n" "m_reserved v < m_used v + n"
    | "m_committed v < m_used v + n" "m_used v + n \<le> m_reserved v"
    by (meson not_le)
  then show ?thesis
  proof cases
    case 1
    then have "rv_ensure_capacity v n = Inr (v\<lparr>m_committed := m_committed v\<rparr>)"
      by (simp add: rv_ensure_capacity_def)
    moreover have "m_used v + n \<le> m_reserved v"
      using 1 assms(1) unfolding rv_ok_def by (meson order_trans)
    moreover have "rv_ok (v\<lparr>m_committed := m_committed v\<rparr>)" using assms(1) by simp
    ultimately show ?thesis using 1 by blast
  next
    case 2
    then have "rv_ensure_capacity v n = Inl Panic"
      by (simp add: rv_ensure_capacity_def Let_def not_le [symmetric])
    with 2 show ?thesis by blast
  next
    case 3
    obtain r where r: "next_multiple (m_used v + n) (m_commit_increment v) = Inr r"
      "m_used v + n \<le> r" "r \<le> m_reserved v"
      using next_multiple_bounds [of "m_commit_increment v" "m_used v + n" "m_reserved v"] assms(1) 3(2)
      by (auto simp: rv_ok_def)
    have "m_used v \<le> r" using le r(2) by (rule order_trans)
    then have ok: "rv_ok (v\<lparr>m_committed := r\<rparr>)" using assms(1) r(3) by (simp add: rv_ok_def)
    have "rv_ensure_capacity v n = (if os_commit v r then Inr (v\<lparr>m_committed := r\<rparr>) else Inl Panic)"
      using 3 r(1) by (simp add: rv_ensure_capacity_def Let_def not_le [symmetric])
    with ok r(2) 3(2) show ?thesis
      by (cases "os_commit v r") (simp_all only: if_True if_False, blast+)
  qed
qed

text \<open>
  C40: appending to a well-formed vector succeeds exactly when the elements fit the reserve
  and the platform commits the memory, keeps it well-formed, and adds the elements at the
  end of those in use; otherwise it panics.
\<close>

theorem rv_append_elems:
  assumes "rv_ok v" and "unat (m_used v) + length data < 2 ^ 32"
  shows "(\<exists>v'. rv_append v data = Inr v' \<and> rv_ok v' \<and> rv_elems v' = rv_elems v @ data
        \<and> unat (m_used v') = unat (m_used v) + length data)
    \<or> (rv_append v data = Inl Panic
        \<and> (unat (m_reserved v) < unat (m_used v) + length data \<or> (\<exists>c. \<not> os_commit v c)))"
proof -
  let ?n = "of_nat (length data) :: u32"
  have n: "unat ?n = length data"
    using assms(2) by (simp add: unsigned_of_nat take_bit_nat_eq_self)
  have sum: "unat (m_used v + ?n) = unat (m_used v) + length data"
    using assms(2) n by (simp add: unat_plus_if')
  have fits: "uint (m_used v) + uint ?n < 2 ^ 32"
    using assms(2) n by (metis of_nat_add of_nat_less_iff of_nat_numeral of_nat_power uint_nat)
  from rv_ensure_capacity_cases [OF assms(1) fits]
  show ?thesis
  proof (elim disjE exE conjE)
    fix c assume c: "rv_ensure_capacity v ?n = Inr (v\<lparr>m_committed := c\<rparr>)" "m_used v + ?n \<le> c"
      "rv_ok (v\<lparr>m_committed := c\<rparr>)"
    define v' where "v' = v\<lparr>m_committed := c, m_memory := write_at (m_memory v) (unat (m_used v)) data,
      m_used := m_used v + ?n\<rparr>"
    have "rv_append v data = Inr v'" by (simp add: rv_append_def c(1) v'_def)
    moreover have "rv_ok v'" using c(2,3) by (simp add: rv_ok_def v'_def)
    moreover have "rv_elems v' = rv_elems v @ data"
      by (rule nth_equalityI)
        (auto simp: rv_elems_def v'_def sum nth_append write_at_def simp del: upt_Suc)
    ultimately show ?thesis using sum by (auto simp: v'_def)
  next
    assume c: "rv_ensure_capacity v ?n = Inl Panic" "m_reserved v < m_used v + ?n"
    then show ?thesis using sum by (simp add: rv_append_def word_less_nat_alt)
  next
    fix c assume "rv_ensure_capacity v ?n = Inl Panic" "\<not> os_commit v c"
    then show ?thesis by (auto simp: rv_append_def)
  qed
qed

theorem rv_append_elems_witness:
  "let v = \<lparr>m_memory = (\<lambda>_. 0 :: u8), m_used = 0, m_committed = 4, m_commit_increment = 4, m_reserved = 8,
      os_commit = (\<lambda>_. True)\<rparr>
   in (\<exists>v'. rv_append v [7, 9] = Inr v' \<and> rv_ok v' \<and> rv_elems v' = rv_elems v @ [7, 9]
        \<and> unat (m_used v') = unat (m_used v) + length [7, 9 :: u8])
    \<or> (rv_append v [7, 9] = Inl Panic
        \<and> (unat (m_reserved v) < unat (m_used v) + length [7, 9 :: u8] \<or> (\<exists>c. \<not> os_commit v c)))"
  unfolding Let_def by (rule rv_append_elems) (simp_all add: rv_ok_def)

lemma rv_reserve_ok:
  assumes "rv_ok v" and "uint (m_used v) + uint n < 2 ^ 32" and "rv_reserve v n = Inr (v', i)"
  shows "rv_ok v'" and "i = m_used v" and "m_used v' = m_used v + n" and "m_memory v' = m_memory v"
    and "m_reserved v' = m_reserved v" and "m_used v' \<le> m_reserved v"
  using rv_ensure_capacity_cases [OF assms(1,2)] assms(3)
  by (auto simp: rv_reserve_def rv_ok_def)

end
