(* ===== verification/HashIdMap.thy ===== *)
theory HashIdMap
  imports VecReserve "HOL-Library.Multiset"
begin

text \<open>
  \<open>IdMap\<close> of src/infra/container/id_map.hpp: the Robin Hood hash table that maps keys to the
  ids of interned values. The template parameter \<open>Alloc\<close> with its value type is the record
  of operations \<open>Alloc\<close>; the locale \<open>id_alloc\<close> states what the map relies on, and its
  lemmas show that lookups find exactly the interned keys and that insertion, rehashing and
  removal keep the table well-formed. A probe sequence length is at most 64, so the 8 bit
  field \<open>psl\<close> is a natural number here.
\<close>

section \<open>State and interface\<close>

record LookupEntry =
  hash_fingerprint :: u32
  psl :: nat
  data_id :: u32

record ('k, 'v, 'a) Alloc =
  value_from_id :: "'a \<Rightarrow> u32 \<Rightarrow> 'v outcome"
  alloc_value :: "'a \<Rightarrow> 'k \<Rightarrow> u32 \<Rightarrow> ('a \<times> u32) outcome"
  dealloc_value :: "'a \<Rightarrow> u32 \<Rightarrow> 'a outcome"
  alloc_values :: "'a \<Rightarrow> u32 list outcome"
  is_equal_to_key :: "'v \<Rightarrow> 'k \<Rightarrow> u32 \<Rightarrow> bool"
  hash_of :: "'v \<Rightarrow> u32"

text \<open>
  The entries of \<open>m_lookups\<close> are the committed ones, so its length is \<open>m_lookup_commit\<close>.
  \<open>lookup_os\<close> is the platform's answer to the commit of a table of the given length.
\<close>

record 'a IdMap =
  m_lookups :: "LookupEntry list"
  m_lookup_used :: u32
  m_lookup_capacity :: nat
  m_alloc :: 'a
  lookup_os :: "nat \<Rightarrow> bool"

abbreviation m_lookup_commit :: "'a IdMap \<Rightarrow> nat" where
  "m_lookup_commit m \<equiv> length (m_lookups m)"

definition MAX_PSL :: nat where "MAX_PSL = 64"

definition empty_lookup :: LookupEntry where
  "empty_lookup = \<lparr>hash_fingerprint = 0, psl = 0, data_id = 0\<rparr>"

definition is_empty_lookup :: "LookupEntry \<Rightarrow> bool" where
  "is_empty_lookup lookup \<longleftrightarrow> hash_fingerprint lookup = 0"

definition create_lookup :: "u32 \<Rightarrow> LookupEntry" where
  "create_lookup key_hash =
     \<lparr>hash_fingerprint = drop_bit 8 key_hash OR 1, psl = 0, data_id = 0\<rparr>"

definition is_equal_lookup ::
  "('k, 'v, 'a) Alloc \<Rightarrow> 'a \<Rightarrow> LookupEntry \<Rightarrow> LookupEntry \<Rightarrow> 'k \<Rightarrow> u32 \<Rightarrow> bool outcome" where
  "is_equal_lookup A a existing to_insert key key_hash =
     (if hash_fingerprint existing \<noteq> hash_fingerprint to_insert \<or> psl existing \<noteq> psl to_insert
      then Inr False
      else obind (value_from_id A a (data_id existing)) (\<lambda>value.
        Inr (is_equal_to_key A value key key_hash)))"

text \<open>The slot a probe starts at, and the next slot of the ring.\<close>

definition home_slot :: "nat \<Rightarrow> u32 \<Rightarrow> nat" where
  "home_slot commit key_hash = unat (key_hash AND (of_nat commit - 1))"

definition next_slot :: "nat \<Rightarrow> nat \<Rightarrow> nat" where
  "next_slot commit i = (if Suc i = commit then 0 else Suc i)"

text \<open>
  More steps than a probe can make: each step raises the sum of all probe lengths, which
  stays below 65 per slot.
\<close>

definition probe_budget :: "LookupEntry list \<Rightarrow> nat" where
  "probe_budget T = 65 * (length T + 1) + 1"

section \<open>Rehashing\<close>

fun reinsert_loop :: "nat \<Rightarrow> LookupEntry list \<Rightarrow> nat \<Rightarrow> LookupEntry \<Rightarrow> LookupEntry list outcome" where
  "reinsert_loop 0 T i wanted = Inl Diverge"
| "reinsert_loop (Suc n) T i wanted =
     (let curr = T ! i in
      if is_empty_lookup curr then Inr (T[i := wanted])
      else
        let (T', wanted') = (if psl curr < psl wanted then (T[i := wanted], curr) else (T, wanted))
        in if psl wanted' = MAX_PSL then Inl Panic
           else reinsert_loop n T' (next_slot (length T) i) (wanted'\<lparr>psl := psl wanted' + 1\<rparr>))"

definition reinsert_value_into_lookup :: "LookupEntry list \<Rightarrow> u32 \<Rightarrow> u32 \<Rightarrow> LookupEntry list outcome" where
  "reinsert_value_into_lookup T offset_to_insert key_hash =
     reinsert_loop (probe_budget T) T (home_slot (length T) key_hash)
       ((create_lookup key_hash)\<lparr>data_id := offset_to_insert\<rparr>)"

fun reinsert_all :: "('k, 'v, 'a) Alloc \<Rightarrow> 'a \<Rightarrow> LookupEntry list \<Rightarrow> u32 list \<Rightarrow> LookupEntry list outcome" where
  "reinsert_all A a T [] = Inr T"
| "reinsert_all A a T (vid # ids) =
     obind (value_from_id A a vid) (\<lambda>to_insert.
     obind (reinsert_value_into_lookup T vid (hash_of A to_insert)) (\<lambda>T.
       reinsert_all A a T ids))"

definition rehash :: "('k, 'v, 'a) Alloc \<Rightarrow> 'a IdMap \<Rightarrow> 'a IdMap outcome" where
  "rehash A m =
     (if m_lookup_commit m = m_lookup_capacity m then Inl Panic
      else if \<not> lookup_os m (2 * m_lookup_commit m) then Inl Panic
      else obind (alloc_values A (m_alloc m)) (\<lambda>ids.
        obind (reinsert_all A (m_alloc m) (replicate (2 * m_lookup_commit m) empty_lookup) ids) (\<lambda>T.
          Inr (m\<lparr>m_lookups := T\<rparr>))))"

section \<open>Lookup\<close>

fun find_by_key_loop ::
  "('k, 'v, 'a) Alloc \<Rightarrow> 'a \<Rightarrow> LookupEntry list \<Rightarrow> 'k \<Rightarrow> u32 \<Rightarrow> nat \<Rightarrow> nat \<Rightarrow> LookupEntry \<Rightarrow> nat option outcome" where
  "find_by_key_loop A a T key key_hash 0 i to_find = Inl Diverge"
| "find_by_key_loop A a T key key_hash (Suc n) i to_find =
     (let existing = T ! i in
      if is_empty_lookup existing \<or> psl existing < psl to_find then Inr None
      else obind (is_equal_lookup A a existing to_find key key_hash) (\<lambda>equal.
        if equal then Inr (Some i)
        else if psl to_find = MAX_PSL then Inr None
        else find_by_key_loop A a T key key_hash n (next_slot (length T) i)
               (to_find\<lparr>psl := psl to_find + 1\<rparr>)))"

definition find_by_key :: "('k, 'v, 'a) Alloc \<Rightarrow> 'a IdMap \<Rightarrow> 'k \<Rightarrow> u32 \<Rightarrow> nat option outcome" where
  "find_by_key A m key key_hash =
     find_by_key_loop A (m_alloc m) (m_lookups m) key key_hash (Suc MAX_PSL)
       (home_slot (m_lookup_commit m) key_hash) (create_lookup key_hash)"

text \<open>A \<open>V*\<close> is identified with the id of its value.\<close>

fun find_by_value_loop :: "LookupEntry list \<Rightarrow> u32 \<Rightarrow> nat \<Rightarrow> nat \<Rightarrow> LookupEntry \<Rightarrow> nat outcome" where
  "find_by_value_loop T vid 0 i to_find = Inl Diverge"
| "find_by_value_loop T vid (Suc n) i to_find =
     (let existing = T ! i in
      ensure Assertion (\<not> is_empty_lookup existing \<and> psl existing \<ge> psl to_find)
      (if psl existing = psl to_find \<and> data_id existing = vid then Inr i
       else ensure Assertion (psl to_find \<noteq> MAX_PSL)
         (find_by_value_loop T vid n (next_slot (length T) i) (to_find\<lparr>psl := psl to_find + 1\<rparr>))))"

definition find_by_value :: "('k, 'v, 'a) Alloc \<Rightarrow> 'a IdMap \<Rightarrow> u32 \<Rightarrow> nat outcome" where
  "find_by_value A m vid =
     obind (value_from_id A (m_alloc m) vid) (\<lambda>value.
       find_by_value_loop (m_lookups m) vid (Suc MAX_PSL)
         (home_slot (m_lookup_commit m) (hash_of A value)) (create_lookup (hash_of A value)))"

definition try_id_from :: "('k, 'v, 'a) Alloc \<Rightarrow> 'a IdMap \<Rightarrow> 'k \<Rightarrow> u32 \<Rightarrow> u32 option outcome" where
  "try_id_from A m key key_hash =
     obind (find_by_key A m key key_hash) (\<lambda>found.
       Inr (map_option (\<lambda>i. data_id (m_lookups m ! i)) found))"

definition try_value_from :: "('k, 'v, 'a) Alloc \<Rightarrow> 'a IdMap \<Rightarrow> 'k \<Rightarrow> u32 \<Rightarrow> 'v option outcome" where
  "try_value_from A m key key_hash =
     obind (find_by_key A m key key_hash) (\<lambda>found.
       case found of
         None \<Rightarrow> Inr None
       | Some i \<Rightarrow> obind (value_from_id A (m_alloc m) (data_id (m_lookups m ! i))) (\<lambda>v. Inr (Some v)))"

definition value_from :: "('k, 'v, 'a) Alloc \<Rightarrow> 'a IdMap \<Rightarrow> u32 \<Rightarrow> 'v outcome" where
  "value_from A m vid = value_from_id A (m_alloc m) vid"

section \<open>Insertion\<close>

text \<open>
  The loop of \<open>id_from\<close> ends with the id of the key, or at the longest probe sequence with
  the flag \<open>needs_allocation\<close> and the id allocated so far.
\<close>

datatype probe_end = Found u32 | Full bool u32

definition create_if_needed ::
  "('k, 'v, 'a) Alloc \<Rightarrow> 'k \<Rightarrow> u32 \<Rightarrow> 'a \<Rightarrow> bool \<Rightarrow> LookupEntry \<Rightarrow> u32 \<Rightarrow> ('a \<times> LookupEntry \<times> u32) outcome" where
  "create_if_needed A key key_hash a needs_allocation to_insert new_data_offset =
     (if needs_allocation
      then obind (alloc_value A a key key_hash) (\<lambda>(a, id). Inr (a, to_insert\<lparr>data_id := id\<rparr>, id))
      else Inr (a, to_insert, new_data_offset))"

fun id_from_loop ::
  "('k, 'v, 'a) Alloc \<Rightarrow> 'k \<Rightarrow> u32 \<Rightarrow> nat \<Rightarrow> LookupEntry list \<Rightarrow> 'a \<Rightarrow> nat \<Rightarrow> LookupEntry \<Rightarrow> bool \<Rightarrow> u32
    \<Rightarrow> (LookupEntry list \<times> 'a \<times> probe_end) outcome" where
  "id_from_loop A key key_hash 0 T a i to_insert needs_allocation new_data_offset = Inl Diverge"
| "id_from_loop A key key_hash (Suc n) T a i to_insert needs_allocation new_data_offset =
     (let existing = T ! i in
      if is_empty_lookup existing then
        obind (create_if_needed A key key_hash a needs_allocation to_insert new_data_offset)
          (\<lambda>(a, to_insert, new_data_offset). Inr (T[i := to_insert], a, Found new_data_offset))
      else obind (is_equal_lookup A a existing to_insert key key_hash) (\<lambda>equal.
        if equal then Inr (T, a, Found (data_id existing))
        else obind
          (if psl existing < psl to_insert
           then obind (create_if_needed A key key_hash a needs_allocation to_insert new_data_offset)
             (\<lambda>(a, to_insert, new_data_offset). Inr (T[i := to_insert], a, existing, False, new_data_offset))
           else Inr (T, a, to_insert, needs_allocation, new_data_offset))
          (\<lambda>(T, a, to_insert, needs_allocation, new_data_offset).
             if psl to_insert = MAX_PSL then Inr (T, a, Full needs_allocation new_data_offset)
             else id_from_loop A key key_hash n T a (next_slot (length T) i)
                    (to_insert\<lparr>psl := psl to_insert + 1\<rparr>) needs_allocation new_data_offset)))"

text \<open>
  \<open>id_from\<close> calls itself after a rehash that preceded the allocation. Each such call has
  doubled the table, so the first argument, the depth of these calls, never runs out.
\<close>

fun id_from_calls :: "nat \<Rightarrow> ('k, 'v, 'a) Alloc \<Rightarrow> 'a IdMap \<Rightarrow> 'k \<Rightarrow> u32 \<Rightarrow> ('a IdMap \<times> u32) outcome" where
  "id_from_calls 0 A m key key_hash = Inl Diverge"
| "id_from_calls (Suc n) A m key key_hash =
     obind (if m_lookup_used m * 4 > of_nat (m_lookup_commit m) * 3 then rehash A m else Inr m) (\<lambda>m.
     obind (id_from_loop A key key_hash (probe_budget (m_lookups m)) (m_lookups m) (m_alloc m)
              (home_slot (m_lookup_commit m) key_hash) (create_lookup key_hash) True 0)
       (\<lambda>(T, a, e).
          let m = m\<lparr>m_lookups := T, m_alloc := a\<rparr> in
          case e of
            Found vid \<Rightarrow> Inr (m, vid)
          | Full needs_allocation new_data_offset \<Rightarrow>
              obind (rehash A m) (\<lambda>m.
                if needs_allocation then id_from_calls n A m key key_hash else Inr (m, new_data_offset))))"

declare id_from_calls.simps [simp del]

definition id_from :: "('k, 'v, 'a) Alloc \<Rightarrow> 'a IdMap \<Rightarrow> 'k \<Rightarrow> u32 \<Rightarrow> ('a IdMap \<times> u32) outcome" where
  "id_from A m key key_hash = id_from_calls (Suc (m_lookup_capacity m)) A m key key_hash"

definition value_from_key :: "('k, 'v, 'a) Alloc \<Rightarrow> 'a IdMap \<Rightarrow> 'k \<Rightarrow> u32 \<Rightarrow> ('a IdMap \<times> u32 \<times> 'v) outcome" where
  "value_from_key A m key key_hash =
     obind (id_from A m key key_hash) (\<lambda>(m, id).
       obind (value_from A m id) (\<lambda>v. Inr (m, id, v)))"

definition idmap_init :: "nat \<Rightarrow> nat \<Rightarrow> (nat \<Rightarrow> bool) \<Rightarrow> 'a \<Rightarrow> 'a IdMap outcome" where
  "idmap_init capacity lookup_commit os a =
     ensure Assertion (is_pow2 (of_nat capacity :: u64) \<and> lookup_commit \<le> capacity \<and> is_pow2 (of_nat lookup_commit :: u32))
     (if os lookup_commit
      then Inr \<lparr>m_lookups = replicate lookup_commit empty_lookup, m_lookup_used = 0,
                m_lookup_capacity = capacity, m_alloc = a, lookup_os = os\<rparr>
      else Inl Panic)"

section \<open>Removal\<close>

fun remove_loop :: "nat \<Rightarrow> LookupEntry list \<Rightarrow> nat \<Rightarrow> nat \<Rightarrow> LookupEntry list outcome" where
  "remove_loop 0 T prev_i curr_i = Inl Diverge"
| "remove_loop (Suc n) T prev_i curr_i =
     (let curr = T ! curr_i in
      if psl curr \<noteq> 0
      then remove_loop n (T[prev_i := curr\<lparr>psl := psl curr - 1\<rparr>]) curr_i (next_slot (length T) curr_i)
      else Inr (T[prev_i := empty_lookup]))"

definition remove_from_lookups :: "'a IdMap \<Rightarrow> nat \<Rightarrow> 'a IdMap outcome" where
  "remove_from_lookups m to_remove =
     (let prev_i = home_slot (m_lookup_commit m) (of_nat to_remove);
          curr_i = home_slot (m_lookup_commit m) (of_nat (prev_i + 1))
      in ensure Assertion (\<not> is_empty_lookup (m_lookups m ! prev_i))
        (obind (remove_loop (probe_budget (m_lookups m)) (m_lookups m) prev_i curr_i) (\<lambda>T.
          Inr (m\<lparr>m_lookups := T, m_lookup_used := m_lookup_used m - 1\<rparr>))))"

definition remove_at :: "('k, 'v, 'a) Alloc \<Rightarrow> 'a IdMap \<Rightarrow> nat \<Rightarrow> 'a IdMap outcome" where
  "remove_at A m lookup =
     obind (dealloc_value A (m_alloc m) (data_id (m_lookups m ! lookup))) (\<lambda>a.
       remove_from_lookups (m\<lparr>m_alloc := a\<rparr>) lookup)"

definition remove_key :: "('k, 'v, 'a) Alloc \<Rightarrow> 'a IdMap \<Rightarrow> 'k \<Rightarrow> u32 \<Rightarrow> 'a IdMap outcome" where
  "remove_key A m key key_hash =
     obind (find_by_key A m key key_hash) (\<lambda>found.
       case found of None \<Rightarrow> Inl Assertion | Some lookup \<Rightarrow> remove_at A m lookup)"

definition try_remove :: "('k, 'v, 'a) Alloc \<Rightarrow> 'a IdMap \<Rightarrow> 'k \<Rightarrow> u32 \<Rightarrow> ('a IdMap \<times> bool) outcome" where
  "try_remove A m key key_hash =
     obind (find_by_key A m key key_hash) (\<lambda>found.
       case found of
         None \<Rightarrow> Inr (m, False)
       | Some lookup \<Rightarrow> obind (remove_at A m lookup) (\<lambda>m. Inr (m, True)))"

definition remove_id :: "('k, 'v, 'a) Alloc \<Rightarrow> 'a IdMap \<Rightarrow> u32 \<Rightarrow> 'a IdMap outcome" where
  "remove_id A m vid =
     obind (find_by_value A m vid) (\<lambda>lookup.
     obind (dealloc_value A (m_alloc m) vid) (\<lambda>a.
       remove_from_lookups (m\<lparr>m_alloc := a\<rparr>) lookup))"

section \<open>Rings\<close>

text \<open>
  Positions on the ring are natural numbers, reduced modulo the table length: the slot after
  position \<open>p\<close> is at \<open>Suc p\<close>, and a probe that starts at the hash \<open>h\<close> is at \<open>h + s\<close> after
  \<open>s\<close> steps.
\<close>

definition slot :: "LookupEntry list \<Rightarrow> nat \<Rightarrow> LookupEntry" where
  "slot T p = T ! (p mod length T)"

lemma next_slot_mod: "0 < c \<Longrightarrow> next_slot c (p mod c) = Suc p mod c"
  by (simp add: next_slot_def mod_Suc)

lemma Suc_mod_cancel: "Suc i mod c = Suc j mod c \<longleftrightarrow> i mod c = j mod (c :: nat)"
proof
  assume eq: "Suc i mod c = Suc j mod c"
  show "i mod c = j mod c"
  proof (cases "c = 0")
    case False
    have "i mod c = (Suc i + (c - 1)) mod c" for i
    proof -
      have "Suc i + (c - 1) = i + c" using False by simp
      then show ?thesis by simp
    qed
    then show ?thesis by (metis eq mod_add_left_eq)
  qed (use eq in simp)
qed (metis mod_Suc_eq)

lemma slot_update:
  "0 < length T \<Longrightarrow> slot (T[p mod length T := w]) q = (if q mod length T = p mod length T then w else slot T q)"
  by (simp add: slot_def nth_list_update)

lemma slot_cong: "p mod length T = q mod length T \<Longrightarrow> slot T p = slot T q"
  by (simp add: slot_def)

lemma home_slot_mod:
  assumes "c = 2 ^ k" and "k < 32"
  shows "home_slot c h = unat h mod c"
proof -
  have "(of_nat c :: u32) = 2 ^ k" using assms(1) by simp
  then have "of_nat c - 1 = (mask k :: u32)" by (simp add: mask_eq_exp_minus_1)
  then have "home_slot c h = unat (take_bit k h)"
    by (simp add: home_slot_def take_bit_eq_mask)
  then show ?thesis by (simp only: assms(1) unsigned_take_bit_eq) (simp only: take_bit_eq_mod)
qed

section \<open>Well-formed tables\<close>

text \<open>
  \<open>hs\<close> gives the hash of the value of an id. An entry is valid at a position when it carries
  the fingerprint of its value and its probe length is the distance from its home slot. A
  table is well-formed when every occupied slot is valid, the free slots are cleared, and
  the probe length grows by at most one from a slot to the next (the Robin Hood condition).
\<close>

definition valid_at :: "(u32 \<Rightarrow> u32) \<Rightarrow> nat \<Rightarrow> LookupEntry \<Rightarrow> nat \<Rightarrow> bool" where
  "valid_at hs c e p \<longleftrightarrow> hash_fingerprint e = hash_fingerprint (create_lookup (hs (data_id e)))
     \<and> psl e \<le> MAX_PSL \<and> (unat (hs (data_id e)) + psl e) mod c = p mod c"

definition table_ok :: "(u32 \<Rightarrow> u32) \<Rightarrow> LookupEntry list \<Rightarrow> bool" where
  "table_ok hs T \<longleftrightarrow> 0 < length T
     \<and> (\<forall>p. is_empty_lookup (slot T p) \<longrightarrow> slot T p = empty_lookup)
     \<and> (\<forall>p. \<not> is_empty_lookup (slot T p) \<longrightarrow> valid_at hs (length T) (slot T p) p)
     \<and> (\<forall>p. \<not> is_empty_lookup (slot T (Suc p)) \<longrightarrow> 0 < psl (slot T (Suc p)) \<longrightarrow>
           \<not> is_empty_lookup (slot T p) \<and> psl (slot T (Suc p)) \<le> Suc (psl (slot T p)))"

text \<open>The condition under which an entry may be placed at a position.\<close>

definition linked :: "LookupEntry list \<Rightarrow> LookupEntry \<Rightarrow> nat \<Rightarrow> bool" where
  "linked T w p \<longleftrightarrow> psl w = 0 \<or>
     (\<exists>q. p = Suc q \<and> \<not> is_empty_lookup (slot T q) \<and> psl w \<le> Suc (psl (slot T q)))"

definition ids_of :: "LookupEntry list \<Rightarrow> u32 multiset" where
  "ids_of T = mset (map data_id (filter (\<lambda>e. \<not> is_empty_lookup e) T))"

definition psl_sum :: "LookupEntry list \<Rightarrow> nat" where
  "psl_sum T = sum_list (map psl T)"

lemma create_lookup_nonempty: "hash_fingerprint (create_lookup h) \<noteq> 0"
proof
  assume "hash_fingerprint (create_lookup h) = 0"
  then have "drop_bit 8 h OR 1 = (0 :: u32)" by (simp add: create_lookup_def)
  then have "bit (drop_bit 8 h OR 1 :: u32) 0 = bit (0 :: u32) 0" by simp
  then show False by (simp add: bit_or_iff)
qed

lemma valid_at_nonempty: "valid_at hs c e p \<Longrightarrow> \<not> is_empty_lookup e"
  by (simp add: valid_at_def is_empty_lookup_def create_lookup_nonempty)

lemma valid_at_cong: "p mod c = q mod c \<Longrightarrow> valid_at hs c e p = valid_at hs c e q"
  by (simp add: valid_at_def)

lemma valid_at_step:
  assumes "valid_at hs c e p" and "psl e < MAX_PSL"
  shows "valid_at hs c (e\<lparr>psl := Suc (psl e)\<rparr>) (Suc p)"
  using assms by (auto simp: valid_at_def) (metis mod_Suc_eq)

lemma is_empty_lookup_update [simp]: "is_empty_lookup (e\<lparr>psl := k\<rparr>) = is_empty_lookup e"
  by (simp add: is_empty_lookup_def)

lemma empty_lookup_simps [simp]: "is_empty_lookup empty_lookup" "psl empty_lookup = 0"
  by (simp_all add: empty_lookup_def is_empty_lookup_def)

lemma table_okD:
  assumes "table_ok hs T"
  shows "0 < length T"
    and "is_empty_lookup (slot T p) \<Longrightarrow> slot T p = empty_lookup"
    and "\<not> is_empty_lookup (slot T p) \<Longrightarrow> valid_at hs (length T) (slot T p) p"
    and "\<not> is_empty_lookup (slot T (Suc p)) \<Longrightarrow> 0 < psl (slot T (Suc p)) \<Longrightarrow>
      \<not> is_empty_lookup (slot T p) \<and> psl (slot T (Suc p)) \<le> Suc (psl (slot T p))"
  using assms by (auto simp: table_ok_def)

lemma table_ok_empty: "0 < c \<Longrightarrow> table_ok hs (replicate c empty_lookup)"
  by (simp add: table_ok_def slot_def)

lemma place_ok:
  assumes T: "table_ok hs T" and w: "valid_at hs (length T) w p" "linked T w p"
    and room: "is_empty_lookup (slot T p) \<or> psl (slot T p) \<le> psl w"
  shows "table_ok hs (T[p mod length T := w])"
proof -
  let ?c = "length T"
  let ?T = "T[p mod ?c := w]"
  note D = table_okD [OF T]
  have slot: "slot ?T q = (if q mod ?c = p mod ?c then w else slot T q)" for q
    using D(1) by (rule slot_update)
  have "\<not> is_empty_lookup (slot ?T q) \<and> psl (slot ?T (Suc q)) \<le> Suc (psl (slot ?T q))"
    if ne: "\<not> is_empty_lookup (slot ?T (Suc q))" and pos: "0 < psl (slot ?T (Suc q))" for q
  proof (cases "Suc q mod ?c = p mod ?c")
    case True
    with pos have "0 < psl w" by (simp add: slot)
    with w(2) obtain r where r: "p = Suc r" "\<not> is_empty_lookup (slot T r)" "psl w \<le> Suc (psl (slot T r))"
      by (auto simp: linked_def)
    with True have "q mod ?c = r mod ?c" by (simp add: Suc_mod_cancel)
    then have "slot T q = slot T r" by (rule slot_cong)
    with r(2,3) True valid_at_nonempty [OF w(1)] show ?thesis by (simp add: slot)
  next
    case False
    with ne pos have *: "\<not> is_empty_lookup (slot T q)" "psl (slot T (Suc q)) \<le> Suc (psl (slot T q))"
      using D(4) [of q] by (auto simp: slot)
    show ?thesis
    proof (cases "q mod ?c = p mod ?c")
      case True
      then have "slot T q = slot T p" by (rule slot_cong)
      with * room valid_at_nonempty [OF w(1)] False True show ?thesis by (auto simp: slot)
    next
      case False
      with * \<open>Suc q mod ?c \<noteq> p mod ?c\<close> show ?thesis by (simp add: slot)
    qed
  qed
  moreover have "valid_at hs ?c (slot ?T q) q" if "\<not> is_empty_lookup (slot ?T q)" for q
    using that w(1) D(3) [of q] by (auto simp: slot valid_at_cong [of p ?c q] split: if_splits)
  moreover have "slot ?T q = empty_lookup" if "is_empty_lookup (slot ?T q)" for q
    using that D(2) [of q] valid_at_nonempty [OF w(1)] by (auto simp: slot split: if_splits)
  ultimately show ?thesis using D(1) by (simp add: table_ok_def)
qed

lemma ids_of_append [simp]:
  "ids_of (xs @ ys) = ids_of xs + ids_of ys"
  "ids_of (e # xs) = (if is_empty_lookup e then {#} else {#data_id e#}) + ids_of xs"
  "ids_of [] = {#}"
  by (simp_all add: ids_of_def)

lemma psl_sum_append [simp]:
  "psl_sum (xs @ ys) = psl_sum xs + psl_sum ys" "psl_sum (e # xs) = psl e + psl_sum xs"
  by (simp_all add: psl_sum_def)

lemma ids_of_update:
  assumes "i < length T" and "\<not> is_empty_lookup w"
  shows "ids_of (T[i := w]) + (if is_empty_lookup (T ! i) then {#} else {#data_id (T ! i)#})
    = ids_of T + {#data_id w#}"
proof -
  have "ids_of T = ids_of (take i T @ T ! i # drop (Suc i) T)"
    using assms(1) by (simp only: id_take_nth_drop [symmetric])
  with assms show ?thesis by (simp add: upd_conv_take_nth_drop)
qed

lemma psl_sum_update:
  assumes "i < length T"
  shows "psl_sum (T[i := w]) + psl (T ! i) = psl_sum T + psl w"
proof -
  have "psl_sum T = psl_sum (take i T @ T ! i # drop (Suc i) T)"
    using assms by (simp only: id_take_nth_drop [symmetric])
  with assms show ?thesis by (simp add: upd_conv_take_nth_drop)
qed

lemma table_psl_le: "table_ok hs T \<Longrightarrow> psl (slot T p) \<le> MAX_PSL"
  using table_okD(2,3) [of hs T p] by (cases "is_empty_lookup (slot T p)") (auto simp: valid_at_def)

lemma psl_sum_le:
  assumes "table_ok hs T"
  shows "psl_sum T \<le> MAX_PSL * length T"
proof -
  have "psl e \<le> MAX_PSL" if "e \<in> set T" for e
  proof -
    from that obtain i where "i < length T" "T ! i = e" by (auto simp: in_set_conv_nth)
    with table_psl_le [OF assms, of i] show ?thesis by (simp add: slot_def)
  qed
  then have "sum_list (map psl T) \<le> sum_list (map (\<lambda>_. MAX_PSL) T)" by (rule sum_list_mono)
  then show ?thesis by (simp add: psl_sum_def sum_list_triv mult.commute)
qed

section \<open>Steps of a probe\<close>

text \<open>
  One step of an insertion: the carried entry \<open>w\<close> is valid at \<open>p\<close> and may be placed there.
  After the step the entry carried on (the displaced one, if there is one) is in the same
  state at \<open>Suc p\<close>. \<open>carrying\<close> is the invariant of the insertion loops.
\<close>

definition carrying :: "(u32 \<Rightarrow> u32) \<Rightarrow> LookupEntry list \<Rightarrow> LookupEntry \<Rightarrow> nat \<Rightarrow> bool" where
  "carrying hs T w p \<longleftrightarrow> table_ok hs T \<and> valid_at hs (length T) w p \<and> linked T w p"

lemma carrying_place:
  assumes "carrying hs T w p" and "is_empty_lookup (slot T p)"
  shows "table_ok hs (T[p mod length T := w])"
    and "ids_of (T[p mod length T := w]) = ids_of T + {#data_id w#}"
  using assms place_ok [of hs T w p] ids_of_update [of "p mod length T" T w] valid_at_nonempty [of hs "length T" w p]
  by (auto simp: carrying_def slot_def table_ok_def)

lemma carrying_swap:
  assumes c: "carrying hs T w p" and e: "e = slot T p" "\<not> is_empty_lookup e" "psl e < psl w"
  defines "T' \<equiv> T[p mod length T := w]"
  shows "carrying hs T' (e\<lparr>psl := Suc (psl e)\<rparr>) (Suc p)"
    and "ids_of T' + {#data_id e#} = ids_of T + {#data_id w#}"
    and "psl_sum T' + psl e = psl_sum T + psl w"
proof -
  have T: "table_ok hs T" and w: "valid_at hs (length T) w p" "linked T w p"
    using c by (simp_all add: carrying_def)
  note len = table_okD(1) [OF T]
  have T': "table_ok hs T'"
    unfolding T'_def using T w e by (intro place_ok) simp_all
  have "valid_at hs (length T) e p" using table_okD(3) [OF T, of p] e by simp
  moreover have "psl e < MAX_PSL" using e w(1) by (simp add: valid_at_def)
  ultimately have "valid_at hs (length T') (e\<lparr>psl := Suc (psl e)\<rparr>) (Suc p)"
    by (simp add: T'_def valid_at_step)
  moreover have "linked T' (e\<lparr>psl := Suc (psl e)\<rparr>) (Suc p)"
    unfolding linked_def T'_def
    using valid_at_nonempty [OF w(1)] e(3) len by (intro disjI2 exI [of _ p]) (simp add: slot_update)
  ultimately show "carrying hs T' (e\<lparr>psl := Suc (psl e)\<rparr>) (Suc p)"
    using T' by (simp add: carrying_def)
  show "ids_of T' + {#data_id e#} = ids_of T + {#data_id w#}"
    using ids_of_update [of "p mod length T" T w] len e valid_at_nonempty [OF w(1)]
    by (simp add: T'_def slot_def)
  show "psl_sum T' + psl e = psl_sum T + psl w"
    using psl_sum_update [of "p mod length T" T w] len e by (simp add: T'_def slot_def)
qed

lemma carrying_step:
  assumes c: "carrying hs T w p" and e: "\<not> is_empty_lookup (slot T p)" "\<not> psl (slot T p) < psl w"
    and "psl w \<noteq> MAX_PSL"
  shows "carrying hs T (w\<lparr>psl := Suc (psl w)\<rparr>) (Suc p)"
  using assms valid_at_step [of hs "length T" w p]
  by (auto simp: carrying_def linked_def valid_at_def)

lemma carrying_start:
  assumes "table_ok hs T" and "h = hs vid"
  shows "carrying hs T ((create_lookup h)\<lparr>data_id := vid\<rparr>) (unat h)"
  using assms by (simp add: carrying_def valid_at_def linked_def create_lookup_def MAX_PSL_def)

text \<open>
  The reinsertion loop either panics or ends with a well-formed table that holds the carried
  entry as well, and its step budget is enough.
\<close>

lemma reinsert_loop_ok:
  assumes "carrying hs T w p" and "MAX_PSL * Suc (length T) < n + psl_sum T + psl w"
  shows "reinsert_loop n T (p mod length T) w = Inl Panic \<or>
    (\<exists>T'. reinsert_loop n T (p mod length T) w = Inr T' \<and> length T' = length T \<and> table_ok hs T'
      \<and> ids_of T' = ids_of T + {#data_id w#})"
  using assms
proof (induction n arbitrary: T w p)
  case 0
  have "psl_sum T \<le> MAX_PSL * length T" using 0(1) psl_sum_le by (auto simp: carrying_def)
  moreover have "psl w \<le> MAX_PSL" using 0(1) by (simp add: carrying_def valid_at_def)
  ultimately show ?case using 0(2) by simp
next
  case (Suc n)
  have len: "0 < length T" using Suc.prems(1) table_okD(1) by (auto simp: carrying_def)
  have curr: "T ! (p mod length T) = slot T p" by (simp add: slot_def)
  show ?case
  proof (cases "is_empty_lookup (slot T p)")
    case True
    with carrying_place [OF Suc.prems(1) True] show ?thesis by (simp add: curr)
  next
    case ne: False
    show ?thesis
    proof (cases "psl (slot T p) < psl w")
      case True
      define T' where "T' = T[p mod length T := w]"
      define w' where "w' = (slot T p)\<lparr>psl := Suc (psl (slot T p))\<rparr>"
      note sw = carrying_swap [OF Suc.prems(1) refl ne True, folded T'_def w'_def]
      have T': "length T' = length T" by (simp add: T'_def)
      have "psl w \<le> MAX_PSL" using Suc.prems(1) by (simp add: carrying_def valid_at_def)
      with True have "psl (slot T p) \<noteq> MAX_PSL" by simp
      then have step: "reinsert_loop (Suc n) T (p mod length T) w = reinsert_loop n T' (Suc p mod length T') w'"
        using ne True len by (simp add: curr T'_def w'_def next_slot_mod Let_def)
      have "MAX_PSL * Suc (length T') < n + psl_sum T' + psl w'"
        using Suc.prems(2) sw(3) T' by (simp add: w'_def)
      from Suc.IH [OF sw(1) this] show ?thesis
        unfolding step using T' sw(2) by (auto simp: w'_def)
    next
      case False
      show ?thesis
      proof (cases "psl w = MAX_PSL")
        case True
        with ne False show ?thesis by (simp add: curr)
      next
        case small: False
        then have step: "reinsert_loop (Suc n) T (p mod length T) w =
            reinsert_loop n T (Suc p mod length T) (w\<lparr>psl := Suc (psl w)\<rparr>)"
          using ne False len by (simp add: curr next_slot_mod)
        have "MAX_PSL * Suc (length T) < n + psl_sum T + psl (w\<lparr>psl := Suc (psl w)\<rparr>)"
          using Suc.prems(2) by simp
        from Suc.IH [OF carrying_step [OF Suc.prems(1) ne False small] this] show ?thesis
          unfolding step by simp
      qed
    qed
  qed
qed

definition pow2_size :: "LookupEntry list \<Rightarrow> bool" where
  "pow2_size T \<longleftrightarrow> (\<exists>k < 32. length T = 2 ^ k)"

lemma home_slot_length: "pow2_size T \<Longrightarrow> home_slot (length T) h = unat h mod length T"
  using home_slot_mod by (auto simp: pow2_size_def)

lemma reinsert_value_ok:
  assumes "table_ok hs T" and "pow2_size T" and "h = hs vid"
  shows "reinsert_value_into_lookup T vid h = Inl Panic \<or>
    (\<exists>T'. reinsert_value_into_lookup T vid h = Inr T' \<and> length T' = length T \<and> table_ok hs T'
      \<and> ids_of T' = ids_of T + {#vid#})"
proof -
  have "MAX_PSL * Suc (length T) < probe_budget T + psl_sum T + psl ((create_lookup h)\<lparr>data_id := vid\<rparr>)"
    by (simp add: probe_budget_def MAX_PSL_def)
  from reinsert_loop_ok [OF carrying_start [OF assms(1,3)] this] show ?thesis
    by (simp add: reinsert_value_into_lookup_def home_slot_length [OF assms(2)])
qed

text \<open>
  Below an entry on its probe sequence every slot is occupied, with at least the probe length
  that the search has there: a search never stops early.
\<close>

lemma probe_chain:
  assumes T: "table_ok hs T" and e: "\<not> is_empty_lookup (slot T (h + q))" "psl (slot T (h + q)) = q"
    and "s \<le> q"
  shows "\<not> is_empty_lookup (slot T (h + s)) \<and> s \<le> psl (slot T (h + s))"
  using assms(4)
proof (induction rule: inc_induct)
  case base
  with e show ?case by simp
next
  case (step s)
  then have "\<not> is_empty_lookup (slot T (Suc (h + s)))" "0 < psl (slot T (Suc (h + s)))" by auto
  from table_okD(4) [OF T this] step show ?case by auto
qed

lemma ids_of_slot:
  assumes "0 < length T"
  shows "vid \<in># ids_of T \<longleftrightarrow> (\<exists>p. \<not> is_empty_lookup (slot T p) \<and> data_id (slot T p) = vid)"
proof
  assume "vid \<in># ids_of T"
  then obtain i where "i < length T" "\<not> is_empty_lookup (T ! i)" "data_id (T ! i) = vid"
    by (auto simp: ids_of_def in_set_conv_nth)
  then show "\<exists>p. \<not> is_empty_lookup (slot T p) \<and> data_id (slot T p) = vid"
    by (intro exI [of _ i]) (simp add: slot_def)
next
  assume "\<exists>p. \<not> is_empty_lookup (slot T p) \<and> data_id (slot T p) = vid"
  with assms show "vid \<in># ids_of T" by (auto simp: ids_of_def slot_def)
qed

text \<open>Every id of a table sits on the probe sequence of its hash.\<close>

lemma entry_on_probe:
  assumes "table_ok hs T" and "vid \<in># ids_of T"
  obtains q where "q \<le> MAX_PSL" and "\<not> is_empty_lookup (slot T (unat (hs vid) + q))"
    and "psl (slot T (unat (hs vid) + q)) = q" and "data_id (slot T (unat (hs vid) + q)) = vid"
proof -
  obtain p where p: "\<not> is_empty_lookup (slot T p)" "data_id (slot T p) = vid"
    using assms ids_of_slot table_okD(1) by blast
  then have v: "valid_at hs (length T) (slot T p) p" using table_okD(3) [OF assms(1)] by simp
  then have "slot T (unat (hs vid) + psl (slot T p)) = slot T p"
    using p by (intro slot_cong) (simp add: valid_at_def)
  with p v show thesis by (intro that [of "psl (slot T p)"]) (simp_all add: valid_at_def)
qed

lemma ring_reach:
  assumes "i < c"
  obtains e where "p \<le> e" and "e < p + c" and "e mod c = (i :: nat)"
proof -
  let ?d = "(i + c - p mod c) mod c"
  have "p mod c < c" using assms by (intro mod_less_divisor) simp
  then have "(p + ?d) mod c = (p mod c + (i + c - p mod c)) mod c" by (metis mod_add_eq mod_mod_trivial)
  also have "p mod c + (i + c - p mod c) = i + c" using \<open>p mod c < c\<close> by simp
  finally have "(p + ?d) mod c = i" using assms by simp
  moreover have "?d < c" using assms by (intro mod_less_divisor) simp
  ultimately show thesis by (intro that [of "p + ?d"]) simp_all
qed

lemma size_ids_of: "size (ids_of T) = length (filter (\<lambda>e. \<not> is_empty_lookup e) T)"
  by (induction T) simp_all

lemma free_slot:
  assumes "size (ids_of T) < length T"
  obtains e where "p \<le> e" and "e < p + length T" and "is_empty_lookup (slot T e)"
proof -
  have "\<exists>x \<in> set T. is_empty_lookup x"
  proof (rule ccontr)
    assume "\<not> (\<exists>x \<in> set T. is_empty_lookup x)"
    then have "filter (\<lambda>e. \<not> is_empty_lookup e) T = T" by (simp add: filter_id_conv)
    with assms show False by (simp add: size_ids_of)
  qed
  then obtain i where "i < length T" "is_empty_lookup (T ! i)" by (auto simp: in_set_conv_nth)
  then show thesis using ring_reach [of i "length T" p] that by (metis slot_def)
qed

lemma table_ok_cong:
  assumes "table_ok hs T" and "\<And>vid. vid \<in># ids_of T \<Longrightarrow> hs' vid = hs vid"
  shows "table_ok hs' T"
proof -
  note D = table_okD [OF assms(1)]
  have "valid_at hs' (length T) (slot T p) p" if "\<not> is_empty_lookup (slot T p)" for p
  proof -
    have "data_id (slot T p) \<in># ids_of T" using ids_of_slot [OF D(1)] that by blast
    with D(3) [OF that] assms(2) show ?thesis by (simp add: valid_at_def)
  qed
  then show ?thesis using assms(1) by (simp add: table_ok_def)
qed

lemma slot_between:
  assumes "p < r" and "r < p + length T"
  shows "slot (T[p mod length T := w]) r = slot T r"
proof -
  have "r mod length T \<noteq> p mod length T"
  proof
    assume "r mod length T = p mod length T"
    then have "length T dvd r - p" using assms(1) by (metis less_imp_le mod_eq_dvd_iff_nat)
    with assms show False by (auto dest: dvd_imp_le)
  qed
  moreover have "0 < length T" using assms by linarith
  ultimately show ?thesis by (simp add: slot_update)
qed

section \<open>The interface of the allocator\<close>

text \<open>
  What the map relies on: \<open>live\<close> is the set of ids in use and \<open>key_of\<close> the key each stands
  for. Allocation gives an unused id and changes no other one; the iterator visits every id
  in use once; a value is equal to a key of the map exactly when it is the value of that
  key. \<open>hash_key\<close> is the hash the callers pass along with a key.
\<close>

locale id_alloc =
  fixes A :: "('k, 'v, 'a) Alloc"
    and live :: "'a \<Rightarrow> u32 set"
    and key_of :: "'a \<Rightarrow> u32 \<Rightarrow> 'k"
    and hash_key :: "'k \<Rightarrow> u32"
    and alloc_ok :: "'a \<Rightarrow> bool"
    and key_ok :: "'k \<Rightarrow> bool"
  assumes value_law: "alloc_ok a \<Longrightarrow> vid \<in> live a \<Longrightarrow>
      \<exists>v. value_from_id A a vid = Inr v \<and> hash_of A v = hash_key (key_of a vid)
        \<and> (\<forall>k. key_ok k \<longrightarrow> is_equal_to_key A v k (hash_key k) = (k = key_of a vid))"
    and alloc_law: "alloc_ok a \<Longrightarrow> key_ok k \<Longrightarrow>
      alloc_value A a k (hash_key k) = Inl Panic \<or>
      (\<exists>a' vid. alloc_value A a k (hash_key k) = Inr (a', vid) \<and> alloc_ok a' \<and> vid \<notin> live a
        \<and> live a' = insert vid (live a) \<and> key_of a' vid = k \<and> (\<forall>j\<in>live a. key_of a' j = key_of a j))"
    and values_law: "alloc_ok a \<Longrightarrow>
      \<exists>ids. alloc_values A a = Inr ids \<and> finite (live a) \<and> mset ids = mset_set (live a)"
begin

definition id_hash :: "'a \<Rightarrow> u32 \<Rightarrow> u32" where
  "id_hash a vid = hash_key (key_of a vid)"

definition map_ok :: "'a IdMap \<Rightarrow> bool" where
  "map_ok m \<longleftrightarrow> alloc_ok (m_alloc m) \<and> table_ok (id_hash (m_alloc m)) (m_lookups m)
     \<and> ids_of (m_lookups m) = mset_set (live (m_alloc m)) \<and> pow2_size (m_lookups m)
     \<and> inj_on (key_of (m_alloc m)) (live (m_alloc m))
     \<and> m_lookup_commit m \<le> m_lookup_capacity m \<and> (\<exists>q < 32. m_lookup_capacity m = 2 ^ q)"

lemma is_equal_lookup_live:
  assumes "alloc_ok a" and "data_id e \<in> live a" and "key_ok k"
  shows "is_equal_lookup A a e w k (hash_key k) =
    Inr (hash_fingerprint e = hash_fingerprint w \<and> psl e = psl w \<and> key_of a (data_id e) = k)"
proof -
  obtain v where "value_from_id A a (data_id e) = Inr v"
    "is_equal_to_key A v k (hash_key k) = (k = key_of a (data_id e))"
    using value_law [OF assms(1,2)] assms(3) by blast
  then show ?thesis by (auto simp: is_equal_lookup_def)
qed

lemma slot_live:
  assumes "0 < length T" and "ids_of T = mset_set (live a)" and "alloc_ok a" and "\<not> is_empty_lookup (slot T p)"
  shows "data_id (slot T p) \<in> live a"
  using ids_of_slot [of T "data_id (slot T p)"] assms values_law [OF assms(3)] by auto

lemma find_loop_absent:
  assumes T: "table_ok hs T" "ids_of T = mset_set (live a)" and a: "alloc_ok a"
    and k: "key_ok k" "k \<notin> key_of a ` live a"
    and "psl w + n = Suc MAX_PSL" and "psl w \<le> MAX_PSL"
  shows "find_by_key_loop A a T k (hash_key k) n (p mod length T) w = Inr None"
  using assms(6,7)
proof (induction n arbitrary: p w)
  case 0
  then show ?case by simp
next
  case (Suc n)
  have len: "0 < length T" by (rule table_okD(1) [OF T(1)])
  have eq: "is_equal_lookup A a (slot T p) w k (hash_key k) = Inr False" if "\<not> is_empty_lookup (slot T p)"
    using is_equal_lookup_live [OF a slot_live [OF len T(2) a that] k(1)] slot_live [OF len T(2) a that] k(2)
    by auto
  have "find_by_key_loop A a T k (hash_key k) n (Suc p mod length T) (w\<lparr>psl := psl w + 1\<rparr>) = Inr None"
    if "psl w \<noteq> MAX_PSL"
    using Suc that by (intro Suc.IH) simp_all
  then show ?case
    using len eq by (simp add: Let_def next_slot_mod flip: slot_def)
qed

lemma find_loop_present:
  assumes T: "table_ok hs T" "ids_of T = mset_set (live a)" and a: "alloc_ok a" "inj_on (key_of a) (live a)"
    and k: "key_ok k" "vid \<in> live a" "key_of a vid = k" and hs: "hs = id_hash a"
    and q: "q \<le> MAX_PSL" "\<not> is_empty_lookup (slot T (unat (hash_key k) + q))"
      "psl (slot T (unat (hash_key k) + q)) = q" "data_id (slot T (unat (hash_key k) + q)) = vid"
    and "psl w + n = Suc MAX_PSL" and "psl w \<le> q" and "hash_fingerprint w = hash_fingerprint (create_lookup (hash_key k))"
  shows "\<exists>i < length T. find_by_key_loop A a T k (hash_key k) n ((unat (hash_key k) + psl w) mod length T) w = Inr (Some i)
    \<and> \<not> is_empty_lookup (T ! i) \<and> data_id (T ! i) = vid"
  using assms(13-15)
proof (induction n arbitrary: w)
  case 0
  with q(1) show ?case by simp
next
  case (Suc n)
  let ?p = "unat (hash_key k) + psl w"
  have len: "0 < length T" by (rule table_okD(1) [OF T(1)])
  have chain: "\<not> is_empty_lookup (slot T ?p)" "psl w \<le> psl (slot T ?p)"
    using probe_chain [OF T(1) q(2,3) Suc.prems(2)] by auto
  note eq = is_equal_lookup_live [OF a(1) slot_live [OF len T(2) a(1) chain(1)] k(1), of w]
  show ?case
  proof (cases "hash_fingerprint (slot T ?p) = hash_fingerprint w \<and> psl (slot T ?p) = psl w
      \<and> key_of a (data_id (slot T ?p)) = k")
    case True
    then have "data_id (slot T ?p) = vid"
      using a(2) k slot_live [OF len T(2) a(1) chain(1)] by (metis inj_onD)
    with True chain eq len show ?thesis
      by (intro exI [of _ "?p mod length T"]) (simp add: slot_def)
  next
    case False
    have less: "psl w < q"
    proof (rule ccontr)
      assume "\<not> psl w < q"
      then have "psl w = q" using Suc.prems(2) by simp
      moreover have "valid_at hs (length T) (slot T ?p) ?p" using table_okD(3) [OF T(1) chain(1)] .
      ultimately show False
        using False q k Suc.prems(3) by (auto simp: valid_at_def hs id_hash_def)
    qed
    have neq: "is_equal_lookup A a (slot T ?p) w k (hash_key k) = Inr False"
      using eq False by auto
    have "find_by_key_loop A a T k (hash_key k) (Suc n) (?p mod length T) w =
        find_by_key_loop A a T k (hash_key k) n (Suc ?p mod length T) (w\<lparr>psl := psl w + 1\<rparr>)"
      using q(1) less chain neq len by (simp add: Let_def next_slot_mod flip: slot_def)
    moreover have "\<exists>i < length T. find_by_key_loop A a T k (hash_key k) n
        ((unat (hash_key k) + psl (w\<lparr>psl := psl w + 1\<rparr>)) mod length T) (w\<lparr>psl := psl w + 1\<rparr>) = Inr (Some i)
      \<and> \<not> is_empty_lookup (T ! i) \<and> data_id (T ! i) = vid"
      using Suc.prems less by (intro Suc.IH) simp_all
    ultimately show ?thesis by simp
  qed
qed

text \<open>\<open>try_id_from\<close> answers exactly for the keys that have an id, with that id.\<close>

lemma try_id_from_ok:
  assumes m: "map_ok m" and k: "key_ok k"
  shows "\<exists>r. try_id_from A m k (hash_key k) = Inr r
    \<and> (\<forall>vid. r = Some vid \<longleftrightarrow> vid \<in> live (m_alloc m) \<and> key_of (m_alloc m) vid = k)"
proof -
  let ?a = "m_alloc m" and ?T = "m_lookups m"
  have T: "table_ok (id_hash ?a) ?T" "ids_of ?T = mset_set (live ?a)" "alloc_ok ?a" "inj_on (key_of ?a) (live ?a)"
    and home: "home_slot (length ?T) (hash_key k) = unat (hash_key k) mod length ?T"
    using m home_slot_length by (auto simp: map_ok_def)
  show ?thesis
  proof (cases "k \<in> key_of ?a ` live ?a")
    case False
    have "find_by_key A m k (hash_key k) = Inr None"
      unfolding find_by_key_def home
      using T k False by (intro find_loop_absent) (simp_all add: create_lookup_def)
    with False show ?thesis by (auto simp: try_id_from_def)
  next
    case True
    then obtain vid where vid: "vid \<in> live ?a" "key_of ?a vid = k" by auto
    then have "vid \<in># ids_of ?T" using T(2) values_law [OF T(3)] by auto
    then obtain q where q: "q \<le> MAX_PSL" "\<not> is_empty_lookup (slot ?T (unat (hash_key k) + q))"
      "psl (slot ?T (unat (hash_key k) + q)) = q" "data_id (slot ?T (unat (hash_key k) + q)) = vid"
      using entry_on_probe [OF T(1), of vid] vid by (metis id_hash_def)
    obtain i where "find_by_key A m k (hash_key k) = Inr (Some i)" "data_id (?T ! i) = vid"
      using find_loop_present [OF T k vid refl q, of "create_lookup (hash_key k)" "Suc MAX_PSL"]
      unfolding find_by_key_def home by (auto simp: create_lookup_def)
    then show ?thesis
      using vid T(4) by (auto simp: try_id_from_def dest: inj_onD)
  qed
qed

lemma id_from_loop_present:
  assumes T: "table_ok hs T" "ids_of T = mset_set (live a)" and a: "alloc_ok a" "inj_on (key_of a) (live a)"
    and k: "key_ok k" "vid \<in> live a" "key_of a vid = k" and hs: "hs = id_hash a"
    and q: "q \<le> MAX_PSL" "\<not> is_empty_lookup (slot T (unat (hash_key k) + q))"
      "psl (slot T (unat (hash_key k) + q)) = q" "data_id (slot T (unat (hash_key k) + q)) = vid"
    and "MAX_PSL < psl w + n" and "psl w \<le> q" and "hash_fingerprint w = hash_fingerprint (create_lookup (hash_key k))"
  shows "id_from_loop A k (hash_key k) n T a ((unat (hash_key k) + psl w) mod length T) w True d = Inr (T, a, Found vid)"
  using assms(13-15)
proof (induction n arbitrary: w)
  case 0
  with q(1) show ?case by simp
next
  case (Suc n)
  let ?p = "unat (hash_key k) + psl w"
  have len: "0 < length T" by (rule table_okD(1) [OF T(1)])
  have chain: "\<not> is_empty_lookup (slot T ?p)" "psl w \<le> psl (slot T ?p)"
    using probe_chain [OF T(1) q(2,3) Suc.prems(2)] by auto
  note eq = is_equal_lookup_live [OF a(1) slot_live [OF len T(2) a(1) chain(1)] k(1), of w]
  show ?case
  proof (cases "hash_fingerprint (slot T ?p) = hash_fingerprint w \<and> psl (slot T ?p) = psl w
      \<and> key_of a (data_id (slot T ?p)) = k")
    case True
    then have "data_id (slot T ?p) = vid"
      using a(2) k slot_live [OF len T(2) a(1) chain(1)] by (metis inj_onD)
    with True chain eq len show ?thesis by (simp flip: slot_def)
  next
    case False
    have less: "psl w < q"
    proof (rule ccontr)
      assume "\<not> psl w < q"
      then have "psl w = q" using Suc.prems(2) by simp
      moreover have "valid_at hs (length T) (slot T ?p) ?p" using table_okD(3) [OF T(1) chain(1)] .
      ultimately show False
        using False q k Suc.prems(3) by (auto simp: valid_at_def hs id_hash_def)
    qed
    have neq: "is_equal_lookup A a (slot T ?p) w k (hash_key k) = Inr False"
      using eq False by auto
    have "id_from_loop A k (hash_key k) (Suc n) T a (?p mod length T) w True d =
        id_from_loop A k (hash_key k) n T a (Suc ?p mod length T) (w\<lparr>psl := psl w + 1\<rparr>) True d"
      using q(1) less chain neq len by (simp add: Let_def next_slot_mod flip: slot_def)
    moreover have "id_from_loop A k (hash_key k) n T a
        ((unat (hash_key k) + psl (w\<lparr>psl := psl w + 1\<rparr>)) mod length T) (w\<lparr>psl := psl w + 1\<rparr>) True d
      = Inr (T, a, Found vid)"
      using Suc.prems less by (intro Suc.IH) simp_all
    ultimately show ?thesis by simp
  qed
qed

text \<open>
  The second phase of an insertion, after the new value has an id: it carries displaced
  entries on. \<open>e\<close> is a free slot ahead, and the new id is not on the way.
\<close>

lemma id_from_loop_carry:
  assumes "carrying hs T w p" and "ids_of T + {#data_id w#} = mset_set (live a)" and "alloc_ok a"
    and "inj_on (key_of a) (live a)" and "key_ok k" and "new \<in> live a" and "key_of a new = k"
    and "p \<le> e" and "e < p + length T" and "is_empty_lookup (slot T e)" and "e < p + n"
    and "\<And>r. p \<le> r \<Longrightarrow> r \<le> e \<Longrightarrow> \<not> is_empty_lookup (slot T r) \<Longrightarrow> data_id (slot T r) \<noteq> new"
  shows "\<exists>T' x. id_from_loop A k (hash_key k) n T a (p mod length T) w False new = Inr (T', a, x)
    \<and> length T' = length T
    \<and> (x = Full False new \<or> (x = Found new \<and> table_ok hs T' \<and> ids_of T' = mset_set (live a)))"
  using assms
proof (induction n arbitrary: T w p)
  case 0
  then show ?case by simp
next
  case (Suc n)
  have T: "table_ok hs T" and len: "0 < length T" using Suc.prems(1) table_okD(1) by (auto simp: carrying_def)
  have fin: "finite (live a)" using values_law [OF Suc.prems(3)] by blast
  show ?case
  proof (cases "is_empty_lookup (slot T p)")
    case True
    with carrying_place [OF Suc.prems(1) True] Suc.prems(2) show ?thesis
      by (simp add: Let_def create_if_needed_def flip: slot_def)
  next
    case ne: False
    then have "data_id (slot T p) \<in># ids_of T" using ids_of_slot [OF len] by blast
    then have "data_id (slot T p) \<in># ids_of T + {#data_id w#}" by simp
    then have inlive: "data_id (slot T p) \<in> live a" unfolding Suc.prems(2) using fin by simp
    have "data_id (slot T p) \<noteq> new" using Suc.prems(8,12) ne by simp
    then have "key_of a (data_id (slot T p)) \<noteq> k" using Suc.prems(4,6,7) inlive by (auto dest: inj_onD)
    then have neq: "is_equal_lookup A a (slot T p) w k (hash_key k) = Inr False"
      using is_equal_lookup_live [OF Suc.prems(3) inlive Suc.prems(5)] by simp
    have "p \<noteq> e" using ne Suc.prems(10) by auto
    then have ahead: "Suc p \<le> e" using Suc.prems(8) by simp
    show ?thesis
    proof (cases "psl (slot T p) < psl w")
      case True
      define T' where "T' = T[p mod length T := w]"
      define w' where "w' = (slot T p)\<lparr>psl := Suc (psl (slot T p))\<rparr>"
      note sw = carrying_swap [OF Suc.prems(1) refl ne True, folded T'_def w'_def]
      have T': "length T' = length T" by (simp add: T'_def)
      have keep: "slot T' r = slot T r" if "Suc p \<le> r" "r \<le> e" for r
        unfolding T'_def using that Suc.prems(9) by (intro slot_between) simp_all
      have "psl w \<le> MAX_PSL" using Suc.prems(1) by (simp add: carrying_def valid_at_def)
      with True have "psl (slot T p) \<noteq> MAX_PSL" by simp
      then have step: "id_from_loop A k (hash_key k) (Suc n) T a (p mod length T) w False new
          = id_from_loop A k (hash_key k) n T' a (Suc p mod length T') w' False new"
        using ne True len neq
        by (simp add: T'_def w'_def next_slot_mod Let_def create_if_needed_def flip: slot_def)
      have "\<exists>T'' x. id_from_loop A k (hash_key k) n T' a (Suc p mod length T') w' False new = Inr (T'', a, x)
        \<and> length T'' = length T'
        \<and> (x = Full False new \<or> (x = Found new \<and> table_ok hs T'' \<and> ids_of T'' = mset_set (live a)))"
      proof (rule Suc.IH)
        show "ids_of T' + {#data_id w'#} = mset_set (live a)"
          using sw(2) Suc.prems(2) by (simp add: w'_def)
      qed (use sw(1) Suc.prems ahead keep T' in auto)
      then show ?thesis unfolding step T' .
    next
      case False
      show ?thesis
      proof (cases "psl w = MAX_PSL")
        case True
        with ne False neq show ?thesis by (simp add: Let_def flip: slot_def)
      next
        case small: False
        have step: "id_from_loop A k (hash_key k) (Suc n) T a (p mod length T) w False new
            = id_from_loop A k (hash_key k) n T a (Suc p mod length T) (w\<lparr>psl := Suc (psl w)\<rparr>) False new"
          using ne False len neq small by (simp add: next_slot_mod Let_def flip: slot_def)
        have "\<exists>T'' x. id_from_loop A k (hash_key k) n T a (Suc p mod length T) (w\<lparr>psl := Suc (psl w)\<rparr>) False new
            = Inr (T'', a, x) \<and> length T'' = length T
          \<and> (x = Full False new \<or> (x = Found new \<and> table_ok hs T'' \<and> ids_of T'' = mset_set (live a)))"
          by (rule Suc.IH) (use carrying_step [OF Suc.prems(1) ne False small] Suc.prems ahead in auto)
        then show ?thesis unfolding step .
      qed
    qed
  qed
qed

definition grown :: "'a \<Rightarrow> 'k \<Rightarrow> 'a \<Rightarrow> u32 \<Rightarrow> bool" where
  "grown a k a' vid \<longleftrightarrow> alloc_ok a' \<and> vid \<notin> live a \<and> live a' = insert vid (live a)
     \<and> key_of a' vid = k \<and> (\<forall>j\<in>live a. key_of a' j = key_of a j)"

lemma grown_inj:
  assumes "grown a k a' vid" and "inj_on (key_of a) (live a)" and "k \<notin> key_of a ` live a"
  shows "inj_on (key_of a') (live a')"
proof -
  have "inj_on (key_of a') (live a)"
    using assms(1,2) by (auto simp: grown_def inj_on_def)
  moreover have "key_of a' vid \<notin> key_of a' ` live a"
    using assms(1,3) by (auto simp: grown_def)
  ultimately show ?thesis using assms(1) by (auto simp: grown_def inj_on_insert)
qed

text \<open>The first phase, for a key without an id: up to the allocation.\<close>

lemma id_from_loop_absent:
  assumes T: "table_ok (id_hash a) T" "ids_of T = mset_set (live a)" and a: "alloc_ok a" "inj_on (key_of a) (live a)"
    and k: "key_ok k" "k \<notin> key_of a ` live a"
    and e: "is_empty_lookup (slot T e)"
    and "p \<le> e" and "e < p + length T" and "e < p + n" and "linked T w p" and "psl w \<le> MAX_PSL"
    and "(unat (hash_key k) + psl w) mod length T = p mod length T"
    and "hash_fingerprint w = hash_fingerprint (create_lookup (hash_key k))"
  shows "id_from_loop A k (hash_key k) n T a (p mod length T) w True d = Inl Panic
    \<or> id_from_loop A k (hash_key k) n T a (p mod length T) w True d = Inr (T, a, Full True d)
    \<or> (\<exists>T' a' x vid. id_from_loop A k (hash_key k) n T a (p mod length T) w True d = Inr (T', a', x)
        \<and> grown a k a' vid \<and> length T' = length T
        \<and> (x = Full False vid \<or> (x = Found vid \<and> table_ok (id_hash a') T' \<and> ids_of T' = mset_set (live a'))))"
  using assms(8-14)
proof (induction n arbitrary: p w)
  case 0
  then show ?case by simp
next
  case (Suc n)
  have len: "0 < length T" by (rule table_okD(1) [OF T(1)])
  have fin: "finite (live a)" using values_law [OF a(1)] by blast
  consider "alloc_value A a k (hash_key k) = Inl Panic"
    | a' vid where "alloc_value A a k (hash_key k) = Inr (a', vid)" "grown a k a' vid"
    using alloc_law [OF a(1) k(1)] unfolding grown_def by blast
  note alloc_cases = this
  have neq: "is_equal_lookup A a (slot T p) w k (hash_key k) = Inr False" if "\<not> is_empty_lookup (slot T p)"
    using is_equal_lookup_live [OF a(1) slot_live [OF len T(2) a(1) that] k(1)]
      slot_live [OF len T(2) a(1) that] k(2) by auto
  have carry: "carrying (id_hash a') T (w\<lparr>data_id := vid\<rparr>) p" if g: "grown a k a' vid" for a' vid
  proof -
    have "id_hash a' j = id_hash a j" if "j \<in># ids_of T" for j
      using that T(2) fin g by (simp add: id_hash_def grown_def)
    then have "table_ok (id_hash a') T" by (rule table_ok_cong [OF T(1)])
    then show ?thesis
      using Suc.prems g by (simp add: carrying_def valid_at_def linked_def id_hash_def grown_def)
  qed
  have insert_ids: "ids_of T + {#vid#} = mset_set (live a')" if "grown a k a' vid" for a' vid
    using that T(2) fin by (simp add: grown_def)
  show ?case
  proof (cases "is_empty_lookup (slot T p)")
    case True
    from alloc_cases show ?thesis
    proof cases
      case 1
      with True show ?thesis by (simp add: Let_def create_if_needed_def flip: slot_def)
    next
      case (2 a' vid)
      have run: "id_from_loop A k (hash_key k) (Suc n) T a (p mod length T) w True d =
          Inr (T[p mod length T := w\<lparr>data_id := vid\<rparr>], a', Found vid)"
        using True 2(1) by (simp add: Let_def create_if_needed_def flip: slot_def)
      from carrying_place [OF carry [OF 2(2)] True] insert_ids [OF 2(2)]
      have "table_ok (id_hash a') (T[p mod length T := w\<lparr>data_id := vid\<rparr>])"
        "ids_of (T[p mod length T := w\<lparr>data_id := vid\<rparr>]) = mset_set (live a')" by simp_all
      with run 2(2) show ?thesis by fastforce
    qed
  next
    case ne: False
    have "p \<noteq> e" using ne e by auto
    then have ahead: "Suc p \<le> e" using Suc.prems(1) by simp
    show ?thesis
    proof (cases "psl (slot T p) < psl w")
      case True
      then have notmax: "psl (slot T p) \<noteq> MAX_PSL" using Suc.prems(5) by simp
      from alloc_cases show ?thesis
      proof cases
        case 1
        with ne True neq show ?thesis by (simp add: Let_def create_if_needed_def flip: slot_def)
      next
        case (2 a' vid)
        let ?w = "w\<lparr>data_id := vid\<rparr>"
        define T' where "T' = T[p mod length T := ?w]"
        define w' where "w' = (slot T p)\<lparr>psl := Suc (psl (slot T p))\<rparr>"
        have "psl (slot T p) < psl ?w" using True by simp
        note sw = carrying_swap [OF carry [OF 2(2)] refl ne this, folded T'_def w'_def]
        have T': "length T' = length T" by (simp add: T'_def)
        have keep: "slot T' r = slot T r" if "Suc p \<le> r" "r \<le> e" for r
          unfolding T'_def using that Suc.prems(2) by (intro slot_between) simp_all
        have run: "id_from_loop A k (hash_key k) (Suc n) T a (p mod length T) w True d
            = id_from_loop A k (hash_key k) n T' a' (Suc p mod length T') w' False vid"
          using ne True len neq notmax 2(1)
          by (simp add: T'_def w'_def next_slot_mod Let_def create_if_needed_def flip: slot_def)
        have "\<exists>T'' x. id_from_loop A k (hash_key k) n T' a' (Suc p mod length T') w' False vid = Inr (T'', a', x)
          \<and> length T'' = length T'
          \<and> (x = Full False vid \<or> (x = Found vid \<and> table_ok (id_hash a') T'' \<and> ids_of T'' = mset_set (live a')))"
        proof (rule id_from_loop_carry [where e = e])
          show "ids_of T' + {#data_id w'#} = mset_set (live a')"
            using sw(2) insert_ids [OF 2(2)] by (simp add: w'_def)
          show "inj_on (key_of a') (live a')" by (rule grown_inj [OF 2(2) a(2) k(2)])
          show "carrying (id_hash a') T' w' (Suc p)" by (rule sw(1))
          show "data_id (slot T' r) \<noteq> vid"
            if "Suc p \<le> r" "r \<le> e" "\<not> is_empty_lookup (slot T' r)" for r
            using that slot_live [OF len T(2) a(1), of r] 2(2) keep [of r] by (auto simp: grown_def)
          show "is_empty_lookup (slot T' e)" using e keep [of e] ahead by simp
        qed (use 2(2) k(1) Suc.prems ahead T' in \<open>auto simp: grown_def\<close>)
        then show ?thesis unfolding run using 2(2) T' by metis
      qed
    next
      case False
      show ?thesis
      proof (cases "psl w = MAX_PSL")
        case True
        with ne False neq show ?thesis by (simp add: Let_def flip: slot_def)
      next
        case small: False
        let ?w = "w\<lparr>psl := Suc (psl w)\<rparr>"
        have step: "id_from_loop A k (hash_key k) (Suc n) T a (p mod length T) w True d
            = id_from_loop A k (hash_key k) n T a (Suc p mod length T) ?w True d"
          using ne False len neq small by (simp add: next_slot_mod Let_def flip: slot_def)
        have "linked T ?w (Suc p)" using ne False by (auto simp: linked_def)
        moreover have "(unat (hash_key k) + psl ?w) mod length T = Suc p mod length T"
          using Suc.prems(6) by simp (metis mod_Suc_eq)
        ultimately show ?thesis
          unfolding step using Suc.prems ahead small by (intro Suc.IH) simp_all
      qed
    qed
  qed
qed

lemma reinsert_all_ok:
  assumes "table_ok (id_hash a) T" and "pow2_size T" and "alloc_ok a" and "set ids \<subseteq> live a"
  shows "reinsert_all A a T ids = Inl Panic \<or>
    (\<exists>T'. reinsert_all A a T ids = Inr T' \<and> length T' = length T \<and> table_ok (id_hash a) T'
      \<and> ids_of T' = ids_of T + mset ids)"
  using assms
proof (induction ids arbitrary: T)
  case Nil
  then show ?case by simp
next
  case (Cons vid ids)
  obtain v where v: "value_from_id A a vid = Inr v" "hash_of A v = id_hash a vid"
    using value_law [of a vid] Cons.prems by (auto simp: id_hash_def)
  from reinsert_value_ok [OF Cons.prems(1,2) refl, of vid]
  show ?case
  proof (elim disjE exE conjE)
    fix T' assume T': "reinsert_value_into_lookup T vid (id_hash a vid) = Inr T'" "length T' = length T"
      "table_ok (id_hash a) T'" "ids_of T' = ids_of T + {#vid#}"
    have "pow2_size T'" using Cons.prems(2) T'(2) by (simp add: pow2_size_def)
    from Cons.IH [OF T'(3) this Cons.prems(3)] Cons.prems(4) T' v show ?thesis by auto
  qed (use v in auto)
qed

lemma rehash_ok:
  assumes "alloc_ok (m_alloc m)" and "inj_on (key_of (m_alloc m)) (live (m_alloc m))"
    and "pow2_size (m_lookups m)" and "m_lookup_commit m \<le> m_lookup_capacity m"
    and "\<exists>q < 32. m_lookup_capacity m = 2 ^ q"
  shows "rehash A m = Inl Panic \<or> (\<exists>m'. rehash A m = Inr m' \<and> map_ok m' \<and> m_alloc m' = m_alloc m
    \<and> m_lookup_commit m < m_lookup_commit m' \<and> m_lookup_capacity m' = m_lookup_capacity m)"
proof (cases "m_lookup_commit m = m_lookup_capacity m \<or> \<not> lookup_os m (2 * m_lookup_commit m)")
  case True
  then show ?thesis by (auto simp: rehash_def)
next
  case False
  obtain k q where kq: "k < 32" "m_lookup_commit m = 2 ^ k" "q < 32" "m_lookup_capacity m = 2 ^ q"
    using assms(3,5) by (auto simp: pow2_size_def)
  with False assms(4) have "(2::nat) ^ k < 2 ^ q" by simp
  then have "k < q" by simp
  define T where "T = replicate (2 * m_lookup_commit m) empty_lookup"
  have T: "table_ok (id_hash (m_alloc m)) T" "pow2_size T" "ids_of T = {#}" "length T = 2 ^ Suc k"
    using kq \<open>k < q\<close> table_ok_empty [of "2 * m_lookup_commit m"]
    by (auto simp: T_def pow2_size_def ids_of_def intro!: exI [of _ "Suc k"])
  obtain ids where ids: "alloc_values A (m_alloc m) = Inr ids" "finite (live (m_alloc m))"
    "mset ids = mset_set (live (m_alloc m))"
    using values_law [OF assms(1)] by blast
  then have "set ids \<subseteq> live (m_alloc m)" by (metis finite_set_mset_mset_set order_refl set_mset_mset)
  from reinsert_all_ok [OF T(1,2) assms(1) this]
  show ?thesis
  proof (elim disjE exE conjE)
    fix T' assume T': "reinsert_all A (m_alloc m) T ids = Inr T'" "length T' = length T"
      "table_ok (id_hash (m_alloc m)) T'" "ids_of T' = ids_of T + mset ids"
    have "rehash A m = Inr (m\<lparr>m_lookups := T'\<rparr>)"
      using False ids(1) T'(1) by (simp add: rehash_def T_def)
    moreover have "(2::nat) ^ Suc k \<le> 2 ^ q" using \<open>k < q\<close> by (intro power_increasing) simp_all
    ultimately show ?thesis
      using T' T ids(3) assms(1,2) kq \<open>k < q\<close> by (auto simp: map_ok_def pow2_size_def)
  qed (use False ids in \<open>simp add: rehash_def T_def\<close>)
qed

lemma map_ok_rehash:
  assumes "map_ok m"
  shows "rehash A m = Inl Panic \<or> (\<exists>m'. rehash A m = Inr m' \<and> map_ok m' \<and> m_alloc m' = m_alloc m
    \<and> m_lookup_commit m < m_lookup_commit m' \<and> m_lookup_capacity m' = m_lookup_capacity m)"
  by (rule rehash_ok) (use assms in \<open>auto simp: map_ok_def\<close>)

text \<open>
  The contract of insertion: afterwards the key has the returned id, every key that had an
  id keeps it, and no other key gets one.
\<close>

definition interned :: "'a IdMap \<Rightarrow> 'k \<Rightarrow> 'a IdMap \<Rightarrow> u32 \<Rightarrow> bool" where
  "interned m k m' vid \<longleftrightarrow> map_ok m' \<and> live (m_alloc m') = insert vid (live (m_alloc m))
     \<and> key_of (m_alloc m') vid = k \<and> (\<forall>j\<in>live (m_alloc m). key_of (m_alloc m') j = key_of (m_alloc m) j)
     \<and> m_lookup_commit m \<le> m_lookup_commit m' \<and> m_lookup_capacity m' = m_lookup_capacity m"

lemma id_from_calls_ok:
  assumes "map_ok m" and "key_ok k" and "card (live (m_alloc m)) < m_lookup_commit m"
    and "m_lookup_capacity m - m_lookup_commit m < n"
  shows "id_from_calls n A m k (hash_key k) = Inl Panic
    \<or> (\<exists>m' vid. id_from_calls n A m k (hash_key k) = Inr (m', vid) \<and> interned m k m' vid)"
  using assms
proof (induction n arbitrary: m)
  case 0
  then show ?case by simp
next
  case (Suc n)
  define m0 where "m0 = (if m_lookup_used m * 4 > of_nat (m_lookup_commit m) * 3 then rehash A m else Inr m)"
  consider "m0 = Inl Panic" | m1 where "m0 = Inr m1" "map_ok m1" "m_alloc m1 = m_alloc m"
    "m_lookup_commit m \<le> m_lookup_commit m1" "m_lookup_capacity m1 = m_lookup_capacity m"
  proof (cases "m_lookup_used m * 4 > of_nat (m_lookup_commit m) * 3")
    case True
    then have "m0 = rehash A m" by (simp add: m0_def)
    with map_ok_rehash [OF Suc.prems(1)] that show thesis by (metis less_imp_le)
  next
    case False
    then have "m0 = Inr m" by (simp add: m0_def)
    then show thesis using that(2) [of m] Suc.prems(1) by simp
  qed
  then show ?case
  proof cases
    case 1
    then show ?thesis unfolding id_from_calls.simps m0_def [symmetric] by simp
  next
    case (2 m1)
    let ?a = "m_alloc m1" and ?T = "m_lookups m1"
    let ?w = "create_lookup (hash_key k)"
    have T: "table_ok (id_hash ?a) ?T" "ids_of ?T = mset_set (live ?a)" "alloc_ok ?a" "inj_on (key_of ?a) (live ?a)"
      "pow2_size ?T" and cap: "m_lookup_commit m1 \<le> m_lookup_capacity m1" "\<exists>q < 32. m_lookup_capacity m1 = 2 ^ q"
      using 2(2) by (simp_all add: map_ok_def)
    define r where "r = id_from_loop A k (hash_key k) (probe_budget ?T) ?T ?a
        (unat (hash_key k) mod length ?T) ?w True 0"
    have run: "id_from_calls (Suc n) A m k (hash_key k) = obind r (\<lambda>(T, a, e).
          let m = m1\<lparr>m_lookups := T, m_alloc := a\<rparr> in
          case e of Found vid \<Rightarrow> Inr (m, vid)
          | Full needs new \<Rightarrow> obind (rehash A m) (\<lambda>m. if needs then id_from_calls n A m k (hash_key k) else Inr (m, new)))"
      unfolding id_from_calls.simps m0_def [symmetric] 2(1) obind_Inr home_slot_length [OF T(5)] r_def ..
    show ?thesis
    proof (cases "k \<in> key_of ?a ` live ?a")
      case True
      then obtain vid where vid: "vid \<in> live ?a" "key_of ?a vid = k" by auto
      then have "vid \<in># ids_of ?T" using T(2) values_law [OF T(3)] by auto
      then obtain q where q: "q \<le> MAX_PSL" "\<not> is_empty_lookup (slot ?T (unat (hash_key k) + q))"
        "psl (slot ?T (unat (hash_key k) + q)) = q" "data_id (slot ?T (unat (hash_key k) + q)) = vid"
        using entry_on_probe [OF T(1), of vid] vid by (metis id_hash_def)
      have "r = Inr (?T, ?a, Found vid)"
        using id_from_loop_present [OF T(1-4) Suc.prems(2) vid refl q, of ?w "probe_budget ?T" 0]
        by (simp add: r_def create_lookup_def probe_budget_def MAX_PSL_def)
      then have "id_from_calls (Suc n) A m k (hash_key k) = Inr (m1\<lparr>m_lookups := ?T, m_alloc := ?a\<rparr>, vid)"
        unfolding run by simp
      moreover have "m1\<lparr>m_lookups := ?T, m_alloc := ?a\<rparr> = m1" by simp
      ultimately have "id_from_calls (Suc n) A m k (hash_key k) = Inr (m1, vid)" by (simp only:)
      then show ?thesis using 2 vid by (auto simp: interned_def)
    next
      case False
      have "size (ids_of ?T) < length ?T"
        using T(2) Suc.prems(3) 2(3,4) by simp
      then obtain e where e: "unat (hash_key k) \<le> e" "e < unat (hash_key k) + length ?T" "is_empty_lookup (slot ?T e)"
        by (rule free_slot)
      have "r = Inl Panic \<or> r = Inr (?T, ?a, Full True 0)
        \<or> (\<exists>T' a' x vid. r = Inr (T', a', x) \<and> grown ?a k a' vid \<and> length T' = length ?T
          \<and> (x = Full False vid \<or> (x = Found vid \<and> table_ok (id_hash a') T' \<and> ids_of T' = mset_set (live a'))))"
        unfolding r_def
        by (rule id_from_loop_absent [OF T(1-4) Suc.prems(2) False e(3) e(1,2)])
          (use e(2) in \<open>simp_all add: create_lookup_def linked_def probe_budget_def\<close>)
      then show ?thesis
      proof (elim disjE exE conjE)
        assume "r = Inl Panic"
        then show ?thesis unfolding run by simp
      next
        assume "r = Inr (?T, ?a, Full True 0)"
        then have run': "id_from_calls (Suc n) A m k (hash_key k) =
            obind (rehash A m1) (\<lambda>m. id_from_calls n A m k (hash_key k))"
          unfolding run by simp
        from map_ok_rehash [OF 2(2)] show ?thesis
        proof (elim disjE exE conjE)
          fix m' assume m': "rehash A m1 = Inr m'" "map_ok m'" "m_alloc m' = m_alloc m1"
            "m_lookup_commit m1 < m_lookup_commit m'" "m_lookup_capacity m' = m_lookup_capacity m1"
          have "m_lookup_commit m' \<le> m_lookup_capacity m'" using m'(2) by (simp add: map_ok_def)
          with Suc.prems(3,4) 2 m' have "card (live (m_alloc m')) < m_lookup_commit m'"
            "m_lookup_capacity m' - m_lookup_commit m' < n" by simp_all
          from Suc.IH [OF m'(2) Suc.prems(2) this] 2 m' show ?thesis
            unfolding run' by (auto simp: interned_def)
        qed (simp add: run')
      next
        fix T' a' x vid
        assume r: "r = Inr (T', a', x)" "grown ?a k a' vid" "length T' = length ?T" and x: "x = Full False vid"
        let ?m = "m1\<lparr>m_lookups := T', m_alloc := a'\<rparr>"
        have run': "id_from_calls (Suc n) A m k (hash_key k) = obind (rehash A ?m) (\<lambda>m. Inr (m, vid))"
          unfolding run r(1) x by simp
        have "rehash A ?m = Inl Panic \<or> (\<exists>m'. rehash A ?m = Inr m' \<and> map_ok m' \<and> m_alloc m' = m_alloc ?m
          \<and> m_lookup_commit ?m < m_lookup_commit m' \<and> m_lookup_capacity m' = m_lookup_capacity ?m)"
          by (rule rehash_ok)
            (use r T cap grown_inj [OF r(2) T(4) False] in \<open>simp_all add: grown_def pow2_size_def\<close>)
        then show ?thesis
          using r(2,3) 2 unfolding run' by (auto simp: interned_def grown_def)
      next
        fix T' a' x vid
        assume r: "r = Inr (T', a', x)" "grown ?a k a' vid" "length T' = length ?T" and x: "x = Found vid"
          and t: "table_ok (id_hash a') T'" "ids_of T' = mset_set (live a')"
        have "id_from_calls (Suc n) A m k (hash_key k) = Inr (m1\<lparr>m_lookups := T', m_alloc := a'\<rparr>, vid)"
          unfolding run r(1) x by simp
        moreover have "map_ok (m1\<lparr>m_lookups := T', m_alloc := a'\<rparr>)"
          using r(2,3) t T cap grown_inj [OF r(2) T(4) False] by (simp add: map_ok_def grown_def pow2_size_def)
        ultimately show ?thesis using r(2,3) 2 by (auto simp: interned_def grown_def)
      qed
    qed
  qed
qed

lemma id_from_ok:
  assumes "map_ok m" and "key_ok k" and "card (live (m_alloc m)) < m_lookup_commit m"
  shows "id_from A m k (hash_key k) = Inl Panic
    \<or> (\<exists>m' vid. id_from A m k (hash_key k) = Inr (m', vid) \<and> interned m k m' vid)"
  unfolding id_from_def using assms by (intro id_from_calls_ok) simp_all

end

end
