(* ===== verification/HashIdMapRemoval.thy ===== *)
theory HashIdMapRemoval
  imports HashIdMap
begin

text \<open>
  Removal from the Robin Hood table of \<open>IdMap\<close> (\<open>remove_from_lookups\<close> in
  src/infra/container/id_map.hpp): the entries after the removed one are shifted back until
  one sits in its home slot. The lemmas show that this always ends and leaves a well-formed
  table without the removed id.

  While entries are shifted back the table has a hole, cleared in \<open>E\<close>: everything is
  well-formed but for the step over the hole, and the entry after the hole may move back.
\<close>

definition holed :: "(u32 \<Rightarrow> u32) \<Rightarrow> LookupEntry list \<Rightarrow> nat \<Rightarrow> bool" where
  "holed hs E r \<longleftrightarrow> 2 \<le> length E \<and> slot E (Suc r) = empty_lookup
     \<and> (\<forall>p. is_empty_lookup (slot E p) \<longrightarrow> slot E p = empty_lookup)
     \<and> (\<forall>p. \<not> is_empty_lookup (slot E p) \<longrightarrow> valid_at hs (length E) (slot E p) p)
     \<and> (\<forall>p. p mod length E \<noteq> Suc r mod length E \<longrightarrow> \<not> is_empty_lookup (slot E (Suc p)) \<longrightarrow> 0 < psl (slot E (Suc p)) \<longrightarrow>
           \<not> is_empty_lookup (slot E p) \<and> psl (slot E (Suc p)) \<le> Suc (psl (slot E p)))
     \<and> (1 < psl (slot E (Suc (Suc r))) \<longrightarrow>
           \<not> is_empty_lookup (slot E r) \<and> psl (slot E (Suc (Suc r))) \<le> Suc (Suc (psl (slot E r))))"

lemma Suc_mod_neq: "2 \<le> c \<Longrightarrow> Suc p mod c \<noteq> p mod (c :: nat)"
  by (cases "Suc (p mod c) = c") (simp_all add: mod_Suc)

lemma holed_start:
  assumes T: "table_ok hs T" and c: "2 \<le> length T"
  shows "holed hs (T[Suc r mod length T := empty_lookup]) r"
proof -
  note D = table_okD [OF T]
  let ?E = "T[Suc r mod length T := empty_lookup]"
  have slot: "slot ?E p = (if p mod length T = Suc r mod length T then empty_lookup else slot T p)" for p
    using D(1) by (rule slot_update)
  have hole: "slot ?E (Suc r) = empty_lookup" and r: "slot ?E r = slot T r"
    and rr: "slot ?E (Suc (Suc r)) = slot T (Suc (Suc r))"
    using Suc_mod_neq [OF c, of r] Suc_mod_neq [OF c, of "Suc r"] by (simp_all add: slot)
  have "\<not> is_empty_lookup (slot T r) \<and> psl (slot T (Suc (Suc r))) \<le> Suc (Suc (psl (slot T r)))"
    if big: "1 < psl (slot T (Suc (Suc r)))"
  proof -
    have "\<not> is_empty_lookup (slot T (Suc (Suc r)))" using D(2) [of "Suc (Suc r)"] big by fastforce
    with D(4) [of "Suc r"] big have *: "\<not> is_empty_lookup (slot T (Suc r))"
      "psl (slot T (Suc (Suc r))) \<le> Suc (psl (slot T (Suc r)))" by auto
    then have "0 < psl (slot T (Suc r))" using big by simp
    with D(4) [of r] * show ?thesis by auto
  qed
  moreover have "\<not> is_empty_lookup (slot ?E p) \<and> psl (slot ?E (Suc p)) \<le> Suc (psl (slot ?E p))"
    if "p mod length ?E \<noteq> Suc r mod length ?E" "\<not> is_empty_lookup (slot ?E (Suc p))" "0 < psl (slot ?E (Suc p))" for p
    using that D(4) [of p] by (auto simp: slot split: if_splits)
  moreover have "slot ?E p = empty_lookup" if "is_empty_lookup (slot ?E p)" for p
    using that D(2) by (auto simp: slot)
  moreover have "valid_at hs (length ?E) (slot ?E p) p" if "\<not> is_empty_lookup (slot ?E p)" for p
    using that D(3) [of p] by (auto simp: slot split: if_splits)
  ultimately show ?thesis
    unfolding holed_def using c hole r rr by simp
qed

lemma holed_end:
  assumes "holed hs E r" and "psl (slot E (Suc (Suc r))) = 0"
  shows "table_ok hs E"
proof -
  have "\<not> is_empty_lookup (slot E p) \<and> psl (slot E (Suc p)) \<le> Suc (psl (slot E p))"
    if "\<not> is_empty_lookup (slot E (Suc p))" "0 < psl (slot E (Suc p))" for p
  proof (cases "p mod length E = Suc r mod length E")
    case True
    then have "slot E (Suc p) = slot E (Suc (Suc r))" by (intro slot_cong) (simp only: Suc_mod_cancel)
    with that assms(2) show ?thesis by simp
  next
    case False
    with that assms(1) show ?thesis unfolding holed_def by blast
  qed
  moreover have "0 < length E" using assms(1) unfolding holed_def by linarith
  ultimately show ?thesis using assms(1) by (simp add: holed_def table_ok_def)
qed

lemma holed_shift:
  assumes H: "holed hs E r" and q: "psl (slot E (Suc (Suc r))) \<noteq> 0"
  defines "e' \<equiv> (slot E (Suc (Suc r)))\<lparr>psl := psl (slot E (Suc (Suc r))) - 1\<rparr>"
  defines "E' \<equiv> E[Suc r mod length E := e', Suc (Suc r) mod length E := empty_lookup]"
  shows "holed hs E' (Suc r)" and "ids_of E' = ids_of E" and "psl_sum E = Suc (psl_sum E')"
proof -
  let ?h = "Suc r" and ?c = "length E"
  let ?e = "slot E (Suc ?h)"
  have c: "2 \<le> ?c" and hole: "slot E ?h = empty_lookup"
    and cleared: "\<And>p. is_empty_lookup (slot E p) \<Longrightarrow> slot E p = empty_lookup"
    and valid: "\<And>p. \<not> is_empty_lookup (slot E p) \<Longrightarrow> valid_at hs ?c (slot E p) p"
    and step: "\<And>p. p mod ?c \<noteq> ?h mod ?c \<Longrightarrow> \<not> is_empty_lookup (slot E (Suc p)) \<Longrightarrow> 0 < psl (slot E (Suc p)) \<Longrightarrow>
           \<not> is_empty_lookup (slot E p) \<and> psl (slot E (Suc p)) \<le> Suc (psl (slot E p))"
    and over: "1 < psl ?e \<Longrightarrow> \<not> is_empty_lookup (slot E r) \<and> psl ?e \<le> Suc (Suc (psl (slot E r)))"
    using H unfolding holed_def by blast+
  have len: "0 < ?c" using c by linarith
  have ne: "Suc ?h mod ?c \<noteq> ?h mod ?c" "?h mod ?c \<noteq> r mod ?c" using Suc_mod_neq [OF c] by blast+
  have e: "\<not> is_empty_lookup ?e" using cleared [of "Suc ?h"] q by fastforce
  have e': "\<not> is_empty_lookup e'" "psl e' = psl ?e - 1" using e by (simp_all add: e'_def)
  have slot: "slot E' p = (if p mod ?c = Suc ?h mod ?c then empty_lookup
      else if p mod ?c = ?h mod ?c then e' else slot E p)" for p
    using len ne(1) by (simp add: E'_def slot_def nth_list_update)
  have v': "valid_at hs ?c e' ?h"
  proof -
    have "(unat (hs (data_id ?e)) + psl ?e) mod ?c = Suc ?h mod ?c"
      using valid [OF e] by (simp add: valid_at_def)
    moreover have "unat (hs (data_id ?e)) + psl ?e = Suc (unat (hs (data_id ?e)) + psl e')"
      using q e'(2) by simp
    ultimately have "(unat (hs (data_id ?e)) + psl e') mod ?c = ?h mod ?c"
      by (simp only: Suc_mod_cancel)
    moreover have "psl ?e - 1 \<le> MAX_PSL" using valid [OF e] unfolding valid_at_def by linarith
    ultimately show ?thesis using valid [OF e] e'(2) by (simp add: valid_at_def e'_def)
  qed
  have "valid_at hs ?c (slot E' p) p" if "\<not> is_empty_lookup (slot E' p)" for p
    using that v' valid [of p] valid_at_cong [of p ?c ?h hs e'] by (auto simp: slot split: if_splits)
  moreover have "slot E' p = empty_lookup" if "is_empty_lookup (slot E' p)" for p
    using that cleared [of p] e'(1) by (auto simp: slot split: if_splits)
  moreover have "\<not> is_empty_lookup (slot E' p) \<and> psl (slot E' (Suc p)) \<le> Suc (psl (slot E' p))"
    if p: "p mod ?c \<noteq> Suc ?h mod ?c" "\<not> is_empty_lookup (slot E' (Suc p))" "0 < psl (slot E' (Suc p))" for p
  proof -
    have ph: "p mod ?c \<noteq> ?h mod ?c"
    proof
      assume "p mod ?c = ?h mod ?c"
      then have "Suc p mod ?c = Suc ?h mod ?c" by (simp only: Suc_mod_cancel)
      with p(2) show False by (simp add: slot)
    qed
    then have same: "slot E' p = slot E p" using p(1) by (simp add: slot)
    show ?thesis
    proof (cases "Suc p mod ?c = ?h mod ?c")
      case True
      then have pr: "slot E p = slot E r" by (intro slot_cong) (simp only: Suc_mod_cancel)
      have s: "slot E' (Suc p) = e'" using True ne(1) by (simp add: slot)
      with p(3) e'(2) have "1 < psl ?e" by simp
      with over have "\<not> is_empty_lookup (slot E r)" "psl ?e \<le> Suc (Suc (psl (slot E r)))" by auto
      then show ?thesis unfolding s same pr e'(2) by linarith
    next
      case False
      moreover have "Suc p mod ?c \<noteq> Suc ?h mod ?c" using ph by (simp only: Suc_mod_cancel not_False_eq_True)
      ultimately have "slot E' (Suc p) = slot E (Suc p)" by (simp add: slot)
      with step [OF ph] p(2,3) show ?thesis by (simp add: same)
    qed
  qed
  moreover have "\<not> is_empty_lookup (slot E' ?h) \<and> psl (slot E' (Suc (Suc ?h))) \<le> Suc (Suc (psl (slot E' ?h)))"
    if big: "1 < psl (slot E' (Suc (Suc ?h)))"
  proof -
    have h: "slot E' ?h = e'" using ne(1) by (simp add: slot)
    have n2: "Suc (Suc ?h) mod ?c \<noteq> Suc ?h mod ?c" by (rule Suc_mod_neq [OF c])
    show ?thesis
    proof (cases "Suc (Suc ?h) mod ?c = ?h mod ?c")
      case True
      then have "slot E' (Suc (Suc ?h)) = e'" using n2 by (simp add: slot)
      with h e' show ?thesis by simp
    next
      case False
      then have f: "slot E' (Suc (Suc ?h)) = slot E (Suc (Suc ?h))" using n2 by (simp add: slot)
      then have "\<not> is_empty_lookup (slot E (Suc (Suc ?h)))" using big cleared [of "Suc (Suc ?h)"] by fastforce
      with step [OF ne(1)] big f have "psl (slot E (Suc (Suc ?h))) \<le> Suc (psl ?e)" by simp
      with h f e' q show ?thesis by simp
    qed
  qed
  moreover have "slot E' (Suc ?h) = empty_lookup" by (simp add: slot)
  moreover have "length E' = ?c" by (simp add: E'_def)
  ultimately show "holed hs E' (Suc r)" unfolding holed_def using c by simp
  let ?i = "?h mod ?c" and ?j = "Suc ?h mod ?c"
  define F where "F = E[?i := e']"
  have ij: "?i < length E" "?j < length F" using len by (simp_all add: F_def)
  have Ei: "E ! ?i = empty_lookup" and Fj: "F ! ?j = ?e"
    using hole ne(1) len by (simp_all add: slot_def nth_list_update F_def)
  have idF: "ids_of F = ids_of E + {#data_id ?e#}"
    using ids_of_update [OF ij(1) e'(1)] Ei by (simp add: e'_def F_def)
  have sumF: "psl_sum F = psl_sum E + psl e'"
    using psl_sum_update [OF ij(1), of e'] Ei by (simp add: F_def)
  have F: "take ?j F @ ?e # drop (Suc ?j) F = F" using ij(2) Fj by (metis id_take_nth_drop)
  have E': "E' = take ?j F @ empty_lookup # drop (Suc ?j) F"
    unfolding E'_def F_def [symmetric] using ij(2) by (simp add: upd_conv_take_nth_drop)
  have "ids_of F = ids_of E' + {#data_id ?e#}"
    using arg_cong [OF F, of ids_of] e by (simp add: E')
  with idF show "ids_of E' = ids_of E" by simp
  have "psl_sum F = psl_sum E' + psl ?e"
    using arg_cong [OF F, of psl_sum] by (simp add: E')
  with sumF e'(2) q show "psl_sum E = Suc (psl_sum E')" by simp
qed

lemma remove_loop_ok:
  assumes "holed hs (T[Suc r mod length T := empty_lookup]) r"
    and "psl_sum (T[Suc r mod length T := empty_lookup]) < n"
  shows "\<exists>T'. remove_loop n T (Suc r mod length T) (Suc (Suc r) mod length T) = Inr T'
    \<and> length T' = length T \<and> table_ok hs T' \<and> ids_of T' = ids_of (T[Suc r mod length T := empty_lookup])"
  using assms
proof (induction n arbitrary: T r)
  case 0
  then show ?case by simp
next
  case (Suc n)
  let ?c = "length T" and ?h = "Suc r"
  let ?E = "T[?h mod ?c := empty_lookup]"
  have c: "2 \<le> ?c" using Suc.prems(1) by (simp add: holed_def)
  then have len: "0 < ?c" by linarith
  have "Suc ?h mod ?c \<noteq> ?h mod ?c" by (rule Suc_mod_neq [OF c])
  then have curr: "slot ?E (Suc ?h) = T ! (Suc ?h mod ?c)"
    using len by (simp add: slot_def nth_list_update)
  show ?case
  proof (cases "psl (T ! (Suc ?h mod ?c)) = 0")
    case True
    with holed_end [OF Suc.prems(1)] curr show ?thesis by simp
  next
    case False
    define e' where "e' = (T ! (Suc ?h mod ?c))\<lparr>psl := psl (T ! (Suc ?h mod ?c)) - 1\<rparr>"
    define T' where "T' = T[?h mod ?c := e']"
    have len': "length T' = ?c" by (simp add: T'_def)
    have E': "?E[?h mod length ?E := e', Suc ?h mod length ?E := empty_lookup] = T'[Suc ?h mod length T' := empty_lookup]"
      by (simp add: T'_def)
    have q: "psl (slot ?E (Suc ?h)) \<noteq> 0" using False curr by simp
    note sh = holed_shift [OF Suc.prems(1) q, unfolded curr e'_def [symmetric] E']
    have "psl_sum (T'[Suc ?h mod length T' := empty_lookup]) < n" using sh(3) Suc.prems(2) by simp
    from Suc.IH [OF sh(1) this] obtain U where
      "remove_loop n T' (Suc ?h mod length T') (Suc (Suc ?h) mod length T') = Inr U"
      "length U = length T'" "table_ok hs U" "ids_of U = ids_of (T'[Suc ?h mod length T' := empty_lookup])"
      by blast
    moreover have "remove_loop (Suc n) T (?h mod ?c) (Suc ?h mod ?c)
        = remove_loop n T' (Suc ?h mod length T') (Suc (Suc ?h) mod length T')"
      using False len by (simp add: Let_def next_slot_mod T'_def e'_def)
    ultimately show ?thesis using sh(2) len' by simp
  qed
qed

lemma remove_loop_single: "psl e < n \<Longrightarrow> remove_loop n [e] 0 0 = Inr [empty_lookup]"
  by (induction n arbitrary: e) (auto simp: Let_def next_slot_def)

text \<open>
  C34: removing an occupied slot of a well-formed table of any size always ends, leaves a
  well-formed table of the same size with all other ids, and counts the number of used
  slots down, modulo \<open>2^32\<close>.
\<close>

theorem remove_from_lookups_ok:
  assumes T: "table_ok hs (m_lookups m)" "pow2_size (m_lookups m)"
    and i: "i < m_lookup_commit m" "\<not> is_empty_lookup (m_lookups m ! i)"
  shows "\<exists>T'. remove_from_lookups m i = Inr (m\<lparr>m_lookups := T', m_lookup_used := m_lookup_used m - 1\<rparr>)
    \<and> length T' = m_lookup_commit m \<and> table_ok hs T'
    \<and> ids_of T' + {#data_id (m_lookups m ! i)#} = ids_of (m_lookups m)"
proof -
  let ?T = "m_lookups m" and ?c = "m_lookup_commit m"
  obtain k where k: "k < 32" "?c = 2 ^ k" using T(2) by (auto simp: pow2_size_def)
  have "(2::nat) ^ k \<le> 2 ^ 31" using k(1) by (intro power_increasing) simp_all
  then have c: "?c \<le> 2 ^ 31" using k(2) by simp
  have u: "unat (of_nat j :: u32) = j" if "j \<le> 2 ^ 31" for j
    using that by (simp add: unsigned_of_nat take_bit_nat_eq_self)
  have prev: "home_slot ?c (of_nat i) = i"
    using i(1) c by (simp add: home_slot_length [OF T(2)] u)
  have curr: "home_slot ?c (of_nat (i + 1)) = Suc i mod ?c"
    using i(1) c u [of "i + 1"] by (simp only: home_slot_length [OF T(2)]) simp
  define E where "E = ?T[i := empty_lookup]"
  have T_split: "take i ?T @ ?T ! i # drop (Suc i) ?T = ?T" using i(1) by (metis id_take_nth_drop)
  have ids: "ids_of E + {#data_id (?T ! i)#} = ids_of ?T"
    using arg_cong [OF T_split, of ids_of] i by (simp add: E_def upd_conv_take_nth_drop)
  have sum: "psl_sum E \<le> MAX_PSL * ?c"
    using arg_cong [OF T_split, of psl_sum] i psl_sum_le [OF T(1)]
    by (simp add: E_def upd_conv_take_nth_drop)
  then have budget: "psl_sum E < probe_budget ?T" by (simp add: probe_budget_def MAX_PSL_def)
  have "\<exists>T'. remove_loop (probe_budget ?T) ?T i (Suc i mod ?c) = Inr T' \<and> length T' = ?c \<and> table_ok hs T'
      \<and> ids_of T' = ids_of E"
  proof (cases "2 \<le> ?c")
    case True
    define r where "r = i + (?c - 1)"
    have r: "Suc r mod ?c = i" "Suc (Suc r) mod ?c = Suc i mod ?c"
    proof -
      have "Suc r = i + ?c" using True by (simp add: r_def)
      moreover from this have "Suc (Suc r) = Suc i + ?c" by simp
      moreover have "(Suc i + ?c) mod ?c = Suc i mod ?c" by (rule mod_add_self2)
      ultimately show "Suc r mod ?c = i" "Suc (Suc r) mod ?c = Suc i mod ?c" using i(1) by simp_all
    qed
    show ?thesis
      using remove_loop_ok [of hs ?T r "probe_budget ?T"] holed_start [OF T(1) True, of r] budget
      by (simp add: r E_def)
  next
    case False
    with i(1) have c1: "?c = 1" "i = 0" by simp_all
    then obtain e where e: "?T = [e]" by (metis One_nat_def length_0_conv length_Suc_conv)
    have "psl e \<le> MAX_PSL" using table_psl_le [OF T(1), of 0] by (simp add: e slot_def)
    then have "psl e < probe_budget ?T" by (simp add: e probe_budget_def MAX_PSL_def)
    from remove_loop_single [OF this] show ?thesis
      using table_ok_empty [of 1 hs] by (simp add: e c1 E_def)
  qed
  then show ?thesis
    using i(2) ids unfolding remove_from_lookups_def prev curr Let_def by auto
qed

theorem remove_from_lookups_ok_witness:
  "let e = (create_lookup 0)\<lparr>data_id := 7\<rparr>;
       m = \<lparr>m_lookups = [e], m_lookup_used = 1, m_lookup_capacity = 1, m_alloc = (), lookup_os = (\<lambda>_. True)\<rparr>
   in \<exists>T'. remove_from_lookups m 0 = Inr (m\<lparr>m_lookups := T', m_lookup_used := m_lookup_used m - 1\<rparr>)
    \<and> length T' = m_lookup_commit m \<and> table_ok (\<lambda>_. 0) T'
    \<and> ids_of T' + {#data_id (m_lookups m ! 0)#} = ids_of (m_lookups m)"
  unfolding Let_def
  by (rule remove_from_lookups_ok)
    (auto simp: table_ok_def slot_def valid_at_def pow2_size_def is_empty_lookup_def create_lookup_def MAX_PSL_def
      intro!: exI [of _ 0])

end
