(* ===== verification/IdentPool.thy ===== *)
theory IdentPool
  imports HashIdMapRemoval
begin

text \<open>
  The identifier pool (src/core/identifier_pool.cpp): the allocator of identifier entries in
  a byte vector, its iterator, and the pool operations on the \<open>IdMap\<close> over it. The allocator
  is an interpretation of \<open>id_alloc\<close>, so interning an identifier gives it an id of its own
  that later lookups return. The bound on the length of an identifier in \<open>key_ok\<close> is the one
  the 16 bit field \<open>m_length\<close> needs; the code does not check it.
\<close>

section \<open>Entries and their allocator\<close>

record IdentifierEntry =
  m_hash :: u32
  m_length :: u16
  m_attachment :: u8
  m_chars :: "u8 list"

text \<open>
  \<open>entries\<close> counts the bytes of the vector and \<open>entry_at\<close> is the entry that starts at a
  multiple of 8 bytes, by its id. An entry takes \<open>offsetof(IdentifierEntry, m_chars)\<close> = 7
  bytes and its characters, rounded up to 8.
\<close>

record IdentifierAlloc =
  entries :: "unit ReservedVec"
  entry_at :: "u32 \<Rightarrow> IdentifierEntry"

definition entry_units :: "IdentifierEntry \<Rightarrow> nat" where
  "entry_units e = (7 + unat (m_length e) + 8 - 1) div 8"

definition ident_value_from_id :: "IdentifierAlloc \<Rightarrow> u32 \<Rightarrow> IdentifierEntry outcome" where
  "ident_value_from_id a vid =
     ensure Assertion (vid \<noteq> 0)
     (ensure Assertion (unat vid * 8 < unat (m_used (entries a))) (Inr (entry_at a vid)))"

function ident_values_from :: "(u32 \<Rightarrow> IdentifierEntry) \<Rightarrow> nat \<Rightarrow> nat \<Rightarrow> u32 list outcome" where
  "ident_values_from f fin pos =
     (if \<not> pos \<le> fin then Inl Assertion
      else if pos = fin then Inr []
      else obind (ident_values_from f fin (pos + entry_units (f (of_nat pos)))) (\<lambda>ids.
        Inr (of_nat pos # ids)))"
  by pat_completeness auto
termination
  by (relation "measure (\<lambda>(f, fin, pos). fin - pos)") (auto simp: entry_units_def)

declare ident_values_from.simps [simp del]

definition ident_values :: "IdentifierAlloc \<Rightarrow> u32 list outcome" where
  "ident_values a = ident_values_from (entry_at a) (unat (m_used (entries a)) div 8) 1"

definition ident_alloc :: "IdentifierAlloc \<Rightarrow> u8 list \<Rightarrow> u32 \<Rightarrow> (IdentifierAlloc \<times> u32) outcome" where
  "ident_alloc a key key_hash =
     (let raw_size = of_nat (7 + length key) :: u32;
          size' = (raw_size + 8 - 1) AND NOT (8 - 1)
      in obind (rv_reserve (entries a) size') (\<lambda>(v, offset).
        let vid = offset div 8;
            entry = \<lparr>m_hash = key_hash, m_length = of_nat (length key), m_attachment = 0, m_chars = key\<rparr>
        in ensure Assertion (offset > 0 \<and> offset < m_used v)
          (Inr (a\<lparr>entries := v, entry_at := (entry_at a)(vid := entry)\<rparr>, vid))))"

definition ident_is_equal_to_key :: "IdentifierEntry \<Rightarrow> u8 list \<Rightarrow> u32 \<Rightarrow> bool" where
  "ident_is_equal_to_key e key key_hash \<longleftrightarrow>
     m_hash e = key_hash \<and> length key = unat (m_length e) \<and> take (unat (m_length e)) (m_chars e) = key"

definition ident_ops :: "(u8 list, IdentifierEntry, IdentifierAlloc) Alloc" where
  "ident_ops = \<lparr>value_from_id = ident_value_from_id, alloc_value = ident_alloc,
     dealloc_value = (\<lambda>a vid. Inl Assertion), alloc_values = ident_values,
     is_equal_to_key = ident_is_equal_to_key, hash_of = m_hash\<rparr>"

section \<open>The pool\<close>

type_synonym IdentifierPool = "IdentifierAlloc IdMap"

definition FirstNatural :: u32 where "FirstNatural = 65536"

definition IDENTIFIER_LOOKUP_CAPACITY :: nat where "IDENTIFIER_LOOKUP_CAPACITY = 2 ^ 21"
definition IDENTIFIER_LOOKUP_INITIAL_COMMIT_COUNT :: nat where "IDENTIFIER_LOOKUP_INITIAL_COMMIT_COUNT = 2 ^ 15"
definition IDENTIFIER_ENTRY_RESERVE :: u32 where "IDENTIFIER_ENTRY_RESERVE = 2 ^ 22 * 8"
definition IDENTIFIER_ENTRY_COMMIT_INCREMENT_COUNT :: u32 where "IDENTIFIER_ENTRY_COMMIT_INCREMENT_COUNT = 2 ^ 18 * 8"

definition identifier_pool_init ::
  "(nat \<Rightarrow> bool) \<Rightarrow> (u32 \<Rightarrow> bool) \<Rightarrow> (u32 \<Rightarrow> IdentifierEntry) \<Rightarrow> IdentifierPool outcome" where
  "identifier_pool_init map_os entry_os memory =
     obind (rv_init (\<lambda>_. ()) IDENTIFIER_ENTRY_RESERVE IDENTIFIER_ENTRY_COMMIT_INCREMENT_COUNT entry_os) (\<lambda>v.
     obind (rv_reserve v 8) (\<lambda>(v, _).
       idmap_init IDENTIFIER_LOOKUP_CAPACITY IDENTIFIER_LOOKUP_INITIAL_COMMIT_COUNT map_os
         \<lparr>entries = v, entry_at = memory\<rparr>))"

definition id_from_identifier :: "IdentifierPool \<Rightarrow> u8 list \<Rightarrow> (IdentifierPool \<times> u32) outcome" where
  "id_from_identifier m identifier =
     obind (id_from ident_ops m identifier (fnv1a identifier)) (\<lambda>(m, vid). Inr (m, vid + FirstNatural))"

definition id_and_attachment_from_identifier ::
  "IdentifierPool \<Rightarrow> u8 list \<Rightarrow> (IdentifierPool \<times> u32 \<times> u8) outcome" where
  "id_and_attachment_from_identifier m identifier =
     obind (value_from_key ident_ops m identifier (fnv1a identifier)) (\<lambda>(m, vid, entry).
       Inr (m, vid + FirstNatural, m_attachment entry))"

definition identifier_set_attachment :: "IdentifierPool \<Rightarrow> u8 list \<Rightarrow> u8 \<Rightarrow> IdentifierPool outcome" where
  "identifier_set_attachment m identifier attachment =
     ensure Assertion (attachment \<noteq> 0)
     (obind (value_from_key ident_ops m identifier (fnv1a identifier)) (\<lambda>(m, vid, entry).
        ensure Assertion (m_attachment entry = 0)
          (Inr (m\<lparr>m_alloc := (m_alloc m)\<lparr>entry_at := (entry_at (m_alloc m))(vid := entry\<lparr>m_attachment := attachment\<rparr>)\<rparr>\<rparr>))))"

definition identifier_name_from_id :: "IdentifierPool \<Rightarrow> u32 \<Rightarrow> u8 list outcome" where
  "identifier_name_from_id m vid =
     ensure Assertion (FirstNatural \<le> vid)
     (obind (value_from ident_ops m (vid - FirstNatural)) (\<lambda>entry.
        Inr (take (unat (m_length entry)) (m_chars entry))))"

section \<open>The allocator keeps its contract\<close>

definition ident_live :: "IdentifierAlloc \<Rightarrow> u32 set" where
  "ident_live a = (case ident_values a of Inl e \<Rightarrow> {} | Inr ids \<Rightarrow> set ids)"

definition ident_key_of :: "IdentifierAlloc \<Rightarrow> u32 \<Rightarrow> u8 list" where
  "ident_key_of a vid = m_chars (entry_at a vid)"

definition ident_key_ok :: "u8 list \<Rightarrow> bool" where
  "ident_key_ok key \<longleftrightarrow> length key < 2 ^ 16"

definition entry_ok :: "IdentifierEntry \<Rightarrow> bool" where
  "entry_ok e \<longleftrightarrow> m_hash e = fnv1a (m_chars e) \<and> unat (m_length e) = length (m_chars e)"

definition ident_alloc_ok :: "IdentifierAlloc \<Rightarrow> bool" where
  "ident_alloc_ok a \<longleftrightarrow> rv_ok (entries a) \<and> m_reserved (entries a) \<le> IDENTIFIER_ENTRY_RESERVE
     \<and> 8 \<le> unat (m_used (entries a)) \<and> unat (m_used (entries a)) mod 8 = 0
     \<and> (\<exists>ids. ident_values a = Inr ids \<and> (\<forall>vid \<in> set ids. entry_ok (entry_at a vid)))"

lemma entry_units_pos: "0 < entry_units e"
  by (simp add: entry_units_def)

lemma ident_values_from_bounds:
  assumes "ident_values_from f fin pos = Inr ids" and "fin < 2 ^ 32" and "vid \<in> set ids"
  shows "pos \<le> unat vid \<and> unat vid < fin"
  using assms
proof (induction f fin pos arbitrary: ids rule: ident_values_from.induct)
  case (1 f fin pos)
  have u: "unat (of_nat pos :: u32) = pos" if "pos < fin"
    using that 1(3) by (simp add: unsigned_of_nat take_bit_nat_eq_self)
  from 1 u show ?case
    by (subst (asm) (2) ident_values_from.simps)
      (fastforce simp: obind_eq_Inr_iff split: if_splits)
qed

lemma ident_values_from_distinct:
  assumes "ident_values_from f fin pos = Inr ids" and "fin < 2 ^ 32"
  shows "distinct ids"
  using assms
proof (induction f fin pos arbitrary: ids rule: ident_values_from.induct)
  case (1 f fin pos)
  show ?case
  proof (cases "pos < fin")
    case True
    then obtain ids' where ids: "ident_values_from f fin (pos + entry_units (f (of_nat pos))) = Inr ids'"
      "ids = of_nat pos # ids'"
      using 1(2) by (subst (asm) ident_values_from.simps) (auto simp: obind_eq_Inr_iff)
    have u: "unat (of_nat pos :: u32) = pos"
      using True 1(3) by (simp add: unsigned_of_nat take_bit_nat_eq_self)
    have "of_nat pos \<notin> set ids'"
      using ident_values_from_bounds [OF ids(1) 1(3), of "of_nat pos"] entry_units_pos [of "f (of_nat pos)"]
      by (auto simp: u)
    with 1 True ids show ?thesis by auto
  next
    case False
    with 1(2) show ?thesis by (subst (asm) ident_values_from.simps) (auto split: if_splits)
  qed
qed

text \<open>A new entry at the end of the vector is visited after all others.\<close>

lemma ident_values_from_snoc:
  assumes "ident_values_from f fin pos = Inr ids" and "fin + entry_units e < 2 ^ 32"
  shows "ident_values_from (f(of_nat fin := e)) (fin + entry_units e) pos = Inr (ids @ [of_nat fin])"
  using assms
proof (induction f fin pos arbitrary: ids rule: ident_values_from.induct)
  case (1 f fin pos)
  show ?case
  proof (cases "pos < fin")
    case True
    then obtain ids' where ids: "ident_values_from f fin (pos + entry_units (f (of_nat pos))) = Inr ids'"
      "ids = of_nat pos # ids'"
      using 1(2) by (subst (asm) ident_values_from.simps) (auto simp: obind_eq_Inr_iff)
    have "unat (of_nat pos :: u32) = pos" "unat (of_nat fin :: u32) = fin"
      using True 1(3) by (simp_all add: unsigned_of_nat take_bit_nat_eq_self)
    then have "(of_nat pos :: u32) \<noteq> of_nat fin" using True by (metis less_irrefl)
    then have look: "(f(of_nat fin := e)) (of_nat pos) = f (of_nat pos)" by simp
    have "ident_values_from (f(of_nat fin := e)) (fin + entry_units e) (pos + entry_units (f (of_nat pos)))
        = Inr (ids' @ [of_nat fin])"
      by (rule 1(1)) (use True ids 1(3) in auto)
    with True ids(2) look show ?thesis
      by (subst ident_values_from.simps) (simp del: fun_upd_apply)
  next
    case False
    with 1(2) have "pos = fin" "ids = []"
      by (subst (asm) ident_values_from.simps, simp split: if_splits)+
    then show ?thesis
      using entry_units_pos [of e]
      by (subst ident_values_from.simps) (simp, subst ident_values_from.simps, simp)
  qed
qed

lemma ident_values_from_cong:
  assumes "ident_values_from f fin pos = Inr ids" and "fin < 2 ^ 32"
    and "\<And>vid. vid \<in> set ids \<Longrightarrow> entry_units (g vid) = entry_units (f vid)"
  shows "ident_values_from g fin pos = Inr ids"
  using assms
proof (induction f fin pos arbitrary: ids rule: ident_values_from.induct)
  case (1 f fin pos)
  show ?case
  proof (cases "pos < fin")
    case True
    then obtain ids' where ids: "ident_values_from f fin (pos + entry_units (f (of_nat pos))) = Inr ids'"
      "ids = of_nat pos # ids'"
      using 1(2) by (subst (asm) ident_values_from.simps) (auto simp: obind_eq_Inr_iff)
    then have "ident_values_from g fin (pos + entry_units (f (of_nat pos))) = Inr ids'"
      using 1 True by simp
    with True ids 1(4) show ?thesis by (subst ident_values_from.simps) simp
  next
    case False
    with 1(2) show ?thesis
      by (subst (asm) ident_values_from.simps, subst ident_values_from.simps) (simp split: if_splits)
  qed
qed

lemma aligned_size:
  assumes "n < 2 ^ 16"
  shows "unat (((of_nat (7 + n) :: u32) + 8 - 1) AND NOT (8 - 1)) = 8 * ((7 + n + 8 - 1) div 8)"
proof -
  have mask: "(8 - 1 :: u32) = mask 3" by (simp add: mask_eq_exp_minus_1)
  have "(of_nat (7 + n) :: u32) + 8 - 1 = of_nat (7 + n + 8 - 1)" by simp
  moreover have "unat (of_nat (7 + n + 8 - 1) :: u32) = 7 + n + 8 - 1"
    by (rule unat_of_nat_u32) (use assms in simp)
  ultimately have "unat ((of_nat (7 + n) :: u32) + 8 - 1) = 7 + n + 8 - 1" by (simp only:)
  then show ?thesis
    unfolding mask using unat_AND_NOT_mask [of 3 "(of_nat (7 + n) :: u32) + 8 - 1"] by simp
qed

lemma ident_live_values: "ident_values a = Inr ids \<Longrightarrow> ident_live a = set ids"
  by (simp add: ident_live_def)

lemma ident_value_law:
  assumes "ident_alloc_ok a" and "vid \<in> ident_live a"
  shows "\<exists>v. value_from_id ident_ops a vid = Inr v \<and> hash_of ident_ops v = fnv1a (ident_key_of a vid)
    \<and> (\<forall>k. ident_key_ok k \<longrightarrow> is_equal_to_key ident_ops v k (fnv1a k) = (k = ident_key_of a vid))"
proof -
  obtain ids where ids: "ident_values a = Inr ids" "\<forall>vid \<in> set ids. entry_ok (entry_at a vid)"
    using assms(1) by (auto simp: ident_alloc_ok_def)
  then have vid: "vid \<in> set ids" "entry_ok (entry_at a vid)" using assms(2) ident_live_values by auto
  have "1 \<le> unat vid" "unat vid < unat (m_used (entries a)) div 8"
    using ident_values_from_bounds [OF ids(1) [unfolded ident_values_def] unat_u32_div_less vid(1)] by blast+
  then have "vid \<noteq> 0" "unat vid * 8 < unat (m_used (entries a))" by auto
  then have "ident_value_from_id a vid = Inr (entry_at a vid)" by (simp add: ident_value_from_id_def)
  with vid(2) show ?thesis
    by (auto simp: ident_ops_def ident_key_of_def entry_ok_def ident_is_equal_to_key_def)
qed

lemma ident_values_law:
  assumes "ident_alloc_ok a"
  shows "\<exists>ids. alloc_values ident_ops a = Inr ids \<and> finite (ident_live a) \<and> mset ids = mset_set (ident_live a)"
proof -
  obtain ids where ids: "ident_values a = Inr ids" using assms by (auto simp: ident_alloc_ok_def)
  have "distinct ids"
    using ident_values_from_distinct [OF ids [unfolded ident_values_def] unat_u32_div_less] .
  with ids show ?thesis
    by (simp add: ident_ops_def ident_live_values mset_set_set)
qed

lemma ident_alloc_law:
  assumes a: "ident_alloc_ok a" and k: "ident_key_ok k"
  shows "alloc_value ident_ops a k (fnv1a k) = Inl Panic \<or>
    (\<exists>a' vid. alloc_value ident_ops a k (fnv1a k) = Inr (a', vid) \<and> ident_alloc_ok a' \<and> vid \<notin> ident_live a
      \<and> ident_live a' = insert vid (ident_live a) \<and> ident_key_of a' vid = k
      \<and> (\<forall>j\<in>ident_live a. ident_key_of a' j = ident_key_of a j))"
proof -
  let ?v = "entries a"
  define sz where "sz = ((of_nat (7 + length k) :: u32) + 8 - 1) AND NOT (8 - 1)"
  define e where "e = \<lparr>m_hash = fnv1a k, m_length = of_nat (length k), m_attachment = 0, m_chars = k\<rparr>"
  obtain ids where ids: "ident_values a = Inr ids" "\<forall>vid \<in> set ids. entry_ok (entry_at a vid)"
    and v: "rv_ok ?v" "m_reserved ?v \<le> IDENTIFIER_ENTRY_RESERVE" "8 \<le> unat (m_used ?v)" "unat (m_used ?v) mod 8 = 0"
    using a by (auto simp: ident_alloc_ok_def)
  have len: "unat (of_nat (length k) :: u16) = length k"
    using k by (simp add: ident_key_ok_def unsigned_of_nat take_bit_nat_eq_self)
  have units: "unat sz = 8 * entry_units e"
    using k aligned_size [of "length k"] by (simp add: sz_def e_def entry_units_def ident_key_ok_def len)
  have small: "unat sz < 2 ^ 17" using k by (simp add: units e_def entry_units_def len ident_key_ok_def)
  have "m_used ?v \<le> m_reserved ?v" using v(1) by (auto simp: rv_ok_def)
  then have "unat (m_used ?v) \<le> unat IDENTIFIER_ENTRY_RESERVE" using v(2) by (simp add: word_le_nat_alt)
  then have used: "unat (m_used ?v) \<le> 2 ^ 25" by (simp add: IDENTIFIER_ENTRY_RESERVE_def)
  have fits: "uint (m_used ?v) + uint sz < 2 ^ 32"
    using used small by (intro uint_sum_less) simp
  have alloc: "alloc_value ident_ops a k (fnv1a k) = obind (rv_reserve ?v sz) (\<lambda>(v, offset).
      ensure Assertion (offset > 0 \<and> offset < m_used v)
        (Inr (a\<lparr>entries := v, entry_at := (entry_at a)(offset div 8 := e)\<rparr>, offset div 8)))"
    unfolding ident_ops_def Alloc.simps ident_alloc_def Let_def sz_def [symmetric] e_def [symmetric] ..
  show ?thesis
  proof (cases "rv_reserve ?v sz")
    case (Inl x)
    with rv_ensure_capacity_cases [OF v(1) fits] have "x = Panic" by (auto simp: rv_reserve_def)
    with Inl show ?thesis by (simp add: alloc)
  next
    case (Inr vo)
    obtain v' offset where vo: "vo = (v', offset)" by fastforce
    note R = rv_reserve_ok [OF v(1) fits Inr [unfolded vo]]
    define a' where "a' = a\<lparr>entries := v', entry_at := (entry_at a)(offset div 8 := e)\<rparr>"
    have n: "unat (m_used v') = unat (m_used ?v) + 8 * entry_units e"
      using used small units R(3) by (simp add: unat_plus_if')
    define fin where "fin = unat (m_used ?v) div 8"
    have fin: "unat (m_used v') div 8 = fin + entry_units e" "fin < 2 ^ 23" "entry_units e < 2 ^ 17"
      using n used small units v(4) by (auto simp: fin_def)
    have vid: "offset div 8 = of_nat fin"
      by (rule word_unat_eq_iff [THEN iffD2])
        (use unat_of_nat_u32 [of fin] fin(2) in \<open>simp add: R(2) fin_def unat_div\<close>)
    have "0 < entry_units e" by (rule entry_units_pos)
    then have "0 < offset" "offset < m_used v'"
      using v(3) n R(2) by (simp_all add: word_less_nat_alt)
    then have run: "alloc_value ident_ops a k (fnv1a k) = Inr (a', of_nat fin)"
      using Inr by (simp add: alloc vo a'_def vid)
    have vals: "ident_values a' = Inr (ids @ [of_nat fin])"
      using ident_values_from_snoc [of "entry_at a" fin 1 ids e] ids(1) fin
      by (simp add: ident_values_def a'_def vid fin_def del: fun_upd_apply)
    have new: "of_nat fin \<notin> set ids"
    proof
      assume "of_nat fin \<in> set ids"
      then have "unat (of_nat fin :: u32) < fin"
        using ident_values_from_bounds [of "entry_at a" fin 1 ids "of_nat fin"] ids(1) fin(2)
        by (simp add: ident_values_def fin_def)
      then show False using fin(2) by (simp add: unsigned_of_nat take_bit_nat_eq_self)
    qed
    have "ident_alloc_ok a'"
      using R(1,5,6) n v ids(2) vals new
      by (auto simp: ident_alloc_ok_def a'_def vid entry_ok_def e_def len)
    moreover have "of_nat fin \<notin> ident_live a" "ident_live a' = insert (of_nat fin) (ident_live a)"
      using new by (simp_all add: ident_live_values [OF ids(1)] ident_live_values [OF vals])
    moreover have "ident_key_of a' (of_nat fin) = k" "\<forall>j\<in>ident_live a. ident_key_of a' j = ident_key_of a j"
      using new by (auto simp: ident_live_values [OF ids(1)] ident_key_of_def a'_def vid e_def)
    ultimately show ?thesis using run by blast
  qed
qed

interpretation idents: id_alloc ident_ops ident_live ident_key_of fnv1a ident_alloc_ok ident_key_ok
  by unfold_locales (fact ident_value_law ident_alloc_law ident_values_law)+

section \<open>The pool interns identifiers\<close>

text \<open>
  A well-formed pool, the ids it has given out, and the names behind them.
\<close>

definition pool_ok :: "IdentifierPool \<Rightarrow> bool" where
  "pool_ok m \<longleftrightarrow> idents.map_ok m"

definition pool_ids :: "IdentifierPool \<Rightarrow> u32 set" where
  "pool_ids m = (\<lambda>vid. vid + FirstNatural) ` ident_live (m_alloc m)"

definition pool_name :: "IdentifierPool \<Rightarrow> u32 \<Rightarrow> u8 list" where
  "pool_name m vid = ident_key_of (m_alloc m) (vid - FirstNatural)"

lemma pool_live_bounds:
  assumes "pool_ok m" and "vid \<in> ident_live (m_alloc m)"
  shows "0 < unat vid" and "unat vid * 8 < unat (m_used (entries (m_alloc m)))" and "unat vid < 2 ^ 22"
proof -
  let ?a = "m_alloc m"
  have a: "ident_alloc_ok ?a" using assms(1) by (simp add: pool_ok_def idents.map_ok_def)
  then obtain ids where ids: "ident_values ?a = Inr ids" by (auto simp: ident_alloc_ok_def)
  then have "vid \<in> set ids" using assms(2) by (simp add: ident_live_values)
  then have *: "1 \<le> unat vid" "unat vid < unat (m_used (entries ?a)) div 8"
    using ident_values_from_bounds [OF ids [unfolded ident_values_def] unat_u32_div_less] by blast+
  then show "0 < unat vid" and 1: "unat vid * 8 < unat (m_used (entries ?a))" by auto
  have "m_used (entries ?a) \<le> m_reserved (entries ?a)" "m_reserved (entries ?a) \<le> IDENTIFIER_ENTRY_RESERVE"
    using a by (auto simp: ident_alloc_ok_def rv_ok_def)
  then have "unat (m_used (entries ?a)) \<le> unat IDENTIFIER_ENTRY_RESERVE"
    by (simp add: word_le_nat_alt)
  then have "unat (m_used (entries ?a)) \<le> 2 ^ 25" by (simp add: IDENTIFIER_ENTRY_RESERVE_def)
  with 1 show "unat vid < 2 ^ 22" by simp
qed

lemma identifier_name_live:
  assumes "pool_ok m" and "vid \<in> pool_ids m"
  shows "identifier_name_from_id m vid = Inr (pool_name m vid)"
proof -
  obtain i where i: "i \<in> ident_live (m_alloc m)" "vid = i + FirstNatural"
    using assms(2) by (auto simp: pool_ids_def)
  note b = pool_live_bounds [OF assms(1) i(1)]
  have "unat vid = unat i + 65536"
    using b(3) by (simp add: i(2) FirstNatural_def unat_plus_if')
  then have ge: "FirstNatural \<le> vid" by (simp add: word_le_nat_alt FirstNatural_def)
  have a: "ident_alloc_ok (m_alloc m)" using assms(1) by (simp add: pool_ok_def idents.map_ok_def)
  then obtain ids where "ident_values (m_alloc m) = Inr ids"
    "\<forall>vid \<in> set ids. entry_ok (entry_at (m_alloc m) vid)" by (auto simp: ident_alloc_ok_def)
  then have "entry_ok (entry_at (m_alloc m) i)" using i(1) by (simp add: ident_live_values)
  moreover have "i \<noteq> 0" using b(1) by auto
  ultimately show ?thesis
    using ge b(2) by (simp add: identifier_name_from_id_def value_from_def ident_ops_def ident_value_from_id_def
      i(2) pool_name_def ident_key_of_def entry_ok_def)
qed

text \<open>
  C6: interning an identifier in a well-formed pool whose table has a free slot either
  panics (the memory is used up, or a probe sequence is too long) or returns an id with
  that name, and the pool stays well-formed; every id given out before keeps its name, no
  other id is added, different ids have different names, and a name that had an id gets it
  again.
\<close>

theorem identifier_intern:
  assumes "pool_ok m" and "length name < 2 ^ 16" and "card (pool_ids m) < m_lookup_commit m"
  shows "id_from_identifier m name = Inl Panic \<or>
    (\<exists>m' vid. id_from_identifier m name = Inr (m', vid) \<and> pool_ok m'
      \<and> pool_ids m' = insert vid (pool_ids m)
      \<and> identifier_name_from_id m' vid = Inr name
      \<and> (\<forall>j \<in> pool_ids m. identifier_name_from_id m' j = identifier_name_from_id m j)
      \<and> inj_on (identifier_name_from_id m') (pool_ids m')
      \<and> (\<forall>j \<in> pool_ids m. identifier_name_from_id m j = Inr name \<longrightarrow> vid = j))"
proof -
  have inj: "inj (\<lambda>vid. vid + FirstNatural)" by (simp add: inj_def)
  then have "card (ident_live (m_alloc m)) < m_lookup_commit m"
    using assms(3) by (simp add: pool_ids_def card_image inj_on_subset)
  from idents.id_from_ok [OF assms(1) [unfolded pool_ok_def] _ this, of name] assms(2)
  have "id_from ident_ops m name (fnv1a name) = Inl Panic \<or>
    (\<exists>m' i. id_from ident_ops m name (fnv1a name) = Inr (m', i) \<and> idents.interned m name m' i)"
    by (simp add: ident_key_ok_def)
  then show ?thesis
  proof (elim disjE exE conjE)
    fix m' i assume r: "id_from ident_ops m name (fnv1a name) = Inr (m', i)" "idents.interned m name m' i"
    have ok: "pool_ok m'" and ids: "pool_ids m' = insert (i + FirstNatural) (pool_ids m)"
      and name: "pool_name m' (i + FirstNatural) = name"
      and same: "\<forall>j \<in> pool_ids m. pool_name m' j = pool_name m j"
      using r(2) by (auto simp: idents.interned_def pool_ok_def pool_ids_def pool_name_def)
    have injn: "inj_on (identifier_name_from_id m') (pool_ids m')"
    proof (rule inj_onI)
      fix x y assume xy: "x \<in> pool_ids m'" "y \<in> pool_ids m'"
        "identifier_name_from_id m' x = identifier_name_from_id m' y"
      then have "pool_name m' x = pool_name m' y" by (simp add: identifier_name_live [OF ok])
      moreover have "inj_on (ident_key_of (m_alloc m')) (ident_live (m_alloc m'))"
        using ok by (simp add: pool_ok_def idents.map_ok_def)
      ultimately show "x = y" using xy(1,2) by (auto simp: pool_ids_def pool_name_def dest: inj_onD)
    qed
    have again: "i + FirstNatural = j" if "j \<in> pool_ids m" "identifier_name_from_id m j = Inr name" for j
      using that injn ids name same identifier_name_live [OF ok] identifier_name_live [OF assms(1)]
      by (auto dest!: inj_onD [of _ _ "i + FirstNatural" j])
    from r(1) ok ids name same assms(1) injn again show ?thesis
      by (auto simp: id_from_identifier_def identifier_name_live)
  qed (simp add: id_from_identifier_def)
qed

lemma pool_init_success:
  assumes "map_os (2 ^ 15)" and "entry_os (2 ^ 18 * 8)"
  shows "\<exists>m. identifier_pool_init map_os entry_os memory = Inr m \<and> pool_ok m \<and> pool_ids m = {}
    \<and> m_lookup_commit m = 2 ^ 15"
proof -
  define v where "v = \<lparr>m_memory = \<lambda>_. (), m_used = 8, m_committed = 2 ^ 18 * 8, m_commit_increment = 2 ^ 18 * 8,
    m_reserved = 2 ^ 22 * 8, os_commit = entry_os\<rparr>"
  define m where "m = \<lparr>m_lookups = replicate (2 ^ 15) empty_lookup, m_lookup_used = 0, m_lookup_capacity = 2 ^ 21,
    m_alloc = \<lparr>entries = v, entry_at = memory\<rparr>, lookup_os = map_os\<rparr>"
  have "is_pow2 (of_nat (2 ^ 21) :: u64)" "is_pow2 (of_nat (2 ^ 15) :: u32)"
    unfolding of_nat_power of_nat_numeral by (intro is_pow2_exp; simp)+
  with assms have init: "identifier_pool_init map_os entry_os memory = Inr m"
    by (simp add: identifier_pool_init_def rv_init_def rv_reserve_def rv_ensure_capacity_def idmap_init_def
      IDENTIFIER_ENTRY_RESERVE_def IDENTIFIER_ENTRY_COMMIT_INCREMENT_COUNT_def
      IDENTIFIER_LOOKUP_CAPACITY_def IDENTIFIER_LOOKUP_INITIAL_COMMIT_COUNT_def m_def v_def)
  have vals: "ident_values (m_alloc m) = Inr []"
    by (simp add: ident_values_def m_def v_def ident_values_from.simps)
  have "rv_ok v" by (simp add: rv_ok_def v_def)
  then have "ident_alloc_ok (m_alloc m)"
    using vals by (simp add: ident_alloc_ok_def m_def v_def IDENTIFIER_ENTRY_RESERVE_def)
  moreover have "table_ok hs (m_lookups m)" for hs by (simp add: m_def table_ok_empty)
  moreover have "ids_of (m_lookups m) = {#}" by (simp add: m_def ids_of_def)
  moreover have "pow2_size (m_lookups m)" unfolding pow2_size_def m_def by (intro exI [of _ 15]) simp
  moreover have "ident_live (m_alloc m) = {}" using vals by (simp add: ident_live_def)
  moreover have "m_lookup_commit m \<le> m_lookup_capacity m" "\<exists>q < 32. m_lookup_capacity m = 2 ^ q"
    by (simp_all add: m_def) (intro exI [of _ 21], simp)
  ultimately have "pool_ok m" "pool_ids m = {}"
    by (simp_all add: pool_ok_def idents.map_ok_def pool_ids_def)
  moreover have "m_lookup_commit m = 2 ^ 15" by (simp add: m_def)
  ultimately show ?thesis using init by blast
qed

text \<open>
  C36: the pool after \<open>identifier_pool_init\<close> is well-formed and has given out no id; the
  initialisation fails only with a panic, when the platform does not commit memory.
\<close>

theorem identifier_pool_init_ok:
  "if map_os (2 ^ 15) \<and> entry_os (2 ^ 18 * 8)
   then \<exists>m. identifier_pool_init map_os entry_os memory = Inr m \<and> pool_ok m \<and> pool_ids m = {}
     \<and> m_lookup_commit m = 2 ^ 15
   else identifier_pool_init map_os entry_os memory = Inl Panic"
proof (cases "map_os (2 ^ 15) \<and> entry_os (2 ^ 18 * 8)")
  case True
  then show ?thesis using pool_init_success [of map_os entry_os memory] by simp
next
  case False
  have "is_pow2 (of_nat (2 ^ 21) :: u64)" "is_pow2 (of_nat (2 ^ 15) :: u32)"
    unfolding of_nat_power of_nat_numeral by (intro is_pow2_exp; simp)+
  with False show ?thesis
    by (auto simp: identifier_pool_init_def rv_init_def rv_reserve_def rv_ensure_capacity_def idmap_init_def
      IDENTIFIER_ENTRY_RESERVE_def IDENTIFIER_ENTRY_COMMIT_INCREMENT_COUNT_def
      IDENTIFIER_LOOKUP_CAPACITY_def IDENTIFIER_LOOKUP_INITIAL_COMMIT_COUNT_def)
qed

theorem identifier_intern_witness:
  "\<exists>m. identifier_pool_init (\<lambda>_. True) (\<lambda>_. True)
      (\<lambda>_. \<lparr>m_hash = 0, m_length = 0, m_attachment = 0, m_chars = []\<rparr>) = Inr m \<and>
    (id_from_identifier m [97, 98] = Inl Panic \<or>
    (\<exists>m' vid. id_from_identifier m [97, 98] = Inr (m', vid) \<and> pool_ok m' \<and> pool_ids m' = {vid}
      \<and> identifier_name_from_id m' vid = Inr [97, 98]))"
proof -
  obtain m where m: "identifier_pool_init (\<lambda>_. True) (\<lambda>_. True)
      (\<lambda>_. \<lparr>m_hash = 0, m_length = 0, m_attachment = 0, m_chars = []\<rparr>) = Inr m" "pool_ok m" "pool_ids m = {}"
    "m_lookup_commit m = 2 ^ 15"
    using pool_init_success [of "\<lambda>_. True" "\<lambda>_. True"] by fastforce
  from identifier_intern [OF m(2), of "[97, 98]"] m show ?thesis
    by (intro exI [of _ m]) auto
qed

end
