(* ===== verification/Tokens.thy ===== *)
theory Tokens
  imports CompInteger IdentPool "HOL-Library.Char_ord"
begin

text \<open>
  The enumerations the lexer and the parser share: \<open>Token\<close> with its table of names and the
  keyword table (src/core/parse.cpp), \<open>Builtin\<close> and the part of \<open>CompileError\<close> that the lexer and
  the parser report (src/core/core.hpp). An enumeration is a datatype with the enumerators of the
  source; its underlying \<open>u8\<close> is the position in the list of all enumerators.
\<close>

section \<open>Enumerators and their ordinals\<close>

fun position_of :: "'a \<Rightarrow> 'a list \<Rightarrow> nat" where
  "position_of x [] = 0"
| "position_of x (y # ys) = (if x = y then 0 else Suc (position_of x ys))"

definition enumerator :: "'a list \<Rightarrow> u8 \<Rightarrow> 'a outcome" where
  "enumerator xs b = (if unat b < length xs then Inr (xs ! unat b) else Inl Undefined)"

lemma position_of_less: "x \<in> set xs \<Longrightarrow> position_of x xs < length xs"
  by (induction xs) auto

lemma nth_position_of: "x \<in> set xs \<Longrightarrow> xs ! position_of x xs = x"
  by (induction xs) auto

lemma enumerator_position_of:
  assumes "x \<in> set xs" and "length xs \<le> 256"
  shows "enumerator xs (of_nat (position_of x xs)) = Inr x"
proof -
  have "position_of x xs < 256" using position_of_less [OF assms(1)] assms(2) by simp
  then have "unat (of_nat (position_of x xs) :: u8) = position_of x xs"
    by (simp add: unsigned_of_nat take_bit_nat_eq_self)
  with assms show ?thesis by (simp add: enumerator_def position_of_less nth_position_of)
qed

section \<open>Tokens\<close>

datatype (plugins only: ) Token =
  EMPTY | KwdIf | KwdThen | KwdElse | KwdFor | KwdDo | KwdFinally | KwdSwitch | KwdCase | KwdFunc |
  KwdProc | KwdTrait | KwdImpl | KwdSelf | KwdWhere | KwdExpects | KwdEnsures | KwdCatch | KwdLet |
  KwdPub | KwdMut | KwdUnreachable | KwdUndefined | KwdReturn | KwdLeave | KwdYield |
  OpMemberOrRef | DoubleDot | ArrayInitializer | CompositeInitializer | BracketR | BracketL |
  CurlyR | CurlyL | ParenR | ParenL | KwdEval | KwdTry | KwdDefer | KwdDistinct | UOpNot |
  UOpLogNot | TypOptPtr | TypVar | TypTailArray | TypMultiPtr | TypOptMultiPtr | TypSlice |
  OpMulOrTypPtr | OpSub | OpAdd | OpDiv | OpAddTC | OpSubTC | OpMulTC | OpMod | UOpAddr |
  UOpDeref | OpAnd | OpOr | OpXor | OpShl | OpShr | OpLogAnd | OpLogOr | OpLt | OpGt | OpLe |
  OpGe | OpNe | OpEq | OpSet | OpSetAdd | OpSetSub | OpSetMul | OpSetDiv | OpSetAddTC |
  OpSetSubTC | OpSetMulTC | OpSetMod | OpSetAnd | OpSetOr | OpSetXor | OpSetShl | OpSetShr |
  Colon | Comma | ThinArrowL | ThinArrowR | WideArrowR | Pragma | LitInteger | LitFloat | LitChar |
  LitString | Ident | Builtin | Wildcard | END_OF_SOURCE | MAX_Token

definition all_tokens :: "Token list" where
  "all_tokens = [
     EMPTY, KwdIf, KwdThen, KwdElse, KwdFor, KwdDo, KwdFinally, KwdSwitch, KwdCase, KwdFunc,
     KwdProc, KwdTrait, KwdImpl, KwdSelf, KwdWhere, KwdExpects, KwdEnsures, KwdCatch, KwdLet,
     KwdPub, KwdMut, KwdUnreachable, KwdUndefined, KwdReturn, KwdLeave, KwdYield, OpMemberOrRef,
     DoubleDot, ArrayInitializer, CompositeInitializer, BracketR, BracketL, CurlyR, CurlyL, ParenR,
     ParenL, KwdEval, KwdTry, KwdDefer, KwdDistinct, UOpNot, UOpLogNot, TypOptPtr, TypVar,
     TypTailArray, TypMultiPtr, TypOptMultiPtr, TypSlice, OpMulOrTypPtr, OpSub, OpAdd, OpDiv,
     OpAddTC, OpSubTC, OpMulTC, OpMod, UOpAddr, UOpDeref, OpAnd, OpOr, OpXor, OpShl, OpShr,
     OpLogAnd, OpLogOr, OpLt, OpGt, OpLe, OpGe, OpNe, OpEq, OpSet, OpSetAdd, OpSetSub, OpSetMul,
     OpSetDiv, OpSetAddTC, OpSetSubTC, OpSetMulTC, OpSetMod, OpSetAnd, OpSetOr, OpSetXor, OpSetShl,
     OpSetShr, Colon, Comma, ThinArrowL, ThinArrowR, WideArrowR, Pragma, LitInteger, LitFloat,
     LitChar, LitString, Ident, Builtin, Wildcard, END_OF_SOURCE, MAX_Token]"

definition token_ordinal :: "Token \<Rightarrow> u8" where
  "token_ordinal t = of_nat (position_of t all_tokens)"

definition token_of_u8 :: "u8 \<Rightarrow> Token outcome" where
  "token_of_u8 b = enumerator all_tokens b"

definition TOKEN_NAMES :: "string list" where
  "TOKEN_NAMES = [
     ''[Unknown]'', ''if'', ''then'', ''else'', ''for'', ''do'', ''finally'', ''switch'', ''case'',
     ''func'', ''proc'', ''trait'', ''impl'', ''self'', ''where'', ''expects'', ''ensures'',
     ''catch'', ''let'', ''pub'', ''mut'', ''unreachable'', ''undefined'', ''return'', ''leave'',
     ''yield'', ''.'', ''..'', ''.['', ''.{'', '']'', ''['', ''}'', ''{'', '')'', ''('', ''eval'',
     ''try'', ''defer'', ''distinct'', ''~'', ''!'', ''?'', ''...'', ''[...]'', ''[*]'', ''[?]'',
     ''[]'', ''*'', ''-'', ''+'', ''/'', ''+:'', ''-:'', ''*:'', ''%'', ''.&'', ''.*'', ''&'',
     ''|'', ''^'', ''<<'', ''>>'', ''&&'', ''||'', ''<'', ''>'', ''<='', ''>='', ''!='', ''=='',
     ''='', ''+='', ''-='', ''*='', ''/='', ''+:='', ''-:='', ''*:='', ''%='', ''&='', ''|='',
     ''^='', ''<<='', ''>>='', '':'', '','', ''<-'', ''->'', ''=>'', ''#'', ''LiteralInteger'',
     ''LiteralFloat'', ''LiteralChar'', ''LiteralString'', ''Identifier'', ''Builtin'', ''_'',
     ''[END-OF-SOURCE]'']"

definition token_name :: "Token \<Rightarrow> string" where
  "token_name token =
     (if unat (token_ordinal token) < length TOKEN_NAMES then TOKEN_NAMES ! unat (token_ordinal token)
      else TOKEN_NAMES ! 0)"

section \<open>Builtins and keywords\<close>

datatype (plugins only: ) Builtin =
  Builtin_INVALID | Builtin_Integer | Builtin_Float | Builtin_Type | Builtin_Definition |
  Builtin_TypeInfo | Builtin_Typeof | Builtin_Returntypeof | Builtin_Sizeof | Builtin_Alignof |
  Builtin_Strideof | Builtin_ArrayCountof | Builtin_Offsetof | Builtin_Nameof | Builtin_Import |
  Builtin_CreateTypeBuilder | Builtin_AddTypeMember | Builtin_CompleteType | Builtin_SourceId |
  Builtin_CallerSourceId | Builtin_DefinitionTypeof | Builtin_ForeignFunctionImport |
  Builtin_ForeignFunctionCall | Builtin_CompilerHostOs | Builtin_CompilerHostArch |
  Builtin_CompilerMajorVersion | Builtin_CompilerMinorVersion | Builtin_CompDefinesType |
  Builtin_CompDefines | Builtin_MAX

definition all_builtins :: "Builtin list" where
  "all_builtins = [
     Builtin_INVALID, Builtin_Integer, Builtin_Float, Builtin_Type, Builtin_Definition,
     Builtin_TypeInfo, Builtin_Typeof, Builtin_Returntypeof, Builtin_Sizeof, Builtin_Alignof,
     Builtin_Strideof, Builtin_ArrayCountof, Builtin_Offsetof, Builtin_Nameof, Builtin_Import,
     Builtin_CreateTypeBuilder, Builtin_AddTypeMember, Builtin_CompleteType, Builtin_SourceId,
     Builtin_CallerSourceId, Builtin_DefinitionTypeof, Builtin_ForeignFunctionImport,
     Builtin_ForeignFunctionCall, Builtin_CompilerHostOs, Builtin_CompilerHostArch,
     Builtin_CompilerMajorVersion, Builtin_CompilerMinorVersion, Builtin_CompDefinesType,
     Builtin_CompDefines, Builtin_MAX]"

definition builtin_ordinal :: "Builtin \<Rightarrow> u8" where
  "builtin_ordinal b = of_nat (position_of b all_builtins)"

definition builtin_of_u8 :: "u8 \<Rightarrow> Builtin outcome" where
  "builtin_of_u8 b = enumerator all_builtins b"

definition KEYWORDS :: "(string \<times> u8) list" where
  "KEYWORDS = [
     (''if'', token_ordinal KwdIf), (''then'', token_ordinal KwdThen),
     (''else'', token_ordinal KwdElse), (''for'', token_ordinal KwdFor),
     (''do'', token_ordinal KwdDo), (''finally'', token_ordinal KwdFinally),
     (''switch'', token_ordinal KwdSwitch), (''case'', token_ordinal KwdCase),
     (''eval'', token_ordinal KwdEval), (''try'', token_ordinal KwdTry),
     (''catch'', token_ordinal KwdCatch), (''defer'', token_ordinal KwdDefer),
     (''func'', token_ordinal KwdFunc), (''proc'', token_ordinal KwdProc),
     (''trait'', token_ordinal KwdTrait), (''impl'', token_ordinal KwdImpl),
     (''self'', token_ordinal KwdSelf), (''where'', token_ordinal KwdWhere),
     (''expects'', token_ordinal KwdExpects), (''ensures'', token_ordinal KwdEnsures),
     (''pub'', token_ordinal KwdPub), (''mut'', token_ordinal KwdMut),
     (''let'', token_ordinal KwdLet), (''unreachable'', token_ordinal KwdUnreachable),
     (''undefined'', token_ordinal KwdUndefined), (''return'', token_ordinal KwdReturn),
     (''leave'', token_ordinal KwdLeave), (''yield'', token_ordinal KwdYield),
     (''distinct'', token_ordinal KwdDistinct), (''_integer'', builtin_ordinal Builtin_Integer),
     (''_float'', builtin_ordinal Builtin_Float), (''_type'', builtin_ordinal Builtin_Type),
     (''_definition'', builtin_ordinal Builtin_Definition),
     (''_type_info'', builtin_ordinal Builtin_TypeInfo),
     (''_typeof'', builtin_ordinal Builtin_Typeof),
     (''_returntypeof'', builtin_ordinal Builtin_Returntypeof),
     (''_sizeof'', builtin_ordinal Builtin_Sizeof),
     (''_alignof'', builtin_ordinal Builtin_Alignof),
     (''_strideof'', builtin_ordinal Builtin_Strideof),
     (''_offsetof'', builtin_ordinal Builtin_Offsetof),
     (''_array_countof'', builtin_ordinal Builtin_ArrayCountof),
     (''_nameof'', builtin_ordinal Builtin_Nameof), (''_import'', builtin_ordinal Builtin_Import),
     (''_create_type_builder'', builtin_ordinal Builtin_CreateTypeBuilder),
     (''_add_type_member'', builtin_ordinal Builtin_AddTypeMember),
     (''_complete_type'', builtin_ordinal Builtin_CompleteType),
     (''_source_id'', builtin_ordinal Builtin_SourceId),
     (''_caller_source_id'', builtin_ordinal Builtin_CallerSourceId),
     (''_definition_typeof'', builtin_ordinal Builtin_DefinitionTypeof),
     (''_foreign_function'', builtin_ordinal Builtin_ForeignFunctionImport),
     (''_compiler_host_os'', builtin_ordinal Builtin_CompilerHostOs),
     (''_compiler_host_arch'', builtin_ordinal Builtin_CompilerHostArch),
     (''_compiler_major_version'', builtin_ordinal Builtin_CompilerMajorVersion),
     (''_compiler_minor_version'', builtin_ordinal Builtin_CompilerMinorVersion),
     (''_comp_defines_type'', builtin_ordinal Builtin_CompDefinesType),
     (''_comp_defines'', builtin_ordinal Builtin_CompDefines)]"

section \<open>Errors\<close>

text \<open>
  The enumerators of \<open>CompileError\<close> with the prefixes \<open>Lex\<close> and \<open>Parse\<close>, less those of the
  configuration file, and those that name resolution reports.
\<close>

datatype (plugins only: ) CompileError =
  LexUnexpectedCharacter | LexNullCharacter | LexCommentMismatchedBegin | LexCommentMismatchedEnd |
  LexBuiltinUnknown | LexNumberWithBaseMissingDigits |
  LexNumberUnexpectedCharacterAfterDecimalPoint | LexNumberUnexpectedCharacterAfterInteger |
  LexNumberUnexpectedCharacterAfterFloat | LexNumberFloatTooLarge |
  LexCharacterBadSurrogateCodeUnit | LexCharacterBadLeadCodeUnit |
  LexCharacterEscapeSequenceLowerXBadChar | LexCharacterEscapeSequenceUpperXInvalidChar |
  LexCharacterEscapeSequenceUpperXCodepointTooLarge | LexCharacterEscapeSequenceUInvalidChar |
  LexCharacterEscapeSequenceUnknown | LexCharacterExpectedEnd | LexStringTooLong |
  LexStringCrossesNewline | LexStringMissingEnd | LexIdentifierInitialUnderscore |
  ParseUnaryOperatorMissingOperand | ParseBinaryOperatorMissingOperand |
  ParseOpenOperandCountTooLarge | ParseOpenOperatorCountTooLarge |
  ParseOperatorOperandCountMismatch | ParseFunctionParameterIsPub | ParseDefinitionMultiplePub |
  ParseDefinitionMultipleMut | ParseDefinitionMissingName | ParseDefinitionMissingEquals |
  ParseDefinitionMissingColon | ParseDefinitionUnexpectedVariadic |
  ParseForeachExpectThinArrowLeft | ParseCaseMissingThinArrowRight | ParseSwitchMissingCase |
  ParseSignatureMissingReturnType | ParseSignatureMissingParenthesisAfterProc |
  ParseSignatureMissingParenthesisAfterFunc | ParseSignatureMissingParenthesisAfterTrait |
  ParseSignatureTooManyParameters | ParseSignatureUnexpectedParameterListEnd |
  ParseTraitMissingSetOrExpects | ParseTraitMissingSet | ParseUnexpectedTopLevelExpr |
  ParseCompositeLiteralUnexpectedToken | ParseArrayLiteralUnexpectedToken |
  ParseArrayTypeUnexpectedToken | ParseImpliedMemberUnexpectedToken | ParseExprExpectOperand |
  ParseCallTooManyArguments | ParseCallUnexpectedToken | ParseSliceUnexpectedToken |
  ParseArrayIndexUnexpectedToken | ParseCatchMissingThinArrowRightAfterDefinition |
  ParseMemberUnexpectedToken | ParseTraitParameterMissingName | ParseTraitExpectOpeningCurly |
  ParseImplExpectOpeningCurly | ScopeTooManyDefinitions | ScopeDuplicateName | ScopeNameNotDefined |
  CyclicDefinitionType | CyclicParameterReference

end
