(* ===== verification/Lexer.thy ===== *)
theory Lexer
  imports Tokens
begin

text \<open>
  The lexer (src/core/parse.cpp, from \<open>is_whitespace\<close> to \<open>skip\<close>): the state \<open>ParserState\<close> is the
  \<open>Parser\<close> of src/core/structure.hpp with the parts of the core it reaches, the identifier pool
  and the error sink. A pointer into the source is the list of bytes from it up to and including
  the terminating zero, so advancing it is \<open>drop\<close>, and the source offset of \<open>cur\<close> is the length of the
  source less the length of what is left. The lexer reads no byte behind the terminator but in
  one place, which \<open>scan_char_token\<close> marks.
\<close>

section \<open>State and results\<close>

text \<open>The payload of a lexeme is the union of \<open>Lexeme\<close>; a string carries its bytes.\<close>

datatype LexemeValue =
    NoValue
  | IntegerValue CompIntegerValue
  | FloatValue u64
  | CharValue u32
  | IdentifierValue u32
  | BuiltinValue Builtin
  | StringValue string

record Lexeme =
  token :: Token
  source_id :: u32
  lexeme_value :: LexemeValue

text \<open>
  \<open>strtod_fn\<close> is \<open>strtod\<close> of the C library: the value, the number of bytes read and whether
  \<open>errno\<close> is \<open>ERANGE\<close>. \<open>string_room\<close> says whether \<open>comp_heap_alloc\<close> finds the bytes of a string.
\<close>

record ParserState =
  rest :: string
  source_length :: nat
  peek_slot :: Lexeme
  source_id_base :: u32
  is_std :: bool
  has_errors :: bool
  suppress_errors :: bool
  identifiers :: IdentifierPool
  error_count :: u32
  error_records :: "(CompileError \<times> u32) list"
  strtod_fn :: "string \<Rightarrow> u64 \<times> nat \<times> bool"
  string_room :: "nat \<Rightarrow> bool"

text \<open>
  A scanning function returns, jumps to the handler \<open>error_jump_buffer\<close> (\<open>Fatal\<close>), or stops the
  process. The state a handler sees is part of the jump.
\<close>

datatype ('a, 's) lexed = Ok 'a 's | Fatal 's | Stop fault

definition lbind :: "('a, 's) lexed \<Rightarrow> ('a \<Rightarrow> 's \<Rightarrow> ('b, 's) lexed) \<Rightarrow> ('b, 's) lexed" where
  "lbind m f = (case m of Ok a s \<Rightarrow> f a s | Fatal s \<Rightarrow> Fatal s | Stop e \<Rightarrow> Stop e)"

definition lift_outcome :: "'a outcome \<Rightarrow> 's \<Rightarrow> ('a, 's) lexed" where
  "lift_outcome x s = (case x of Inl e \<Rightarrow> Stop e | Inr a \<Rightarrow> Ok a s)"

lemma lbind_simps [simp]:
  "lbind (Ok a s) f = f a s" "lbind (Fatal s) f = Fatal s" "lbind (Stop e) f = Stop e"
  by (simp_all add: lbind_def)

lemma lift_outcome_simps [simp]: "lift_outcome (Inr a) s = Ok a s" "lift_outcome (Inl e) s = Stop e"
  by (simp_all add: lift_outcome_def)

lemma lbind_eq_Ok_iff: "lbind m f = Ok b s \<longleftrightarrow> (\<exists>a s'. m = Ok a s' \<and> f a s' = Ok b s)"
  by (cases m) auto

lemma lift_outcome_eq_Ok_iff: "lift_outcome x s = Ok a s' \<longleftrightarrow> x = Inr a \<and> s' = s"
  by (cases x) auto

lemma lift_outcome_not_Fatal [simp]: "lift_outcome x s \<noteq> Fatal s'"
  by (cases x) auto

lemma lbind_cong [fundef_cong]:
  "m = m' \<Longrightarrow> (\<And>a s. m' = Ok a s \<Longrightarrow> f a s = g a s) \<Longrightarrow> lbind m f = lbind m' g"
  by (cases m') auto

section \<open>Bytes and character classes\<close>

definition peek_at :: "string \<Rightarrow> nat \<Rightarrow> char" where
  "peek_at cs i = (if i < length cs then cs ! i else CHR 0x00)"

definition advance :: "nat \<Rightarrow> ParserState \<Rightarrow> ParserState" where
  "advance n s = s\<lparr>rest := drop n (rest s)\<rparr>"

definition is_whitespace :: "char \<Rightarrow> bool" where
  "is_whitespace c \<longleftrightarrow> c = CHR '' '' \<or> c = CHR 0x09 \<or> c = CHR 0x0A \<or> c = CHR 0x0D"

definition is_alphabetic_char :: "char \<Rightarrow> bool" where
  "is_alphabetic_char c \<longleftrightarrow>
     (CHR ''a'' \<le> c \<and> c \<le> CHR ''z'') \<or> (CHR ''A'' \<le> c \<and> c \<le> CHR ''Z'')"

definition is_numeric_char :: "char \<Rightarrow> bool" where
  "is_numeric_char c \<longleftrightarrow> CHR ''0'' \<le> c \<and> c \<le> CHR ''9''"

definition is_identifier_continuation_char :: "char \<Rightarrow> bool" where
  "is_identifier_continuation_char c \<longleftrightarrow> is_alphabetic_char c \<or> is_numeric_char c \<or> c = CHR ''_''"

definition INVALID_HEX_CHAR_VALUE :: u8 where "INVALID_HEX_CHAR_VALUE = 255"

definition hex_char_value :: "char \<Rightarrow> u8" where
  "hex_char_value c =
     (if CHR ''a'' \<le> c \<and> c \<le> CHR ''f'' then 10 + of_char c - of_char CHR ''a''
      else if CHR ''A'' \<le> c \<and> c \<le> CHR ''F'' then 10 + of_char c - of_char CHR ''A''
      else if CHR ''0'' \<le> c \<and> c \<le> CHR ''9'' then of_char c - of_char CHR ''0''
      else INVALID_HEX_CHAR_VALUE)"

section \<open>Errors\<close>

definition MAX_ERROR_RECORD_COUNT :: nat where "MAX_ERROR_RECORD_COUNT = 16384"

definition record_error :: "ParserState \<Rightarrow> u32 \<Rightarrow> CompileError \<Rightarrow> ParserState" where
  "record_error s sid err =
     (let prev_error_count = error_count s;
          s = s\<lparr>error_count := prev_error_count + 1\<rparr>
      in if unat prev_error_count < MAX_ERROR_RECORD_COUNT
         then s\<lparr>error_records := error_records s @ [(err, sid)]\<rparr> else s)"

definition parse_error_fatal :: "ParserState \<Rightarrow> u32 \<Rightarrow> CompileError \<Rightarrow> ('a, ParserState) lexed" where
  "parse_error_fatal s sid err =
     Fatal (if \<not> suppress_errors s then record_error s sid err else s)"

definition parse_error_continuable :: "ParserState \<Rightarrow> u32 \<Rightarrow> CompileError \<Rightarrow> ParserState" where
  "parse_error_continuable s sid err =
     (if \<not> suppress_errors s then record_error s sid err else s)\<lparr>has_errors := True\<rparr>"

text \<open>The errors of a token carry the source id that \<open>peek_slot\<close> holds.\<close>

definition scan_error :: "ParserState \<Rightarrow> CompileError \<Rightarrow> ('a, ParserState) lexed" where
  "scan_error s err = parse_error_fatal s (source_id (peek_slot s)) err"

lemma parse_error_fatal_not_Ok [simp]: "parse_error_fatal s sid err \<noteq> Ok a s'"
  by (simp add: parse_error_fatal_def)

lemma scan_error_not_Ok [simp]: "scan_error s err \<noteq> Ok a s'"
  by (simp add: scan_error_def)

section \<open>Whitespace and comments\<close>

text \<open>
  The loop of \<open>skip_block_comment\<close>, from behind the opening: \<open>Inr\<close> is the source behind the
  closing, \<open>Inl\<close> the place of the zero byte that ends the loop. The depth of nesting is less than
  the length of the source, which is less than 2^32, so \<open>comment_nesting\<close> does not wrap.
\<close>

function comment_loop :: "string \<Rightarrow> nat \<Rightarrow> string + string" where
  "comment_loop cur comment_nesting =
     (if comment_nesting = 0 then Inr cur
      else let c = peek_at cur 0 in
        if c = CHR ''/'' then
          (if peek_at cur 1 = CHR ''*'' then comment_loop (drop 2 cur) (comment_nesting + 1)
           else comment_loop (drop 1 cur) comment_nesting)
        else if c = CHR ''*'' then
          (if peek_at cur 1 = CHR ''/'' then comment_loop (drop 2 cur) (comment_nesting - 1)
           else comment_loop (drop 1 cur) comment_nesting)
        else if c = CHR 0x00 then Inl cur
        else comment_loop (drop 1 cur) comment_nesting)"
  by pat_completeness auto
termination
  by (relation "measure (\<lambda>(cur, n). length cur)") (auto simp: peek_at_def split: if_splits)

declare comment_loop.simps [simp del]

definition skip_block_comment :: "ParserState \<Rightarrow> (unit, ParserState) lexed" where
  "skip_block_comment s =
     (case comment_loop (drop 2 (rest s)) 1 of
        Inr cur \<Rightarrow> Ok () (s\<lparr>rest := cur\<rparr>)
      | Inl cur \<Rightarrow>
          parse_error_fatal s (source_id_base s + of_nat (length (rest s) - length cur))
            (if length (rest s) = 1 then LexCommentMismatchedBegin else LexNullCharacter))"

lemma comment_loop_shrinks: "comment_loop cs n = Inr cs' \<Longrightarrow> length cs' \<le> length cs"
proof (induction cs n rule: comment_loop.induct)
  case (1 cs n)
  with comment_loop.simps [of cs n] show ?case
    by (auto simp: Let_def split: if_splits)
qed

lemma skip_block_comment_Ok:
  "skip_block_comment s = Ok u s' \<longleftrightarrow>
     (\<exists>cur. comment_loop (drop 2 (rest s)) 1 = Inr cur \<and> s' = s\<lparr>rest := cur\<rparr>)"
  by (auto simp: skip_block_comment_def split: sum.splits)

lemma length_dropWhile_drop:
  assumes "peek_at (dropWhile P cs) 0 \<noteq> CHR 0x00"
  shows "length (dropWhile Q (drop 2 (dropWhile P cs))) < length cs"
    and "length (drop 2 (dropWhile P cs)) < length cs"
proof -
  have "0 < length (dropWhile P cs)"
    using assms by (simp add: peek_at_def del: length_greater_0_conv split: if_splits)
  moreover have "length (dropWhile P cs) \<le> length cs" by (rule length_dropWhile_le)
  ultimately show "length (drop 2 (dropWhile P cs)) < length cs"
    by (simp only: length_drop)
  then show "length (dropWhile Q (drop 2 (dropWhile P cs))) < length cs"
    using length_dropWhile_le le_less_trans by blast
qed

function skip_whitespace_loop :: "ParserState \<Rightarrow> string \<Rightarrow> (unit, ParserState) lexed" where
  "skip_whitespace_loop s cur =
     (let cur = dropWhile is_whitespace cur in
      if peek_at cur 0 = CHR ''/'' then
        (if peek_at cur 1 = CHR ''/'' then
           skip_whitespace_loop s (dropWhile (\<lambda>c. c \<noteq> CHR 0x0A \<and> c \<noteq> CHR 0x00) (drop 2 cur))
         else if peek_at cur 1 = CHR ''*'' then
           lbind (skip_block_comment (s\<lparr>rest := cur\<rparr>)) (\<lambda>_ s. skip_whitespace_loop s (rest s))
         else Ok () (s\<lparr>rest := cur\<rparr>))
      else Ok () (s\<lparr>rest := cur\<rparr>))"
  by pat_completeness auto

termination
proof (relation "measure (\<lambda>(s, cur). length cur)", goal_cases)
  case (2 s cur x)
  then show ?case using length_dropWhile_drop(1) [of is_whitespace cur] by simp
next
  case (3 s cur x a s')
  then obtain cs where "comment_loop (drop 2 x) 1 = Inr cs" "rest s' = cs"
    by (auto simp: skip_block_comment_Ok)
  moreover have "length (drop 2 x) < length cur"
    using 3 length_dropWhile_drop(2) [of is_whitespace cur] by simp
  ultimately show ?case using comment_loop_shrinks by fastforce
qed simp

declare skip_whitespace_loop.simps [simp del]

definition skip_whitespace :: "ParserState \<Rightarrow> (unit, ParserState) lexed" where
  "skip_whitespace s = skip_whitespace_loop s (rest s)"

section \<open>Identifiers and numbers\<close>

text \<open>
  The scanning functions of a token start behind its first byte; those whose \<open>token_begin\<close> is
  \<open>cur - 1\<close> take that byte as their first argument.
\<close>

definition scan_identifier_token ::
  "char \<Rightarrow> ParserState \<Rightarrow> bool \<Rightarrow> (Token \<times> LexemeValue, ParserState) lexed" where
  "scan_identifier_token first s is_builtin =
     (let identifier_bytes = first # takeWhile is_identifier_continuation_char (rest s);
          s = s\<lparr>rest := dropWhile is_identifier_continuation_char (rest s)\<rparr>
      in lbind (lift_outcome (id_and_attachment_from_identifier (identifiers s) (map of_char identifier_bytes)) s)
        (\<lambda>(pool, identifier_id, attachment) s.
          let s = s\<lparr>identifiers := pool\<rparr> in
          if is_builtin then
            (if attachment = builtin_ordinal Builtin_INVALID then scan_error s LexBuiltinUnknown
             else lbind (lift_outcome (builtin_of_u8 attachment) s) (\<lambda>builtin.
               Ok (Builtin, BuiltinValue builtin)))
          else if attachment = 0 then Ok (Ident, IdentifierValue identifier_id) s
          else lbind (lift_outcome (token_of_u8 attachment) s) (\<lambda>token.
            Ok (token, IdentifierValue (if token = Ident then identifier_id else 0)))))"

text \<open>
  The loops that read digits: \<open>digit\<close> is the value of a digit of the literal's base, and the
  value so far is multiplied by \<open>base\<close>.
\<close>

fun scan_digits ::
  "(char \<Rightarrow> u64 option) \<Rightarrow> u64 \<Rightarrow> string \<Rightarrow> CompIntegerValue \<Rightarrow> (CompIntegerValue \<times> string) outcome" where
  "scan_digits digit base [] integer_value = Inr (integer_value, [])"
| "scan_digits digit base (c # cur) integer_value =
     (case digit c of
        None \<Rightarrow> Inr (integer_value, c # cur)
      | Some d \<Rightarrow>
          obind (comp_integer_from_u64 base) (\<lambda>b.
          obind (comp_integer_mul integer_value b) (\<lambda>m.
          obind (comp_integer_from_u64 d) (\<lambda>d.
          obind (comp_integer_add m d) (\<lambda>integer_value.
            scan_digits digit base cur integer_value)))))"

definition digit_below :: "char \<Rightarrow> char \<Rightarrow> u64 option" where
  "digit_below end_digit c =
     (if CHR ''0'' \<le> c \<and> c \<le> end_digit then Some (of_char c - of_char CHR ''0'') else None)"

definition hex_digit :: "char \<Rightarrow> u64 option" where
  "hex_digit c =
     (let hex = hex_char_value c in if hex = INVALID_HEX_CHAR_VALUE then None else Some (ucast hex))"

text \<open>\<open>base == 'b'\<close> multiplies by ten, as the code has it.\<close>

definition scan_number_token_with_base ::
  "ParserState \<Rightarrow> char \<Rightarrow> (Token \<times> LexemeValue, ParserState) lexed" where
  "scan_number_token_with_base s base =
     (let token_begin = rest s; cur = drop 1 token_begin in
      lbind (lift_outcome
          (obind (comp_integer_from_u64 0) (\<lambda>integer_value.
             if base = CHR ''b'' then scan_digits (digit_below CHR ''1'') 10 cur integer_value
             else if base = CHR ''o'' then scan_digits (digit_below CHR ''7'') 8 cur integer_value
             else ensure Assertion (base = CHR ''x'') (scan_digits hex_digit 16 cur integer_value))) s)
        (\<lambda>(integer_value, cur) s.
          if length cur = length (drop 1 token_begin) then scan_error s LexNumberWithBaseMissingDigits
          else if is_identifier_continuation_char (peek_at cur 0) then
            scan_error s LexNumberUnexpectedCharacterAfterInteger
          else Ok (LitInteger, IntegerValue integer_value) (s\<lparr>rest := cur\<rparr>)))"

definition scan_fraction :: "string \<Rightarrow> string" where
  "scan_fraction cur =
     (let cur = dropWhile is_numeric_char cur in
      if peek_at cur 0 = CHR ''e'' then
        (let cur = drop 1 cur;
             cur = (if peek_at cur 0 = CHR ''+'' \<or> peek_at cur 0 = CHR ''-'' then drop 1 cur else cur)
         in dropWhile is_numeric_char cur)
      else cur)"

definition scan_number_token :: "ParserState \<Rightarrow> char \<Rightarrow> (Token \<times> LexemeValue, ParserState) lexed" where
  "scan_number_token s first =
     lbind (lift_outcome
         (obind (comp_integer_from_u64 (of_char first - of_char CHR ''0''))
            (scan_digits (digit_below CHR ''9'') 10 (rest s))) s)
       (\<lambda>(integer_value, cur) s.
         let token_begin = first # rest s in
         if peek_at cur 0 = CHR ''.'' \<and> peek_at cur 1 \<noteq> CHR ''.'' then
           (let cur = drop 1 cur in
            if \<not> is_numeric_char (peek_at cur 0) then
              scan_error s LexNumberUnexpectedCharacterAfterDecimalPoint
            else (let cur = scan_fraction cur in
              if is_alphabetic_char (peek_at cur 0) \<or> peek_at cur 0 = CHR ''_'' then
                scan_error s LexNumberUnexpectedCharacterAfterFloat
              else (let (float_value, strtod_end, erange) = strtod_fn s token_begin in
                if strtod_end \<noteq> length token_begin - length cur then Stop Assertion
                else if erange then scan_error s LexNumberFloatTooLarge
                else Ok (LitFloat, FloatValue float_value) (s\<lparr>rest := cur\<rparr>))))
         else if is_alphabetic_char (peek_at cur 0) \<or> peek_at cur 0 = CHR ''_'' then
           scan_error s LexNumberUnexpectedCharacterAfterFloat
         else Ok (LitInteger, IntegerValue integer_value) (s\<lparr>rest := cur\<rparr>))"

section \<open>Characters and strings\<close>

definition code_unit :: "char \<Rightarrow> u32" where
  "code_unit c = of_char c"

fun surrogates_loop :: "ParserState \<Rightarrow> string \<Rightarrow> u32 \<Rightarrow> nat \<Rightarrow> (u32, ParserState) lexed" where
  "surrogates_loop s cur codepoint 0 = Ok codepoint s"
| "surrogates_loop s cur codepoint (Suc remaining) =
     (let surrogate = code_unit (peek_at cur 0) in
      if surrogate AND 0xC0 \<noteq> 0x80 then scan_error s LexCharacterBadSurrogateCodeUnit
      else surrogates_loop s (drop 1 cur)
        (codepoint OR push_bit (6 * remaining) (surrogate AND 0x3F)) remaining)"

definition scan_utf8_char_surrogates :: "ParserState \<Rightarrow> u32 \<Rightarrow> nat \<Rightarrow> (u32, ParserState) lexed" where
  "scan_utf8_char_surrogates s leader_value surrogate_count =
     lbind (surrogates_loop s (drop 1 (rest s)) leader_value surrogate_count) (\<lambda>codepoint s.
       Ok codepoint (advance (surrogate_count + 1) s))"

definition scan_utf8_char :: "ParserState \<Rightarrow> (u32, ParserState) lexed" where
  "scan_utf8_char s =
     (let first = code_unit (peek_at (rest s) 0) in
      if first AND 0x80 = 0 then Ok first (advance 1 s)
      else if first AND 0xE0 = 0xC0 then scan_utf8_char_surrogates s (push_bit 6 (first AND 0x1F)) 1
      else if first AND 0xF0 = 0xE0 then scan_utf8_char_surrogates s (push_bit 12 (first AND 0x0F)) 2
      else if first AND 0xF8 = 0xF0 then scan_utf8_char_surrogates s (push_bit 18 (first AND 0x07)) 3
      else scan_error s LexCharacterBadLeadCodeUnit)"

fun escape_hex_loop :: "ParserState \<Rightarrow> string \<Rightarrow> u32 \<Rightarrow> nat \<Rightarrow> (u32, ParserState) lexed" where
  "escape_hex_loop s cur codepoint 0 = Ok codepoint s"
| "escape_hex_loop s cur codepoint (Suc remaining) =
     (let char_value = hex_char_value (peek_at cur 0) in
      if char_value = INVALID_HEX_CHAR_VALUE then scan_error s LexCharacterEscapeSequenceUpperXInvalidChar
      else escape_hex_loop s (drop 1 cur) (codepoint * 16 + ucast char_value) remaining)"

fun escape_decimal_loop :: "ParserState \<Rightarrow> string \<Rightarrow> u32 \<Rightarrow> nat \<Rightarrow> (u32, ParserState) lexed" where
  "escape_decimal_loop s cur codepoint 0 = Ok codepoint s"
| "escape_decimal_loop s cur codepoint (Suc remaining) =
     (let c = peek_at cur 0 in
      if c < CHR ''0'' \<or> CHR ''9'' < c then scan_error s LexCharacterEscapeSequenceUInvalidChar
      else escape_decimal_loop s (drop 1 cur)
        (codepoint * 10 + code_unit c - code_unit CHR ''0'') remaining)"

definition SIMPLE_ESCAPES :: "(char \<times> u32) list" where
  "SIMPLE_ESCAPES =
     [(CHR 0x5C, 0x5C), (CHR 0x27, 0x27), (CHR 0x22, 0x22), (CHR ''0'', 0), (CHR ''a'', 7),
      (CHR ''b'', 8), (CHR ''f'', 12), (CHR ''n'', 10), (CHR ''r'', 13), (CHR ''t'', 9), (CHR ''v'', 11)]"

definition scan_escape_char :: "ParserState \<Rightarrow> (u32, ParserState) lexed" where
  "scan_escape_char s =
     (let cur = rest s; escapee = peek_at cur 1 in
      if escapee = CHR ''x'' then
        (let hi = hex_char_value (peek_at cur 2) in
         if hi = INVALID_HEX_CHAR_VALUE then scan_error s LexCharacterEscapeSequenceLowerXBadChar
         else (let lo = hex_char_value (peek_at cur 3) in
           if lo = INVALID_HEX_CHAR_VALUE then scan_error s LexCharacterEscapeSequenceLowerXBadChar
           else Ok (ucast lo + ucast hi * 16) (advance 4 s)))
      else if escapee = CHR ''X'' then
        lbind (escape_hex_loop s (drop 2 cur) 0 6) (\<lambda>codepoint s.
          if codepoint > 0x10FFFF then scan_error s LexCharacterEscapeSequenceUpperXCodepointTooLarge
          else Ok codepoint (advance 8 s))
      else if escapee = CHR ''u'' then
        lbind (escape_decimal_loop s (drop 2 cur) 0 4) (\<lambda>codepoint s.
          Ok codepoint (advance 6 s))
      else (case map_of SIMPLE_ESCAPES escapee of
          Some codepoint \<Rightarrow> Ok codepoint (advance 2 s)
        | None \<Rightarrow> scan_error s LexCharacterEscapeSequenceUnknown))"

text \<open>
  A character literal whose first byte is the terminator of the source steps over it; the next
  read is out of the buffer.
\<close>

definition scan_char_token :: "ParserState \<Rightarrow> (Token \<times> LexemeValue, ParserState) lexed" where
  "scan_char_token s =
     lbind (if peek_at (rest s) 0 = CHR 0x5C then scan_escape_char s else scan_utf8_char s)
       (\<lambda>codepoint s.
         if rest s = [] then Stop Undefined
         else if peek_at (rest s) 0 \<noteq> CHR 0x27 then scan_error s LexCharacterExpectedEnd
         else Ok (LitChar, CharValue codepoint) (advance 1 s))"

definition MAX_STRING_LITERAL_BYTES :: nat where "MAX_STRING_LITERAL_BYTES = 4096"

text \<open>
  \<open>buffer\<close> is the part of the local array that is filled. \<open>copy_begin\<close> points into the source
  (\<open>Some\<close>) until the first escape sequence, and into the array (\<open>None\<close>) from then on; then
  \<open>curr - copy_begin\<close> is a difference of pointers into two arrays, which has no meaning.
\<close>

definition copy_bytes ::
  "ParserState \<Rightarrow> string \<Rightarrow> string option \<Rightarrow> string \<Rightarrow> (string, ParserState) lexed" where
  "copy_bytes s buffer copy_begin cur =
     (case copy_begin of
        None \<Rightarrow> Stop Undefined
      | Some begin \<Rightarrow>
          let bytes_to_copy = length begin - length cur in
          if length buffer + bytes_to_copy > MAX_STRING_LITERAL_BYTES then scan_error s LexStringTooLong
          else Ok (buffer @ take bytes_to_copy begin) s)"

definition char8_of :: "u32 \<Rightarrow> char" where
  "char8_of w = char_of (unat w)"

definition append_bytes :: "ParserState \<Rightarrow> string \<Rightarrow> u32 list \<Rightarrow> (string, ParserState) lexed" where
  "append_bytes s buffer bs =
     (if length buffer + length bs > MAX_STRING_LITERAL_BYTES then scan_error s LexStringTooLong
      else Ok (buffer @ map char8_of bs) s)"

definition append_codepoint :: "ParserState \<Rightarrow> string \<Rightarrow> u32 \<Rightarrow> (string, ParserState) lexed" where
  "append_codepoint s buffer codepoint =
     (if codepoint \<le> 0x7F then append_bytes s buffer [codepoint]
      else if codepoint \<le> 0x7FF then
        append_bytes s buffer [drop_bit 6 codepoint OR 0xC0, (codepoint AND 0x3F) OR 0x80]
      else if codepoint = 0x10000 then
        append_bytes s buffer
          [drop_bit 12 codepoint OR 0xE0, (drop_bit 6 codepoint AND 0x3F) OR 0x80,
           (codepoint AND 0x3F) OR 0x80]
      else if \<not> codepoint \<le> 0x10FFFF then Stop Assertion
      else append_bytes s buffer
          [drop_bit 18 codepoint OR 0xE0, (drop_bit 12 codepoint AND 0x3F) OR 0x80,
           (drop_bit 6 codepoint AND 0x3F) OR 0x80, (codepoint AND 0x3F) OR 0x80])"

lemma lexer_loops_state:
  "surrogates_loop s cur cp n = Ok cp' s' \<Longrightarrow> s' = s"
  "escape_hex_loop s cur cp n = Ok cp' s' \<Longrightarrow> s' = s"
  "escape_decimal_loop s cur cp n = Ok cp' s' \<Longrightarrow> s' = s"
  by (induction n arbitrary: cur cp) (auto simp: Let_def split: if_splits)

lemma scan_escape_char_advances:
  assumes "scan_escape_char s = Ok cp s'"
  obtains n where "2 \<le> n" "s' = advance n s"
proof -
  have "s' = advance 2 s \<or> s' = advance 4 s \<or> s' = advance 6 s \<or> s' = advance 8 s"
    using assms
    by (auto simp: scan_escape_char_def Let_def lbind_eq_Ok_iff dest!: lexer_loops_state
          split: if_splits option.splits)
  then show ?thesis
    using that [of 2] that [of 4] that [of 6] that [of 8] by (elim disjE) simp_all
qed

lemma append_codepoint_state: "append_codepoint s buffer cp = Ok b s' \<Longrightarrow> s' = s"
  by (auto simp: append_codepoint_def append_bytes_def split: if_splits)

function scan_string_loop ::
  "ParserState \<Rightarrow> string \<Rightarrow> string option \<Rightarrow> string \<Rightarrow> (string \<times> string option \<times> string, ParserState) lexed" where
  "scan_string_loop s buffer copy_begin cur =
     (if peek_at cur 0 = CHR 0x22 then Ok (buffer, copy_begin, cur) s
      else if peek_at cur 0 = CHR 0x5C then
        lbind (copy_bytes s buffer copy_begin cur) (\<lambda>buffer s.
        lbind (scan_escape_char (s\<lparr>rest := cur\<rparr>)) (\<lambda>codepoint s.
        lbind (append_codepoint s buffer codepoint) (\<lambda>buffer s.
          scan_string_loop s buffer None (rest s))))
      else if peek_at cur 0 = CHR 0x0A then scan_error s LexStringCrossesNewline
      else if peek_at cur 0 = CHR 0x00 then scan_error s LexStringMissingEnd
      else scan_string_loop s buffer copy_begin (drop 1 cur))"
  by pat_completeness auto

termination
proof (relation "measure (\<lambda>(s, b, c, cur). length cur)", goal_cases)
  case (2 s buffer copy_begin cur b s1 cp s2 b2 s3)
  have "s3 = s2" using append_codepoint_state 2(5) .
  moreover obtain n where "2 \<le> n" "s2 = advance n (s1\<lparr>rest := cur\<rparr>)"
    using scan_escape_char_advances [OF 2(4)] .
  moreover have "cur \<noteq> []" using 2(2) by (auto simp: peek_at_def)
  ultimately show ?case by (simp add: advance_def)
next
  case (3 s buffer copy_begin cur)
  then have "cur \<noteq> []" by (auto simp: peek_at_def)
  then show ?case by simp
qed simp

declare scan_string_loop.simps [simp del]

definition scan_string_token :: "ParserState \<Rightarrow> (Token \<times> LexemeValue, ParserState) lexed" where
  "scan_string_token s =
     lbind (scan_string_loop s [] (Some (rest s)) (rest s)) (\<lambda>(buffer, copy_begin, cur) s.
     lbind (copy_bytes s buffer copy_begin cur) (\<lambda>buffer s.
       if \<not> string_room s (length buffer) then Stop Todo
       else Ok (LitString, StringValue buffer) (s\<lparr>rest := drop 1 cur\<rparr>)))"

section \<open>One token\<close>

text \<open>
  \<open>operator_after n t s\<close> is \<open>curr += n; return { t };\<close>. In the cases of \<open>next_without_source\<close> the
  state \<open>s\<close> has \<open>curr\<close> behind the first byte.
\<close>

definition operator_after :: "nat \<Rightarrow> Token \<Rightarrow> ParserState \<Rightarrow> (Token \<times> LexemeValue, ParserState) lexed" where
  "operator_after n t s = Ok (t, NoValue) (advance n s)"

definition scan_arithmetic ::
  "ParserState \<Rightarrow> char \<Rightarrow> Token \<Rightarrow> Token \<Rightarrow> Token \<Rightarrow> Token \<Rightarrow> (Token \<times> LexemeValue, ParserState) lexed" where
  "scan_arithmetic s second set_token set_tc tc plain =
     (if second = CHR ''='' then operator_after 1 set_token s
      else if second = CHR '':'' then
        (if peek_at (rest s) 1 = CHR ''='' then operator_after 2 set_tc s else operator_after 1 tc s)
      else operator_after 0 plain s)"

definition scan_pair ::
  "ParserState \<Rightarrow> char \<Rightarrow> (char \<times> Token) list \<Rightarrow> Token \<Rightarrow> (Token \<times> LexemeValue, ParserState) lexed" where
  "scan_pair s second pairs plain =
     (case map_of pairs second of
        Some t \<Rightarrow> operator_after 1 t s
      | None \<Rightarrow> operator_after 0 plain s)"

definition scan_angle ::
  "ParserState \<Rightarrow> char \<Rightarrow> char \<Rightarrow> Token \<Rightarrow> Token \<Rightarrow> (char \<times> Token) list \<Rightarrow> Token
     \<Rightarrow> (Token \<times> LexemeValue, ParserState) lexed" where
  "scan_angle s first second set_shift shift pairs plain =
     (if second = first then
        (if peek_at (rest s) 1 = CHR ''='' then operator_after 2 set_shift s else operator_after 1 shift s)
      else scan_pair s second pairs plain)"

definition scan_dot :: "ParserState \<Rightarrow> char \<Rightarrow> (Token \<times> LexemeValue, ParserState) lexed" where
  "scan_dot s second =
     (if second = CHR ''.'' then
        (if peek_at (rest s) 1 = CHR ''.'' then operator_after 2 TypVar s else operator_after 1 DoubleDot s)
      else scan_pair s second
        [(CHR ''*'', UOpDeref), (CHR ''['', ArrayInitializer), (CHR ''{'', CompositeInitializer),
         (CHR ''&'', UOpAddr)] OpMemberOrRef)"

definition scan_bracket :: "ParserState \<Rightarrow> char \<Rightarrow> (Token \<times> LexemeValue, ParserState) lexed" where
  "scan_bracket s second =
     (if second = CHR ''.'' \<and> peek_at (rest s) 1 = CHR ''.'' \<and> peek_at (rest s) 2 = CHR ''.''
        \<and> peek_at (rest s) 3 = CHR '']'' then operator_after 4 TypTailArray s
      else if second = CHR ''*'' \<and> peek_at (rest s) 1 = CHR '']'' then operator_after 2 TypMultiPtr s
      else if second = CHR ''?'' \<and> peek_at (rest s) 1 = CHR '']'' then operator_after 2 TypOptMultiPtr s
      else if second = CHR '']'' then operator_after 1 TypSlice s
      else operator_after 0 BracketL s)"

text \<open>The cases of \<open>next_without_source\<close> from \<open>!\<close> on.\<close>

definition next_punctuation ::
  "ParserState \<Rightarrow> ParserState \<Rightarrow> char \<Rightarrow> char \<Rightarrow> (Token \<times> LexemeValue, ParserState) lexed" where
  "next_punctuation s0 s first second =
     (if first = CHR ''!'' then scan_pair s second [(CHR ''='', OpNe)] UOpLogNot
      else if first = CHR ''='' then scan_pair s second [(CHR ''='', OpEq), (CHR ''>'', WideArrowR)] OpSet
      else if first = CHR ''~'' then operator_after 0 UOpNot s
      else if first = CHR ''?'' then operator_after 0 TypOptPtr s
      else if first = CHR '':'' then operator_after 0 Colon s
      else if first = CHR '','' then operator_after 0 Comma s
      else if first = CHR ''#'' then operator_after 0 Pragma s
      else if first = CHR ''['' then scan_bracket s second
      else if first = CHR '']'' then operator_after 0 BracketR s
      else if first = CHR ''{'' then operator_after 0 CurlyL s
      else if first = CHR ''}'' then operator_after 0 CurlyR s
      else if first = CHR ''('' then operator_after 0 ParenL s
      else if first = CHR '')'' then operator_after 0 ParenR s
      else if first = CHR 0x00 then
        (if length (rest s0) \<noteq> 1 then scan_error s0 LexNullCharacter
         else Ok (END_OF_SOURCE, NoValue) s0)
      else scan_error s LexUnexpectedCharacter)"

definition next_without_source :: "ParserState \<Rightarrow> (Token \<times> LexemeValue, ParserState) lexed" where
  "next_without_source s0 =
     (let first = peek_at (rest s0) 0;
          s = advance 1 s0;
          second = (if first = CHR 0x00 then CHR 0x00 else peek_at (rest s) 0)
      in
      if is_alphabetic_char first then scan_identifier_token first s False
      else if first = CHR ''0'' \<and> (second = CHR ''b'' \<or> second = CHR ''o'' \<or> second = CHR ''x'') then
        scan_number_token_with_base s second
      else if is_numeric_char first then scan_number_token s first
      else if first = CHR 0x27 then scan_char_token s
      else if first = CHR 0x22 then scan_string_token s
      else if first = CHR ''_'' then
        (if is_identifier_continuation_char second then
           (if \<not> is_std s then scan_error s LexIdentifierInitialUnderscore
            else scan_identifier_token first s True)
         else operator_after 0 Wildcard s)
      else if first = CHR ''+'' then scan_arithmetic s second OpSetAdd OpSetAddTC OpAddTC OpAdd
      else if first = CHR ''-'' then
        (if second = CHR ''>'' then operator_after 1 ThinArrowR s
         else scan_arithmetic s second OpSetSub OpSetSubTC OpSubTC OpSub)
      else if first = CHR ''*'' then
        (if second = CHR ''/'' then scan_error s LexCommentMismatchedEnd
         else scan_arithmetic s second OpSetMul OpSetMulTC OpMulTC OpMulOrTypPtr)
      else if first = CHR ''/'' then scan_pair s second [(CHR ''='', OpSetDiv)] OpDiv
      else if first = CHR ''%'' then scan_pair s second [(CHR ''='', OpSetMod)] OpMod
      else if first = CHR ''&'' then scan_pair s second [(CHR ''&'', OpLogAnd), (CHR ''='', OpSetAnd)] OpAnd
      else if first = CHR ''|'' then scan_pair s second [(CHR ''|'', OpLogAnd), (CHR ''='', OpSetOr)] OpOr
      else if first = CHR ''^'' then scan_pair s second [(CHR ''='', OpSetXor)] OpXor
      else if first = CHR ''<'' then
        scan_angle s first second OpSetShl OpShl [(CHR ''='', OpLe), (CHR ''-'', ThinArrowL)] OpLt
      else if first = CHR ''>'' then scan_angle s first second OpSetShr OpShr [(CHR ''='', OpGe)] OpGt
      else if first = CHR ''.'' then scan_dot s second
      else next_punctuation s0 s first second)"

section \<open>The stream of lexemes\<close>

text \<open>\<open>next\<close> and \<open>skip\<close> of the code; \<open>EMPTY\<close> in \<open>peek_slot\<close> says that nothing is looked ahead.\<close>

definition clear_peek :: "ParserState \<Rightarrow> ParserState" where
  "clear_peek s = s\<lparr>peek_slot := (peek_slot s)\<lparr>token := EMPTY\<rparr>\<rparr>"

definition source_offset :: "ParserState \<Rightarrow> nat" where
  "source_offset s = source_length s + 1 - length (rest s)"

definition next_lexeme :: "ParserState \<Rightarrow> (Lexeme, ParserState) lexed" where
  "next_lexeme s =
     (if token (peek_slot s) \<noteq> EMPTY then Ok (peek_slot s) (clear_peek s)
      else
        lbind (skip_whitespace s) (\<lambda>_ s.
        let sid = source_id_base s + of_nat (source_offset s) in
        lbind (next_without_source s) (\<lambda>(t, v).
          Ok \<lparr>token = t, source_id = sid, lexeme_value = v\<rparr>)))"

definition peek :: "ParserState \<Rightarrow> (Lexeme, ParserState) lexed" where
  "peek s =
     (if token (peek_slot s) = EMPTY then
        lbind (next_lexeme s) (\<lambda>lexeme s. Ok lexeme (s\<lparr>peek_slot := lexeme\<rparr>))
      else Ok (peek_slot s) s)"

fun next_times :: "nat \<Rightarrow> Lexeme \<Rightarrow> ParserState \<Rightarrow> (Lexeme, ParserState) lexed" where
  "next_times 0 result s = Ok result s"
| "next_times (Suc i) result s = lbind (next_lexeme s) (next_times i)"

definition peek_n :: "ParserState \<Rightarrow> nat \<Rightarrow> (Lexeme, ParserState) lexed" where
  "peek_n s n =
     (if n = 0 then Stop Assertion
      else lbind (peek s) (\<lambda>remembered_peek s.
        let remembered_cur = rest s in
        lbind (next_times n remembered_peek (clear_peek s)) (\<lambda>result s.
          Ok result (s\<lparr>rest := remembered_cur, peek_slot := remembered_peek\<rparr>))))"

definition skip :: "ParserState \<Rightarrow> (unit, ParserState) lexed" where
  "skip s = lbind (next_lexeme s) (\<lambda>_. Ok ())"

text \<open>\<open>parse\<close> up to the call of \<open>parse_file\<close>: what it sets before the first lexeme.\<close>

definition parse_setup :: "ParserState \<Rightarrow> string \<Rightarrow> u32 \<Rightarrow> bool \<Rightarrow> ParserState outcome" where
  "parse_setup s content base is_std_source =
     ensure Assertion (content \<noteq> [] \<and> last content = CHR 0x00)
       (Inr (s\<lparr>rest := content, source_length := length content - 1, source_id_base := base,
          peek_slot := (peek_slot s)\<lparr>token := EMPTY\<rparr>, is_std := is_std_source, has_errors := False\<rparr>))"

definition parser_init_keywords :: "IdentifierPool \<Rightarrow> IdentifierPool outcome" where
  "parser_init_keywords pool =
     foldl (\<lambda>p (name, attachment). obind p (\<lambda>p. identifier_set_attachment p (map of_char name) attachment))
       (Inr pool) KEYWORDS"

end
