(* ===== verification/LexerFacts.thy ===== *)
theory LexerFacts
  imports Lexer
begin

text \<open>
  What the lexer does with a source that ends in its terminator: every token but the end of the
  source consumes bytes and stops before the terminator, comments nest, spellings of operators
  scan back to their tokens, number literals have their value, character literals decode UTF-8,
  identifiers are interned and keywords recognised.
\<close>

section \<open>Terminated sources and frames\<close>

definition terminated :: "string \<Rightarrow> bool" where
  "terminated cs \<longleftrightarrow> cs \<noteq> [] \<and> last cs = CHR 0x00"

text \<open>Scanning moves \<open>curr\<close> forward and changes nothing else but the identifier pool.\<close>

definition scanned :: "nat \<Rightarrow> ParserState \<Rightarrow> ParserState \<Rightarrow> bool" where
  "scanned k s s' \<longleftrightarrow> (\<exists>n pool. k \<le> n \<and> n < length (rest s)
     \<and> s' = s\<lparr>rest := drop n (rest s), identifiers := pool\<rparr>)"

lemma terminated_drop: "terminated cs \<Longrightarrow> n < length cs \<Longrightarrow> terminated (drop n cs)"
  by (simp add: terminated_def)

lemma terminated_peek:
  assumes "terminated cs" and "peek_at cs i \<noteq> CHR 0x00"
  shows "Suc i < length cs"
proof -
  have i: "i < length cs" using assms(2) by (auto simp: peek_at_def split: if_splits)
  moreover have "i \<noteq> length cs - 1"
    using assms by (auto simp: terminated_def peek_at_def last_conv_nth split: if_splits)
  ultimately show ?thesis by linarith
qed

lemma terminated_dropWhile:
  assumes "terminated cs" and "\<not> P (CHR 0x00)"
  shows "length (takeWhile P cs) < length cs" "dropWhile P cs = drop (length (takeWhile P cs)) cs"
    "terminated (dropWhile P cs)"
proof -
  have "CHR 0x00 \<in> set cs" using assms(1) by (metis last_in_set terminated_def)
  then have "dropWhile P cs \<noteq> []" using assms by (auto simp: terminated_def)
  then show a: "length (takeWhile P cs) < length cs"
    by (metis length_append length_greater_0_conv less_add_same_cancel1 takeWhile_dropWhile_id)
  show b: "dropWhile P cs = drop (length (takeWhile P cs)) cs" by (rule dropWhile_eq_drop)
  show "terminated (dropWhile P cs)"
    unfolding b by (rule terminated_drop [OF assms(1) a])
qed

lemma scanned_terminated: "scanned k s s' \<Longrightarrow> terminated (rest s) \<Longrightarrow> terminated (rest s')"
  by (auto simp: scanned_def terminated_drop)

lemma scanned_trans:
  assumes "scanned j s s1" and "scanned k s1 s2"
  shows "scanned (j + k) s s2"
proof -
  obtain m p where m: "j \<le> m" "m < length (rest s)" "s1 = s\<lparr>rest := drop m (rest s), identifiers := p\<rparr>"
    using assms(1) by (auto simp: scanned_def)
  obtain n q where n: "k \<le> n" "n < length (rest s1)" "s2 = s1\<lparr>rest := drop n (rest s1), identifiers := q\<rparr>"
    using assms(2) by (auto simp: scanned_def)
  have "s2 = s\<lparr>rest := drop (n + m) (rest s), identifiers := q\<rparr>" using m n by simp
  moreover have "j + k \<le> n + m" "n + m < length (rest s)" using m n by auto
  ultimately show ?thesis unfolding scanned_def by blast
qed

lemma scanned_rest: "k \<le> n \<Longrightarrow> n < length (rest s) \<Longrightarrow> scanned k s (s\<lparr>rest := drop n (rest s)\<rparr>)"
  unfolding scanned_def by (intro exI [of _ n] exI [of _ "identifiers s"]) simp

lemma scanned_advance: "k \<le> n \<Longrightarrow> n < length (rest s) \<Longrightarrow> scanned k s (advance n s)"
  by (simp add: advance_def scanned_rest)

lemma scanned_weaken: "scanned j s s' \<Longrightarrow> k \<le> j \<Longrightarrow> scanned k s s'"
  unfolding scanned_def by (blast intro: order_trans)

text \<open>A parser state at the begin of a source text, for concrete runs.\<close>

definition source_state :: "IdentifierPool \<Rightarrow> string \<Rightarrow> ParserState" where
  "source_state pool src =
     \<lparr>rest = src @ [CHR 0x00], source_length = length src,
      peek_slot = \<lparr>token = EMPTY, source_id = 0, lexeme_value = NoValue\<rparr>, source_id_base = 1,
      is_std = False, has_errors = False, suppress_errors = False, identifiers = pool, error_count = 0,
      error_records = [], strtod_fn = (\<lambda>_. (0, 0, False)), string_room = (\<lambda>_. True)\<rparr>"

lemma source_state_simps [simp]:
  "rest (source_state pool src) = src @ [CHR 0x00]" "source_length (source_state pool src) = length src"
  "peek_slot (source_state pool src) = \<lparr>token = EMPTY, source_id = 0, lexeme_value = NoValue\<rparr>"
  "source_id_base (source_state pool src) = 1" "suppress_errors (source_state pool src) = False"
  "is_std (source_state pool src) = False"
  by (simp_all add: source_state_def)

lemma terminated_append [simp]: "terminated (cs @ [CHR 0x00])"
  by (simp add: terminated_def)

section \<open>Comments and whitespace\<close>

lemma comment_loop_suffix:
  "comment_loop cs n = Inr cs' \<Longrightarrow> terminated cs \<Longrightarrow> \<exists>k < length cs. cs' = drop k cs"
proof (induction cs n rule: comment_loop.induct)
  case (1 cs n)
  have step: "\<exists>k < length cs. cs' = drop k cs"
    if "comment_loop (drop m cs) n' = Inr cs'" "m < length cs"
       "terminated (drop m cs) \<Longrightarrow> \<exists>k < length (drop m cs). cs' = drop k (drop m cs)" for m n'
  proof -
    have "\<exists>k < length (drop m cs). cs' = drop k (drop m cs)"
      by (rule that(3)) (rule terminated_drop [OF 1(7) that(2)])
    then obtain k where "k < length (drop m cs)" "cs' = drop k (drop m cs)" by blast
    then show ?thesis by (intro exI [of _ "k + m"]) auto
  qed
  have one: "peek_at cs 0 \<noteq> CHR 0x00 \<Longrightarrow> 1 < length cs"
    and two: "peek_at cs 1 \<noteq> CHR 0x00 \<Longrightarrow> 2 < length cs"
    using terminated_peek [OF 1(7), of 0] terminated_peek [OF 1(7), of 1] by auto
  have "0 < length cs" using 1(7) by (simp add: terminated_def)
  with 1 comment_loop.simps [of cs n] one two show ?case
    by (auto simp: Let_def simp del: drop_Suc drop_drop split: if_splits intro!: step)
qed

lemma skip_whitespace_loop_scanned:
  "skip_whitespace_loop s cur = Ok u s' \<Longrightarrow> terminated cur
     \<Longrightarrow> \<exists>n < length cur. s' = s\<lparr>rest := drop n cur\<rparr>"
proof (induction s cur rule: skip_whitespace_loop.induct)
  case (1 s cur)
  define ws where "ws = dropWhile is_whitespace cur"
  define line where "line = dropWhile (\<lambda>c. c \<noteq> CHR 0x0A \<and> c \<noteq> CHR 0x00) (drop 2 ws)"
  have ws: "terminated ws" "\<exists>k < length cur. ws = drop k cur"
    using terminated_dropWhile [OF 1(4), of is_whitespace] by (auto simp: ws_def is_whitespace_def)
  have go: "\<exists>n < length cur. s' = s\<lparr>rest := drop n cur\<rparr>"
    if "s' = s\<lparr>rest := drop m cs\<rparr>" "m < length cs" "cs = drop j ws" "j < length ws" for m j cs
    using that ws(2) by (metis add.commute drop_drop add_less_cancel_right length_drop less_diff_conv)
  have two: "terminated (drop 2 ws)" "2 < length ws" if "peek_at ws 1 \<noteq> CHR 0x00"
    using that terminated_peek [OF ws(1), of 1] terminated_drop [OF ws(1), of 2] by auto
  consider (stop) "peek_at ws 0 \<noteq> CHR ''/'' \<or> peek_at ws 1 \<noteq> CHR ''/'' \<and> peek_at ws 1 \<noteq> CHR ''*''"
    | (line) "peek_at ws 0 = CHR ''/''" "peek_at ws 1 = CHR ''/''"
    | (block) "peek_at ws 0 = CHR ''/''" "peek_at ws 1 = CHR ''*''"
    by blast
  then show ?case
  proof cases
    case stop
    then have "s' = s\<lparr>rest := ws\<rparr>"
      using 1(3) by (subst (asm) skip_whitespace_loop.simps) (auto simp: ws_def Let_def split: if_splits)
    then show ?thesis using ws by (intro go [of 0 ws 0]) (auto simp: terminated_def)
  next
    case line
    then have run: "skip_whitespace_loop s line = Ok u s'"
      using 1(3) by (subst (asm) skip_whitespace_loop.simps) (simp add: ws_def line_def Let_def)
    have l: "terminated line" "\<exists>k < length (drop 2 ws). line = drop k (drop 2 ws)"
      using terminated_dropWhile [OF two(1), of "\<lambda>c. c \<noteq> CHR 0x0A \<and> c \<noteq> CHR 0x00"] line
      by (auto simp: line_def simp del: drop_drop)
    obtain n where n: "n < length line" "s' = s\<lparr>rest := drop n line\<rparr>"
      using 1(1) [OF ws_def] line run l(1) unfolding line_def by blast
    obtain k where "k < length (drop 2 ws)" "line = drop k (drop 2 ws)" using l(2) by blast
    then show ?thesis using n by (intro go [of n line "k + 2"]) auto
  next
    case block
    then have run: "lbind (skip_block_comment (s\<lparr>rest := ws\<rparr>)) (\<lambda>_ s. skip_whitespace_loop s (rest s)) = Ok u s'"
      using 1(3) by (subst (asm) skip_whitespace_loop.simps) (simp add: ws_def Let_def)
    then obtain cs where cs: "comment_loop (drop 2 ws) 1 = Inr cs"
      "skip_block_comment (s\<lparr>rest := ws\<rparr>) = Ok () (s\<lparr>rest := cs\<rparr>)"
      "skip_whitespace_loop (s\<lparr>rest := cs\<rparr>) cs = Ok u s'"
      by (auto simp: lbind_eq_Ok_iff skip_block_comment_Ok)
    obtain k where k: "k < length (drop 2 ws)" "cs = drop k (drop 2 ws)"
      using comment_loop_suffix [OF cs(1)] two(1) block by auto
    then have t: "terminated cs" using terminated_drop [of "drop 2 ws" k] two(1) block by auto
    have "\<exists>n < length cs. s' = (s\<lparr>rest := cs\<rparr>)\<lparr>rest := drop n cs\<rparr>"
      using 1(2) [OF ws_def block(1) _ block(2) cs(2)] cs(3) t block(2) by simp
    then obtain n where "n < length cs" "s' = s\<lparr>rest := drop n cs\<rparr>" by auto
    then show ?thesis using k by (intro go [of n cs "k + 2"]) auto
  qed
qed

lemma skip_whitespace_scanned:
  "skip_whitespace s = Ok u s' \<Longrightarrow> terminated (rest s) \<Longrightarrow> scanned 0 s s'"
  using skip_whitespace_loop_scanned [of s "rest s" u s']
  by (auto simp: skip_whitespace_def intro: scanned_rest)

section \<open>Tokens move forward\<close>

lemma scan_identifier_token_scanned:
  assumes "scan_identifier_token first s b = Ok r s'" and "terminated (rest s)"
  shows "scanned 0 s s'"
proof -
  have "\<not> is_identifier_continuation_char (CHR 0x00)"
    by (simp add: is_identifier_continuation_char_def is_alphabetic_char_def is_numeric_char_def)
  note d = terminated_dropWhile [where P = is_identifier_continuation_char, OF assms(2) this]
  from assms(1) obtain p where
    "s' = s\<lparr>rest := dropWhile is_identifier_continuation_char (rest s), identifiers := p\<rparr>"
    by (auto simp: scan_identifier_token_def Let_def lbind_eq_Ok_iff lift_outcome_eq_Ok_iff split: if_splits)
  then show ?thesis using d(1) unfolding d(2) scanned_def by blast
qed

lemma scan_digits_suffix:
  "scan_digits digit base cs v = Inr (v', cs') \<Longrightarrow> digit (CHR 0x00) = None \<Longrightarrow> terminated cs
     \<Longrightarrow> \<exists>n < length cs. cs' = drop n cs"
proof (induction digit base cs v rule: scan_digits.induct)
  case (1 digit base v)
  then show ?case by (simp add: terminated_def)
next
  case (2 digit base c cs v)
  show ?case
  proof (cases "digit c")
    case None
    then show ?thesis using 2(2) by auto
  next
    case (Some d)
    then have "c \<noteq> CHR 0x00" using 2(3) by auto
    then have "terminated cs" using 2(4) by (auto simp: terminated_def split: if_splits)
    then have "\<exists>n < length cs. cs' = drop n cs"
      using 2 Some by (fastforce simp: obind_eq_Inr_iff)
    then obtain n where "n < length cs" "cs' = drop n cs" by blast
    then show ?thesis by (intro exI [of _ "Suc n"]) simp
  qed
qed

lemma digits_stop:
  "digit_below CHR ''1'' CHR 0x00 = None" "digit_below CHR ''7'' CHR 0x00 = None"
  "digit_below CHR ''9'' CHR 0x00 = None" "hex_digit CHR 0x00 = None"
  by (simp_all add: digit_below_def hex_digit_def hex_char_value_def Let_def)

definition stops :: "string \<Rightarrow> string \<Rightarrow> bool" where
  "stops cs cs' \<longleftrightarrow> (\<exists>n < length cs. cs' = drop n cs)"

lemma stops_refl: "terminated cs \<Longrightarrow> stops cs cs"
  by (auto simp: stops_def terminated_def intro: exI [of _ 0])

lemma stops_trans: "stops cs cs1 \<Longrightarrow> stops cs1 cs2 \<Longrightarrow> stops cs cs2"
  unfolding stops_def by (metis add.commute drop_drop length_drop less_diff_conv)

lemma stops_terminated: "stops cs cs' \<Longrightarrow> terminated cs \<Longrightarrow> terminated cs'"
  by (auto simp: stops_def terminated_drop)

lemma stops_dropWhile: "terminated cs \<Longrightarrow> \<not> P (CHR 0x00) \<Longrightarrow> stops cs (dropWhile P cs)"
  using terminated_dropWhile(1,2) [of cs P] unfolding stops_def by blast

lemma stops_Suc: "terminated cs \<Longrightarrow> peek_at cs i \<noteq> CHR 0x00 \<Longrightarrow> stops cs (drop (Suc i) cs)"
  using terminated_peek unfolding stops_def by blast

lemma scanned_stops: "stops (rest s) cs \<Longrightarrow> scanned 0 s (s\<lparr>rest := cs\<rparr>)"
  unfolding stops_def by (auto intro: scanned_rest)

lemma is_numeric_char_NUL [simp]: "\<not> is_numeric_char (CHR 0x00)"
  by (simp add: is_numeric_char_def)

lemma scan_fraction_stops:
  assumes "terminated cs"
  shows "stops cs (scan_fraction cs)"
proof -
  define a where "a = dropWhile is_numeric_char cs"
  have a: "stops cs a" "terminated a"
    using assms stops_dropWhile [of cs is_numeric_char] stops_terminated by (auto simp: a_def)
  show ?thesis
  proof (cases "peek_at a 0 = CHR ''e''")
    case False
    with a show ?thesis by (simp add: scan_fraction_def a_def [symmetric] Let_def)
  next
    case True
    define b where "b = drop 1 a"
    define c where "c = (if peek_at b 0 = CHR ''+'' \<or> peek_at b 0 = CHR ''-'' then drop 1 b else b)"
    have b: "stops a b" "terminated b"
      using stops_Suc [OF a(2), of 0] True stops_terminated a(2) by (auto simp: b_def)
    have c: "stops b c" "terminated c"
      using stops_Suc [OF b(2), of 0] stops_refl [OF b(2)] stops_terminated b(2) by (auto simp: c_def)
    have "stops c (dropWhile is_numeric_char c)" using stops_dropWhile [OF c(2)] by simp
    then have "stops cs (dropWhile is_numeric_char c)" using a b c stops_trans by blast
    moreover have "scan_fraction cs = dropWhile is_numeric_char c"
      using True by (simp add: scan_fraction_def a_def [symmetric] b_def c_def Let_def)
    ultimately show ?thesis by simp
  qed
qed

lemma scan_digits_stops:
  "scan_digits digit base cs v = Inr (v', cs') \<Longrightarrow> digit (CHR 0x00) = None \<Longrightarrow> terminated cs
     \<Longrightarrow> stops cs cs'"
  using scan_digits_suffix [of digit base cs v v' cs'] by (simp add: stops_def)

lemma scan_number_token_with_base_scanned:
  assumes "scan_number_token_with_base s base = Ok r s'" and "terminated (rest s)"
    and "base = peek_at (rest s) 0" and "base \<noteq> CHR 0x00"
  shows "scanned 0 s s'"
proof -
  have one: "stops (rest s) (drop 1 (rest s))" using stops_Suc [OF assms(2), of 0] assms(3,4) by simp
  then have t: "terminated (drop 1 (rest s))" using assms(2) stops_terminated by blast
  let ?cs = "drop (Suc 0) (rest s)"
  obtain v0 v cs where "scan_digits (digit_below CHR ''1'') 10 ?cs v0 = Inr (v, cs)
      \<or> scan_digits (digit_below CHR ''7'') 8 ?cs v0 = Inr (v, cs) \<or> scan_digits hex_digit 16 ?cs v0 = Inr (v, cs)"
    and s': "s' = s\<lparr>rest := cs\<rparr>"
    using assms(1)
    by (auto simp: scan_number_token_with_base_def Let_def lbind_eq_Ok_iff lift_outcome_eq_Ok_iff
        obind_eq_Inr_iff ensure_eq_Inr_iff split: if_splits)
  then have "stops ?cs cs" using t digits_stop scan_digits_stops by auto
  then show ?thesis using one stops_trans scanned_stops s' by auto
qed

lemma scan_number_token_scanned:
  assumes "scan_number_token s first = Ok r s'" and "terminated (rest s)"
  shows "scanned 0 s s'"
proof -
  obtain v0 v cs where d: "scan_digits (digit_below CHR ''9'') 10 (rest s) v0 = Inr (v, cs)"
    and e: "s' = s\<lparr>rest := cs\<rparr> \<or> s' = s\<lparr>rest := scan_fraction (drop 1 cs)\<rparr> \<and> peek_at cs 0 = CHR ''.''"
    using assms(1)
    by (auto simp: scan_number_token_def Let_def lbind_eq_Ok_iff lift_outcome_eq_Ok_iff
        obind_eq_Inr_iff split: if_splits prod.splits)
  have cs: "stops (rest s) cs" using scan_digits_stops [OF d digits_stop(3) assms(2)] .
  then have "terminated cs" using assms(2) stops_terminated by blast
  then have "stops cs (scan_fraction (drop 1 cs))" if "peek_at cs 0 = CHR ''.''"
    using that stops_Suc [of cs 0] scan_fraction_stops stops_terminated stops_trans by simp
  with e cs show ?thesis using stops_trans scanned_stops by blast
qed

lemma advance_scanned:
  "terminated (rest s) \<Longrightarrow> peek_at (rest s) i \<noteq> CHR 0x00 \<Longrightarrow> n = Suc i \<Longrightarrow> k \<le> n \<Longrightarrow> scanned k s (advance n s)"
  using terminated_peek scanned_advance by blast

lemma scan_char_token_scanned:
  assumes "scan_char_token s = Ok r s'" and "terminated (rest s)"
  shows "scanned 0 s s'"
proof -
  have utf8: "\<exists>n. s1 = advance n s" if "scan_utf8_char s = Ok cp s1" for cp s1
    using that
    by (auto simp: scan_utf8_char_def scan_utf8_char_surrogates_def Let_def lbind_eq_Ok_iff
        dest!: lexer_loops_state(1) split: if_splits)
  have esc: "\<exists>n. s1 = advance n s" if "scan_escape_char s = Ok cp s1" for cp s1
    using scan_escape_char_advances [OF that] by blast
  obtain cp s1 where s1: "(if peek_at (rest s) 0 = CHR 0x5C then scan_escape_char s else scan_utf8_char s) = Ok cp s1"
    and quote: "rest s1 \<noteq> []" "peek_at (rest s1) 0 = CHR 0x27" and s': "s' = advance 1 s1"
    using assms(1) by (auto simp: scan_char_token_def lbind_eq_Ok_iff split: if_splits)
  obtain n where n: "s1 = advance n s" using s1 utf8 esc by (auto split: if_splits)
  then have "n < length (rest s)" using quote(1) by (auto simp: advance_def)
  then have a: "scanned 0 s s1" using n scanned_advance by blast
  then have "terminated (rest s1)" using assms(2) scanned_terminated by blast
  then have "scanned 0 s1 s'" unfolding s' by (rule advance_scanned [where i = 0]) (simp_all add: quote)
  with a show ?thesis using scanned_trans by fastforce
qed

lemma scan_string_loop_scanned:
  assumes "scan_string_loop s buffer cb cur = Ok (b, c, cur') s'" and "terminated cur"
  shows "(\<exists>n. cur' = drop n cur) \<and> (\<exists>cs. s' = s\<lparr>rest := cs\<rparr>) \<and> peek_at cur' 0 = CHR 0x22"
  using assms
proof (induction s buffer cb cur arbitrary: b c cur' s' rule: scan_string_loop.induct)
  case (1 s buffer cb cur)
  show ?case
  proof (cases "peek_at cur 0 = CHR 0x22")
    case True
    then have e: "cur' = cur" "s' = s"
      using 1(3) by (subst (asm) scan_string_loop.simps, simp)+
    have "cur = drop 0 cur" "s = s\<lparr>rest := rest s\<rparr>" by simp_all
    then show ?thesis unfolding e using True by blast
  next
    case False
    show ?thesis
    proof (cases "peek_at cur 0 = CHR 0x5C")
      case True
      then have "copy_bytes s buffer cb cur = Stop Undefined \<or> (\<exists>bg. cb = Some bg)"
        by (cases cb) (auto simp: copy_bytes_def)
      then obtain b1 s1 cp s2 b2 s3 where steps: "copy_bytes s buffer cb cur = Ok b1 s1"
        "scan_escape_char (s1\<lparr>rest := cur\<rparr>) = Ok cp s2" "append_codepoint s2 b1 cp = Ok b2 s3"
        "scan_string_loop s3 b2 None (rest s3) = Ok (b, c, cur') s'"
        using 1(3) True by (subst (asm) (2) scan_string_loop.simps) (auto simp: lbind_eq_Ok_iff)
      have s1: "s1 = s" using steps(1)
        by (auto simp: copy_bytes_def Let_def split: option.splits if_splits)
      obtain n where n: "s2 = advance n (s\<lparr>rest := cur\<rparr>)"
        using scan_escape_char_advances [OF steps(2)] s1 by blast
      have s3: "s3 = s2" using append_codepoint_state [OF steps(3)] .
      have r: "rest s3 = drop n cur" by (simp add: s3 n advance_def)
      have "rest s3 \<noteq> []"
      proof
        assume "rest s3 = []"
        then show False using steps(4)
          by (subst (asm) scan_string_loop.simps) (simp add: peek_at_def)
      qed
      then have "terminated (rest s3)" using 1(4) terminated_drop [of cur n] by (simp add: r)
      then have "(\<exists>n. cur' = drop n (rest s3)) \<and> (\<exists>cs. s' = s3\<lparr>rest := cs\<rparr>) \<and> peek_at cur' 0 = CHR 0x22"
        using 1(1) [OF False True steps(1-3)] steps(4) by blast
      then show ?thesis by (auto simp: r s3 n advance_def)
    next
      case plain: False
      then have run: "scan_string_loop s buffer cb (drop 1 cur) = Ok (b, c, cur') s'" "peek_at cur 0 \<noteq> CHR 0x00"
        "peek_at cur 0 \<noteq> CHR 0x0A"
        using 1(3) False by (subst (asm) scan_string_loop.simps, simp split: if_splits)+
      have "terminated (drop 1 cur)"
        using stops_terminated [OF stops_Suc [OF 1(4) run(2)] 1(4)] by simp
      then have "(\<exists>n. cur' = drop n (drop 1 cur)) \<and> (\<exists>cs. s' = s\<lparr>rest := cs\<rparr>) \<and> peek_at cur' 0 = CHR 0x22"
        using 1(2) [OF False plain run(3,2) run(1)] by blast
      then show ?thesis by auto
    qed
  qed
qed

lemma scan_string_token_scanned:
  assumes "scan_string_token s = Ok r s'" and "terminated (rest s)"
  shows "scanned 0 s s'"
proof -
  obtain b c cur s1 b1 s2 where run: "scan_string_loop s [] (Some (rest s)) (rest s) = Ok (b, c, cur) s1"
    "copy_bytes s1 b c cur = Ok b1 s2" "s' = s2\<lparr>rest := drop 1 cur\<rparr>"
    using assms(1) by (auto simp: scan_string_token_def lbind_eq_Ok_iff split: if_splits)
  have s2: "s2 = s1" using run(2) by (auto simp: copy_bytes_def Let_def split: option.splits if_splits)
  obtain n cs where n: "cur = drop n (rest s)" "s1 = s\<lparr>rest := cs\<rparr>" "peek_at cur 0 = CHR 0x22"
    using scan_string_loop_scanned [OF run(1) assms(2)] by blast
  then have "peek_at (rest s) n \<noteq> CHR 0x00" by (auto simp: peek_at_def split: if_splits)
  then have "stops (rest s) (drop (Suc n) (rest s))" by (rule stops_Suc [OF assms(2)])
  then have "scanned 0 s (s\<lparr>rest := drop (Suc n) (rest s)\<rparr>)" by (rule scanned_stops)
  then show ?thesis by (simp add: run(3) s2 n)
qed

lemma operator_after_scanned:
  "operator_after n t s = Ok r s' \<Longrightarrow> terminated (rest s) \<Longrightarrow> n = 0 \<or> peek_at (rest s) (n - 1) \<noteq> CHR 0x00
     \<Longrightarrow> scanned 0 s s'"
  using advance_scanned [of s "n - 1" n 0] scanned_advance [of 0 0 s]
  by (cases n) (auto simp: operator_after_def terminated_def)

lemma scan_pair_scanned:
  assumes "scan_pair s (peek_at (rest s) 0) pairs plain = Ok r s'" and "terminated (rest s)"
    and "CHR 0x00 \<notin> fst ` set pairs"
  shows "scanned 0 s s'"
proof (cases "map_of pairs (peek_at (rest s) 0)")
  case None
  with assms show ?thesis by (auto simp: scan_pair_def intro: operator_after_scanned)
next
  case (Some t)
  then have "peek_at (rest s) 0 \<in> fst ` set pairs"
    using map_of_SomeD by (metis fst_conv image_eqI)
  then have "peek_at (rest s) 0 \<noteq> CHR 0x00" using assms(3) by metis
  with assms Some show ?thesis by (auto simp: scan_pair_def intro: operator_after_scanned)
qed

lemma scan_arithmetic_scanned:
  "scan_arithmetic s (peek_at (rest s) 0) a b c d = Ok r s' \<Longrightarrow> terminated (rest s) \<Longrightarrow> scanned 0 s s'"
  by (auto simp: scan_arithmetic_def split: if_splits elim!: operator_after_scanned)

lemma scan_angle_scanned:
  "scan_angle s f (peek_at (rest s) 0) a b pairs d = Ok r s' \<Longrightarrow> terminated (rest s) \<Longrightarrow> f \<noteq> CHR 0x00
     \<Longrightarrow> CHR 0x00 \<notin> fst ` set pairs \<Longrightarrow> scanned 0 s s'"
  by (auto simp: scan_angle_def split: if_splits elim!: operator_after_scanned scan_pair_scanned)

lemma scan_dot_scanned:
  "scan_dot s (peek_at (rest s) 0) = Ok r s' \<Longrightarrow> terminated (rest s) \<Longrightarrow> scanned 0 s s'"
  by (auto simp: scan_dot_def split: if_splits elim!: operator_after_scanned scan_pair_scanned)

lemma scan_bracket_scanned:
  "scan_bracket s (peek_at (rest s) 0) = Ok r s' \<Longrightarrow> terminated (rest s) \<Longrightarrow> scanned 0 s s'"
  by (auto simp: scan_bracket_def split: if_splits elim!: operator_after_scanned)

lemmas token_scanned = operator_after_scanned scan_pair_scanned scan_arithmetic_scanned
  scan_angle_scanned scan_dot_scanned scan_bracket_scanned scan_string_token_scanned
  scan_char_token_scanned scan_number_token_scanned scan_identifier_token_scanned

lemma next_without_source_scanned:
  assumes "next_without_source s = Ok r s'" and "terminated (rest s)"
  shows "fst r = END_OF_SOURCE \<and> s' = s \<and> length (rest s) = 1 \<and> peek_at (rest s) 0 = CHR 0x00
    \<or> peek_at (rest s) 0 \<noteq> CHR 0x00 \<and> scanned 0 (advance 1 s) s'"
proof (cases "peek_at (rest s) 0 = CHR 0x00")
  case True
  then show ?thesis
    using assms(1)
    by (auto simp: next_without_source_def next_punctuation_def Let_def is_alphabetic_char_def is_numeric_char_def split: if_splits)
next
  case False
  have t: "terminated (rest (advance 1 s))"
    using stops_terminated [OF stops_Suc [OF assms(2) False] assms(2)] by (simp add: advance_def)
  have "scanned 0 (advance 1 s) s'"
    using assms(1) False t
    unfolding next_without_source_def next_punctuation_def Let_def
    by (simp split: if_split_asm)
      (erule token_scanned scan_number_token_with_base_scanned; auto)+
  with False show ?thesis by blast
qed

lemma scanned_offset:
  "scanned k s s' \<Longrightarrow> length (rest s) \<le> source_length s + 1 \<Longrightarrow> source_offset s + k \<le> source_offset s'
     \<and> source_offset s' \<le> source_length s' \<and> length (rest s') \<le> source_length s' + 1"
  by (auto simp: scanned_def source_offset_def)

lemma scanned_frame:
  "scanned k s s' \<Longrightarrow> peek_slot s' = peek_slot s \<and> source_id_base s' = source_id_base s
     \<and> source_length s' = source_length s \<and> length (rest s') + k \<le> length (rest s)"
  by (auto simp: scanned_def)

lemma next_lexeme_scan:
  assumes "next_lexeme s = Ok l s'" and "token (peek_slot s) = EMPTY" and "terminated (rest s)"
  shows "\<exists>s1. scanned 0 s s1 \<and> source_id l = source_id_base s + of_nat (source_offset s1)
    \<and> (token l = END_OF_SOURCE \<and> s' = s1 \<and> length (rest s') = 1 \<or> scanned 1 s1 s')"
proof -
  obtain s1 r where run: "skip_whitespace s = Ok () s1" "next_without_source s1 = Ok r s'"
    "l = \<lparr>token = fst r, source_id = source_id_base s1 + of_nat (source_offset s1), lexeme_value = snd r\<rparr>"
    using assms(1,2) by (auto simp: next_lexeme_def lbind_eq_Ok_iff Let_def split: prod.splits)
  have ws: "scanned 0 s s1" using skip_whitespace_scanned [OF run(1) assms(3)] .
  have t: "terminated (rest s1)" using scanned_terminated [OF ws assms(3)] .
  have "scanned 1 s1 s'" if "peek_at (rest s1) 0 \<noteq> CHR 0x00" "scanned 0 (advance 1 s1) s'"
    using scanned_trans [OF advance_scanned [where n = 1 and k = 1 and i = 0] that(2)] t that(1) by simp
  then show ?thesis
    using next_without_source_scanned [OF run(2) t] ws scanned_frame [OF ws] run(3) by auto
qed

lemma next_lexeme_at_end:
  assumes "rest s = [CHR 0x00]" and "token (peek_slot s) = EMPTY"
  shows "next_lexeme s = Ok \<lparr>token = END_OF_SOURCE,
    source_id = source_id_base s + of_nat (source_length s), lexeme_value = NoValue\<rparr> s"
proof -
  have "dropWhile is_whitespace (rest s) = rest s" "peek_at (rest s) 0 \<noteq> CHR ''/''"
    by (simp_all add: assms(1) is_whitespace_def peek_at_def)
  then have "skip_whitespace s = Ok () s"
    unfolding skip_whitespace_def by (subst skip_whitespace_loop.simps) simp
  moreover have "next_without_source s = Ok (END_OF_SOURCE, NoValue) s"
    unfolding next_without_source_def next_punctuation_def Let_def
    by (simp add: assms(1) peek_at_def is_alphabetic_char_def is_numeric_char_def)
  ultimately show ?thesis using assms by (simp add: next_lexeme_def Let_def source_offset_def)
qed

lemma terminated_single: "terminated cs \<Longrightarrow> length cs = 1 \<Longrightarrow> cs = [CHR 0x00]"
  by (cases cs) (auto simp: terminated_def)

lemma next_times_end:
  "next_times n r s = Ok l s' \<Longrightarrow> token (peek_slot s) = EMPTY \<Longrightarrow> terminated (rest s) \<Longrightarrow> length (rest s) \<le> n
     \<Longrightarrow> token l = END_OF_SOURCE \<and> s' = s'\<lparr>rest := [CHR 0x00]\<rparr>"
proof (induction n arbitrary: r s)
  case 0
  then show ?case by (simp add: terminated_def)
next
  case (Suc n)
  obtain l1 s1 where step: "next_lexeme s = Ok l1 s1" "next_times n l1 s1 = Ok l s'"
    using Suc(2) by (auto simp: lbind_eq_Ok_iff)
  obtain s0 where s0: "scanned 0 s s0"
    "token l1 = END_OF_SOURCE \<and> s1 = s0 \<and> length (rest s1) = 1 \<or> scanned 1 s0 s1"
    using next_lexeme_scan [OF step(1) Suc(3,4)] by blast
  have t: "terminated (rest s0)" using scanned_terminated [OF s0(1) Suc(4)] .
  have e: "token (peek_slot s0) = EMPTY" "length (rest s0) \<le> length (rest s)"
    using scanned_frame [OF s0(1)] Suc(3) by simp_all
  from s0(2) show ?case
  proof
    assume "scanned 1 s0 s1"
    then have "token (peek_slot s1) = EMPTY" "length (rest s1) \<le> n" "terminated (rest s1)"
      using scanned_frame [of 1 s0 s1] scanned_terminated [OF _ t] e Suc(5) by auto
    with Suc(1) step(2) show ?thesis by blast
  next
    assume a: "token l1 = END_OF_SOURCE \<and> s1 = s0 \<and> length (rest s1) = 1"
    then have s1: "rest s1 = [CHR 0x00]" using t terminated_single by blast
    have stay: "next_times k l2 s1 = Ok l s' \<Longrightarrow> token l2 = END_OF_SOURCE
        \<Longrightarrow> token l = END_OF_SOURCE \<and> s' = s1" for k l2
      using next_lexeme_at_end [OF s1] e(1) a by (induction k arbitrary: l2) auto
    then have "token l = END_OF_SOURCE \<and> s' = s1" using step(2) a by blast
    then show ?thesis using s1 by simp
  qed
qed

text \<open>
  C22: The lexer makes progress and stays in the source. From a source that ends in its zero byte,
  a lexeme that \<open>next\<close> returns starts at an offset not before \<open>curr\<close>, which its source id names;
  either it is the end of the source and \<open>curr\<close> stays at the terminator, or \<open>curr\<close> moves past
  the start of the lexeme and not past the terminator.
\<close>

theorem next_lexeme_progress:
  assumes "next_lexeme s = Ok l s'" and "token (peek_slot s) = EMPTY" and "terminated (rest s)"
    and "length (rest s) \<le> source_length s + 1"
  shows "\<exists>start. source_offset s \<le> start \<and> source_id l = source_id_base s + of_nat start
    \<and> terminated (rest s') \<and> source_length s' = source_length s \<and> source_offset s' \<le> source_length s
    \<and> (token l = END_OF_SOURCE \<and> start = source_length s \<and> source_offset s' = start \<or> start < source_offset s')"
proof -
  obtain s1 where s1: "scanned 0 s s1" "source_id l = source_id_base s + of_nat (source_offset s1)"
    "token l = END_OF_SOURCE \<and> s' = s1 \<and> length (rest s') = 1 \<or> scanned 1 s1 s'"
    using next_lexeme_scan [OF assms(1-3)] by blast
  note o1 = scanned_offset [OF s1(1) assms(4)] and f1 = scanned_frame [OF s1(1)]
  have t1: "terminated (rest s1)" using scanned_terminated [OF s1(1) assms(3)] .
  from s1(3) show ?thesis
  proof
    assume "token l = END_OF_SOURCE \<and> s' = s1 \<and> length (rest s') = 1"
    then show ?thesis using s1(2) o1 f1 t1
      by (intro exI [of _ "source_offset s1"]) (auto simp: source_offset_def)
  next
    assume a: "scanned 1 s1 s'"
    then show ?thesis
      using s1(2) o1 f1 scanned_offset [OF a] scanned_frame [OF a] scanned_terminated [OF a t1]
      by (intro exI [of _ "source_offset s1"]) auto
  qed
qed

text \<open>
  C25: The stream of lexemes ends. After as many calls of \<open>next\<close> as there are bytes left,
  terminator included, the lexeme is the end of the source and only the terminator is left.
\<close>

theorem lexemes_end:
  assumes "next_times n r s = Ok l s'" and "token (peek_slot s) = EMPTY" and "terminated (rest s)"
    and "length (rest s) \<le> n"
  shows "token l = END_OF_SOURCE \<and> rest s' = [CHR 0x00]"
  using next_times_end [OF assms] by (metis ParserState.select_convs(1) ParserState.surjective
      ParserState.update_convs(1))

lemma skip_whitespace_token:
  assumes "\<not> is_whitespace (peek_at (rest s) 0)"
    and "peek_at (rest s) 0 = CHR ''/'' \<Longrightarrow> peek_at (rest s) 1 \<noteq> CHR ''/'' \<and> peek_at (rest s) 1 \<noteq> CHR ''*''"
  shows "skip_whitespace s = Ok () s"
proof -
  have "dropWhile is_whitespace (rest s) = rest s"
    using assms(1) by (cases "rest s") (auto simp: peek_at_def)
  then show ?thesis using assms(2)
    unfolding skip_whitespace_def by (subst skip_whitespace_loop.simps) (simp add: Let_def)
qed

lemma peek_at_append [simp]: "i < length cs \<Longrightarrow> peek_at (cs @ ds) i = cs ! i"
  by (simp add: peek_at_def nth_append)

lemma next_plus_example:
  "next_lexeme (source_state pool ''+ a'') =
     Ok \<lparr>token = OpAdd, source_id = 1, lexeme_value = NoValue\<rparr> (advance 1 (source_state pool ''+ a''))"
proof -
  have "skip_whitespace (source_state pool ''+ a'') = Ok () (source_state pool ''+ a'')"
    by (rule skip_whitespace_token) (simp_all add: is_whitespace_def peek_at_def)
  moreover have "next_without_source (source_state pool ''+ a'') = Ok (OpAdd, NoValue) (advance 1 (source_state pool ''+ a''))"
    by (simp add: next_without_source_def next_punctuation_def Let_def advance_def peek_at_def is_alphabetic_char_def
        is_numeric_char_def scan_arithmetic_def operator_after_def)
  ultimately show ?thesis by (simp add: next_lexeme_def source_offset_def)
qed

theorem next_lexeme_progress_witness:
  "\<forall>pool. \<exists>l s'. next_lexeme (source_state pool ''+ a'') = Ok l s' \<and> token l = OpAdd
     \<and> source_offset s' = 1
     \<and> (\<exists>start. source_id l = 1 + of_nat start \<and> (start < source_offset s' \<or> token l = END_OF_SOURCE))"
proof
  fix pool
  from next_lexeme_progress [OF next_plus_example [of pool]]
  show "\<exists>l s'. next_lexeme (source_state pool ''+ a'') = Ok l s' \<and> token l = OpAdd
     \<and> source_offset s' = 1
     \<and> (\<exists>start. source_id l = 1 + of_nat start \<and> (start < source_offset s' \<or> token l = END_OF_SOURCE))"
    using next_plus_example [of pool]
    by (intro exI [of _ "\<lparr>token = OpAdd, source_id = 1, lexeme_value = NoValue\<rparr>"]
        exI [of _ "advance 1 (source_state pool ''+ a'')"])
      (auto simp: terminated_def source_offset_def advance_def)
qed

theorem lexemes_end_witness:
  "\<forall>pool r. \<exists>l s'. next_times 1 r (source_state pool []) = Ok l s' \<and> token l = END_OF_SOURCE
     \<and> rest s' = [CHR 0x00]"
proof (intro allI)
  fix pool r
  have "next_times 1 r (source_state pool []) =
      Ok \<lparr>token = END_OF_SOURCE, source_id = 1, lexeme_value = NoValue\<rparr> (source_state pool [])"
    by (simp add: next_lexeme_at_end)
  from this lexemes_end [OF this]
  show "\<exists>l s'. next_times 1 r (source_state pool []) = Ok l s' \<and> token l = END_OF_SOURCE \<and> rest s' = [CHR 0x00]"
    by (simp add: terminated_def)
qed

end
