(* ===== verification/LexerLiterals.thy ===== *)
theory LexerLiterals
  imports LexerFacts
begin

text \<open>
  What single tokens mean: the spelling of an operator scans to its token, comments nest, and
  number, character and string literals have their values. Each result is stated over the bytes
  of the literal followed by an arbitrary rest of the source.
\<close>

section \<open>Operators\<close>

definition operator_tokens :: "Token list" where
  "operator_tokens =
     [OpMemberOrRef, DoubleDot, ArrayInitializer, CompositeInitializer, BracketR, BracketL,
      CurlyR, CurlyL, ParenR, ParenL, UOpNot, UOpLogNot, TypOptPtr, TypVar, TypTailArray,
      TypMultiPtr, TypOptMultiPtr, TypSlice, OpMulOrTypPtr, OpSub, OpAdd, OpDiv, OpAddTC, OpSubTC,
      OpMulTC, OpMod, UOpAddr, UOpDeref, OpAnd, OpOr, OpXor, OpShl, OpShr, OpLogAnd, OpLogOr, OpLt,
      OpGt, OpLe, OpGe, OpNe, OpEq, OpSet, OpSetAdd, OpSetSub, OpSetMul, OpSetDiv, OpSetAddTC,
      OpSetSubTC, OpSetMulTC, OpSetMod, OpSetAnd, OpSetOr, OpSetXor, OpSetShl, OpSetShr, Colon, Comma,
      ThinArrowL, ThinArrowR, WideArrowR, Pragma, Wildcard]"

lemma operator_names:
  "map token_name operator_tokens =
     [''.'', ''..'', ''.['', ''.{'', '']'', ''['', ''}'', ''{'', '')'', ''('', ''~'', ''!'', ''?'', ''...'',
      ''[...]'', ''[*]'', ''[?]'', ''[]'', ''*'', ''-'', ''+'', ''/'', ''+:'', ''-:'', ''*:'', ''%'', ''.&'',
      ''.*'', ''&'', ''|'', ''^'', ''<<'', ''>>'', ''&&'', ''||'', ''<'', ''>'', ''<='', ''>='', ''!='',
      ''=='', ''='', ''+='', ''-='', ''*='', ''/='', ''+:='', ''-:='', ''*:='', ''%='', ''&='', ''|='', ''^='',
      ''<<='', ''>>='', '':'', '','', ''<-'', ''->'', ''=>'', ''#'', ''_'']"
  by (simp add: operator_tokens_def token_name_def token_ordinal_def all_tokens_def TOKEN_NAMES_def)

lemmas scan_defs = next_without_source_def next_punctuation_def Let_def advance_def peek_at_def is_alphabetic_char_def
  is_numeric_char_def is_identifier_continuation_char_def scan_arithmetic_def scan_pair_def
  scan_angle_def scan_dot_def scan_bracket_def operator_after_def

lemma operator_scans:
  "list_all2 (\<lambda>t name. next_without_source (s\<lparr>rest := name @ CHR '' '' # cs\<rparr>)
       = Ok (if t = OpLogOr then OpLogAnd else t, NoValue) (s\<lparr>rest := CHR '' '' # cs\<rparr>))
     operator_tokens (map token_name operator_tokens)"
  unfolding operator_names by (simp add: operator_tokens_def scan_defs)

text \<open>
  C26: The spelling \<open>token_name\<close> of every operator and punctuation token, followed by a blank,
  scans to that token and leaves the blank, with the one exception of \<open>||\<close>: it scans to the token
  of \<open>&&\<close>.
\<close>

theorem operator_spellings_scan:
  "list_all (\<lambda>t. next_without_source (s\<lparr>rest := token_name t @ CHR '' '' # cs\<rparr>)
       = Ok (if t = OpLogOr then OpLogAnd else t, NoValue) (s\<lparr>rest := CHR '' '' # cs\<rparr>))
     operator_tokens"
  using operator_scans [of cs s] by (simp add: list_all2_map2 list_all2_same list_all_iff)

section \<open>Comments\<close>

text \<open>
  What stands between \<open>/*\<close> and its \<open>*/\<close>: no zero byte, and every \<open>/*\<close> inside has a \<open>*/\<close> of
  its own. The side conditions say which byte pairs are read as delimiters.
\<close>

inductive comment_body :: "string \<Rightarrow> bool" where
  Nil: "comment_body []"
| Plain: "comment_body b \<Longrightarrow> c \<noteq> CHR ''/'' \<Longrightarrow> c \<noteq> CHR ''*'' \<Longrightarrow> c \<noteq> CHR 0x00 \<Longrightarrow> comment_body (c # b)"
| Slash: "comment_body b \<Longrightarrow> b \<noteq> [] \<Longrightarrow> hd b \<noteq> CHR ''*'' \<Longrightarrow> comment_body (CHR ''/'' # b)"
| Star: "comment_body b \<Longrightarrow> b = [] \<or> hd b \<noteq> CHR ''/'' \<Longrightarrow> comment_body (CHR ''*'' # b)"
| Nested: "comment_body b \<Longrightarrow> comment_body b' \<Longrightarrow> comment_body (''/*'' @ b @ ''*/'' @ b')"

lemma comment_loop_body:
  "comment_body b \<Longrightarrow> 0 < n \<Longrightarrow> comment_loop (b @ ''*/'' @ t) n = comment_loop t (n - 1)"
proof (induction b arbitrary: n t rule: comment_body.induct)
  case Nil
  then show ?case by (subst comment_loop.simps) (simp add: peek_at_def)
next
  case (Plain b c)
  then show ?case by (subst comment_loop.simps) (simp add: peek_at_def)
next
  case (Slash b)
  then have "peek_at (CHR ''/'' # b @ ''*/'' @ t) 1 = hd b" by (cases b) (auto simp: peek_at_def)
  with Slash show ?case by (subst comment_loop.simps) (simp add: peek_at_def)
next
  case (Star b)
  then have "peek_at (CHR ''*'' # b @ ''*/'' @ t) 1 \<noteq> CHR ''/''" by (cases b) (auto simp: peek_at_def)
  with Star show ?case by (subst comment_loop.simps) (simp add: peek_at_def)
next
  case (Nested b b')
  have "comment_loop (''/*'' @ b @ ''*/'' @ b' @ ''*/'' @ t) n
      = comment_loop (b @ ''*/'' @ b' @ ''*/'' @ t) (Suc n)"
    using Nested(5) by (subst comment_loop.simps) (simp add: peek_at_def Let_def)
  then show ?case using Nested by simp
qed

lemma peek_at_Cons: "peek_at cs 0 = c \<Longrightarrow> c \<noteq> CHR 0x00 \<Longrightarrow> cs = c # drop 1 cs"
  by (cases cs) (auto simp: peek_at_def)

lemma peek_at_drop: "peek_at (drop n cs) i = peek_at cs (n + i)"
  by (auto simp: peek_at_def)

lemma peek_at_two:
  "peek_at cs 0 = c \<Longrightarrow> peek_at cs 1 = d \<Longrightarrow> c \<noteq> CHR 0x00 \<Longrightarrow> d \<noteq> CHR 0x00 \<Longrightarrow> cs = c # d # drop 2 cs"
  using peek_at_Cons [of cs c] peek_at_Cons [of "drop 1 cs" d] by (simp add: peek_at_drop numeral_2_eq_2)

lemma comment_loop_Inr:
  "comment_loop cs n = Inr t \<Longrightarrow> 0 < n
     \<Longrightarrow> \<exists>b r. cs = b @ ''*/'' @ r \<and> comment_body b \<and> comment_loop r (n - 1) = Inr t"
proof (induction cs arbitrary: n rule: length_induct)
  case (1 cs)
  note loop = 1(2) [unfolded comment_loop.simps [of cs n]]
  have nz: "peek_at cs 0 \<noteq> CHR 0x00" using loop 1(3) by (auto simp: Let_def)
  note cons = peek_at_Cons [OF refl nz]
  then have shorter: "length (drop 1 cs) < length cs" "length (drop 2 cs) < length cs" by (cases cs; simp)+
  consider (nest) "peek_at cs 0 = CHR ''/''" "peek_at cs 1 = CHR ''*''"
    | (slash) "peek_at cs 0 = CHR ''/''" "peek_at cs 1 \<noteq> CHR ''*''"
    | (close) "peek_at cs 0 = CHR ''*''" "peek_at cs 1 = CHR ''/''"
    | (star) "peek_at cs 0 = CHR ''*''" "peek_at cs 1 \<noteq> CHR ''/''"
    | (plain) "peek_at cs 0 \<noteq> CHR ''/''" "peek_at cs 0 \<noteq> CHR ''*''"
    by blast
  then show ?case
  proof cases
    case nest
    then have run: "comment_loop (drop 2 cs) (n + 1) = Inr t" using loop 1(3) by simp
    obtain b r where b: "drop 2 cs = b @ ''*/'' @ r" "comment_body b" "comment_loop r n = Inr t"
      using 1(1) [rule_format, OF shorter(2) run] by auto
    have "length r < length cs" using arg_cong [OF b(1), of length] shorter(2) by simp
    then obtain b' r' where "r = b' @ ''*/'' @ r'" "comment_body b'" "comment_loop r' (n - 1) = Inr t"
      using 1(1) [rule_format, OF _ b(3) 1(3)] by blast
    moreover have "cs = ''/*'' @ drop 2 cs" using peek_at_two [OF nest] by simp
    ultimately show ?thesis
      using b comment_body.Nested [of b b'] by (intro exI [of _ "''/*'' @ b @ ''*/'' @ b'"] exI [of _ r']) simp
  next
    case slash
    then have run: "comment_loop (drop 1 cs) n = Inr t" using loop 1(3) by simp
    obtain b r where b: "drop 1 cs = b @ ''*/'' @ r" "comment_body b" "comment_loop r (n - 1) = Inr t"
      using 1(1) [rule_format, OF shorter(1) run 1(3)] by blast
    have "peek_at (drop 1 cs) 0 \<noteq> CHR ''*''" using slash(2) by (simp add: peek_at_drop)
    then have "b \<noteq> [] \<and> hd b \<noteq> CHR ''*''" unfolding b(1) by (cases b) (auto simp: peek_at_def)
    then show ?thesis
      using b cons slash(1) comment_body.Slash [of b] by (intro exI [of _ "CHR ''/'' # b"] exI [of _ r]) simp
  next
    case close
    then have "comment_loop (drop 2 cs) (n - 1) = Inr t" using loop 1(3) by simp
    then show ?thesis using peek_at_two [OF close] comment_body.Nil
      by (intro exI [of _ "[]"] exI [of _ "drop 2 cs"]) simp
  next
    case star
    then have run: "comment_loop (drop 1 cs) n = Inr t" using loop 1(3) by simp
    obtain b r where b: "drop 1 cs = b @ ''*/'' @ r" "comment_body b" "comment_loop r (n - 1) = Inr t"
      using 1(1) [rule_format, OF shorter(1) run 1(3)] by blast
    have "peek_at (drop 1 cs) 0 \<noteq> CHR ''/''" using star(2) by (simp add: peek_at_drop)
    then have "b = [] \<or> hd b \<noteq> CHR ''/''" unfolding b(1) by (cases b) (auto simp: peek_at_def)
    then show ?thesis
      using b cons star(1) comment_body.Star [of b] by (intro exI [of _ "CHR ''*'' # b"] exI [of _ r]) simp
  next
    case plain
    then have run: "comment_loop (drop 1 cs) n = Inr t" using loop 1(3) nz by simp
    obtain b r where b: "drop 1 cs = b @ ''*/'' @ r" "comment_body b" "comment_loop r (n - 1) = Inr t"
      using 1(1) [rule_format, OF shorter(1) run 1(3)] by blast
    then show ?thesis
      using cons plain nz comment_body.Plain [of b "peek_at cs 0"]
      by (intro exI [of _ "peek_at cs 0 # b"] exI [of _ r]) simp
  qed
qed

text \<open>
  C27: Block comments nest. \<open>skip_block_comment\<close> returns exactly when the source after the opening
  is a comment body, with comments in it closed in their turn, and its closing; \<open>curr\<close> is then
  behind the closing and nothing else has changed.
\<close>

theorem block_comments_nest:
  "skip_block_comment (s\<lparr>rest := ''/*'' @ cs\<rparr>) = Ok () s' \<longleftrightarrow>
     (\<exists>b t. cs = b @ ''*/'' @ t \<and> comment_body b \<and> s' = s\<lparr>rest := t\<rparr>)"
proof -
  have zero: "comment_loop r 0 = Inr t \<longleftrightarrow> t = r" for r t by (subst comment_loop.simps) auto
  have "comment_loop cs 1 = Inr t \<longleftrightarrow> (\<exists>b. cs = b @ ''*/'' @ t \<and> comment_body b)" for t
    using comment_loop_Inr [of cs 1 t] comment_loop_body [of _ 1] by (auto simp: zero)
  then show ?thesis by (auto simp: skip_block_comment_Ok)
qed

section \<open>Numbers\<close>

text \<open>The value of a sequence of digits, most significant first.\<close>

definition number_value :: "int \<Rightarrow> (char \<Rightarrow> u64 option) \<Rightarrow> int \<Rightarrow> string \<Rightarrow> int" where
  "number_value radix digit = foldl (\<lambda>v c. v * radix + uint (the (digit c)))"

lemma number_value_mono:
  "0 \<le> v \<Longrightarrow> 0 < radix \<Longrightarrow> v \<le> number_value radix digit v ds"
proof (induction ds arbitrary: v)
  case Nil
  then show ?case by (simp add: number_value_def)
next
  case (Cons c ds)
  have "v * 1 \<le> v * radix" using Cons(2,3) by (intro mult_left_mono) auto
  then have "v \<le> v * radix + uint (the (digit c))" using uint_ge_0 [of "the (digit c)"] by linarith
  moreover have "v * radix + uint (the (digit c)) \<le> number_value radix digit (v * radix + uint (the (digit c))) ds"
    using Cons calculation by (intro Cons(1)) auto
  ultimately show ?case by (simp add: number_value_def)
qed

text \<open>A loop over digits computes the value or panics when it does not fit.\<close>

lemma scan_digits_value:
  assumes "\<forall>c \<in> set ds. \<exists>d. digit c = Some d \<and> uint d < 16" and "cs = [] \<or> digit (hd cs) = None"
    and "0 \<le> v" and "v \<le> COMP_INTEGER_MAX" and "0 < uint radix" and "uint radix \<le> 16"
  shows "scan_digits digit radix (ds @ cs) (ci_make v) =
    (if number_value (uint radix) digit v ds \<le> COMP_INTEGER_MAX
     then Inr (ci_make (number_value (uint radix) digit v ds), cs) else Inl Panic)"
  using assms
proof (induction ds arbitrary: v)
  case Nil
  then show ?case by (cases cs) (auto simp: number_value_def)
next
  case (Cons c ds)
  obtain d where d: "digit c = Some d" "uint d < 16" using Cons(2) by auto
  define r where "r = uint radix"
  have r: "0 < r" "r \<le> 16" using Cons(6,7) by (simp_all add: r_def)
  have in_range: "representable v" "representable r" "representable (uint d)"
    using Cons(4,5) r d(2) order_trans [OF _ uint_ge_0 [of d]] by (auto simp: representable_def)
  have prod: "0 \<le> v * r" and sum: "0 \<le> v * r + uint d" using Cons(4) r by auto
  have mul: "comp_integer_mul (ci_make v) (ci_make r)
      = (if v * r \<le> COMP_INTEGER_MAX then Inr (ci_make (v * r)) else Inl Panic)"
    using comp_integer_mul_value [OF in_range(1,2)] prod by (auto simp: representable_def)
  have add: "comp_integer_add (ci_make (v * r)) (ci_make (uint d))
      = (if v * r + uint d \<le> COMP_INTEGER_MAX then Inr (ci_make (v * r + uint d)) else Inl Panic)"
    if "v * r \<le> COMP_INTEGER_MAX"
    using comp_integer_add_value [of "v * r" "uint d"] in_range(3) that prod sum by (auto simp: representable_def)
  have conv: "comp_integer_from_u64 radix = Inr (ci_make r)" "comp_integer_from_u64 d = Inr (ci_make (uint d))"
    using r d(2) by (auto simp: r_def intro!: comp_integer_from_u64_value)
  have mono: "v * r + uint d \<le> number_value r digit v (c # ds)"
    using number_value_mono [OF sum r(1), of digit ds] by (simp add: number_value_def d(1))
  show ?case
  proof (cases "v * r + uint d \<le> COMP_INTEGER_MAX")
    case True
    then have le: "v * r \<le> COMP_INTEGER_MAX" using uint_ge_0 [of d] by linarith
    have step: "number_value r digit (v * r + uint d) ds = number_value r digit v (c # ds)"
      by (simp add: number_value_def d(1))
    have "scan_digits digit radix (ds @ cs) (ci_make (v * r + uint d)) =
      (if number_value r digit v (c # ds) \<le> COMP_INTEGER_MAX
       then Inr (ci_make (number_value r digit v (c # ds)), cs) else Inl Panic)"
      using Cons(1) [of "v * r + uint d"] Cons(2,3,6,7) sum True unfolding r_def [symmetric] step by simp
    then show ?thesis using conv mul add [OF le] True le by (simp add: d(1) r_def [symmetric])
  next
    case False
    then have "\<not> number_value r digit v (c # ds) \<le> COMP_INTEGER_MAX" using mono by linarith
    then show ?thesis using conv mul add False by (auto simp: d(1) r_def [symmetric])
  qed
qed

definition literal_digit :: "char \<Rightarrow> char \<Rightarrow> u64 option" where
  "literal_digit base =
     (if base = CHR ''b'' then digit_below CHR ''1'' else if base = CHR ''o'' then digit_below CHR ''7''
      else if base = CHR ''x'' then hex_digit else digit_below CHR ''9'')"

definition literal_radix :: "char \<Rightarrow> u64" where
  "literal_radix base = (if base = CHR ''o'' then 8 else if base = CHR ''x'' then 16 else 10)"

lemma of_char_minus_word:
  assumes "of_char d \<le> (of_char c :: nat)" and "(of_char c :: nat) < 2 ^ LENGTH('a)"
  shows "unat (of_char c - of_char d :: 'a::len word) = of_char c - of_char d"
proof -
  have "(of_char c - of_char d :: 'a word) = of_nat (of_char c - of_char d)"
    using assms(1) by (simp add: of_nat_diff of_nat_of_char)
  then show ?thesis using assms(2) by (simp add: unsigned_of_nat take_bit_nat_eq_self less_imp_diff_less)
qed

lemma unat_of_nat_u8: "n < 256 \<Longrightarrow> unat (of_nat n :: u8) = n"
  by (simp add: unsigned_of_nat take_bit_nat_eq_self)

lemma of_char_less: "(of_char c :: nat) < 256"
  by (rule nat_of_char_less_256)

lemma uint_digit_below:
  "digit_below e c = Some d \<Longrightarrow> uint d = int (of_char c) - 48 \<and> CHR ''0'' \<le> c \<and> c \<le> e"
proof -
  assume a: "digit_below e c = Some d"
  then have r: "CHR ''0'' \<le> c" "c \<le> e" "d = of_char c - of_char CHR ''0''"
    by (auto simp: digit_below_def split: if_splits)
  have le: "of_char CHR ''0'' \<le> (of_char c :: nat)" using r(1) by (simp only: less_eq_char_def)
  have "unat d = of_char c - of_char CHR ''0''"
    unfolding r(3) by (rule of_char_minus_word [OF le]) (rule less_trans [OF of_char_less], simp)
  then have "uint d = int (of_char c - of_char CHR ''0'')" by (simp only: uint_nat)
  with r le show ?thesis by simp
qed

lemma unat_hex_char_value:
  "hex_char_value c \<noteq> INVALID_HEX_CHAR_VALUE \<Longrightarrow> unat (hex_char_value c) < 16"
proof -
  have shift: "unat (10 + of_char c - of_char d :: u8) < 16"
    if "of_char d \<le> (of_char c :: nat)" "of_char c \<le> (of_char d :: nat) + 5" "of_char d < (200 :: nat)" for d
  proof -
    have e: "(10 + of_char c - of_char d :: u8) = of_nat (10 + (of_char c - of_char d))"
      using that(1) by (simp add: of_nat_diff of_nat_of_char)
    have lt: "10 + (of_char c - of_char d) < (16 :: nat)" using that by linarith
    then have "unat (of_nat (10 + (of_char c - of_char d)) :: u8) = 10 + (of_char c - of_char d)"
      by (intro unat_of_nat_u8) simp
    then show ?thesis using lt by (simp only: e)
  qed
  have plain: "unat (of_char c - of_char CHR ''0'' :: u8) < 16" if "CHR ''0'' \<le> c" "c \<le> CHR ''9''"
  proof -
    have "of_char CHR ''0'' \<le> (of_char c :: nat)" "of_char c \<le> (of_char CHR ''9'' :: nat)"
      using that by (simp_all only: less_eq_char_def)
    moreover from this have "unat (of_char c - of_char CHR ''0'' :: u8) = of_char c - of_char CHR ''0''"
      by (intro of_char_minus_word) auto
    ultimately show ?thesis by simp
  qed
  have low: "of_char CHR ''a'' \<le> (of_char c :: nat) \<and> of_char c \<le> (of_char CHR ''a'' :: nat) + 5"
    if "CHR ''a'' \<le> c" "c \<le> CHR ''f''" using that unfolding less_eq_char_def by simp
  have up: "of_char CHR ''A'' \<le> (of_char c :: nat) \<and> of_char c \<le> (of_char CHR ''A'' :: nat) + 5"
    if "CHR ''A'' \<le> c" "c \<le> CHR ''F''" using that unfolding less_eq_char_def by simp
  assume "hex_char_value c \<noteq> INVALID_HEX_CHAR_VALUE"
  then consider "CHR ''a'' \<le> c" "c \<le> CHR ''f''" "hex_char_value c = 10 + of_char c - of_char CHR ''a''"
    | "CHR ''A'' \<le> c" "c \<le> CHR ''F''" "hex_char_value c = 10 + of_char c - of_char CHR ''A''"
    | "CHR ''0'' \<le> c" "c \<le> CHR ''9''" "hex_char_value c = of_char c - of_char CHR ''0''"
    unfolding hex_char_value_def by (auto split: if_splits)
  then show ?thesis
  proof cases
    case 1
    then show ?thesis using shift [of "CHR ''a''"] low by simp
  next
    case 2
    then show ?thesis using shift [of "CHR ''A''"] up by simp
  next
    case 3
    then show ?thesis using plain by simp
  qed
qed

lemma uint_hex_digit: "hex_digit c = Some d \<Longrightarrow> uint d < 16"
proof -
  assume a: "hex_digit c = Some d"
  then have "unat (hex_char_value c) < 16" "d = ucast (hex_char_value c)"
    using unat_hex_char_value by (auto simp: hex_digit_def Let_def split: if_splits)
  then show ?thesis
    by (simp add: unsigned_ucast_eq uint_nat le_less_trans [OF take_bit_nat_less_eq_self])
qed

lemma uint_literal_digit: "literal_digit base c = Some d \<Longrightarrow> uint d < 16"
proof -
  assume a: "literal_digit base c = Some d"
  have "uint d < 16" if "digit_below e c = Some d" "e \<le> CHR ''9''" for e
  proof -
    have "c \<le> CHR ''9''" using uint_digit_below [OF that(1)] that(2) by auto
    then have "of_char c \<le> (57 :: nat)" unfolding less_eq_char_def by simp
    then show ?thesis using uint_digit_below [OF that(1)] by linarith
  qed
  with a show ?thesis by (auto simp: literal_digit_def uint_hex_digit less_eq_char_def split: if_splits)
qed

lemma digit_below_numeric: "digit_below (CHR ''9'') c = None \<longleftrightarrow> \<not> is_numeric_char c"
  by (auto simp: digit_below_def is_numeric_char_def)

lemma ci_make_0: "comp_integer_from_u64 0 = Inr (ci_make 0)"
  using comp_integer_from_u64_value [of 0] by simp

lemma literal_digit_continues: "literal_digit base c \<noteq> None \<Longrightarrow> is_identifier_continuation_char c"
  by (auto simp: literal_digit_def digit_below_def hex_digit_def hex_char_value_def Let_def
      is_identifier_continuation_char_def is_alphabetic_char_def is_numeric_char_def less_eq_char_def
      split: if_splits)

text \<open>
  C29: An integer literal with a base prefix has the value its digits spell in radix 8 (\<open>0o\<close>), 16
  (\<open>0x\<close>) or, for the binary prefix \<open>0b\<close>, in radix ten. When the value does not fit a
  compile-time integer the process panics; nothing is ever truncated.
\<close>

theorem based_literal_value:
  assumes "base \<in> {CHR ''b'', CHR ''o'', CHR ''x''}" and "ds \<noteq> []"
    and "\<forall>c \<in> set ds. literal_digit base c \<noteq> None" and "\<not> is_identifier_continuation_char c"
  shows "next_without_source (s\<lparr>rest := CHR ''0'' # base # ds @ c # cs\<rparr>) =
    (let v = number_value (uint (literal_radix base)) (literal_digit base) 0 ds in
     if v \<le> COMP_INTEGER_MAX then Ok (LitInteger, IntegerValue (ci_make v)) (s\<lparr>rest := c # cs\<rparr>)
     else Stop Panic)"
proof -
  have "\<forall>x \<in> set ds. \<exists>d. literal_digit base x = Some d \<and> uint d < 16"
    using assms(3) uint_literal_digit by blast
  moreover have "literal_digit base c = None" using literal_digit_continues assms(4) by blast
  moreover have "0 < uint (literal_radix base)" "uint (literal_radix base) \<le> 16"
    by (simp_all add: literal_radix_def)
  ultimately have digits: "scan_digits (literal_digit base) (literal_radix base) (ds @ c # cs) (ci_make 0) =
    (let v = number_value (uint (literal_radix base)) (literal_digit base) 0 ds in
     if v \<le> COMP_INTEGER_MAX then Inr (ci_make v, c # cs) else Inl Panic)"
    using scan_digits_value [of ds "literal_digit base" "c # cs" 0 "literal_radix base"] by (simp add: Let_def)
  have "next_without_source (s\<lparr>rest := CHR ''0'' # base # ds @ c # cs\<rparr>) =
      scan_number_token_with_base (s\<lparr>rest := base # ds @ c # cs\<rparr>) base"
    using assms(1)
    by (elim insertE emptyE)
      (simp_all add: next_without_source_def next_punctuation_def Let_def peek_at_def advance_def is_alphabetic_char_def)
  also have "\<dots> = lbind (lift_outcome (scan_digits (literal_digit base) (literal_radix base) (ds @ c # cs) (ci_make 0))
          (s\<lparr>rest := base # ds @ c # cs\<rparr>))
        (\<lambda>(v, cur) s. if length cur = length (ds @ c # cs) then scan_error s LexNumberWithBaseMissingDigits
          else if is_identifier_continuation_char (peek_at cur 0) then
            scan_error s LexNumberUnexpectedCharacterAfterInteger
          else Ok (LitInteger, IntegerValue v) (s\<lparr>rest := cur\<rparr>))"
    using assms(1)
    by (elim insertE emptyE)
      (simp_all add: scan_number_token_with_base_def ci_make_0 literal_digit_def literal_radix_def Let_def)
  finally show ?thesis
    using assms(2,4) by (simp add: digits Let_def peek_at_def)
qed

text \<open>
  C30: A decimal literal, digits that no letter, underscore or point follows, has the value they
  spell, or the process panics when it does not fit a compile-time integer.
\<close>

theorem decimal_literal_value:
  assumes "ds \<noteq> []" and "\<forall>c \<in> set ds. is_numeric_char c"
    and "\<not> is_identifier_continuation_char c" and "c \<noteq> CHR ''.''"
  shows "next_without_source (s\<lparr>rest := ds @ c # cs\<rparr>) =
    (let v = number_value 10 (digit_below CHR ''9'') 0 ds in
     if v \<le> COMP_INTEGER_MAX then Ok (LitInteger, IntegerValue (ci_make v)) (s\<lparr>rest := c # cs\<rparr>)
     else Stop Panic)"
proof -
  obtain d ds' where ds: "ds = d # ds'" using assms(1) by (cases ds) auto
  have num: "is_numeric_char d" "CHR ''0'' \<le> d" "d \<le> CHR ''9''" using assms(2) ds by (auto simp: is_numeric_char_def)
  have digit: "digit_below (CHR ''9'') x = Some (of_char x - of_char CHR ''0'')" if "is_numeric_char x" for x
    using that by (simp add: digit_below_def is_numeric_char_def)
  have small: "\<exists>w. digit_below (CHR ''9'') x = Some w \<and> uint w < 16" if "is_numeric_char x" for x
    using digit [OF that] uint_literal_digit [of "CHR ''9''" x] by (simp add: literal_digit_def)
  have first: "uint (of_char d - of_char CHR ''0'' :: u64) < 16"
    using small [OF num(1)] digit [OF num(1)] by simp
  have letters: "\<not> is_alphabetic_char d" "d \<noteq> CHR ''b''" "d \<noteq> CHR ''o''" "d \<noteq> CHR ''x''"
    using num(2,3) by (auto simp: is_alphabetic_char_def less_eq_char_def)
  have not_base: "peek_at (ds' @ c # cs) 0 \<notin> {CHR ''b'', CHR ''o'', CHR ''x''}"
    using assms(2,3) ds
    by (cases ds') (auto simp: peek_at_def is_numeric_char_def is_identifier_continuation_char_def is_alphabetic_char_def)
  define v0 where "v0 = uint (of_char d - of_char CHR ''0'' :: u64)"
  have digits: "scan_digits (digit_below CHR ''9'') 10 (ds' @ c # cs) (ci_make v0) =
    (let v = number_value 10 (digit_below CHR ''9'') v0 ds' in
     if v \<le> COMP_INTEGER_MAX then Inr (ci_make v, c # cs) else Inl Panic)"
    using scan_digits_value [of ds' "digit_below CHR ''9''" "c # cs" v0 10] assms(2,3) ds first small
    by (simp add: Let_def v0_def digit_below_numeric is_identifier_continuation_char_def)
  have "next_without_source (s\<lparr>rest := ds @ c # cs\<rparr>) = scan_number_token (s\<lparr>rest := ds' @ c # cs\<rparr>) d"
    using num(1) letters not_base
    by (auto simp: next_without_source_def next_punctuation_def Let_def ds advance_def peek_at_def)
  also have "\<dots> = (let v = number_value 10 (digit_below CHR ''9'') v0 ds' in
     if v \<le> COMP_INTEGER_MAX then Ok (LitInteger, IntegerValue (ci_make v)) (s\<lparr>rest := c # cs\<rparr>)
     else Stop Panic)"
    using comp_integer_from_u64_value [of "of_char d - of_char CHR ''0''"] first digits assms(3,4)
    by (simp add: scan_number_token_def v0_def Let_def peek_at_def is_identifier_continuation_char_def)
  finally show ?thesis
    by (simp add: ds number_value_def v0_def digit [OF num(1)])
qed

theorem based_literal_value_witness:
  "\<forall>s. next_without_source (s\<lparr>rest := ''0x1F;''\<rparr>) =
     Ok (LitInteger, IntegerValue (ci_make 31)) (s\<lparr>rest := '';''\<rparr>)
   \<and> next_without_source (s\<lparr>rest := ''0b10;''\<rparr>) = Ok (LitInteger, IntegerValue (ci_make 10)) (s\<lparr>rest := '';''\<rparr>)"
  using based_literal_value [of "CHR ''x''" "''1F''" "CHR '';''" "[]"]
    based_literal_value [of "CHR ''b''" "''10''" "CHR '';''" "[]"]
  by (simp add: literal_digit_def literal_radix_def digit_below_def hex_digit_def hex_char_value_def
      INVALID_HEX_CHAR_VALUE_def number_value_def is_identifier_continuation_char_def
      is_alphabetic_char_def is_numeric_char_def Let_def)

theorem decimal_literal_value_witness:
  "\<forall>s. next_without_source (s\<lparr>rest := ''42;''\<rparr>) = Ok (LitInteger, IntegerValue (ci_make 42)) (s\<lparr>rest := '';''\<rparr>)"
  using decimal_literal_value [of "''42''" "CHR '';''" "[]"]
  by (simp add: digit_below_def number_value_def is_identifier_continuation_char_def
      is_alphabetic_char_def is_numeric_char_def Let_def)

section \<open>Character literals\<close>

text \<open>The UTF-8 encoding of a code point, as the standard defines it.\<close>

definition utf8_units :: "nat \<Rightarrow> nat list" where
  "utf8_units cp =
     (if cp < 0x80 then [cp]
      else if cp < 0x800 then [0xC0 + cp div 64, 0x80 + cp mod 64]
      else if cp < 0x10000 then [0xE0 + cp div 4096, 0x80 + cp div 64 mod 64, 0x80 + cp mod 64]
      else [0xF0 + cp div 262144, 0x80 + cp div 4096 mod 64, 0x80 + cp div 64 mod 64, 0x80 + cp mod 64])"

definition utf8 :: "nat \<Rightarrow> string" where
  "utf8 cp = map char_of (utf8_units cp)"

lemma code_unit_char_of: "n < 256 \<Longrightarrow> code_unit (char_of n) = of_nat n"
proof -
  assume "n < 256"
  have "code_unit (char_of n) = of_nat (of_char (char_of n) :: nat)" by (simp only: code_unit_def of_nat_of_char)
  then show ?thesis using \<open>n < 256\<close> by simp
qed

lemma all_below: "P 0 \<Longrightarrow> P 1 \<Longrightarrow> list_all P [2..<m] \<Longrightarrow> n < m \<Longrightarrow> P n"
  by (cases "n < 2") (auto simp: list_all_iff less_2_cases_iff)

lemma plain_unit: "n < 128 \<Longrightarrow> (of_nat n :: u32) AND 0x80 = 0"
  by (rule all_below [where m = 128]) (simp_all add: upt_rec_numeral)

lemma continuation_unit:
  "n < 64 \<Longrightarrow> (of_nat (0x80 + n) :: u32) AND 0xC0 = 0x80 \<and> (of_nat (0x80 + n) :: u32) AND 0x3F = of_nat n"
  by (rule all_below [where m = 64]) (simp_all add: upt_rec_numeral)

lemma lead2_unit:
  "n < 32 \<Longrightarrow> (of_nat (0xC0 + n) :: u32) AND 0x80 \<noteq> 0 \<and> (of_nat (0xC0 + n) :: u32) AND 0xE0 = 0xC0
     \<and> (of_nat (0xC0 + n) :: u32) AND 0x1F = of_nat n"
  by (rule all_below [where m = 32]) (simp_all add: upt_rec_numeral)

lemma lead3_unit:
  "n < 16 \<Longrightarrow> (of_nat (0xE0 + n) :: u32) AND 0x80 \<noteq> 0 \<and> (of_nat (0xE0 + n) :: u32) AND 0xE0 \<noteq> 0xC0
     \<and> (of_nat (0xE0 + n) :: u32) AND 0xF0 = 0xE0 \<and> (of_nat (0xE0 + n) :: u32) AND 0x0F = of_nat n"
  by (rule all_below [where m = 16]) (simp_all add: upt_rec_numeral)

lemma lead4_unit:
  "n < 8 \<Longrightarrow> (of_nat (0xF0 + n) :: u32) AND 0x80 \<noteq> 0 \<and> (of_nat (0xF0 + n) :: u32) AND 0xE0 \<noteq> 0xC0
     \<and> (of_nat (0xF0 + n) :: u32) AND 0xF0 \<noteq> 0xE0 \<and> (of_nat (0xF0 + n) :: u32) AND 0xF8 = 0xF0
     \<and> (of_nat (0xF0 + n) :: u32) AND 0x07 = of_nat n"
  by (rule all_below [where m = 8]) (simp_all add: upt_rec_numeral)

lemma join_unit:
  assumes "c < 64"
  shows "push_bit 6 (of_nat a) OR of_nat c = (of_nat (64 * a + c) :: u32)"
proof -
  have "take_bit 6 c = c" using assms by (simp add: take_bit_nat_eq_self)
  then have c: "\<not> bit c n" if "6 \<le> n" for n
    using that by (metis bit_take_bit_iff not_le)
  have "(push_bit 6 a OR c :: nat) = push_bit 6 a + c"
    by (rule disjunctive_add_eq_or [symmetric]) (auto simp: bit_eq_iff bit_simps c)
  then have "(of_nat (push_bit 6 a OR c) :: u32) = of_nat (64 * a + c)"
    by (simp add: push_bit_eq_mult mult.commute)
  then show ?thesis by (simp add: of_nat_or_eq push_bit_of_nat)
qed

lemma unit_at:
  "u < 256 \<Longrightarrow> code_unit (peek_at (char_of u # cs) 0) = of_nat u"
  by (simp add: peek_at_def code_unit_char_of del: of_nat_add)

lemma surrogate_step:
  assumes "n < 64"
  shows "surrogates_loop s (char_of (0x80 + n) # cs) cp (Suc k)
    = surrogates_loop s cs (cp OR push_bit (6 * k) (of_nat n)) k"
proof -
  have "code_unit (peek_at (char_of (0x80 + n) # cs) 0) = of_nat (0x80 + n)"
    by (rule unit_at) (use assms in simp)
  then show ?thesis using continuation_unit [OF assms] by (simp add: Let_def del: of_nat_add)
qed

lemma join_unit_shift:
  "c < 64 \<Longrightarrow> push_bit (6 + k) (of_nat a) OR push_bit k (of_nat c) = (push_bit k (of_nat (64 * a + c)) :: u32)"
proof -
  assume "c < 64"
  have "push_bit k (push_bit 6 (of_nat a) OR of_nat c) = (push_bit k (of_nat (64 * a + c)) :: u32)"
    by (simp only: join_unit [OF \<open>c < 64\<close>])
  then show ?thesis by (simp add: push_bit_or add.commute)
qed

lemma scan_utf8_char_units:
  assumes "cp < 0x110000" and "rest s = utf8 cp @ cs"
  shows "scan_utf8_char s = Ok (of_nat cp) (s\<lparr>rest := cs\<rparr>)"
proof -
  have split2: "64 * (cp div 64) + cp mod 64 = cp" by simp
  have split3: "64 * (cp div 4096) + cp div 64 mod 64 = cp div 64" by (simp add: div_mult2_eq [of cp 64 64, simplified])
  have split4: "64 * (cp div 262144) + cp div 4096 mod 64 = cp div 4096"
    by (simp add: div_mult2_eq [of cp 4096 64, simplified])
  consider (one) "cp < 0x80" | (two) "0x80 \<le> cp" "cp < 0x800" | (three) "0x800 \<le> cp" "cp < 0x10000"
    | (four) "0x10000 \<le> cp" by linarith
  then show ?thesis
  proof cases
    case one
    then have r: "rest s = char_of cp # cs" using assms(2) by (simp add: utf8_def utf8_units_def)
    then have "code_unit (peek_at (rest s) 0) = of_nat cp" using one by (simp add: unit_at)
    then show ?thesis using plain_unit one r by (simp add: scan_utf8_char_def Let_def advance_def)
  next
    case two
    define a b where "a = cp div 64" and "b = cp mod 64"
    have lim: "a < 32" "b < 64" using two by (auto simp: a_def b_def)
    have r: "rest s = char_of (0xC0 + a) # char_of (0x80 + b) # cs"
      using two assms(2) by (simp add: utf8_def utf8_units_def a_def b_def)
    then have u: "code_unit (peek_at (rest s) 0) = of_nat (0xC0 + a)"
      using lim by (simp add: unit_at del: of_nat_add)
    have "scan_utf8_char s = scan_utf8_char_surrogates s (push_bit 6 (of_nat a)) 1"
      using lead2_unit [OF lim(1)] by (simp add: scan_utf8_char_def u Let_def del: of_nat_add)
    also have "\<dots> = Ok (push_bit 6 (of_nat a) OR of_nat b) (s\<lparr>rest := cs\<rparr>)"
      using surrogate_step [OF lim(2), of s cs _ 0]
      by (simp add: scan_utf8_char_surrogates_def r advance_def del: of_nat_add surrogates_loop.simps(2))
    finally show ?thesis by (simp only: join_unit [OF lim(2)]) (simp only: a_def b_def split2)
  next
    case three
    define a b c where "a = cp div 4096" and "b = cp div 64 mod 64" and "c = cp mod 64"
    have lim: "a < 16" "b < 64" "c < 64" using three by (auto simp: a_def b_def c_def)
    have r: "rest s = char_of (0xE0 + a) # char_of (0x80 + b) # char_of (0x80 + c) # cs"
      using three assms(2) by (simp add: utf8_def utf8_units_def a_def b_def c_def)
    then have u: "code_unit (peek_at (rest s) 0) = of_nat (0xE0 + a)"
      using lim by (simp add: unit_at del: of_nat_add)
    have "scan_utf8_char s = scan_utf8_char_surrogates s (push_bit 12 (of_nat a)) 2"
      using lead3_unit [OF lim(1)] by (simp add: scan_utf8_char_def u Let_def del: of_nat_add)
    also have "\<dots> = Ok ((push_bit 12 (of_nat a) OR push_bit 6 (of_nat b)) OR of_nat c) (s\<lparr>rest := cs\<rparr>)"
      using surrogate_step [OF lim(2), of s _ _ 1] surrogate_step [OF lim(3), of s cs _ 0]
      by (simp add: scan_utf8_char_surrogates_def r advance_def numeral_2_eq_2 del: of_nat_add surrogates_loop.simps(2))
    finally show ?thesis
      using join_unit_shift [OF lim(2), of 6 a] join_unit [OF lim(3), of "64 * a + b"]
      by (simp only: a_def b_def c_def split2 split3) (simp only: numeral_plus_numeral add_num_simps split2)
  next
    case four
    define a b c d where "a = cp div 262144" and "b = cp div 4096 mod 64" and "c = cp div 64 mod 64"
      and "d = cp mod 64"
    have lim: "a < 8" "b < 64" "c < 64" "d < 64" using four assms(1) by (auto simp: a_def b_def c_def d_def)
    have r: "rest s = char_of (0xF0 + a) # char_of (0x80 + b) # char_of (0x80 + c) # char_of (0x80 + d) # cs"
      using four assms(2) by (simp add: utf8_def utf8_units_def a_def b_def c_def d_def)
    then have u: "code_unit (peek_at (rest s) 0) = of_nat (0xF0 + a)"
      using lim by (simp add: unit_at del: of_nat_add)
    have "scan_utf8_char s = scan_utf8_char_surrogates s (push_bit 18 (of_nat a)) 3"
      using lead4_unit [OF lim(1)] by (simp add: scan_utf8_char_def u Let_def del: of_nat_add)
    also have "\<dots> = Ok (((push_bit 18 (of_nat a) OR push_bit 12 (of_nat b)) OR push_bit 6 (of_nat c)) OR of_nat d)
        (s\<lparr>rest := cs\<rparr>)"
      using surrogate_step [OF lim(2), of s _ _ 2] surrogate_step [OF lim(3), of s _ _ 1]
        surrogate_step [OF lim(4), of s cs _ 0]
      by (simp add: scan_utf8_char_surrogates_def r advance_def numeral_3_eq_3 numeral_2_eq_2
          del: of_nat_add surrogates_loop.simps(2))
    finally show ?thesis
      using join_unit_shift [OF lim(2), of 12 a] join_unit_shift [OF lim(3), of 6 "64 * a + b"]
        join_unit [OF lim(4), of "64 * (64 * a + b) + c"]
      by (simp only: a_def b_def c_def d_def split2 split3 split4) (simp only: numeral_plus_numeral add_num_simps split2)
  qed
qed

text \<open>
  C28: A character literal that holds the UTF-8 encoding of a code point, up to the largest one and
  other than the backslash that begins an escape sequence, scans to that code point and leaves
  the source behind the closing quote.
\<close>

theorem char_literal_utf8:
  assumes "cp \<le> 0x10FFFF" and "cp \<noteq> 0x5C"
  shows "next_without_source (s\<lparr>rest := CHR 0x27 # utf8 cp @ CHR 0x27 # cs\<rparr>) =
    Ok (LitChar, CharValue (of_nat cp)) (s\<lparr>rest := cs\<rparr>)"
proof -
  let ?s = "s\<lparr>rest := utf8 cp @ CHR 0x27 # cs\<rparr>"
  have start: "next_without_source (s\<lparr>rest := CHR 0x27 # utf8 cp @ CHR 0x27 # cs\<rparr>) = scan_char_token ?s"
    by (simp add: next_without_source_def next_punctuation_def Let_def peek_at_def advance_def is_alphabetic_char_def is_numeric_char_def)
  have head: "peek_at (rest ?s) 0 = char_of (hd (utf8_units cp))"
    by (simp add: utf8_def utf8_units_def peek_at_def)
  have "hd (utf8_units cp) < 256 \<and> hd (utf8_units cp) \<noteq> 0x5C"
    using assms by (auto simp: utf8_units_def)
  then have "(of_char (char_of (hd (utf8_units cp))) :: nat) \<noteq> of_char (CHR 0x5C)" by simp
  then have "peek_at (rest ?s) 0 \<noteq> CHR 0x5C" unfolding head by metis
  moreover have "scan_utf8_char ?s = Ok (of_nat cp) (s\<lparr>rest := CHR 0x27 # cs\<rparr>)"
    using scan_utf8_char_units [of cp ?s "CHR 0x27 # cs"] assms(1) by simp
  ultimately show ?thesis by (simp add: start scan_char_token_def advance_def peek_at_def)
qed

theorem char_literal_utf8_witness:
  "\<forall>s. next_without_source (s\<lparr>rest := CHR 0x27 # utf8 0x20AC @ CHR 0x27 # '';''\<rparr>) =
    Ok (LitChar, CharValue 0x20AC) (s\<lparr>rest := '';''\<rparr>)"
  using char_literal_utf8 [where cp = "0x20AC" and cs = "'';''"] by simp

section \<open>String literals\<close>

lemma string_loop_quote: "scan_string_loop s buffer cb (CHR 0x22 # cs) = Ok (buffer, cb, CHR 0x22 # cs) s"
  by (subst scan_string_loop.simps) (simp add: peek_at_def)

lemma string_loop_Cons:
  "c \<notin> {CHR 0x22, CHR 0x5C, CHR 0x0A, CHR 0x00}
     \<Longrightarrow> scan_string_loop s buffer cb (c # cs) = scan_string_loop s buffer cb cs"
  by (subst scan_string_loop.simps) (simp add: peek_at_def)

lemma string_loop_plain:
  assumes "CHR 0x22 \<notin> set bs" and "CHR 0x5C \<notin> set bs" and "CHR 0x0A \<notin> set bs" and "CHR 0x00 \<notin> set bs"
  shows "scan_string_loop s buffer cb (bs @ cs) = scan_string_loop s buffer cb cs"
  using assms by (induction bs) (auto simp: string_loop_Cons)

text \<open>
  C32: A string literal without escape sequences is its bytes, when they are at most
  \<open>MAX_STRING_LITERAL_BYTES\<close> and the heap has room for them; a longer one is reported.
\<close>

theorem plain_string_literal:
  assumes "CHR 0x22 \<notin> set bs" and "CHR 0x5C \<notin> set bs" and "CHR 0x0A \<notin> set bs" and "CHR 0x00 \<notin> set bs"
    and "string_room s (length bs)"
  shows "scan_string_token (s\<lparr>rest := bs @ CHR 0x22 # cs\<rparr>) =
    (if length bs \<le> MAX_STRING_LITERAL_BYTES then Ok (LitString, StringValue bs) (s\<lparr>rest := cs\<rparr>)
     else scan_error (s\<lparr>rest := bs @ CHR 0x22 # cs\<rparr>) LexStringTooLong)"
proof -
  have "scan_string_loop t b cb (bs @ CHR 0x22 # cs) = Ok (b, cb, CHR 0x22 # cs) t" for t b cb
    using string_loop_plain [OF assms(1-4)] by (simp add: string_loop_quote)
  then show ?thesis using assms(5)
    by (simp add: scan_string_token_def copy_bytes_def scan_error_def parse_error_fatal_def)
qed

theorem plain_string_literal_witness:
  "scan_string_token (source_state undefined [] \<lparr>rest := ''hi'' @ CHR 0x22 # '';''\<rparr>) =
    Ok (LitString, StringValue ''hi'') (source_state undefined [] \<lparr>rest := '';''\<rparr>)"
  using plain_string_literal [of "''hi''" "source_state undefined []" "'';''"]
  by (simp add: source_state_def MAX_STRING_LITERAL_BYTES_def)

text \<open>The encoding of a code point of three units begins with the lead unit \<open>0xE0\<close> and has four units.\<close>

lemma append_codepoint_0x800: "append_codepoint s buffer 0x800 = append_bytes s buffer [0xE0, 0x80, 0xA0, 0x80]"
  by (simp add: append_codepoint_def)

text \<open>
  After an escape sequence the bytes up to the next one are copied from a place in the buffer
  instead of the source. So a literal with an escape sequence in it never becomes a lexeme: the
  scan reports an error, fails an assertion or has no meaning.
\<close>

lemma string_loop_in_buffer:
  "scan_string_loop s buffer None cur = Ok (b, cb, cur') s' \<Longrightarrow> cb = None"
proof (induction s buffer "None :: string option" cur arbitrary: b cb cur' s' rule: scan_string_loop.induct)
  case (1 s buffer cur)
  from 1(3) show ?case
    by (subst (asm) scan_string_loop.simps)
      (auto simp: copy_bytes_def split: if_splits dest!: 1(2))
qed

lemma string_loop_escape:
  assumes "scan_string_loop s buffer cb (bs @ CHR 0x5C # cs) = Ok (b, cb', cur) s'"
    and "CHR 0x22 \<notin> set bs" and "CHR 0x5C \<notin> set bs" and "CHR 0x0A \<notin> set bs" and "CHR 0x00 \<notin> set bs"
  shows "cb' = None"
proof -
  have "scan_string_loop s buffer cb (CHR 0x5C # cs) = Ok (b, cb', cur) s'"
    using assms string_loop_plain by metis
  then show ?thesis
    by (subst (asm) scan_string_loop.simps) (auto simp: peek_at_def lbind_eq_Ok_iff dest: string_loop_in_buffer)
qed



section \<open>Looking ahead\<close>

lemma next_times_scanned:
  "next_times n r s = Ok l s' \<Longrightarrow> token (peek_slot s) = EMPTY \<Longrightarrow> terminated (rest s) \<Longrightarrow> scanned 0 s s'"
proof (induction n arbitrary: r s)
  case 0
  then show ?case using scanned_rest [of 0 0 s] by (simp add: terminated_def)
next
  case (Suc n)
  obtain l1 s1 where step: "next_lexeme s = Ok l1 s1" "next_times n l1 s1 = Ok l s'"
    using Suc(2) by (auto simp: lbind_eq_Ok_iff)
  obtain s0 where "scanned 0 s s0" "s1 = s0 \<or> scanned 1 s0 s1"
    using next_lexeme_scan [OF step(1) Suc(3,4)] by blast
  then have s1: "scanned 0 s s1" using scanned_trans scanned_weaken [of 1 s0 s1 0] by fastforce
  then have "token (peek_slot s1) = EMPTY" "terminated (rest s1)"
    using Suc(3,4) scanned_frame scanned_terminated by auto
  then show ?case using Suc(1) [OF step(2)] s1 scanned_trans by fastforce
qed

text \<open>
  C33: \<open>peek_n\<close> looks ahead without moving. It returns the lexeme that \<open>n\<close> further calls of \<open>next\<close>
  would return behind the one \<open>peek\<close> shows, and the state it leaves is that of \<open>peek\<close>, but for
  identifiers interned on the way.
\<close>

theorem peek_n_looks_ahead:
  assumes "peek_n s n = Ok l s'" and "terminated (rest s)"
  shows "\<exists>p s1 s2. peek s = Ok p s1 \<and> next_times n p (clear_peek s1) = Ok l s2
    \<and> s' = s1\<lparr>identifiers := identifiers s2\<rparr> \<and> peek_slot s' = p"
proof -
  obtain p s1 s2 where run: "peek s = Ok p s1" "next_times n p (clear_peek s1) = Ok l s2"
    "s' = s2\<lparr>rest := rest s1, peek_slot := p\<rparr>"
    using assms(1) by (auto simp: peek_n_def lbind_eq_Ok_iff Let_def split: if_splits)
  have s1: "peek_slot s1 = p \<and> terminated (rest s1)"
  proof (cases "token (peek_slot s) = EMPTY")
    case True
    then obtain s0 where n: "next_lexeme s = Ok p s0" "s1 = s0\<lparr>peek_slot := p\<rparr>"
      using run(1) by (auto simp: peek_def lbind_eq_Ok_iff)
    obtain t where "scanned 0 s t" "s0 = t \<or> scanned 1 t s0"
      using next_lexeme_scan [OF n(1) True assms(2)] by blast
    then have "terminated (rest s0)" using assms(2) scanned_terminated by blast
    then show ?thesis by (simp add: n(2))
  next
    case False
    then show ?thesis using run(1) assms(2) by (auto simp: peek_def)
  qed
  have "scanned 0 (clear_peek s1) s2"
    using next_times_scanned [OF run(2)] s1 by (simp add: clear_peek_def)
  then have "s' = s1\<lparr>identifiers := identifiers s2\<rparr>"
    using s1 by (auto simp: scanned_def run(3) clear_peek_def)
  with run s1 show ?thesis by auto
qed

theorem peek_n_looks_ahead_witness:
  "\<forall>pool. \<exists>s'. peek_n (source_state pool []) 1 =
     Ok \<lparr>token = END_OF_SOURCE, source_id = 1, lexeme_value = NoValue\<rparr> s' \<and>
     (\<exists>p s1 s2. peek (source_state pool []) = Ok p s1 \<and> next_times 1 p (clear_peek s1) = Ok \<lparr>token = END_OF_SOURCE, source_id = 1, lexeme_value = NoValue\<rparr> s2 \<and> s' = s1\<lparr>identifiers := identifiers s2\<rparr>)"
proof
  fix pool
  let ?l = "\<lparr>token = END_OF_SOURCE, source_id = 1, lexeme_value = NoValue\<rparr>"
  let ?s = "(source_state pool [])\<lparr>peek_slot := ?l\<rparr>"
  have "peek (source_state pool []) = Ok ?l ?s"
    by (simp add: peek_def next_lexeme_at_end)
  moreover have "next_lexeme (clear_peek ?s) = Ok ?l (clear_peek ?s)"
    by (subst next_lexeme_at_end) (simp_all add: clear_peek_def)
  ultimately have "peek_n (source_state pool []) 1 = Ok ?l ?s"
    by (simp add: peek_n_def) (simp add: clear_peek_def source_state_def)
  moreover have "\<exists>p s1 s2. peek (source_state pool []) = Ok p s1 \<and> next_times 1 p (clear_peek s1) = Ok ?l s2 \<and> ?s = s1\<lparr>identifiers := identifiers s2\<rparr>"
    using peek_n_looks_ahead [OF calculation, unfolded source_state_simps, OF terminated_append] by blast
  ultimately show "\<exists>s'. peek_n (source_state pool []) 1 = Ok ?l s' \<and>
     (\<exists>p s1 s2. peek (source_state pool []) = Ok p s1 \<and> next_times 1 p (clear_peek s1) = Ok ?l s2 \<and> s' = s1\<lparr>identifiers := identifiers s2\<rparr>)"
    by blast
qed

end
