(* ===== verification/LexerIdentifiers.thy ===== *)
theory LexerIdentifiers
  imports LexerFacts
begin

text \<open>
  Words: the identifier pool as a table of attachments, the table after \<open>parser_init\<close>, and how the
  lexer tells keywords from identifiers.
\<close>

section \<open>Attachments in the pool\<close>

text \<open>\<open>id_from\<close> changes the allocator at most by one allocation for its key.\<close>

lemma rehash_alloc: "rehash A m = Inr m' \<Longrightarrow> m_alloc m' = m_alloc m"
  by (auto simp: rehash_def Let_def obind_eq_Inr_iff ensure_eq_Inr_iff split: if_splits)

lemma id_from_loop_alloc:
  "id_from_loop A key h n T a i e needs off = Inr (T', a', r) \<Longrightarrow>
     (a' = a \<and> (\<not> needs \<longrightarrow> (\<forall>x off. r = Full x off \<longrightarrow> \<not> x)))
     \<or> needs \<and> (\<exists>j. alloc_value A a key h = Inr (a', j)) \<and> (\<forall>x off. r = Full x off \<longrightarrow> \<not> x)"
proof (induction n arbitrary: T a i e needs off)
  case 0
  then show ?case by simp
next
  case (Suc n)
  from Suc(2) show ?case
    by (auto simp: Let_def obind_eq_Inr_iff create_if_needed_def split: if_splits dest!: Suc(1))
qed

lemma id_from_calls_alloc:
  "id_from_calls n A m key h = Inr (m', vid) \<Longrightarrow>
     m_alloc m' = m_alloc m \<or> (\<exists>j. alloc_value A (m_alloc m) key h = Inr (m_alloc m', j))"
proof (induction n arbitrary: m)
  case 0
  then show ?case by (simp add: id_from_calls.simps)
next
  case (Suc n)
  obtain m1 T a r where run: "(if m_lookup_used m * 4 > of_nat (m_lookup_commit m) * 3 then rehash A m else Inr m) = Inr m1"
    "id_from_loop A key h (probe_budget (m_lookups m1)) (m_lookups m1) (m_alloc m1)
       (home_slot (m_lookup_commit m1) h) (create_lookup h) True 0 = Inr (T, a, r)"
    "(case r of Found vid \<Rightarrow> Inr (m1\<lparr>m_lookups := T, m_alloc := a\<rparr>, vid)
      | Full needs off \<Rightarrow> obind (rehash A (m1\<lparr>m_lookups := T, m_alloc := a\<rparr>)) (\<lambda>m.
          if needs then id_from_calls n A m key h else Inr (m, off))) = Inr (m', vid)"
    using Suc(2) by (auto simp: id_from_calls.simps Let_def obind_eq_Inr_iff)
  have m1: "m_alloc m1 = m_alloc m" using run(1) rehash_alloc by (auto split: if_splits)
  from run(3) id_from_loop_alloc [OF run(2)] show ?case
    by (auto simp: m1 obind_eq_Inr_iff split: probe_end.splits if_splits dest!: rehash_alloc Suc(1))
qed

lemma id_from_alloc:
  "id_from A m key h = Inr (m', vid) \<Longrightarrow>
     m_alloc m' = m_alloc m \<or> (\<exists>j. alloc_value A (m_alloc m) key h = Inr (m_alloc m', j))"
  by (simp add: id_from_def id_from_calls_alloc)

lemma ident_alloc_entry:
  "alloc_value ident_ops a key h = Inr (a', vid) \<Longrightarrow>
     entry_at a' = (entry_at a)(vid := \<lparr>m_hash = h, m_length = of_nat (length key), m_attachment = 0, m_chars = key\<rparr>)"
  by (auto simp: ident_ops_def ident_alloc_def Let_def obind_eq_Inr_iff ensure_eq_Inr_iff)

definition has_attachment :: "IdentifierPool \<Rightarrow> u8 list \<Rightarrow> u8 \<Rightarrow> bool" where
  "has_attachment m name b \<longleftrightarrow> (\<exists>vid \<in> ident_live (m_alloc m).
     ident_key_of (m_alloc m) vid = name \<and> m_attachment (entry_at (m_alloc m) vid) = b)"

definition room :: "nat \<Rightarrow> IdentifierPool \<Rightarrow> bool" where
  "room n m \<longleftrightarrow> card (ident_live (m_alloc m)) + n \<le> m_lookup_commit m"

text \<open>Interning a name gives its entry and leaves all attachments; a new name has none.\<close>

lemma value_from_key_ok:
  assumes "pool_ok m" and "length name < 2 ^ 16" and "room (Suc n) m"
  shows "value_from_key ident_ops m name (fnv1a name) = Inl Panic \<or>
    (\<exists>m' vid. value_from_key ident_ops m name (fnv1a name) = Inr (m', vid, entry_at (m_alloc m') vid)
      \<and> pool_ok m' \<and> room n m' \<and> vid \<in> ident_live (m_alloc m') \<and> ident_key_of (m_alloc m') vid = name
      \<and> (\<forall>x b. has_attachment m' x b \<longleftrightarrow> has_attachment m x b \<or>
            x = name \<and> b = 0 \<and> (\<forall>c. \<not> has_attachment m name c)))"
proof (cases "id_from ident_ops m name (fnv1a name)")
  case (Inl e)
  have "card (ident_live (m_alloc m)) < m_lookup_commit m" using assms(3) by (simp add: room_def)
  with Inl idents.id_from_ok [OF assms(1) [unfolded pool_ok_def], of name] assms(2)
  show ?thesis by (simp add: ident_key_ok_def value_from_key_def)
next
  case (Inr r)
  obtain m' vid where r: "r = (m', vid)" by fastforce
  let ?a = "m_alloc m" and ?a' = "m_alloc m'"
  have "card (ident_live ?a) < m_lookup_commit m" using assms(3) by (simp add: room_def)
  with Inr r idents.id_from_ok [OF assms(1) [unfolded pool_ok_def], of name] assms(2)
  have i: "idents.interned m name m' vid" by (simp add: ident_key_ok_def)
  have fin: "finite (ident_live ?a)"
    using assms(1) ident_values_law [of ?a] by (auto simp: pool_ok_def idents.map_ok_def)
  have ok: "pool_ok m'" "ident_live ?a' = insert vid (ident_live ?a)" "ident_key_of ?a' vid = name"
    "\<forall>j\<in>ident_live ?a. ident_key_of ?a' j = ident_key_of ?a j" "m_lookup_commit m \<le> m_lookup_commit m'"
    using i by (auto simp: idents.interned_def pool_ok_def)
  have inj: "inj_on (ident_key_of ?a') (ident_live ?a')"
    using ok(1) by (simp add: pool_ok_def idents.map_ok_def)
  have val: "value_from ident_ops m' vid = Inr (entry_at ?a' vid)"
  proof -
    have "vid \<in> ident_live ?a'" using ok(2) by simp
    note b = pool_live_bounds [OF ok(1) this]
    then have "vid \<noteq> 0" by auto
    with b show ?thesis
      by (auto simp: value_from_def ident_ops_def ident_value_from_id_def)
  qed
  have entries: "(\<forall>j\<in>ident_live ?a. entry_at ?a' j = entry_at ?a j) \<and>
      (vid \<in> ident_live ?a \<or> m_attachment (entry_at ?a' vid) = 0)"
    using id_from_alloc [OF Inr [unfolded r]]
  proof (elim disjE exE)
    assume "?a' = ?a"
    then show ?thesis using ok(2) by auto
  next
    fix j assume j: "alloc_value ident_ops ?a name (fnv1a name) = Inr (?a', j)"
    have "ident_alloc_ok ?a" using assms(1) by (simp add: pool_ok_def idents.map_ok_def)
    from ident_alloc_law [OF this, of name] j assms(2)
    have "j \<notin> ident_live ?a" "ident_live ?a' = insert j (ident_live ?a)" by (auto simp: ident_key_ok_def)
    with ident_alloc_entry [OF j] ok(2) show ?thesis by auto
  qed
  have "card (ident_live ?a') \<le> Suc (card (ident_live ?a))" using ok(2) fin by (simp add: card_insert_if)
  then have "room n m'" using assms(3) ok(5) by (simp add: room_def)
  moreover have "has_attachment m' x b \<longleftrightarrow> has_attachment m x b \<or> x = name \<and> b = 0 \<and> (\<forall>c. \<not> has_attachment m name c)"
    for x b
  proof (cases "vid \<in> ident_live ?a")
    case True
    then have "\<exists>c. has_attachment m name c" using ok(3,4) by (auto simp: has_attachment_def)
    moreover have "ident_live ?a' = ident_live ?a" using True ok(2) by auto
    ultimately show ?thesis using entries ok(4) by (auto simp: has_attachment_def)
  next
    case False
    have "ident_key_of ?a' j \<noteq> name" if "j \<in> ident_live ?a" for j
    proof
      assume "ident_key_of ?a' j = name"
      then have "j = vid" by (intro inj_onD [OF inj]) (use ok(2,3) that in auto)
      with that False show False by simp
    qed
    then have "\<forall>c. \<not> has_attachment m name c" using ok(4) by (auto simp: has_attachment_def)
    then show ?thesis using entries ok(2,3,4) False by (auto simp: has_attachment_def)
  qed
  ultimately show ?thesis using Inr r ok val by (auto simp: value_from_key_def)
qed

section \<open>Setting attachments\<close>

lemma ident_values_from_attachment:
  "(\<And>v. m_length (g v) = m_length (f v)) \<Longrightarrow> ident_values_from g fin pos = ident_values_from f fin pos"
proof (induction f fin pos rule: ident_values_from.induct)
  case (1 f fin pos)
  then show ?case
    by (subst (1 2) ident_values_from.simps) (simp add: entry_units_def)
qed

lemma set_attachment_pool:
  assumes "pool_ok m" and "vid \<in> ident_live (m_alloc m)"
    and "m' = m\<lparr>m_alloc := (m_alloc m)\<lparr>entry_at := (entry_at (m_alloc m))(vid := (entry_at (m_alloc m) vid)\<lparr>m_attachment := b\<rparr>)\<rparr>\<rparr>"
  shows "pool_ok m'" and "ident_live (m_alloc m') = ident_live (m_alloc m)"
    and "ident_key_of (m_alloc m') = ident_key_of (m_alloc m)"
proof -
  let ?a = "m_alloc m" and ?a' = "m_alloc m'"
  have at: "entry_at ?a' j = (if j = vid then (entry_at ?a vid)\<lparr>m_attachment := b\<rparr> else entry_at ?a j)"
    and v: "entries ?a' = entries ?a" for j
    by (simp_all add: assms(3))
  have vals: "ident_values ?a' = ident_values ?a"
    unfolding ident_values_def v by (rule ident_values_from_attachment) (simp add: at)
  then show live: "ident_live ?a' = ident_live ?a" by (simp add: ident_live_def)
  show key: "ident_key_of ?a' = ident_key_of ?a" by (rule ext) (simp add: ident_key_of_def at)
  have "entry_ok (entry_at ?a' j) = entry_ok (entry_at ?a j)" for j by (simp add: at entry_ok_def)
  then have "ident_alloc_ok ?a' = ident_alloc_ok ?a" by (simp add: ident_alloc_ok_def v vals)
  moreover have "idents.id_hash ?a' = idents.id_hash ?a"
    by (rule ext) (simp add: idents.id_hash_def key)
  ultimately show "pool_ok m'"
    using assms(1) live key by (simp add: pool_ok_def idents.map_ok_def) (simp add: assms(3))
qed

lemma identifier_set_attachment_ok:
  assumes "pool_ok m" and "length name < 2 ^ 16" and "room (Suc n) m" and "b \<noteq> 0"
    and "\<forall>c. has_attachment m name c \<longrightarrow> c = 0"
  shows "identifier_set_attachment m name b = Inl Panic \<or>
    (\<exists>m'. identifier_set_attachment m name b = Inr m' \<and> pool_ok m' \<and> room n m'
      \<and> (\<forall>x c. has_attachment m' x c \<longleftrightarrow> (if x = name then c = b else has_attachment m x c)))"
  using value_from_key_ok [OF assms(1-3)]
proof (elim disjE exE conjE)
  assume "value_from_key ident_ops m name (fnv1a name) = Inl Panic"
  then show ?thesis using assms(4) by (simp add: identifier_set_attachment_def)
next
  fix m1 vid
  assume m1: "value_from_key ident_ops m name (fnv1a name) = Inr (m1, vid, entry_at (m_alloc m1) vid)"
    "pool_ok m1" "room n m1" "vid \<in> ident_live (m_alloc m1)" "ident_key_of (m_alloc m1) vid = name"
    and att: "\<forall>x b. has_attachment m1 x b \<longleftrightarrow> has_attachment m x b \<or>
      x = name \<and> b = 0 \<and> (\<forall>c. \<not> has_attachment m name c)"
  define m' where "m' = m1\<lparr>m_alloc := (m_alloc m1)\<lparr>entry_at := (entry_at (m_alloc m1))
    (vid := (entry_at (m_alloc m1) vid)\<lparr>m_attachment := b\<rparr>)\<rparr>\<rparr>"
  have "has_attachment m1 name (m_attachment (entry_at (m_alloc m1) vid))"
    using m1(4,5) by (auto simp: has_attachment_def)
  then have zero: "m_attachment (entry_at (m_alloc m1) vid) = 0" using att assms(5) by blast
  note P = set_attachment_pool [OF m1(2,4) m'_def]
  have inj: "inj_on (ident_key_of (m_alloc m1)) (ident_live (m_alloc m1))"
    using m1(2) by (simp add: pool_ok_def idents.map_ok_def)
  have "has_attachment m' x c \<longleftrightarrow> (if x = name then c = b else has_attachment m1 x c)" for x c
  proof -
    have at: "entry_at (m_alloc m') j = (if j = vid then (entry_at (m_alloc m1) vid)\<lparr>m_attachment := b\<rparr>
        else entry_at (m_alloc m1) j)" for j by (simp add: m'_def)
    have one: "j \<in> ident_live (m_alloc m1) \<and> ident_key_of (m_alloc m1) j = name \<longleftrightarrow> j = vid" for j
      using inj m1(4,5) by (metis inj_onD)
    show ?thesis
    proof (cases "x = name")
      case True
      have "has_attachment m' name c \<longleftrightarrow> m_attachment (entry_at (m_alloc m') vid) = c"
        unfolding has_attachment_def P Bex_def conj_assoc [symmetric] one by simp
      then show ?thesis using True by (simp add: at eq_commute)
    next
      case False
      then have "ident_key_of (m_alloc m1) j = x \<and> m_attachment (entry_at (m_alloc m') j) = c
          \<longleftrightarrow> ident_key_of (m_alloc m1) j = x \<and> m_attachment (entry_at (m_alloc m1) j) = c" for j
        using m1(5) by (auto simp: at)
      then show ?thesis using False unfolding has_attachment_def P by simp
    qed
  qed
  moreover have "has_attachment m1 x c \<longleftrightarrow> has_attachment m x c" if "x \<noteq> name" for x c
    using att that by blast
  moreover have "room n m'" using m1(3) P(2) by (simp add: room_def m'_def)
  moreover have "identifier_set_attachment m name b = Inr m'"
    using m1(1) assms(4) zero by (simp add: identifier_set_attachment_def m'_def)
  ultimately show ?thesis using P(1) by auto
qed

section \<open>The keyword table\<close>

lemma byte_list_eq: "map of_char x = (map of_char y :: u8 list) \<longleftrightarrow> x = (y :: string)"
proof -
  have unat: "unat (of_char c :: u8) = of_char c" for c
  proof -
    have "(of_char c :: u8) = of_nat (of_char c)" by (simp only: of_nat_of_char)
    then show ?thesis using nat_of_char_less_256 [of c] by (simp add: unsigned_of_nat take_bit_nat_eq_self)
  qed
  have "inj (of_char :: char \<Rightarrow> u8)"
  proof (rule injI)
    fix c d assume "of_char c = (of_char d :: u8)"
    then have "unat (of_char c :: u8) = unat (of_char d :: u8)" by simp
    then show "c = d" unfolding unat by simp
  qed
  then show ?thesis by (simp add: inj_map_eq_map)
qed

definition keyword_bytes :: "(u8 list \<times> u8) list" where
  "keyword_bytes = map (\<lambda>(name, b). (map of_char name, b)) KEYWORDS"

text \<open>
  A pool in which nothing but keywords has an attachment, and each keyword in it its own; and
  one that holds all keywords.
\<close>

definition attachments_ok :: "IdentifierPool \<Rightarrow> bool" where
  "attachments_ok m \<longleftrightarrow> pool_ok m \<and> (\<forall>name b. has_attachment m name b \<longrightarrow>
     b = (case map_of keyword_bytes name of None \<Rightarrow> 0 | Some k \<Rightarrow> k))"

definition keyword_pool :: "IdentifierPool \<Rightarrow> bool" where
  "keyword_pool m \<longleftrightarrow> attachments_ok m \<and> (\<forall>(name, b) \<in> set keyword_bytes. has_attachment m name b)"

definition set_attachments :: "IdentifierPool outcome \<Rightarrow> (string \<times> u8) list \<Rightarrow> IdentifierPool outcome" where
  "set_attachments = foldl (\<lambda>p (name, attachment).
     obind p (\<lambda>p. identifier_set_attachment p (map of_char name) attachment))"

lemma set_attachments_simps [simp]:
  "set_attachments p [] = p"
  "set_attachments p ((name, b) # kws) =
     set_attachments (obind p (\<lambda>p. identifier_set_attachment p (map of_char name) b)) kws"
  by (simp_all add: set_attachments_def)

lemma set_attachments_Inl [simp]: "set_attachments (Inl e) kws = Inl e"
  by (induction kws) auto

lemma set_attachments_ok:
  assumes "pool_ok m" and "room (length kws) m" and "distinct (map fst kws)"
    and "\<forall>(name, b) \<in> set kws. length name < 2 ^ 16 \<and> b \<noteq> 0 \<and> (\<forall>c. has_attachment m (map of_char name) c \<longrightarrow> c = 0)"
  shows "set_attachments (Inr m) kws
      = Inl Panic \<or>
    (\<exists>m'. set_attachments (Inr m) kws
      = Inr m' \<and> pool_ok m' \<and> (\<forall>x c. has_attachment m' x c \<longleftrightarrow>
        (case map_of (map (\<lambda>(name, b). (map of_char name, b)) kws) x of Some b \<Rightarrow> c = b | None \<Rightarrow> has_attachment m x c)))"
  using assms
proof (induction kws arbitrary: m)
  case Nil
  then show ?case by simp
next
  case (Cons kw kws)
  obtain name b where kw: "kw = (name, b)" by fastforce
  note inj = byte_list_eq
  from identifier_set_attachment_ok [OF Cons(2), of "map of_char name" "length kws" b] Cons(3,5)
  consider "identifier_set_attachment m (map of_char name) b = Inl Panic"
    | m1 where "identifier_set_attachment m (map of_char name) b = Inr m1" "pool_ok m1" "room (length kws) m1"
      "\<forall>x c. has_attachment m1 x c \<longleftrightarrow> (if x = map of_char name then c = b else has_attachment m x c)"
    by (auto simp: kw)
  then show ?case
  proof cases
    case 1
    then show ?thesis by (simp add: kw)
  next
    case (2 m1)
    have "\<forall>(name, b) \<in> set kws. length name < 2 ^ 16 \<and> b \<noteq> 0 \<and> (\<forall>c. has_attachment m1 (map of_char name) c \<longrightarrow> c = 0)"
    proof (intro ballI, clarify)
      fix n a assume in_kws: "(n, a) \<in> set kws"
      then have "n \<noteq> name" using Cons(4) by (auto simp: kw rev_image_eqI)
      then have "has_attachment m1 (map of_char n) c \<longleftrightarrow> has_attachment m (map of_char n) c" for c
        using 2(4) inj [of n name] by simp
      moreover have "length n < 2 ^ 16 \<and> a \<noteq> 0 \<and> (\<forall>c. has_attachment m (map of_char n) c \<longrightarrow> c = 0)"
        using Cons(5) in_kws by auto
      ultimately show "length n < 2 ^ 16 \<and> a \<noteq> 0 \<and> (\<forall>c. has_attachment m1 (map of_char n) c \<longrightarrow> c = 0)"
        by simp
    qed
    moreover have "distinct (map fst kws)" using Cons(4) by simp
    moreover have step: "set_attachments (Inr m) (kw # kws) = set_attachments (Inr m1) kws" by (simp add: kw 2(1))
    ultimately have "set_attachments (Inr m) (kw # kws) = Inl Panic \<or>
      (\<exists>m'. set_attachments (Inr m) (kw # kws) = Inr m' \<and> pool_ok m' \<and> (\<forall>x c. has_attachment m' x c \<longleftrightarrow>
        (case map_of (map (\<lambda>(name, b). (map of_char name, b)) kws) x of Some b \<Rightarrow> c = b | None \<Rightarrow> has_attachment m1 x c)))"
      unfolding step by (intro Cons(1) [OF 2(2,3)])
    then show ?thesis
    proof (elim disjE exE conjE)
      fix m'
      assume m': "set_attachments (Inr m) (kw # kws) = Inr m'" "pool_ok m'" "\<forall>x c. has_attachment m' x c \<longleftrightarrow>
        (case map_of (map (\<lambda>(name, b). (map of_char name, b)) kws) x of Some b \<Rightarrow> c = b | None \<Rightarrow> has_attachment m1 x c)"
      have "name \<notin> fst ` set kws" using Cons(4) kw by simp
      then have "map_of (map (\<lambda>(name, b). (map of_char name, b)) kws) (map of_char name :: u8 list) = None"
        by (force simp: map_of_eq_None_iff inj)
      then have "has_attachment m' x c \<longleftrightarrow>
        (case map_of (map (\<lambda>(name, b). (map of_char name, b)) (kw # kws)) x of Some b \<Rightarrow> c = b | None \<Rightarrow> has_attachment m x c)"
        for x c
        using m'(3) 2(4) by (cases "x = map of_char name") (simp_all add: kw split: option.split)
      with m'(1,2) show ?thesis by blast
    qed blast
  qed
qed

lemma KEYWORDS_values:
  "KEYWORDS = [
     (''if'', 1), (''then'', 2), (''else'', 3), (''for'', 4), (''do'', 5), (''finally'', 6),
     (''switch'', 7), (''case'', 8), (''eval'', 36), (''try'', 37), (''catch'', 17),
     (''defer'', 38), (''func'', 9), (''proc'', 10), (''trait'', 11), (''impl'', 12),
     (''self'', 13), (''where'', 14), (''expects'', 15), (''ensures'', 16), (''pub'', 19),
     (''mut'', 20), (''let'', 18), (''unreachable'', 21), (''undefined'', 22), (''return'', 23),
     (''leave'', 24), (''yield'', 25), (''distinct'', 39), (''_integer'', 1), (''_float'', 2),
     (''_type'', 3), (''_definition'', 4), (''_type_info'', 5), (''_typeof'', 6),
     (''_returntypeof'', 7), (''_sizeof'', 8), (''_alignof'', 9), (''_strideof'', 10),
     (''_offsetof'', 12), (''_array_countof'', 11), (''_nameof'', 13), (''_import'', 14),
     (''_create_type_builder'', 15), (''_add_type_member'', 16), (''_complete_type'', 17),
     (''_source_id'', 18), (''_caller_source_id'', 19), (''_definition_typeof'', 20),
     (''_foreign_function'', 21), (''_compiler_host_os'', 23), (''_compiler_host_arch'', 24),
     (''_compiler_major_version'', 25), (''_compiler_minor_version'', 26),
     (''_comp_defines_type'', 27), (''_comp_defines'', 28)]"
  by (simp add: KEYWORDS_def token_ordinal_def all_tokens_def builtin_ordinal_def all_builtins_def)

lemma KEYWORDS_facts:
  "distinct (map fst KEYWORDS)" "length KEYWORDS = 56"
  "\<forall>(name, b) \<in> set KEYWORDS. length name < 2 ^ 16 \<and> b \<noteq> 0"
  by (simp_all add: KEYWORDS_values)

lemma map_of_keyword_bytes: "map_of keyword_bytes (map of_char name) = map_of KEYWORDS name"
proof -
  have "map_of (map (\<lambda>(n, b). (map of_char n, b)) kws) (map of_char name :: u8 list) = map_of kws name"
    for kws :: "(string \<times> u8) list"
    by (induction kws) (auto simp: byte_list_eq)
  then show ?thesis by (simp add: keyword_bytes_def)
qed

text \<open>
  C24: \<open>parser_init\<close> registers the keywords. From a well-formed pool without identifiers and a table
  with room for the 56 words of \<open>KEYWORDS\<close> it panics, for want of memory, or leaves a well-formed
  pool in which exactly these words have an attachment, each its own.
\<close>

theorem parser_init_keywords_ok:
  assumes "pool_ok pool" and "pool_ids pool = {}" and "56 \<le> m_lookup_commit pool"
  shows "parser_init_keywords pool = Inl Panic \<or>
    (\<exists>pool'. parser_init_keywords pool = Inr pool' \<and> keyword_pool pool'
      \<and> (\<forall>name b. has_attachment pool' (map of_char name) b \<longleftrightarrow> map_of KEYWORDS name = Some b))"
proof -
  have none: "\<not> has_attachment pool x c" for x c
    using assms(2) by (simp add: has_attachment_def pool_ids_def)
  have "room (length KEYWORDS) pool"
    using assms(2,3) by (simp add: room_def pool_ids_def KEYWORDS_facts(2))
  moreover have "\<forall>(name, b) \<in> set KEYWORDS. length name < 2 ^ 16 \<and> b \<noteq> 0
      \<and> (\<forall>c. has_attachment pool (map of_char name) c \<longrightarrow> c = 0)"
    using KEYWORDS_facts(3) none by blast
  moreover have "(case map_of keyword_bytes x of Some b \<Rightarrow> c = b | None \<Rightarrow> has_attachment pool x c)
      \<longleftrightarrow> map_of keyword_bytes x = Some c" for x c
    using none by (auto split: option.split)
  ultimately have "parser_init_keywords pool = Inl Panic \<or> (\<exists>m'. parser_init_keywords pool = Inr m' \<and> pool_ok m' \<and>
      (\<forall>x c. has_attachment m' x c \<longleftrightarrow> map_of keyword_bytes x = Some c))"
    using set_attachments_ok [OF assms(1) _ KEYWORDS_facts(1)]
    unfolding parser_init_keywords_def set_attachments_def [symmetric] keyword_bytes_def by simp
  then show ?thesis
  proof (elim disjE exE conjE)
    fix m' assume m': "parser_init_keywords pool = Inr m'" "pool_ok m'"
      "\<forall>x c. has_attachment m' x c \<longleftrightarrow> map_of keyword_bytes x = Some c"
    have "distinct (map fst keyword_bytes)"
      using KEYWORDS_facts(1) by (simp add: keyword_bytes_def split_def distinct_map inj_on_def byte_list_eq)
    then have "keyword_pool m'" using m'(2,3) by (auto simp: keyword_pool_def attachments_ok_def)
    with m' show ?thesis by (simp add: map_of_keyword_bytes)
  qed simp
qed

theorem parser_init_keywords_ok_witness:
  "\<exists>m. identifier_pool_init (\<lambda>_. True) (\<lambda>_. True)
      (\<lambda>_. \<lparr>m_hash = 0, m_length = 0, m_attachment = 0, m_chars = []\<rparr>) = Inr m \<and>
    (parser_init_keywords m = Inl Panic \<or>
    (\<exists>pool'. parser_init_keywords m = Inr pool' \<and> keyword_pool pool'
      \<and> (\<forall>name b. has_attachment pool' (map of_char name) b \<longleftrightarrow> map_of KEYWORDS name = Some b)))"
proof -
  obtain m where m: "identifier_pool_init (\<lambda>_. True) (\<lambda>_. True)
      (\<lambda>_. \<lparr>m_hash = 0, m_length = 0, m_attachment = 0, m_chars = []\<rparr>) = Inr m" "pool_ok m" "pool_ids m = {}"
    "m_lookup_commit m = 2 ^ 15"
    using pool_init_success [of "\<lambda>_. True" "\<lambda>_. True"] by fastforce
  from parser_init_keywords_ok [OF m(2,3)] m show ?thesis by (intro exI [of _ m]) simp
qed

section \<open>Words in the source\<close>

lemma attachments_kept:
  assumes "attachments_ok m" and "pool_ok m'"
    and "map_of keyword_bytes name \<noteq> None \<Longrightarrow> \<exists>c. has_attachment m name c"
    and "\<forall>x b. has_attachment m' x b \<longleftrightarrow> has_attachment m x b \<or> x = name \<and> b = 0 \<and> (\<forall>c. \<not> has_attachment m name c)"
  shows "attachments_ok m'" and "\<forall>x b. has_attachment m x b \<longrightarrow> has_attachment m' x b"
proof -
  have "b = (case map_of keyword_bytes x of None \<Rightarrow> 0 | Some k \<Rightarrow> k)" if "has_attachment m' x b" for x b
  proof (cases "has_attachment m x b")
    case True
    then show ?thesis using assms(1) by (simp add: attachments_ok_def)
  next
    case False
    then have "x = name" "b = 0" "\<forall>c. \<not> has_attachment m name c" using assms(4) that by blast+
    then show ?thesis using assms(3) by (cases "map_of keyword_bytes name") auto
  qed
  then show "attachments_ok m'" using assms(2) by (auto simp: attachments_ok_def)
  show "\<forall>x b. has_attachment m x b \<longrightarrow> has_attachment m' x b" using assms(4) by blast
qed

lemma id_and_attachment_word:
  assumes "attachments_ok m" and "length name < 2 ^ 16" and "room (Suc n) m"
    and "\<forall>b. map_of KEYWORDS name = Some b \<longrightarrow> has_attachment m (map of_char name) b"
  shows "id_and_attachment_from_identifier m (map of_char name) = Inl Panic \<or>
    (\<exists>m' vid. id_and_attachment_from_identifier m (map of_char name) =
        Inr (m', vid, case map_of KEYWORDS name of None \<Rightarrow> 0 | Some k \<Rightarrow> k)
      \<and> attachments_ok m' \<and> (\<forall>x b. has_attachment m x b \<longrightarrow> has_attachment m' x b) \<and> room n m'
      \<and> identifier_name_from_id m' vid = Inr (map of_char name))"
proof -
  let ?name = "map of_char name :: u8 list"
  have ok: "pool_ok m" using assms(1) by (simp add: attachments_ok_def)
  have len: "length ?name < 2 ^ 16" using assms(2) by simp
  from value_from_key_ok [OF ok len assms(3)] show ?thesis
  proof (elim disjE exE conjE)
    fix m' vid
    assume m': "value_from_key ident_ops m ?name (fnv1a ?name) = Inr (m', vid, entry_at (m_alloc m') vid)"
      "pool_ok m'" "room n m'" "vid \<in> ident_live (m_alloc m')" "ident_key_of (m_alloc m') vid = ?name"
      and att: "\<forall>x b. has_attachment m' x b \<longleftrightarrow> has_attachment m x b \<or>
        x = ?name \<and> b = 0 \<and> (\<forall>c. \<not> has_attachment m ?name c)"
    have "\<exists>c. has_attachment m ?name c" if "map_of keyword_bytes ?name \<noteq> None"
      using that assms(4) by (auto simp: map_of_keyword_bytes)
    note kept = attachments_kept [OF assms(1) m'(2) this att]
    have "has_attachment m' ?name (m_attachment (entry_at (m_alloc m') vid))"
      using m'(4,5) by (auto simp: has_attachment_def)
    then have "m_attachment (entry_at (m_alloc m') vid) = (case map_of keyword_bytes ?name of None \<Rightarrow> 0 | Some k \<Rightarrow> k)"
      using kept(1) unfolding attachments_ok_def by blast
    then have "m_attachment (entry_at (m_alloc m') vid) = (case map_of KEYWORDS name of None \<Rightarrow> 0 | Some k \<Rightarrow> k)"
      by (simp only: map_of_keyword_bytes)
    moreover have "identifier_name_from_id m' (vid + FirstNatural) = Inr ?name"
      using identifier_name_live [OF m'(2), of "vid + FirstNatural"] m'(4,5)
      by (simp add: pool_ids_def pool_name_def)
    ultimately show ?thesis using m' kept by (simp add: id_and_attachment_from_identifier_def)
  qed (simp_all add: id_and_attachment_from_identifier_def)
qed

text \<open>The token a word stands for.\<close>

definition word_token :: "string \<Rightarrow> Token" where
  "word_token name =
     (case map_of KEYWORDS name of
        None \<Rightarrow> Ident
      | Some k \<Rightarrow> all_tokens ! unat k)"

lemma word_tokens:
  "\<forall>(name, k) \<in> set KEYWORDS. hd name = CHR ''_'' \<or> token_of_u8 k = Inr (all_tokens ! unat k) \<and> all_tokens ! unat k \<noteq> Ident"
  by (simp add: KEYWORDS_values token_of_u8_def enumerator_def all_tokens_def)

text \<open>
  C23: A word, a letter and the letters, digits and underscores behind it, scans to the token of the
  keyword it is, when the pool holds that keyword, or else to \<open>Ident\<close> with an id whose name in the
  pool is the word. The longest such word is taken, and no attachment is lost or made up. The one
  other end is a panic, when the pool has no memory for a new identifier.
\<close>

theorem word_scans:
  assumes "attachments_ok (identifiers s)" and "room (Suc n) (identifiers s)" and "length name < 2 ^ 16"
    and "\<forall>b. map_of KEYWORDS name = Some b \<longrightarrow> has_attachment (identifiers s) (map of_char name) b"
    and "name \<noteq> []" and "is_alphabetic_char (hd name)" and "\<forall>x \<in> set name. is_identifier_continuation_char x"
    and "\<not> is_identifier_continuation_char c"
  shows "next_without_source (s\<lparr>rest := name @ c # cs\<rparr>) = Stop Panic \<or>
    (\<exists>pool vid. next_without_source (s\<lparr>rest := name @ c # cs\<rparr>) =
        Ok (word_token name, IdentifierValue (if word_token name = Ident then vid else 0))
          (s\<lparr>rest := c # cs, identifiers := pool\<rparr>)
      \<and> attachments_ok pool \<and> (\<forall>x b. has_attachment (identifiers s) x b \<longrightarrow> has_attachment pool x b)
      \<and> room n pool \<and> identifier_name_from_id pool vid = Inr (map of_char name))"
proof -
  obtain first w where name: "name = first # w" using assms(5) by (cases name) auto
  let ?s = "s\<lparr>rest := w @ c # cs\<rparr>"
  have start: "next_without_source (s\<lparr>rest := name @ c # cs\<rparr>) = scan_identifier_token first ?s False"
    using assms(6) by (simp add: next_without_source_def next_punctuation_def Let_def name peek_at_def advance_def)
  have take: "takeWhile is_identifier_continuation_char (w @ c # cs) = w"
    and drop: "dropWhile is_identifier_continuation_char (w @ c # cs) = c # cs"
    using assms(7,8) name by (simp_all add: takeWhile_append2 dropWhile_append2)
  have scan: "scan_identifier_token first ?s False =
      lbind (lift_outcome (id_and_attachment_from_identifier (identifiers s) (map of_char name)) (s\<lparr>rest := c # cs\<rparr>))
        (\<lambda>(pool, identifier_id, attachment) s.
          let s = s\<lparr>identifiers := pool\<rparr> in
          if attachment = 0 then Ok (Ident, IdentifierValue identifier_id) s
          else lbind (lift_outcome (token_of_u8 attachment) s) (\<lambda>token.
            Ok (token, IdentifierValue (if token = Ident then identifier_id else 0))))"
    by (simp add: scan_identifier_token_def Let_def take drop name)
  from id_and_attachment_word [OF assms(1,3,2,4)] show ?thesis
  proof (elim disjE exE conjE)
    assume "id_and_attachment_from_identifier (identifiers s) (map of_char name) = Inl Panic"
    then show ?thesis by (simp add: start scan)
  next
    fix m' vid
    assume m': "id_and_attachment_from_identifier (identifiers s) (map of_char name) =
        Inr (m', vid, case map_of KEYWORDS name of None \<Rightarrow> 0 | Some k \<Rightarrow> k)"
      "attachments_ok m'" "\<forall>x b. has_attachment (identifiers s) x b \<longrightarrow> has_attachment m' x b"
      "room n m'" "identifier_name_from_id m' vid = Inr (map of_char name)"
    show ?thesis
    proof (cases "map_of KEYWORDS name")
      case None
      then have "next_without_source (s\<lparr>rest := name @ c # cs\<rparr>) =
          Ok (Ident, IdentifierValue vid) (s\<lparr>rest := c # cs, identifiers := m'\<rparr>)"
        using m'(1) by (simp add: start scan)
      then show ?thesis using m'(2-5) None by (simp add: word_token_def) blast
    next
      case (Some k)
      have "hd name \<noteq> CHR ''_''"
        using assms(6) by (auto simp: is_alphabetic_char_def)
      then have k: "k \<noteq> 0" "token_of_u8 k = Inr (all_tokens ! unat k)" "all_tokens ! unat k \<noteq> Ident"
        using map_of_SomeD [OF Some] word_tokens KEYWORDS_facts(3) by auto
      then have "next_without_source (s\<lparr>rest := name @ c # cs\<rparr>) =
          Ok (all_tokens ! unat k, IdentifierValue 0) (s\<lparr>rest := c # cs, identifiers := m'\<rparr>)"
        using m'(1) Some by (simp add: start scan)
      then show ?thesis using m'(2-5) Some k(3) by (simp add: word_token_def) blast
    qed
  qed
qed


theorem word_scans_witness:
  "\<exists>m. identifier_pool_init (\<lambda>_. True) (\<lambda>_. True)
      (\<lambda>_. \<lparr>m_hash = 0, m_length = 0, m_attachment = 0, m_chars = []\<rparr>) = Inr m \<and>
    (next_without_source ((source_state m [])\<lparr>rest := ''abc;''\<rparr>) = Stop Panic \<or>
    (\<exists>pool vid. next_without_source ((source_state m [])\<lparr>rest := ''abc;''\<rparr>) =
        Ok (Ident, IdentifierValue vid) ((source_state m [])\<lparr>rest := '';'', identifiers := pool\<rparr>)
      \<and> identifier_name_from_id pool vid = Inr [97, 98, 99]))"
proof -
  obtain m where m: "identifier_pool_init (\<lambda>_. True) (\<lambda>_. True)
      (\<lambda>_. \<lparr>m_hash = 0, m_length = 0, m_attachment = 0, m_chars = []\<rparr>) = Inr m" "pool_ok m" "pool_ids m = {}"
    "m_lookup_commit m = 2 ^ 15"
    using pool_init_success [of "\<lambda>_. True" "\<lambda>_. True"] by fastforce
  have ids: "identifiers (source_state m []) = m" by (simp add: source_state_def)
  have ok: "attachments_ok m" "room (Suc 0) m"
    using m by (simp_all add: attachments_ok_def has_attachment_def pool_ids_def room_def)
  have word: "word_token ''abc'' = Ident" "map_of KEYWORDS ''abc'' = None"
    by (simp_all add: word_token_def KEYWORDS_values)
  from word_scans [of "source_state m []" 0 "''abc''" "CHR '';''" "[]"] ok word(2)
  have "next_without_source ((source_state m [])\<lparr>rest := ''abc;''\<rparr>) = Stop Panic \<or>
    (\<exists>pool vid. next_without_source ((source_state m [])\<lparr>rest := ''abc;''\<rparr>) =
        Ok (Ident, IdentifierValue vid) ((source_state m [])\<lparr>rest := '';'', identifiers := pool\<rparr>)
      \<and> identifier_name_from_id pool vid = Inr [97, 98, 99])"
    by (fastforce simp: ids word(1) is_identifier_continuation_char_def is_alphabetic_char_def is_numeric_char_def)
  with m(1) show ?thesis by blast
qed

end
