(* ===== verification/AstTags.thy ===== *)
theory AstTags
  imports Tokens
begin

text \<open>
  The kinds, flags and attachments of syntax tree nodes (src/core/core.hpp) and the names of the
  kinds (\<open>tag_name\<close> of src/core/ast_pool.cpp). The enumerators of \<open>AstTag\<close> have the prefix \<open>Tag\<close>.
\<close>

datatype (plugins only: ) AstTag =
  Tag_INVALID | Tag_Builtin | Tag_File | Tag_CompositeInitializer | Tag_ArrayInitializer |
  Tag_Wildcard | Tag_Where | Tag_Expects | Tag_Ensures | Tag_Definition | Tag_Parameter |
  Tag_Block | Tag_If | Tag_For | Tag_ForEach | Tag_Switch | Tag_Case | Tag_Func | Tag_Signature |
  Tag_Trait | Tag_Impl | Tag_Self | Tag_Catch | Tag_Unreachable | Tag_Undefined | Tag_Identifier |
  Tag_LitInteger | Tag_LitFloat | Tag_LitChar | Tag_LitString | Tag_OpSliceOf | Tag_Return |
  Tag_Leave | Tag_Yield | Tag_ParameterList | Tag_TraitParameterList | Tag_Call |
  Tag_UOpTypeTailArray | Tag_UOpTypeSlice | Tag_UOpTypeMultiPtr | Tag_UOpTypeOptMultiPtr |
  Tag_UOpEval | Tag_UOpTry | Tag_UOpDefer | Tag_UOpDistinct | Tag_UOpAddr | Tag_UOpDeref |
  Tag_UOpBitNot | Tag_UOpLogNot | Tag_UOpTypeOptPtr | Tag_UOpTypeVarArgs | Tag_ImpliedMember |
  Tag_UOpTypePtr | Tag_UOpNegate | Tag_UOpPos | Tag_OpAdd | Tag_OpSub | Tag_OpMul | Tag_OpDiv |
  Tag_OpAddTC | Tag_OpSubTC | Tag_OpMulTC | Tag_OpMod | Tag_OpBitAnd | Tag_OpBitOr | Tag_OpBitXor |
  Tag_OpShiftL | Tag_OpShiftR | Tag_OpLogAnd | Tag_OpLogOr | Tag_Member | Tag_OpCmpLT |
  Tag_OpCmpGT | Tag_OpCmpLE | Tag_OpCmpGE | Tag_OpCmpNE | Tag_OpCmpEQ | Tag_OpSet | Tag_OpSetAdd |
  Tag_OpSetSub | Tag_OpSetMul | Tag_OpSetDiv | Tag_OpSetAddTC | Tag_OpSetSubTC | Tag_OpSetMulTC |
  Tag_OpSetMod | Tag_OpSetBitAnd | Tag_OpSetBitOr | Tag_OpSetBitXor | Tag_OpSetShiftL |
  Tag_OpSetShiftR | Tag_OpTypeArray | Tag_OpArrayIndex | Tag_MAX

definition all_tags :: "AstTag list" where
  "all_tags = [
     Tag_INVALID, Tag_Builtin, Tag_File, Tag_CompositeInitializer, Tag_ArrayInitializer,
     Tag_Wildcard, Tag_Where, Tag_Expects, Tag_Ensures, Tag_Definition, Tag_Parameter, Tag_Block,
     Tag_If, Tag_For, Tag_ForEach, Tag_Switch, Tag_Case, Tag_Func, Tag_Signature, Tag_Trait,
     Tag_Impl, Tag_Self, Tag_Catch, Tag_Unreachable, Tag_Undefined, Tag_Identifier, Tag_LitInteger,
     Tag_LitFloat, Tag_LitChar, Tag_LitString, Tag_OpSliceOf, Tag_Return, Tag_Leave, Tag_Yield,
     Tag_ParameterList, Tag_TraitParameterList, Tag_Call, Tag_UOpTypeTailArray, Tag_UOpTypeSlice,
     Tag_UOpTypeMultiPtr, Tag_UOpTypeOptMultiPtr, Tag_UOpEval, Tag_UOpTry, Tag_UOpDefer,
     Tag_UOpDistinct, Tag_UOpAddr, Tag_UOpDeref, Tag_UOpBitNot, Tag_UOpLogNot, Tag_UOpTypeOptPtr,
     Tag_UOpTypeVarArgs, Tag_ImpliedMember, Tag_UOpTypePtr, Tag_UOpNegate, Tag_UOpPos, Tag_OpAdd,
     Tag_OpSub, Tag_OpMul, Tag_OpDiv, Tag_OpAddTC, Tag_OpSubTC, Tag_OpMulTC, Tag_OpMod,
     Tag_OpBitAnd, Tag_OpBitOr, Tag_OpBitXor, Tag_OpShiftL, Tag_OpShiftR, Tag_OpLogAnd,
     Tag_OpLogOr, Tag_Member, Tag_OpCmpLT, Tag_OpCmpGT, Tag_OpCmpLE, Tag_OpCmpGE, Tag_OpCmpNE,
     Tag_OpCmpEQ, Tag_OpSet, Tag_OpSetAdd, Tag_OpSetSub, Tag_OpSetMul, Tag_OpSetDiv,
     Tag_OpSetAddTC, Tag_OpSetSubTC, Tag_OpSetMulTC, Tag_OpSetMod, Tag_OpSetBitAnd, Tag_OpSetBitOr,
     Tag_OpSetBitXor, Tag_OpSetShiftL, Tag_OpSetShiftR, Tag_OpTypeArray, Tag_OpArrayIndex, Tag_MAX]"

definition tag_ordinal :: "AstTag \<Rightarrow> u8" where
  "tag_ordinal t = of_nat (position_of t all_tags)"

definition AST_TAG_NAMES :: "string list" where
  "AST_TAG_NAMES = [
     ''[unknown]'', ''Builtin'', ''File'', ''CompositeInitializer'', ''ArrayInitializer'',
     ''Wildcard'', ''Where'', ''Expects'', ''Ensures'', ''Definition'', ''Parameter'', ''Block'',
     ''If'', ''For'', ''ForEach'', ''Switch'', ''Case'', ''Func'', ''Signature'', ''Trait'',
     ''Impl'', ''Self'', ''Catch'', ''Unreachable'', ''Undefined'', ''Identifier'', ''LitInteger'',
     ''LitFloat'', ''LitChar'', ''LitString'', ''OpSliceOf'', ''Return'', ''Leave'', ''Yield'',
     ''ParameterList'', ''TraitParameterList'', ''Call'', ''UOpTypeTailArray'', ''UOpTypeSlice'',
     ''UOpTypeMultiPtr'', ''UOpTypeOptMultiPtr'', ''UOpEval'', ''UOpTry'', ''UOpDefer'',
     ''UOpDistinct'', ''UOpAddr'', ''UOpDeref'', ''UOpBitNot'', ''UOpLogNot'', ''UOpTypeOptPtr'',
     ''UOpTypeVarArgs'', ''ImpliedMember'', ''UOpTypePtr'', ''UOpNegate'', ''UOpPos'', ''OpAdd'',
     ''OpSub'', ''OpMul'', ''OpDiv'', ''OpAddTC'', ''OpSubTC'', ''OpMulTC'', ''OpMod'',
     ''OpBitAnd'', ''OpBitOr'', ''OpBitXor'', ''OpShiftL'', ''OpShiftR'', ''OpLogAnd'',
     ''OpLogOr'', ''Member'', ''OpCmpLT'', ''OpCmpGT'', ''OpCmpLE'', ''OpCmpGE'', ''OpCmpNE'',
     ''OpCmpEQ'', ''OpSet'', ''OpSetAdd'', ''OpSetSub'', ''OpSetMul'', ''OpSetDiv'',
     ''OpSetAddTC'', ''OpSetSubTC'', ''OpSetMulTC'', ''OpSetMod'', ''OpSetBitAnd'', ''OpSetBitOr'',
     ''OpSetBitXor'', ''OpSetShiftL'', ''OpSetShiftR'', ''OpTypeArray'', ''OpArrayIndex'']"

definition tag_name :: "AstTag \<Rightarrow> string" where
  "tag_name tag =
     (let ordinal = tag_ordinal tag;
          ordinal = (if length AST_TAG_NAMES \<le> unat ordinal then 0 else ordinal)
      in AST_TAG_NAMES ! unat ordinal)"

section \<open>Flags\<close>

text \<open>\<open>AstFlag\<close> is a set of bits; the bits of different kinds of nodes overlap.\<close>

type_synonym AstFlag = u8

abbreviation Flag_EMPTY :: AstFlag where "Flag_EMPTY \<equiv> 0"
abbreviation Definition_IsPub :: AstFlag where "Definition_IsPub \<equiv> 0x01"
abbreviation Definition_IsMut :: AstFlag where "Definition_IsMut \<equiv> 0x02"
abbreviation Definition_HasType :: AstFlag where "Definition_HasType \<equiv> 0x04"
abbreviation Definition_IsEval :: AstFlag where "Definition_IsEval \<equiv> 0x08"
abbreviation Definition_IsTemplatedParam :: AstFlag where "Definition_IsTemplatedParam \<equiv> 0x10"
abbreviation Definition_HasSelfReference :: AstFlag where "Definition_HasSelfReference \<equiv> 0x20"
abbreviation If_HasWhere :: AstFlag where "If_HasWhere \<equiv> 0x01"
abbreviation If_HasElse :: AstFlag where "If_HasElse \<equiv> 0x02"
abbreviation For_HasWhere :: AstFlag where "For_HasWhere \<equiv> 0x01"
abbreviation For_HasCondition :: AstFlag where "For_HasCondition \<equiv> 0x02"
abbreviation For_HasStep :: AstFlag where "For_HasStep \<equiv> 0x04"
abbreviation For_HasFinally :: AstFlag where "For_HasFinally \<equiv> 0x08"
abbreviation ForEach_HasWhere :: AstFlag where "ForEach_HasWhere \<equiv> 0x01"
abbreviation ForEach_HasIndex :: AstFlag where "ForEach_HasIndex \<equiv> 0x02"
abbreviation ForEach_HasFinally :: AstFlag where "ForEach_HasFinally \<equiv> 0x04"
abbreviation Switch_HasWhere :: AstFlag where "Switch_HasWhere \<equiv> 0x20"
abbreviation Signature_HasExpects :: AstFlag where "Signature_HasExpects \<equiv> 0x01"
abbreviation Signature_HasEnsures :: AstFlag where "Signature_HasEnsures \<equiv> 0x02"
abbreviation Signature_IsProc :: AstFlag where "Signature_IsProc \<equiv> 0x04"
abbreviation Signature_HasTemplatedReturnType :: AstFlag where "Signature_HasTemplatedReturnType \<equiv> 0x08"
abbreviation Trait_HasExpects :: AstFlag where "Trait_HasExpects \<equiv> 0x01"
abbreviation Catch_HasDefinition :: AstFlag where "Catch_HasDefinition \<equiv> 0x01"
abbreviation OpSliceOf_HasBegin :: AstFlag where "OpSliceOf_HasBegin \<equiv> 0x01"
abbreviation OpSliceOf_HasEnd :: AstFlag where "OpSliceOf_HasEnd \<equiv> 0x02"
abbreviation Type_IsMut :: AstFlag where "Type_IsMut \<equiv> 0x02"

section \<open>Attachments\<close>

text \<open>
  The data behind a node, one constructor for each \<open>Ast...Data\<close> structure; the size is that of the
  structure in units of 8 bytes. The \<open>closure_list_id\<close> of functions, signatures and \<open>impl\<close> blocks
  and the \<open>binding\<close> of identifiers are filled in by name resolution; the parser leaves them unset.
\<close>

datatype AstAttachment =
    NoData
  | FileData nat
  | LitIntegerData CompIntegerValue
  | LitFloatData u64
  | LitCharData u32
  | IdentifierData u32
  | MemberData u32
  | ImpliedMemberData u32
  | LitStringData string
  | DefinitionData u32
  | ParameterData u32
  | SignatureData
  | TraitParameterListData nat
  | FuncData
  | ImplData

fun attachment_qwords :: "AstAttachment \<Rightarrow> nat" where
  "attachment_qwords NoData = 0"
| "attachment_qwords (IdentifierData i) = 2"
| "attachment_qwords (LitStringData s) = 2"
| "attachment_qwords a = 1"

end
