(* ===== verification/AstPool.thy ===== *)
theory AstPool
  imports AstTags
begin

text \<open>
  The pool of syntax trees (src/core/ast_pool.cpp): nodes are pushed to a builder in postorder,
  and \<open>complete_ast\<close> copies the finished tree to the pool in preorder. A pointer to a node is its
  index in units of 8 bytes from the begin of its vector; the map from indices to nodes holds the
  headers with their attachments, and the source id of a node is the one that the parallel vector
  of source ids has at its index. The bits of \<open>structure_flags\<close> are three fields.
\<close>

section \<open>State\<close>

record AstNode =
  tag :: AstTag
  flags :: AstFlag
  own_qwords :: nat
  first_sibling :: bool
  last_sibling :: bool
  no_children :: bool
  next_sibling_offset :: nat
  attachment :: AstAttachment
  node_source :: u32

type_synonym node_store = "nat \<Rightarrow> AstNode option"

text \<open>
  \<open>builder_room\<close>, \<open>ast_room\<close> and \<open>closure_room\<close> say whether the platform commits memory for that many
  units. A closure list is its number of entries.
\<close>

record AstPool =
  node_builder :: node_store
  builder_used :: nat
  ast_nodes :: node_store
  ast_used :: nat
  closure_lists :: "nat \<Rightarrow> nat option"
  closure_used :: nat
  builder_room :: "nat \<Rightarrow> bool"
  ast_room :: "nat \<Rightarrow> bool"
  closure_room :: "nat \<Rightarrow> bool"

abbreviation NO_CHILDREN :: nat where "NO_CHILDREN \<equiv> 4294967295"

definition MAX_AST_DEPTH :: nat where "MAX_AST_DEPTH = 128"
definition NODES_RESERVE_SIZE :: nat where "NODES_RESERVE_SIZE = 2 ^ 28"
definition NODE_BUILDER_RESERVE_SIZE :: nat where "NODE_BUILDER_RESERVE_SIZE = 2 ^ 26"
definition CLOSURE_LISTS_RESERVE_SIZE :: nat where "CLOSURE_LISTS_RESERVE_SIZE = 2 ^ 24"

definition node_at :: "node_store \<Rightarrow> nat \<Rightarrow> AstNode outcome" where
  "node_at N i = (case N i of None \<Rightarrow> Inl Undefined | Some n \<Rightarrow> Inr n)"

lemma node_at_Some [simp]: "N i = Some n \<Longrightarrow> node_at N i = Inr n"
  by (simp add: node_at_def)

lemma node_at_eq_Inr_iff: "node_at N i = Inr n \<longleftrightarrow> N i = Some n"
  by (auto simp: node_at_def split: option.split)

text \<open>The first units of \<open>nodes\<close> and \<open>closure_lists\<close> stand for the invalid ids and are reserved.\<close>

definition ast_pool_init :: "(nat \<Rightarrow> bool) \<Rightarrow> (nat \<Rightarrow> bool) \<Rightarrow> (nat \<Rightarrow> bool) \<Rightarrow> AstPool outcome" where
  "ast_pool_init b_room a_room c_room =
     ensure Panic (a_room 1 \<and> c_room 1)
       (Inr \<lparr>node_builder = (\<lambda>_. None), builder_used = 0, ast_nodes = (\<lambda>_. None), ast_used = 1,
          closure_lists = (\<lambda>_. None), closure_used = 1, builder_room = b_room, ast_room = a_room,
          closure_room = c_room\<rparr>)"

section \<open>Building\<close>

definition push_node_qwords ::
  "AstPool \<Rightarrow> nat \<Rightarrow> u32 \<Rightarrow> AstFlag \<Rightarrow> AstTag \<Rightarrow> nat \<Rightarrow> AstAttachment \<Rightarrow> (AstPool \<times> nat) outcome" where
  "push_node_qwords a first_child sid node_flags node_tag required_qwords data =
     (let used = builder_used a + required_qwords in
      ensure Panic (used \<le> NODE_BUILDER_RESERVE_SIZE \<and> builder_room a used)
        (Inr (a\<lparr>node_builder := (node_builder a)(builder_used a \<mapsto>
             \<lparr>tag = node_tag, flags = node_flags, own_qwords = required_qwords, first_sibling = False,
              last_sibling = False, no_children = (first_child = NO_CHILDREN),
              next_sibling_offset = first_child, attachment = data, node_source = sid\<rparr>),
            builder_used := used\<rparr>, builder_used a)))"

definition push_node :: "AstPool \<Rightarrow> nat \<Rightarrow> u32 \<Rightarrow> AstFlag \<Rightarrow> AstTag \<Rightarrow> (AstPool \<times> nat) outcome" where
  "push_node a first_child sid node_flags node_tag =
     push_node_qwords a first_child sid node_flags node_tag 1 NoData"

definition push_node_data ::
  "AstPool \<Rightarrow> nat \<Rightarrow> u32 \<Rightarrow> AstFlag \<Rightarrow> AstTag \<Rightarrow> AstAttachment \<Rightarrow> (AstPool \<times> nat) outcome" where
  "push_node_data a first_child sid node_flags node_tag data =
     push_node_qwords a first_child sid node_flags node_tag ((1 + attachment_qwords data) mod 256) data"

definition alloc_ast :: "AstPool \<Rightarrow> nat \<Rightarrow> (AstPool \<times> nat) outcome" where
  "alloc_ast a qwords =
     ensure Panic (ast_used a + qwords \<le> NODES_RESERVE_SIZE \<and> ast_room a (ast_used a + qwords))
       (Inr (a\<lparr>ast_used := ast_used a + qwords\<rparr>, ast_used a))"

section \<open>From postorder to preorder\<close>

text \<open>
  \<open>set_flags\<close>: the nodes lie one behind the other from 0 to \<open>fin\<close>, the end of the builder. A node
  without a size would be visited for ever.
\<close>

definition mark_children :: "node_store \<Rightarrow> nat option \<Rightarrow> AstNode \<Rightarrow> node_store outcome" where
  "mark_children N prev node =
     (if next_sibling_offset node \<noteq> NO_CHILDREN then
        (case prev of
           None \<Rightarrow> Inl Assertion
         | Some p \<Rightarrow>
             obind (node_at N (next_sibling_offset node)) (\<lambda>c.
             ensure Assertion (\<not> first_sibling c \<and> \<not> last_sibling c)
             (let N = N(next_sibling_offset node \<mapsto> c\<lparr>first_sibling := True\<rparr>) in
              obind (node_at N p) (\<lambda>q. Inr (N(p \<mapsto> q\<lparr>last_sibling := True\<rparr>))))))
      else Inr N)"

function set_flags_loop :: "node_store \<Rightarrow> nat option \<Rightarrow> nat \<Rightarrow> nat \<Rightarrow> (node_store \<times> nat option) outcome" where
  "set_flags_loop N prev cur fin =
     (if cur = fin then Inr (N, prev)
      else if fin < cur then Inl Undefined
      else obind (node_at N cur) (\<lambda>node.
        if own_qwords node = 0 then Inl Diverge
        else obind (mark_children N prev node) (\<lambda>N.
          set_flags_loop N (Some cur) (cur + own_qwords node) fin)))"
  by pat_completeness auto
termination
  by (relation "measure (\<lambda>(N, prev, cur, fin). fin - cur)") auto

declare set_flags_loop.simps [simp del]

definition set_flags :: "node_store \<Rightarrow> nat \<Rightarrow> node_store outcome" where
  "set_flags N fin =
     obind (set_flags_loop N None 0 fin) (\<lambda>(N, prev).
       case prev of
         None \<Rightarrow> Inl Undefined
       | Some p \<Rightarrow>
           obind (node_at N p) (\<lambda>root.
           ensure Assertion (\<not> first_sibling root \<and> \<not> last_sibling root)
             (Inr (N(p \<mapsto> root\<lparr>first_sibling := True, last_sibling := True\<rparr>)))))"

text \<open>
  \<open>build_traversal_list\<close>: \<open>stack\<close> is \<open>prev_sibling_indices\<close> from its top at \<open>depth\<close> down, so \<open>depth\<close> is
  its length less one. The steps of the loop body are those of its comments.
\<close>

definition connect_predecessor :: "node_store \<Rightarrow> nat list \<Rightarrow> nat \<Rightarrow> AstNode \<Rightarrow> node_store outcome" where
  "connect_predecessor N stack cur node =
     (if first_sibling node then Inr N
      else case stack of
        [] \<Rightarrow> Inl Assertion
      | p # _ \<Rightarrow> obind (node_at N p) (\<lambda>q. Inr (N(p \<mapsto> q\<lparr>next_sibling_offset := cur\<rparr>))))"

definition push_sibling :: "nat list \<Rightarrow> nat \<Rightarrow> nat \<Rightarrow> AstNode \<Rightarrow> (nat list \<times> nat) outcome" where
  "push_sibling stack recursively_last_child cur node =
     (if \<not> last_sibling node then
        ensure Panic (\<not> (first_sibling node \<and> MAX_AST_DEPTH \<le> length stack))
        (ensure Assertion (first_sibling node \<or> stack \<noteq> [])
        (ensure Assertion (no_children node \<or> recursively_last_child \<noteq> NO_CHILDREN)
        (let index = (if no_children node then cur else recursively_last_child) in
         Inr (index # (if first_sibling node then stack else tl stack), recursively_last_child))))
      else
        ensure Assertion (first_sibling node \<or> stack \<noteq> [])
          (Inr (if first_sibling node then stack else tl stack,
                if no_children node then cur else recursively_last_child)))"

function traversal_loop :: "node_store \<Rightarrow> nat list \<Rightarrow> nat \<Rightarrow> nat \<Rightarrow> nat \<Rightarrow> (node_store \<times> nat) outcome" where
  "traversal_loop N stack recursively_last_child cur fin =
     obind (node_at N cur) (\<lambda>node.
     obind (connect_predecessor N stack cur node) (\<lambda>N.
     obind (push_sibling stack recursively_last_child cur node) (\<lambda>(stack, recursively_last_child).
       let nxt = cur + own_qwords node in
       if nxt = fin then ensure Assertion (stack = []) (Inr (N, cur))
       else if fin < nxt then Inl Undefined
       else if own_qwords node = 0 then Inl Diverge
       else traversal_loop N stack recursively_last_child nxt fin)))"
  by pat_completeness auto
termination
  by (relation "measure (\<lambda>(N, stack, r, cur, fin). fin - cur)") auto

declare traversal_loop.simps [simp del]

definition build_traversal_list :: "node_store \<Rightarrow> nat \<Rightarrow> (node_store \<times> nat) outcome" where
  "build_traversal_list N fin = traversal_loop N [] NO_CHILDREN 0 fin"

text \<open>
  \<open>copy_postorder_to_preorder\<close>: \<open>dst\<close> is the allocated memory and \<open>stack\<close> again the array from its
  top down. The list of the builder has no more elements than the builder has units, which
  bounds the number of steps.
\<close>

fun pop_siblings :: "node_store \<Rightarrow> nat list \<Rightarrow> nat \<Rightarrow> (node_store \<times> nat list) outcome" where
  "pop_siblings dst [] dst_index = Inl Assertion"
| "pop_siblings dst [p] dst_index = Inl Assertion"
| "pop_siblings dst (p # q # stack) dst_index =
     obind (node_at dst p) (\<lambda>prev_sibling.
       let dst = dst(p \<mapsto> prev_sibling\<lparr>next_sibling_offset := dst_index - p\<rparr>) in
       if \<not> last_sibling prev_sibling then Inr (dst, q # stack)
       else pop_siblings dst (q # stack) dst_index)"

fun copy_loop ::
  "nat \<Rightarrow> node_store \<Rightarrow> node_store \<Rightarrow> nat list \<Rightarrow> nat \<Rightarrow> nat \<Rightarrow> (node_store \<times> nat list) outcome" where
  "copy_loop 0 src dst stack src_index dst_index = Inl Diverge"
| "copy_loop (Suc steps) src dst stack src_index dst_index =
     obind (node_at src src_index) (\<lambda>node.
     let dst = dst(dst_index \<mapsto> node) in
     obind (if first_sibling node then Inr (dst, stack) else pop_siblings dst stack dst_index) (\<lambda>(dst, stack).
     ensure Assertion (length stack < MAX_AST_DEPTH)
     (let stack = dst_index # stack in
      if next_sibling_offset node = NO_CHILDREN then Inr (dst, stack)
      else copy_loop steps src dst stack (next_sibling_offset node) (dst_index + own_qwords node))))"

fun close_siblings :: "node_store \<Rightarrow> nat list \<Rightarrow> nat \<Rightarrow> node_store outcome" where
  "close_siblings dst [] used = Inr dst"
| "close_siblings dst (p # stack) used =
     obind (node_at dst p) (\<lambda>prev_sibling.
       close_siblings (dst(p \<mapsto> prev_sibling\<lparr>next_sibling_offset := used - p\<rparr>)) stack used)"

definition copy_postorder_to_preorder :: "AstPool \<Rightarrow> nat \<Rightarrow> (AstPool \<times> nat) outcome" where
  "copy_postorder_to_preorder a src_root_index =
     obind (alloc_ast a (builder_used a)) (\<lambda>(a, nodes).
     obind (copy_loop (builder_used a) (node_builder a) (\<lambda>_. None) [] src_root_index 0) (\<lambda>(dst, stack).
     obind (close_siblings dst stack (builder_used a)) (\<lambda>dst.
       Inr (a\<lparr>ast_nodes := (\<lambda>i. if nodes \<le> i \<and> i < nodes + builder_used a then dst (i - nodes) else ast_nodes a i)\<rparr>,
            nodes))))"

definition complete_ast :: "AstPool \<Rightarrow> (AstPool \<times> nat) outcome" where
  "complete_ast a =
     obind (set_flags (node_builder a) (builder_used a)) (\<lambda>N.
     obind (build_traversal_list N (builder_used a)) (\<lambda>(N, src_root_index).
     obind (copy_postorder_to_preorder (a\<lparr>node_builder := N\<rparr>) src_root_index) (\<lambda>(a, root).
       Inr (a\<lparr>node_builder := (\<lambda>_. None), builder_used := 0\<rparr>, root))))"

end
