(* ===== verification/AstAccess.thy ===== *)
theory AstAccess
  imports AstPool
begin

text \<open>
  Reading a syntax tree (src/core/ast_pool.cpp): the relations between nodes, the four iterators,
  and the children of the nodes whose children have roles. A pointer to a node is its index in
  the pool, the null pointer is \<open>None\<close>.
\<close>

unbundle bit_operations_syntax

section \<open>Nodes\<close>

definition id_from_ast_node :: "nat \<Rightarrow> u32" where
  "id_from_ast_node node = of_nat node"

definition ast_node_from_id :: "u32 \<Rightarrow> nat outcome" where
  "ast_node_from_id node_id = ensure Assertion (node_id \<noteq> 0) (Inr (unat node_id))"

definition has_children :: "AstNode \<Rightarrow> bool" where
  "has_children node = (\<not> no_children node)"

definition has_next_sibling :: "AstNode \<Rightarrow> bool" where
  "has_next_sibling node = (\<not> last_sibling node)"

definition has_flag :: "AstNode \<Rightarrow> AstFlag \<Rightarrow> bool" where
  "has_flag node flag = (flags node AND flag \<noteq> Flag_EMPTY)"

definition is_descendant_of :: "node_store \<Rightarrow> nat \<Rightarrow> nat \<Rightarrow> bool outcome" where
  "is_descendant_of N parent child =
     obind (node_at N parent) (\<lambda>p. Inr (parent \<le> child \<and> child < parent + next_sibling_offset p))"

definition next_sibling_of :: "node_store \<Rightarrow> nat \<Rightarrow> nat outcome" where
  "next_sibling_of N i =
     obind (node_at N i) (\<lambda>node. ensure Assertion (has_next_sibling node) (Inr (i + next_sibling_offset node)))"

definition first_child_of :: "node_store \<Rightarrow> nat \<Rightarrow> nat outcome" where
  "first_child_of N i =
     obind (node_at N i) (\<lambda>node. ensure Assertion (has_children node) (Inr (i + own_qwords node)))"

definition source_id_of_ast_node :: "AstPool \<Rightarrow> nat \<Rightarrow> u32 outcome" where
  "source_id_of_ast_node a i =
     ensure Assertion (i \<le> ast_used a) (obind (node_at (ast_nodes a) i) (\<lambda>node. Inr (node_source node)))"

section \<open>Closure lists\<close>

definition alloc_closure_list :: "AstPool \<Rightarrow> nat \<Rightarrow> (AstPool \<times> nat) outcome" where
  "alloc_closure_list a entry_count =
     (let used = closure_used a + (entry_count + 1) in
      ensure Panic (used \<le> CLOSURE_LISTS_RESERVE_SIZE \<and> closure_room a used)
        (Inr (a\<lparr>closure_lists := (closure_lists a)(closure_used a \<mapsto> entry_count), closure_used := used\<rparr>,
              closure_used a)))"

definition id_from_closure_list :: "nat \<Rightarrow> u32" where
  "id_from_closure_list closure_list = of_nat closure_list"

definition closure_list_from_id :: "u32 \<Rightarrow> nat outcome" where
  "closure_list_from_id list_id = ensure Assertion (list_id \<noteq> 0) (Inr (unat list_id))"

section \<open>Iterators\<close>

type_synonym AstDirectChildIterator = "nat option"

definition direct_children_of :: "node_store \<Rightarrow> nat \<Rightarrow> AstDirectChildIterator outcome" where
  "direct_children_of N i =
     obind (node_at N i) (\<lambda>node.
       if has_children node then obind (first_child_of N i) (\<lambda>c. Inr (Some c)) else Inr None)"

definition next_direct_child :: "node_store \<Rightarrow> AstDirectChildIterator \<Rightarrow> (nat \<times> AstDirectChildIterator) outcome" where
  "next_direct_child N it =
     (case it of
        None \<Rightarrow> Inl Assertion
      | Some result \<Rightarrow>
          obind (node_at N result) (\<lambda>node.
          if has_next_sibling node then obind (next_sibling_of N result) (\<lambda>s. Inr (result, Some s))
          else Inr (result, None)))"

text \<open>\<open>pre_prev_depths\<close> is \<open>prev_depths\<close> from \<open>top\<close> down.\<close>

record AstPreorderIterator =
  pre_curr :: "nat option"
  pre_depth :: nat
  pre_prev_depths :: "nat list"

definition preorder_ancestors_of :: "node_store \<Rightarrow> nat \<Rightarrow> AstPreorderIterator outcome" where
  "preorder_ancestors_of N i =
     obind (node_at N i) (\<lambda>node.
       if has_children node
       then obind (first_child_of N i) (\<lambda>c. Inr \<lparr>pre_curr = Some c, pre_depth = 0, pre_prev_depths = []\<rparr>)
       else Inr \<lparr>pre_curr = None, pre_depth = 0, pre_prev_depths = []\<rparr>)"

definition next_preorder ::
  "node_store \<Rightarrow> AstPreorderIterator \<Rightarrow> ((nat \<times> nat) \<times> AstPreorderIterator) outcome" where
  "next_preorder N it =
     (case pre_curr it of
        None \<Rightarrow> Inl Assertion
      | Some i \<Rightarrow>
          obind (node_at N i) (\<lambda>node.
          let result = (i, pre_depth it); it = it\<lparr>pre_curr := Some (i + own_qwords node)\<rparr> in
          if \<not> no_children node then
            ensure Assertion (last_sibling node \<or> length (pre_prev_depths it) < MAX_AST_DEPTH)
            (let it = (if \<not> last_sibling node
                       then it\<lparr>pre_prev_depths := pre_depth it # pre_prev_depths it\<rparr> else it) in
             ensure Assertion (pre_depth it + 1 < MAX_AST_DEPTH)
               (Inr (result, it\<lparr>pre_depth := pre_depth it + 1\<rparr>)))
          else if last_sibling node then
            (case pre_prev_depths it of
               [] \<Rightarrow> Inr (result, it\<lparr>pre_curr := None\<rparr>)
             | d # ds \<Rightarrow> Inr (result, it\<lparr>pre_depth := d, pre_prev_depths := ds\<rparr>))
          else Inr (result, it)))"

text \<open>
  \<open>offsets\<close> is the array of the iterator from \<open>depth\<close> down, so \<open>depth\<close> is its length less one. The
  assertion of \<open>postorder_ancestors_of\<close> lets \<open>depth\<close> reach the length of the array, which the next
  assignment then exceeds.
\<close>

record AstPostorderIterator =
  post_base :: nat
  offsets :: "nat list"

function descend_first :: "node_store \<Rightarrow> nat \<Rightarrow> nat \<Rightarrow> nat list \<Rightarrow> nat list outcome" where
  "descend_first N base i stack =
     obind (node_at N i) (\<lambda>node.
       if has_children node then
         (let c = i + own_qwords node in
          if MAX_AST_DEPTH < length stack then Inl Assertion
          else if length stack = MAX_AST_DEPTH then Inl Undefined
          else descend_first N base c ((c - base) # stack))
       else Inr stack)"
  by pat_completeness auto
termination
  by (relation "measure (\<lambda>(N, base, i, stack). MAX_AST_DEPTH - length stack)") auto

declare descend_first.simps [simp del]

definition postorder_ancestors_of :: "node_store \<Rightarrow> nat \<Rightarrow> AstPostorderIterator outcome" where
  "postorder_ancestors_of N i =
     obind (descend_first N i i []) (\<lambda>stack. Inr \<lparr>post_base = i, offsets = stack\<rparr>)"

function descend_next :: "node_store \<Rightarrow> nat \<Rightarrow> nat \<Rightarrow> nat list \<Rightarrow> nat list outcome" where
  "descend_next N base i stack =
     obind (node_at N i) (\<lambda>node.
       if has_children node then
         (let c = i + own_qwords node in
          if MAX_AST_DEPTH \<le> length stack then Inl Assertion
          else descend_next N base c ((c - base) # stack))
       else Inr stack)"
  by pat_completeness auto
termination
  by (relation "measure (\<lambda>(N, base, i, stack). MAX_AST_DEPTH - length stack)") auto

declare descend_next.simps [simp del]

definition next_postorder ::
  "node_store \<Rightarrow> AstPostorderIterator \<Rightarrow> ((nat \<times> nat) \<times> AstPostorderIterator) outcome" where
  "next_postorder N it =
     (case offsets it of
        [] \<Rightarrow> Inl Assertion
      | off # rest \<Rightarrow>
          (let ret_node = post_base it + off; ret_depth = length rest in
           obind (node_at N ret_node) (\<lambda>node.
           if has_next_sibling node then
             obind (next_sibling_of N ret_node) (\<lambda>cur.
             obind (descend_next N (post_base it) cur ((cur - post_base it) # rest)) (\<lambda>stack.
               Inr ((ret_node, ret_depth), it\<lparr>offsets := stack\<rparr>)))
           else Inr ((ret_node, ret_depth), it\<lparr>offsets := rest\<rparr>))))"

record AstFlatIterator =
  flat_curr :: nat
  flat_end :: nat

definition flat_ancestors_of :: "node_store \<Rightarrow> nat \<Rightarrow> AstFlatIterator outcome" where
  "flat_ancestors_of N i =
     obind (node_at N i) (\<lambda>node. Inr \<lparr>flat_curr = i, flat_end = i + next_sibling_offset node\<rparr>)"

definition next_flat :: "node_store \<Rightarrow> AstFlatIterator \<Rightarrow> (nat \<times> AstFlatIterator) outcome" where
  "next_flat N it =
     ensure Assertion (flat_curr it \<noteq> flat_end it)
       (obind (node_at N (flat_curr it)) (\<lambda>node.
          Inr (flat_curr it, it\<lparr>flat_curr := flat_curr it + own_qwords node\<rparr>)))"

text \<open>A loop \<open>while (has_next(it)) next(it)\<close> of a caller, with a bound on its rounds; its result is what the rounds return.\<close>

fun drain :: "nat \<Rightarrow> ('it \<Rightarrow> bool) \<Rightarrow> ('it \<Rightarrow> ('r \<times> 'it) outcome) \<Rightarrow> 'it \<Rightarrow> 'r list outcome" where
  "drain rounds has nxt it =
     (if \<not> has it then Inr []
      else case rounds of
        0 \<Rightarrow> Inl Diverge
      | Suc r \<Rightarrow> obind (nxt it) (\<lambda>(x, it). obind (drain r has nxt it) (\<lambda>xs. Inr (x # xs))))"

declare drain.simps [simp del]

section \<open>Children with roles\<close>

definition tag_at :: "node_store \<Rightarrow> nat \<Rightarrow> AstTag outcome" where
  "tag_at N i = obind (node_at N i) (\<lambda>n. Inr (tag n))"

definition has_next_sibling_at :: "node_store \<Rightarrow> nat \<Rightarrow> bool outcome" where
  "has_next_sibling_at N i = obind (node_at N i) (\<lambda>n. Inr (has_next_sibling n))"

text \<open>An optional child: with the flag it is the sibling behind \<open>curr\<close>, and \<open>curr\<close> moves to it.\<close>

definition then_sibling :: "node_store \<Rightarrow> AstNode \<Rightarrow> AstFlag \<Rightarrow> nat \<Rightarrow> (nat option \<times> nat) outcome" where
  "then_sibling N node flag cur =
     (if has_flag node flag then obind (next_sibling_of N cur) (\<lambda>c. Inr (Some c, c)) else Inr (None, cur))"

text \<open>An optional child at \<open>curr\<close>: with the flag, \<open>curr\<close> moves to the sibling behind it.\<close>

definition sibling_then :: "node_store \<Rightarrow> AstNode \<Rightarrow> AstFlag \<Rightarrow> nat \<Rightarrow> (nat option \<times> nat) outcome" where
  "sibling_then N node flag cur =
     (if has_flag node flag then obind (next_sibling_of N cur) (\<lambda>c. Inr (Some cur, c)) else Inr (None, cur))"

definition no_more_siblings :: "node_store \<Rightarrow> nat \<Rightarrow> 'a \<Rightarrow> 'a outcome" where
  "no_more_siblings N cur info =
     obind (has_next_sibling_at N cur) (\<lambda>sib. ensure Assertion (\<not> sib) (Inr info))"

record SignatureInfo =
  parameters :: nat
  return_type :: nat
  expects :: "nat option"
  ensures :: "nat option"

definition get_signature_info :: "node_store \<Rightarrow> nat \<Rightarrow> SignatureInfo outcome" where
  "get_signature_info N signature =
     obind (node_at N signature) (\<lambda>node.
     ensure Assertion (tag node = Tag_Signature)
     (obind (first_child_of N signature) (\<lambda>params.
      obind (tag_at N params) (\<lambda>tg. ensure Assertion (tg = Tag_ParameterList)
     (obind (next_sibling_of N params) (\<lambda>ret.
      obind (then_sibling N node Signature_HasExpects ret) (\<lambda>(exps, cur).
      obind (tag_at N cur) (\<lambda>tg. ensure Assertion (exps = None \<or> tg = Tag_Expects)
     (obind (then_sibling N node Signature_HasEnsures cur) (\<lambda>(ens, cur).
      obind (tag_at N cur) (\<lambda>tg. ensure Assertion (ens = None \<or> tg = Tag_Ensures)
     (no_more_siblings N cur \<lparr>parameters = params, return_type = ret, expects = exps, ensures = ens\<rparr>))))))))))))"

record DefinitionInfo =
  def_type :: "nat option"
  def_value :: "nat option"

definition get_definition_info :: "node_store \<Rightarrow> nat \<Rightarrow> DefinitionInfo outcome" where
  "get_definition_info N i =
     obind (node_at N i) (\<lambda>node.
     ensure Assertion (tag node = Tag_Definition \<or> tag node = Tag_Parameter)
     (if \<not> has_children node then Inr \<lparr>def_type = None, def_value = None\<rparr>
      else obind (first_child_of N i) (\<lambda>c.
        if has_flag node Definition_HasType then
          obind (has_next_sibling_at N c) (\<lambda>sib.
          if sib then obind (next_sibling_of N c) (\<lambda>v. Inr \<lparr>def_type = Some c, def_value = Some v\<rparr>)
          else Inr \<lparr>def_type = Some c, def_value = None\<rparr>)
        else Inr \<lparr>def_type = None, def_value = Some c\<rparr>)))"

record IfInfo =
  if_condition :: nat
  if_consequent :: nat
  if_alternative :: "nat option"
  if_where :: "nat option"

definition get_if_info :: "node_store \<Rightarrow> nat \<Rightarrow> IfInfo outcome" where
  "get_if_info N i =
     obind (node_at N i) (\<lambda>node.
     ensure Assertion (tag node = Tag_If)
     (obind (first_child_of N i) (\<lambda>cond.
      obind (then_sibling N node If_HasWhere cond) (\<lambda>(whr, cur).
      obind (next_sibling_of N cur) (\<lambda>cons.
      obind (then_sibling N node If_HasElse cons) (\<lambda>(alt, cur).
        no_more_siblings N cur
          \<lparr>if_condition = cond, if_consequent = cons, if_alternative = alt, if_where = whr\<rparr>))))))"

record ForInfo =
  for_condition :: nat
  for_step :: "nat option"
  for_where :: "nat option"
  for_body :: nat
  for_finally :: "nat option"

definition get_for_info :: "node_store \<Rightarrow> nat \<Rightarrow> ForInfo outcome" where
  "get_for_info N i =
     obind (node_at N i) (\<lambda>node.
     ensure Assertion (tag node = Tag_For)
     (obind (first_child_of N i) (\<lambda>cond.
      obind (next_sibling_of N cond) (\<lambda>cur.
      obind (sibling_then N node For_HasStep cur) (\<lambda>(stp, cur).
      obind (sibling_then N node For_HasWhere cur) (\<lambda>(whr, body).
      obind (then_sibling N node For_HasFinally body) (\<lambda>(fin, cur).
        no_more_siblings N cur
          \<lparr>for_condition = cond, for_step = stp, for_where = whr, for_body = body, for_finally = fin\<rparr>)))))))"

record ForEachInfo =
  each_element :: nat
  each_index :: "nat option"
  each_iterated :: nat
  each_where :: "nat option"
  each_body :: nat
  each_finally :: "nat option"

definition get_foreach_info :: "node_store \<Rightarrow> nat \<Rightarrow> ForEachInfo outcome" where
  "get_foreach_info N i =
     obind (node_at N i) (\<lambda>node.
     ensure Assertion (tag node = Tag_ForEach)
     (obind (first_child_of N i) (\<lambda>element.
      obind (next_sibling_of N element) (\<lambda>cur.
      obind (sibling_then N node ForEach_HasIndex cur) (\<lambda>(idx, iterated).
      obind (next_sibling_of N iterated) (\<lambda>cur.
      obind (sibling_then N node ForEach_HasWhere cur) (\<lambda>(whr, body).
      obind (then_sibling N node ForEach_HasFinally body) (\<lambda>(fin, cur).
        no_more_siblings N cur
          \<lparr>each_element = element, each_index = idx, each_iterated = iterated, each_where = whr,
           each_body = body, each_finally = fin\<rparr>))))))))"

text \<open>The siblings of the switch itself are taken where those of its first child are meant.\<close>

record SwitchInfo =
  switched :: nat
  switch_where :: "nat option"
  first_case :: nat

definition get_switch_info :: "node_store \<Rightarrow> nat \<Rightarrow> SwitchInfo outcome" where
  "get_switch_info N i =
     obind (node_at N i) (\<lambda>node.
     ensure Assertion (tag node = Tag_Switch)
     (obind (first_child_of N i) (\<lambda>sw.
      obind (next_sibling_of N i) (\<lambda>cur.
      if has_flag node Switch_HasWhere then
        obind (next_sibling_of N i) (\<lambda>c. Inr \<lparr>switched = sw, switch_where = Some cur, first_case = c\<rparr>)
      else Inr \<lparr>switched = sw, switch_where = None, first_case = cur\<rparr>))))"

record OpSliceOfInfo =
  sliced :: nat
  slice_begin :: "nat option"
  slice_end :: "nat option"

definition get_op_slice_of_info :: "node_store \<Rightarrow> nat \<Rightarrow> OpSliceOfInfo outcome" where
  "get_op_slice_of_info N i =
     obind (node_at N i) (\<lambda>node.
     ensure Assertion (tag node = Tag_OpSliceOf)
     (obind (first_child_of N i) (\<lambda>sl.
      obind (then_sibling N node OpSliceOf_HasBegin sl) (\<lambda>(bgn, cur).
      obind (then_sibling N node OpSliceOf_HasEnd cur) (\<lambda>(fin, cur).
        no_more_siblings N cur \<lparr>sliced = sl, slice_begin = bgn, slice_end = fin\<rparr>)))))"

end
