(* ===== verification/AstLayout.thy ===== *)
theory AstLayout
  imports AstPool
begin

text \<open>
  The layouts of a tree that \<open>complete_ast\<close> goes through, as predicates on the node store: pushed
  in postorder, with the sibling flags set, with the links of the preorder traversal, and copied
  in preorder with the sizes of the subtrees.
\<close>

section \<open>Trees\<close>

text \<open>A node carries its tag, flags, size, attachment and source id in the tree; the rest of its header is free.\<close>

datatype tree = Tree AstNode "tree list"

fun tsize :: "tree \<Rightarrow> nat" and fsize :: "tree list \<Rightarrow> nat" where
  "tsize (Tree n ts) = fsize ts + own_qwords n"
| "fsize [] = 0"
| "fsize (t # ts) = tsize t + fsize ts"

fun tcount :: "tree \<Rightarrow> nat" and fcount :: "tree list \<Rightarrow> nat" where
  "tcount (Tree n ts) = Suc (fcount ts)"
| "fcount [] = 0"
| "fcount (t # ts) = tcount t + fcount ts"

fun theight :: "tree \<Rightarrow> nat" and fheight :: "tree list \<Rightarrow> nat" where
  "theight (Tree n ts) = Suc (fheight ts)"
| "fheight [] = 0"
| "fheight (t # ts) = max (theight t) (fheight ts)"

fun twf :: "tree \<Rightarrow> bool" and fwf :: "tree list \<Rightarrow> bool" where
  "twf (Tree n ts) \<longleftrightarrow> 0 < own_qwords n \<and> fwf ts"
| "fwf [] \<longleftrightarrow> True"
| "fwf (t # ts) \<longleftrightarrow> twf t \<and> fwf ts"

text \<open>Where the root of a tree is whose nodes lie in postorder from \<open>b\<close> on.\<close>

fun root_pos :: "nat \<Rightarrow> tree \<Rightarrow> nat" where
  "root_pos b (Tree n ts) = b + fsize ts"

fun last_pos :: "nat \<Rightarrow> tree list \<Rightarrow> nat" where
  "last_pos b [] = b"
| "last_pos b [t] = root_pos b t"
| "last_pos b (t # u # us) = last_pos (b + tsize t) (u # us)"

fun last_leaf :: "nat \<Rightarrow> tree \<Rightarrow> nat" and last_leafs :: "nat \<Rightarrow> tree list \<Rightarrow> nat" where
  "last_leaf b (Tree n ts) = last_leafs b ts"
| "last_leafs b [] = b"
| "last_leafs b (t # ts) = (if ts = [] then last_leaf b t else last_leafs (b + tsize t) ts)"

lemma tsize_pos: "twf t \<Longrightarrow> 0 < tsize t"
  by (cases t) simp

lemma root_pos_bounds: "twf t \<Longrightarrow> b \<le> root_pos b t \<and> root_pos b t < b + tsize t"
  by (cases t) simp

lemma tcount_tsize: "twf t \<Longrightarrow> tcount t \<le> tsize t" "fwf ts \<Longrightarrow> fcount ts \<le> fsize ts"
  by (induction t and ts rule: tcount_fcount.induct) auto

lemma last_leaf_bounds:
  "twf t \<Longrightarrow> b \<le> last_leaf b t \<and> last_leaf b t < b + tsize t"
  "fwf ts \<Longrightarrow> ts \<noteq> [] \<Longrightarrow> b \<le> last_leafs b ts \<and> last_leafs b ts < b + fsize ts"
proof (induction t and ts arbitrary: b and b rule: tcount_fcount.induct)
  case (1 n ts)
  show ?case
  proof (cases "ts = []")
    case False
    then have "b \<le> last_leafs b ts \<and> last_leafs b ts < b + fsize ts" using 1 by simp
    then show ?thesis by simp
  qed (use 1(2) in simp)
next
  case (3 t ts)
  then show ?case
  proof (cases "ts = []")
    case False
    then show ?thesis using 3(2) [of "b + tsize t"] 3(3) by simp
  qed simp
qed simp

lemma last_pos_bounds: "fwf ts \<Longrightarrow> ts \<noteq> [] \<Longrightarrow> b \<le> last_pos b ts \<and> last_pos b ts < b + fsize ts"
  by (induction b ts rule: last_pos.induct) (use root_pos_bounds in fastforce)+

section \<open>The layouts\<close>

datatype phase = Pushed | Flagged | Linked

definition with_structure :: "AstNode \<Rightarrow> bool \<Rightarrow> bool \<Rightarrow> bool \<Rightarrow> nat \<Rightarrow> AstNode" where
  "with_structure n f l c x =
     n\<lparr>first_sibling := f, last_sibling := l, no_children := c, next_sibling_offset := x\<rparr>"

lemma with_structure_simps [simp]:
  "first_sibling (with_structure n f l c x) = f" "last_sibling (with_structure n f l c x) = l"
  "no_children (with_structure n f l c x) = c" "next_sibling_offset (with_structure n f l c x) = x"
  "own_qwords (with_structure n f l c x) = own_qwords n" "tag (with_structure n f l c x) = tag n"
  "flags (with_structure n f l c x) = flags n" "attachment (with_structure n f l c x) = attachment n"
  "node_source (with_structure n f l c x) = node_source n"
  "(with_structure n f l c x)\<lparr>first_sibling := f'\<rparr> = with_structure n f' l c x"
  "(with_structure n f l c x)\<lparr>last_sibling := l'\<rparr> = with_structure n f l' c x"
  "(with_structure n f l c x)\<lparr>next_sibling_offset := x'\<rparr> = with_structure n f l c x'"
  by (simp_all add: with_structure_def)

text \<open>
  \<open>laid p N b f l k t\<close>: the nodes of \<open>t\<close> are in \<open>N\<close> in postorder from \<open>b\<close> on, with the flags \<open>f\<close> and \<open>l\<close>
  at the root. A node with children refers to its first child, a leaf to the node behind its
  subtree in preorder (\<open>Linked\<close>) or to nothing; \<open>k\<close> is what the last leaf refers to. For a forest,
  \<open>m\<close> and \<open>m'\<close> say whether the flags of first and last siblings are set.
\<close>

fun laid :: "phase \<Rightarrow> node_store \<Rightarrow> nat \<Rightarrow> bool \<Rightarrow> bool \<Rightarrow> nat \<Rightarrow> tree \<Rightarrow> bool"
  and laids :: "phase \<Rightarrow> bool \<Rightarrow> bool \<Rightarrow> node_store \<Rightarrow> nat \<Rightarrow> bool \<Rightarrow> nat \<Rightarrow> tree list \<Rightarrow> bool" where
  "laid p N b f l k (Tree n ts) \<longleftrightarrow>
     N (b + fsize ts) = Some (with_structure n f l (ts = []) (case ts of [] \<Rightarrow> k | t # _ \<Rightarrow> root_pos b t))
     \<and> laids p (p \<noteq> Pushed) (p \<noteq> Pushed) N b True k ts"
| "laids p m m' N b f k [] \<longleftrightarrow> True"
| "laids p m m' N b f k (t # ts) \<longleftrightarrow>
     laid p N b (m \<and> f) (m' \<and> ts = [])
       (case ts of [] \<Rightarrow> k | u # _ \<Rightarrow> if p = Linked then root_pos (b + tsize t) u else NO_CHILDREN) t
     \<and> laids p m m' N (b + tsize t) False k ts"

lemma laid_cong:
  "(\<And>i. b \<le> i \<Longrightarrow> i < b + tsize t \<Longrightarrow> N' i = N i) \<Longrightarrow> laid p N b f l k t \<Longrightarrow> twf t \<Longrightarrow> laid p N' b f l k t"
  "(\<And>i. b \<le> i \<Longrightarrow> i < b + fsize ts \<Longrightarrow> N' i = N i) \<Longrightarrow> laids p m m' N b f k ts \<Longrightarrow> fwf ts \<Longrightarrow> laids p m m' N' b f k ts"
proof (induction t and ts arbitrary: b f l k and b f k m m' rule: tcount_fcount.induct)
  case (1 n ts)
  then show ?case by simp
next
  case (3 t ts)
  then show ?case by simp
qed simp

lemma laid_root:
  "laid p N b f l k t \<Longrightarrow> \<exists>n ts x. t = Tree n ts \<and> N (root_pos b t) = Some (with_structure n f l (ts = []) x)"
  by (cases t) auto

lemma laid_set_root:
  assumes "laid p N b f l k t" and "N (root_pos b t) = Some q" and "twf t"
  shows "laid p (N(root_pos b t \<mapsto> q\<lparr>first_sibling := f'\<rparr>)) b f' l k t"
    and "laid p (N(root_pos b t \<mapsto> q\<lparr>last_sibling := l'\<rparr>)) b f l' k t"
proof -
  obtain n ts where t: "t = Tree n ts" by (cases t)
  have "laids p m m' (N(b + fsize ts \<mapsto> q')) b True k ts" if "laids p m m' N b True k ts" for m m' q'
    by (rule laid_cong(2) [OF _ that]) (use assms(3) t in auto)
  then show "laid p (N(root_pos b t \<mapsto> q\<lparr>first_sibling := f'\<rparr>)) b f' l k t"
    and "laid p (N(root_pos b t \<mapsto> q\<lparr>last_sibling := l'\<rparr>)) b f l' k t"
    using assms(1,2) by (auto simp: t)
qed

lemma laids_first_irrelevant: "laids p m m' N b False k ts = laids p False m' N b False k ts"
  by (induction ts arbitrary: b) auto

lemma laids_mark_first:
  assumes "laids p False m' N b True k (t # ts)" and "N (root_pos b t) = Some q" and "fwf (t # ts)"
  shows "laids p True m' (N(root_pos b t \<mapsto> q\<lparr>first_sibling := True\<rparr>)) b True k (t # ts)"
proof -
  let ?N = "N(root_pos b t \<mapsto> q\<lparr>first_sibling := True\<rparr>)"
  have "laids p False m' ?N (b + tsize t) False k ts"
    by (rule laid_cong(2) [where N = N]) (use assms root_pos_bounds [of t b] in auto)
  then show ?thesis
    using laid_set_root(1) [of p N b False _ _ t q True] assms laids_first_irrelevant [of p True m' ?N] by simp
qed

lemma laids_mark_last:
  "laids p m False N b f k ts \<Longrightarrow> ts \<noteq> [] \<Longrightarrow> N (last_pos b ts) = Some q \<Longrightarrow> fwf ts
     \<Longrightarrow> laids p m True (N(last_pos b ts \<mapsto> q\<lparr>last_sibling := True\<rparr>)) b f k ts"
proof (induction b ts arbitrary: f rule: last_pos.induct)
  case (2 b t)
  then show ?case using laid_set_root(2) [of p N b "m \<and> f" False k t q True] by (simp del: fun_upd_apply)
next
  case (3 b t u us)
  let ?N = "N(last_pos b (t # u # us) \<mapsto> q\<lparr>last_sibling := True\<rparr>)"
  have "b + tsize t \<le> last_pos b (t # u # us)"
    using last_pos_bounds [of "u # us" "b + tsize t"] 3(5) by simp
  then have "laid p ?N b f' l' k' t" if "laid p N b f' l' k' t" for f' l' k'
    by (intro laid_cong(1) [OF _ that]) (use 3(5) in auto)
  moreover have "laids p m True ?N (b + tsize t) False k (u # us)"
    using 3(1) [of False] 3(2,4,5) by (simp del: fun_upd_apply)
  ultimately show ?case using 3(2) by (simp del: fun_upd_apply)
qed simp

section \<open>Setting the flags\<close>

text \<open>The loop of \<open>set_flags\<close> over the nodes of a tree marks all children in it.\<close>

definition same_outside :: "nat \<Rightarrow> nat \<Rightarrow> node_store \<Rightarrow> node_store \<Rightarrow> bool" where
  "same_outside b e N N' \<longleftrightarrow> (\<forall>i. i < b \<or> e \<le> i \<longrightarrow> N' i = N i)"

lemma same_outside_trans:
  "same_outside b e N N1 \<Longrightarrow> same_outside b' e' N1 N2 \<Longrightarrow> b \<le> b' \<Longrightarrow> e' \<le> e \<Longrightarrow> same_outside b e N N2"
  by (auto simp: same_outside_def)

lemma same_outside_widen: "same_outside b e N N' \<Longrightarrow> b' \<le> b \<Longrightarrow> e \<le> e' \<Longrightarrow> same_outside b' e' N N'"
  by (auto simp: same_outside_def)

lemma same_outside_refl [simp]: "same_outside b e N N"
  by (simp add: same_outside_def)

lemma same_outside_upd: "b \<le> i \<Longrightarrow> i < e \<Longrightarrow> same_outside b e N (N(i := x))"
  by (auto simp: same_outside_def)

lemma laid_outside:
  "same_outside b e N N' \<Longrightarrow> c + tsize t \<le> b \<or> e \<le> c \<Longrightarrow> laid p N c f l k t \<Longrightarrow> twf t \<Longrightarrow> laid p N' c f l k t"
  "same_outside b e N N' \<Longrightarrow> c + fsize ts \<le> b \<or> e \<le> c \<Longrightarrow> laids p m m' N c f k ts \<Longrightarrow> fwf ts \<Longrightarrow> laids p m m' N' c f k ts"
  by (rule laid_cong; auto simp: same_outside_def)+

lemma laids_root_at:
  "laids p m m' N b f k (t # ts) \<Longrightarrow> \<exists>n x c. N (root_pos b t) = Some (with_structure n (m \<and> f) (m' \<and> ts = []) c x)"
  using laid_root by fastforce

lemma laids_last_at:
  "laids p m False N b f k ts \<Longrightarrow> ts \<noteq> [] \<Longrightarrow> \<exists>q. N (last_pos b ts) = Some q \<and> \<not> last_sibling q"
proof (induction b ts arbitrary: f rule: last_pos.induct)
  case (2 b t)
  then show ?case using laid_root by fastforce
next
  case (3 b t u us)
  then show ?case using 3(1) [of False] by simp
qed simp

lemma mark_children_ok:
  assumes "laids Flagged False False N b True NO_CHILDREN (t # ts)" and "fwf (t # ts)"
    and "next_sibling_offset node = root_pos b t" and "root_pos b t < NO_CHILDREN"
  shows "\<exists>N'. mark_children N (Some (last_pos b (t # ts))) node = Inr N'
    \<and> laids Flagged True True N' b True NO_CHILDREN (t # ts) \<and> same_outside b (b + fsize (t # ts)) N N'"
proof -
  obtain n c x where q: "N (root_pos b t) = Some (with_structure n False False c x)"
    using laids_root_at [OF assms(1)] by auto
  let ?N = "N(root_pos b t \<mapsto> (with_structure n False False c x)\<lparr>first_sibling := True\<rparr>)"
  have N1: "laids Flagged True False ?N b True NO_CHILDREN (t # ts)"
    by (rule laids_mark_first [OF assms(1) q assms(2)])
  obtain q' where q': "?N (last_pos b (t # ts)) = Some q'"
    using laids_last_at [OF N1] by blast
  let ?N' = "?N(last_pos b (t # ts) \<mapsto> q'\<lparr>last_sibling := True\<rparr>)"
  have "laids Flagged True True ?N' b True NO_CHILDREN (t # ts)"
    by (rule laids_mark_last [OF N1 _ q' assms(2)]) simp
  moreover have "same_outside b (b + fsize (t # ts)) N ?N'"
    using root_pos_bounds [of t b] last_pos_bounds [of "t # ts" b] assms(2)
    by (auto simp: same_outside_def)
  moreover have "mark_children N (Some (last_pos b (t # ts))) node = Inr ?N'"
    using q q' assms(3,4) by (simp add: mark_children_def Let_def)
  ultimately show ?thesis by blast
qed

lemma set_flags_loop_laid:
  "laid Pushed N b False False NO_CHILDREN t \<Longrightarrow> twf t \<Longrightarrow> b + tsize t \<le> fin \<Longrightarrow> fin < NO_CHILDREN \<Longrightarrow>
     \<exists>N'. set_flags_loop N prev b fin = set_flags_loop N' (Some (root_pos b t)) (b + tsize t) fin
       \<and> laid Flagged N' b False False NO_CHILDREN t \<and> same_outside b (b + tsize t) N N'"
  "laids Pushed False False N b f NO_CHILDREN ts \<Longrightarrow> fwf ts \<Longrightarrow> b + fsize ts \<le> fin \<Longrightarrow> fin < NO_CHILDREN \<Longrightarrow>
     \<exists>N'. set_flags_loop N prev b fin =
         set_flags_loop N' (if ts = [] then prev else Some (last_pos b ts)) (b + fsize ts) fin
       \<and> laids Flagged False False N' b f NO_CHILDREN ts \<and> same_outside b (b + fsize ts) N N'"
proof (induction t and ts arbitrary: N prev b and N prev b f rule: tcount_fcount.induct)
  case (1 n ts)
  let ?r = "b + fsize ts"
  define x where "x = (case ts of [] \<Rightarrow> NO_CHILDREN | t # _ \<Rightarrow> root_pos b t)"
  define node where "node = with_structure n False False (ts = []) x"
  have lt: "?r < fin" "0 < own_qwords n" "fwf ts" using 1(3,4) by auto
  obtain N1 where N1: "set_flags_loop N prev b fin =
      set_flags_loop N1 (if ts = [] then prev else Some (last_pos b ts)) ?r fin"
    "laids Flagged False False N1 b True NO_CHILDREN ts" "same_outside b ?r N N1"
    using 1(1) [of N b True prev] 1(2,4,5) lt by auto
  have root: "N1 ?r = Some node"
    using N1(3) 1(2) by (simp add: same_outside_def node_def x_def)
  have "\<exists>N2. mark_children N1 (if ts = [] then prev else Some (last_pos b ts)) node = Inr N2
      \<and> laids Flagged True True N2 b True NO_CHILDREN ts \<and> same_outside b ?r N1 N2"
  proof (cases ts)
    case Nil
    then show ?thesis by (simp add: mark_children_def node_def x_def)
  next
    case (Cons t us)
    have "root_pos b t < NO_CHILDREN" using root_pos_bounds [of t b] lt Cons 1(5) by auto
    then show ?thesis
      using mark_children_ok [of N1 b t us node] N1(2) lt(3) Cons by (simp add: node_def x_def)
  qed
  then obtain N2 where N2: "mark_children N1 (if ts = [] then prev else Some (last_pos b ts)) node = Inr N2"
    "laids Flagged True True N2 b True NO_CHILDREN ts" "same_outside b ?r N1 N2" by blast
  have "set_flags_loop N1 (if ts = [] then prev else Some (last_pos b ts)) ?r fin
      = set_flags_loop N2 (Some ?r) (?r + own_qwords n) fin"
    using lt root N2(1) by (subst set_flags_loop.simps) (simp add: node_def)
  moreover have "N2 ?r = Some node" using root N2(3) by (simp add: same_outside_def)
  moreover have "same_outside b (b + tsize (Tree n ts)) N N2"
    using N1(3) N2(3) by (auto simp: same_outside_def)
  ultimately show ?case
    using N1(1) N2(2) by (intro exI [of _ N2]) (simp add: node_def x_def add.assoc)
next
  case 2
  then show ?case by (intro exI [of _ N]) simp
next
  case (3 t ts)
  have t: "laid Pushed N b False False NO_CHILDREN t" "twf t" "fwf ts" "b + tsize t \<le> fin"
    using 3(3-5) by (auto split: list.splits)
  obtain N1 where N1: "set_flags_loop N prev b fin = set_flags_loop N1 (Some (root_pos b t)) (b + tsize t) fin"
    "laid Flagged N1 b False False NO_CHILDREN t" "same_outside b (b + tsize t) N N1"
    using 3(1) [OF t(1,2,4) 3(6)] by blast
  have "laids Pushed False False N1 (b + tsize t) False NO_CHILDREN ts"
    by (rule laid_outside(2) [OF N1(3)]) (use 3(3) t(3) in auto)
  then obtain N2 where N2: "set_flags_loop N1 (Some (root_pos b t)) (b + tsize t) fin =
      set_flags_loop N2 (if ts = [] then Some (root_pos b t) else Some (last_pos (b + tsize t) ts)) (b + tsize t + fsize ts) fin"
    "laids Flagged False False N2 (b + tsize t) False NO_CHILDREN ts"
    "same_outside (b + tsize t) (b + tsize t + fsize ts) N1 N2"
    using 3(2) [of N1 "b + tsize t" False "Some (root_pos b t)"] t(3) 3(5,6) by auto
  have "laid Flagged N2 b False False NO_CHILDREN t"
    by (rule laid_outside(1) [OF N2(3) _ N1(2) t(2)]) simp
  moreover have "same_outside b (b + fsize (t # ts)) N N2"
    using N1(3) N2(3) by (auto simp: same_outside_def)
  moreover have "(if ts = [] then Some (root_pos b t) else Some (last_pos (b + tsize t) ts)) = Some (last_pos b (t # ts))"
    by (cases ts) auto
  ultimately show ?case
    using N1(1) N2(1,2) by (intro exI [of _ N2]) (simp add: add.assoc split: list.split)
qed

lemma set_flags_laid:
  assumes "laid Pushed N 0 False False NO_CHILDREN t" and "twf t" and "tsize t < NO_CHILDREN"
  shows "\<exists>N'. set_flags N (tsize t) = Inr N' \<and> laid Flagged N' 0 True True NO_CHILDREN t"
proof -
  obtain N1 where N1: "set_flags_loop N None 0 (tsize t) = set_flags_loop N1 (Some (root_pos 0 t)) (tsize t) (tsize t)"
    "laid Flagged N1 0 False False NO_CHILDREN t"
    using set_flags_loop_laid(1) [OF assms(1,2), of "tsize t" None] assms(3) by auto
  obtain n ts x where root: "N1 (root_pos 0 t) = Some (with_structure n False False (ts = ([] :: tree list)) x)"
    using laid_root [OF N1(2)] by blast
  let ?q = "with_structure n True False (ts = []) x"
  have N2: "laid Flagged (N1(root_pos 0 t \<mapsto> ?q)) 0 True False NO_CHILDREN t"
    using laid_set_root(1) [OF N1(2) root assms(2), of True] by simp
  have "laid Flagged (N1(root_pos 0 t \<mapsto> ?q\<lparr>last_sibling := True\<rparr>)) 0 True True NO_CHILDREN t"
    using laid_set_root(2) [OF N2, of ?q True] assms(2) by simp
  moreover have "set_flags_loop N1 (Some (root_pos 0 t)) (tsize t) (tsize t) = Inr (N1, Some (root_pos 0 t))"
    by (subst set_flags_loop.simps) simp
  ultimately show ?thesis
    using N1(1) root by (simp add: set_flags_def)
qed

section \<open>Linking the traversal\<close>

definition link :: "node_store \<Rightarrow> nat \<Rightarrow> nat \<Rightarrow> node_store" where
  "link N p x = N(p := map_option (\<lambda>q. q\<lparr>next_sibling_offset := x\<rparr>) (N p))"

lemma link_other [simp]: "i \<noteq> p \<Longrightarrow> link N p x i = N i"
  by (simp add: link_def)

lemma laid_relink:
  "laid Linked N b f l k t \<Longrightarrow> twf t \<Longrightarrow> laid Linked (link N (last_leaf b t) k') b f l k' t"
  "laids Linked True True N b f k ts \<Longrightarrow> fwf ts \<Longrightarrow> ts \<noteq> []
     \<Longrightarrow> laids Linked True True (link N (last_leafs b ts) k') b f k' ts"
proof (induction t and ts arbitrary: b f l and b f rule: tcount_fcount.induct)
  case (1 n ts)
  show ?case
  proof (cases ts)
    case Nil
    then show ?thesis using 1(2) by (simp add: link_def)
  next
    case (Cons u us)
    then have "laids Linked True True (link N (last_leafs b ts) k') b True k' ts"
      using 1(1) [of b True] 1(2,3) by (simp del: last_leafs.simps laids.simps)
    moreover have "last_leafs b ts < b + fsize ts"
      using last_leaf_bounds(2) [of ts b] 1(3) Cons by simp
    ultimately show ?thesis using 1(2) Cons by (simp del: last_leafs.simps)
  qed
next
  case (3 t ts)
  show ?case
  proof (cases ts)
    case Nil
    then show ?thesis using 3 by simp
  next
    case (Cons u us)
    have "laids Linked True True (link N (last_leafs (b + tsize t) ts) k') (b + tsize t) False k' ts"
      using 3(2) [of "b + tsize t" False] 3(3,4) Cons by simp
    moreover have "laid Linked (link N (last_leafs (b + tsize t) ts) k') b f False (root_pos (b + tsize t) u) t"
      by (rule laid_cong(1) [where N = N])
        (use last_leaf_bounds(2) [of ts "b + tsize t"] 3(3,4) Cons in auto)
    ultimately show ?thesis using Cons by simp
  qed
qed simp

text \<open>Where the loop stands when the node at \<open>cur\<close> is done.\<close>

definition after_node :: "node_store \<Rightarrow> nat list \<Rightarrow> nat \<Rightarrow> nat \<Rightarrow> nat \<Rightarrow> nat \<Rightarrow> (node_store \<times> nat) outcome" where
  "after_node N stack r cur nxt fin =
     (if nxt = fin then ensure Assertion (stack = []) (Inr (N, cur)) else traversal_loop N stack r nxt fin)"

text \<open>What a sibling does to its predecessor, whose last leaf \<open>p\<close> is on the stack unless it is the first.\<close>

abbreviation preceded :: "bool \<Rightarrow> nat \<Rightarrow> nat list \<Rightarrow> nat list" where
  "preceded f p S \<equiv> (if f then S else p # S)"

abbreviation linked_to :: "bool \<Rightarrow> nat \<Rightarrow> node_store \<Rightarrow> nat \<Rightarrow> node_store" where
  "linked_to f p N x \<equiv> (if f then N else link N p x)"

lemma traversal_step:
  assumes "N cur = Some node" and "0 < own_qwords node" and "cur + own_qwords node \<le> fin"
    and "\<not> first_sibling node \<Longrightarrow> N p \<noteq> None" and "length S < MAX_AST_DEPTH"
    and "\<not> no_children node \<Longrightarrow> r \<noteq> NO_CHILDREN"
  shows "traversal_loop N (preceded (first_sibling node) p S) r cur fin =
    after_node (linked_to (first_sibling node) p N cur)
      (if last_sibling node then S else (if no_children node then cur else r) # S)
      (if last_sibling node \<and> no_children node then cur else r) cur (cur + own_qwords node) fin"
  using assms
  by (subst traversal_loop.simps)
    (auto simp: connect_predecessor_def push_sibling_def after_node_def link_def Let_def obind_def
      ensure_def split: option.splits)

lemma after_node_before [simp]: "nxt < fin \<Longrightarrow> after_node N stack r cur nxt fin = traversal_loop N stack r nxt fin"
  by (simp add: after_node_def)

lemma laids_linked_not_None:
  "laid Linked N b f l k t \<Longrightarrow> twf t \<Longrightarrow> N (last_leaf b t) \<noteq> None"
  "laids Linked True True N b f k ts \<Longrightarrow> fwf ts \<Longrightarrow> ts \<noteq> [] \<Longrightarrow> N (last_leafs b ts) \<noteq> None"
proof (induction t and ts arbitrary: b f l k and b f k rule: tcount_fcount.induct)
  case (1 n ts)
  then show ?case by (cases "ts = []") auto
next
  case (3 t ts)
  then show ?case by (cases "ts = []") auto
qed simp

lemma traversal_loop_laid:
  "laid Flagged N b f l NO_CHILDREN t \<Longrightarrow> twf t \<Longrightarrow> b + tsize t \<le> fin \<Longrightarrow> fin < NO_CHILDREN
     \<Longrightarrow> length S + theight t \<le> MAX_AST_DEPTH
     \<Longrightarrow> (\<not> f \<Longrightarrow> (p < b \<or> b + tsize t \<le> p) \<and> N p \<noteq> None)
     \<Longrightarrow> \<exists>N' r'. traversal_loop N (preceded f p S) r b fin =
           after_node N' (if l then S else last_leaf b t # S) r' (root_pos b t) (b + tsize t) fin
         \<and> (l \<longrightarrow> r' = last_leaf b t) \<and> laid Linked N' b f l NO_CHILDREN t
         \<and> same_outside b (b + tsize t) (linked_to f p N (root_pos b t)) N'"
  "laids Flagged True True N b f NO_CHILDREN ts \<Longrightarrow> fwf ts \<Longrightarrow> ts \<noteq> [] \<Longrightarrow> b + fsize ts < fin \<Longrightarrow> fin < NO_CHILDREN
     \<Longrightarrow> length S + fheight ts \<le> MAX_AST_DEPTH
     \<Longrightarrow> (\<not> f \<Longrightarrow> (p < b \<or> b + fsize ts \<le> p) \<and> N p \<noteq> None)
     \<Longrightarrow> \<exists>N'. traversal_loop N (preceded f p S) r b fin =
           traversal_loop N' S (last_leafs b ts) (b + fsize ts) fin
         \<and> laids Linked True True N' b f NO_CHILDREN ts
         \<and> same_outside b (b + fsize ts) (linked_to f p N (root_pos b (hd ts))) N'"
proof (induction t and ts arbitrary: N b f l S p r and N b f S p r rule: tcount_fcount.induct)
  case (1 n ts)
  let ?r = "b + fsize ts"
  define x where "x = (case ts of [] \<Rightarrow> NO_CHILDREN | t # _ \<Rightarrow> root_pos b t)"
  define node where "node = with_structure n f l (ts = []) x"
  have pos: "0 < own_qwords n" "fwf ts" "?r < fin" "length S < MAX_AST_DEPTH" using 1(3,4,6) by auto
  have "\<exists>N1 r1. traversal_loop N (preceded f p S) r b fin = traversal_loop N1 (preceded f p S) r1 ?r fin
      \<and> (ts \<noteq> [] \<longrightarrow> r1 = last_leafs b ts) \<and> laids Linked True True N1 b True NO_CHILDREN ts
      \<and> same_outside b ?r N N1"
  proof (cases "ts = []")
    case False
    have "length (preceded f p S) + fheight ts \<le> MAX_AST_DEPTH" using 1(6) by simp
    then show ?thesis
      using 1(1) [of N b True "preceded f p S" p r] 1(2,5) pos False by auto
  qed auto
  then obtain N1 r1 where N1:
    "traversal_loop N (preceded f p S) r b fin = traversal_loop N1 (preceded f p S) r1 ?r fin"
    "ts \<noteq> [] \<longrightarrow> r1 = last_leafs b ts" "laids Linked True True N1 b True NO_CHILDREN ts"
    "same_outside b ?r N N1" by blast
  have root: "N1 ?r = Some node"
    using N1(4) 1(2) by (simp add: same_outside_def node_def x_def)
  have p: "p < b \<or> b + tsize (Tree n ts) \<le> p" "N1 p = N p" "N p \<noteq> None" if "\<not> f"
    using 1(7) [OF that] N1(4) by (auto simp: same_outside_def)
  have "r1 \<noteq> NO_CHILDREN" if "ts \<noteq> []"
    using last_leaf_bounds(2) [OF pos(2) that, of b] N1(2) that pos(3) 1(5) by simp
  then have "traversal_loop N1 (preceded f p S) r1 ?r fin =
      after_node (linked_to f p N1 ?r) (if l then S else last_leaf b (Tree n ts) # S)
        (if l then last_leaf b (Tree n ts) else r1) ?r (?r + own_qwords n) fin"
    using traversal_step [of N1 ?r node fin p S r1] root pos 1(4) p N1(2)
    by (auto simp: node_def)
  moreover have "laid Linked (linked_to f p N1 ?r) b f l NO_CHILDREN (Tree n ts)"
  proof -
    have "laids Linked True True (linked_to f p N1 ?r) b True NO_CHILDREN ts"
      by (rule laid_cong(2) [OF _ N1(3) pos(2)]) (use p in \<open>auto simp: link_def\<close>)
    moreover have "linked_to f p N1 ?r ?r = Some node" using root p(1) pos(1) by (auto simp: link_def)
    ultimately show ?thesis by (simp add: node_def x_def)
  qed
  moreover have "same_outside b (b + tsize (Tree n ts)) (linked_to f p N (root_pos b (Tree n ts))) (linked_to f p N1 ?r)"
    using N1(4) p(2) by (auto simp: same_outside_def link_def)
  ultimately show ?case
    using N1(1) by (intro exI [of _ "linked_to f p N1 ?r"] exI [of _ "if l then last_leaf b (Tree n ts) else r1"])
      (simp add: add.assoc)
next
  case (3 t ts)
  let ?m = "b + tsize t"
  have t: "twf t" "fwf ts" "?m < fin" "length S + theight t \<le> MAX_AST_DEPTH" "0 < tsize t"
    using 3(4,6,8) tsize_pos [of t] by auto
  obtain N1 r1 where N1: "traversal_loop N (preceded f p S) r b fin =
      traversal_loop N1 (if ts = [] then S else last_leaf b t # S) r1 ?m fin"
    "ts = [] \<longrightarrow> r1 = last_leaf b t" "laid Linked N1 b f (ts = []) NO_CHILDREN t"
    "same_outside b ?m (linked_to f p N (root_pos b t)) N1"
  proof -
    have "laid Flagged N b f (ts = []) NO_CHILDREN t" using 3(3) by (cases ts) auto
    moreover have "(p < b \<or> b + tsize t \<le> p) \<and> N p \<noteq> None" if "\<not> f" using 3(9) [OF that] by auto
    ultimately show ?thesis
      using 3(1) [OF _ t(1) less_imp_le [OF t(3)] 3(7) t(4), of N f "ts = []" p r] that
      unfolding after_node_before [OF t(3)] by blast
  qed
  show ?case
  proof (cases "ts = []")
    case True
    then show ?thesis using N1 by (cases f) auto
  next
    case False
    then obtain u us where ts: "ts = u # us" by (cases ts) auto
    have leaf: "b \<le> last_leaf b t" "last_leaf b t < ?m" using last_leaf_bounds(1) [OF t(1)] by auto
    have flagged: "laids Flagged True True N1 ?m False NO_CHILDREN ts"
      by (rule laid_cong(2) [OF _ _ t(2), where N = N])
        (use N1(4) 3(3,9) in \<open>auto simp: same_outside_def link_def\<close>)
    have some: "N1 (last_leaf b t) \<noteq> None" by (rule laids_linked_not_None(1) [OF N1(3) t(1)])
    have bounds: "?m + fsize ts < fin" "length S + fheight ts \<le> MAX_AST_DEPTH" using 3(6,8) by auto
    obtain N2 where N2: "traversal_loop N1 (last_leaf b t # S) r1 ?m fin =
        traversal_loop N2 S (last_leafs ?m ts) (?m + fsize ts) fin"
      "laids Linked True True N2 ?m False NO_CHILDREN ts"
      "same_outside ?m (?m + fsize ts) (link N1 (last_leaf b t) (root_pos ?m u)) N2"
      using 3(2) [OF flagged t(2) False bounds(1) 3(7) bounds(2), of "last_leaf b t" r1] leaf some ts
      by (auto simp del: last_leafs.simps laids.simps fsize.simps)
    have "laid Linked N2 b f False (root_pos ?m u) t"
      by (rule laid_outside(1) [OF N2(3) _ _ t(1)]) (use laid_relink(1) [OF N1(3) t(1)] False in auto)
    moreover have "same_outside b (b + fsize (t # ts)) (linked_to f p N (root_pos b t)) N2"
      using N1(4) N2(3) leaf by (auto simp: same_outside_def)
    ultimately show ?thesis
      using N1(1) N2(1,2) ts by (intro exI [of _ N2]) (cases f; simp add: add.assoc)
  qed
qed simp

lemma build_traversal_list_laid:
  assumes "laid Flagged N 0 True True NO_CHILDREN t" and "twf t" and "tsize t < NO_CHILDREN"
    and "theight t \<le> MAX_AST_DEPTH"
  shows "\<exists>N'. build_traversal_list N (tsize t) = Inr (N', root_pos 0 t) \<and> laid Linked N' 0 True True NO_CHILDREN t"
  using traversal_loop_laid(1) [OF assms(1,2), of "tsize t" "[]" 0 NO_CHILDREN] assms(3,4)
  by (auto simp: build_traversal_list_def after_node_def)

end
