(* ===== verification/AstPreorder.thy ===== *)
theory AstPreorder
  imports AstLayout
begin

text \<open>
  The second half of \<open>complete_ast\<close>: the linked nodes of the builder are copied to the pool in
  preorder. While a tree is being copied, the nodes on its right spine are open: their sizes are
  not known yet, and they are on the stack. The result of the whole operation is the tree in
  preorder, each node with the size of its subtree.
\<close>

section \<open>The layouts in preorder\<close>

fun pre :: "node_store \<Rightarrow> nat \<Rightarrow> bool \<Rightarrow> bool \<Rightarrow> tree \<Rightarrow> bool"
  and pres :: "node_store \<Rightarrow> nat \<Rightarrow> bool \<Rightarrow> tree list \<Rightarrow> bool" where
  "pre D d f l (Tree n ts) \<longleftrightarrow>
     D d = Some (with_structure n f l (ts = []) (own_qwords n + fsize ts)) \<and> pres D (d + own_qwords n) True ts"
| "pres D d f [] \<longleftrightarrow> True"
| "pres D d f (t # ts) \<longleftrightarrow> pre D d f (ts = []) t \<and> pres D (d + tsize t) False ts"

fun popen :: "node_store \<Rightarrow> nat \<Rightarrow> bool \<Rightarrow> bool \<Rightarrow> tree \<Rightarrow> bool"
  and popens :: "node_store \<Rightarrow> nat \<Rightarrow> bool \<Rightarrow> tree list \<Rightarrow> bool" where
  "popen D d f l (Tree n ts) \<longleftrightarrow>
     (\<exists>x. D d = Some (with_structure n f l (ts = []) x)) \<and> popens D (d + own_qwords n) True ts"
| "popens D d f [] \<longleftrightarrow> True"
| "popens D d f (t # ts) \<longleftrightarrow>
     (if ts = [] then popen D d f True t else pre D d f False t \<and> popens D (d + tsize t) False ts)"

fun spine :: "nat \<Rightarrow> tree \<Rightarrow> nat list" and spines :: "nat \<Rightarrow> tree list \<Rightarrow> nat list" where
  "spine d (Tree n ts) = spines (d + own_qwords n) ts @ [d]"
| "spines d [] = []"
| "spines d (t # ts) = (if ts = [] then spine d t else spines (d + tsize t) ts)"

lemma pre_cong:
  "(\<And>i. d \<le> i \<Longrightarrow> i < d + tsize t \<Longrightarrow> D' i = D i) \<Longrightarrow> twf t \<Longrightarrow> pre D d f l t \<Longrightarrow> pre D' d f l t"
  "(\<And>i. d \<le> i \<Longrightarrow> i < d + fsize ts \<Longrightarrow> D' i = D i) \<Longrightarrow> fwf ts \<Longrightarrow> pres D d f ts \<Longrightarrow> pres D' d f ts"
  by (induction t and ts arbitrary: d f l and d f rule: tcount_fcount.induct) auto

lemma pre_shift:
  "pre D d f l t \<Longrightarrow> twf t \<Longrightarrow> (\<And>i. d \<le> i \<Longrightarrow> i < d + tsize t \<Longrightarrow> D' (c + i) = D i) \<Longrightarrow> pre D' (c + d) f l t"
  "pres D d f ts \<Longrightarrow> fwf ts \<Longrightarrow> (\<And>i. d \<le> i \<Longrightarrow> i < d + fsize ts \<Longrightarrow> D' (c + i) = D i) \<Longrightarrow> pres D' (c + d) f ts"
  by (induction t and ts arbitrary: d f l and d f rule: tcount_fcount.induct) (auto simp: add.assoc)

lemma popen_cong:
  "(\<And>i. d \<le> i \<Longrightarrow> i < d + tsize t \<Longrightarrow> D' i = D i) \<Longrightarrow> twf t \<Longrightarrow> popen D d f l t \<Longrightarrow> popen D' d f l t"
  "(\<And>i. d \<le> i \<Longrightarrow> i < d + fsize ts \<Longrightarrow> D' i = D i) \<Longrightarrow> fwf ts \<Longrightarrow> popens D d f ts \<Longrightarrow> popens D' d f ts"
proof (induction t and ts arbitrary: d f l and d f rule: tcount_fcount.induct)
  case (3 t ts)
  then show ?case using pre_cong(1) [of d t D' D f False] by auto
qed auto

lemma spine_bounds:
  "twf t \<Longrightarrow> p \<in> set (spine d t) \<Longrightarrow> d \<le> p \<and> p < d + tsize t"
  "fwf ts \<Longrightarrow> p \<in> set (spines d ts) \<Longrightarrow> d \<le> p \<and> p < d + fsize ts"
  by (induction t and ts arbitrary: d and d rule: tcount_fcount.induct) (fastforce split: if_splits)+

section \<open>Closing a spine\<close>

fun closed :: "node_store \<Rightarrow> nat list \<Rightarrow> nat \<Rightarrow> node_store" where
  "closed D [] e = D"
| "closed D (p # ps) e = closed (D(p := map_option (\<lambda>q. q\<lparr>next_sibling_offset := e - p\<rparr>) (D p))) ps e"

lemma closed_append: "closed D (ps @ qs) e = closed (closed D ps e) qs e"
  by (induction ps arbitrary: D) auto

lemma closed_other: "i \<notin> set ps \<Longrightarrow> closed D ps e i = D i"
  by (induction ps arbitrary: D) auto

lemma closed_upd: "i \<notin> set ps \<Longrightarrow> closed (D(i := x)) ps e = (closed D ps e)(i := x)"
proof (induction ps arbitrary: D)
  case (Cons p ps)
  let ?y = "map_option (\<lambda>q. q\<lparr>next_sibling_offset := e - p\<rparr>) (D p)"
  have "closed (D(i := x)) (p # ps) e = closed (D(p := ?y, i := x)) ps e"
    using Cons(2) fun_upd_twist [of p i D ?y x]
    by (metis closed.simps(2) fun_upd_other list.set_intros(1))
  also have "\<dots> = (closed (D(p := ?y)) ps e)(i := x)"
    using Cons(2) by (intro Cons(1)) simp
  finally show ?case by (simp only: closed.simps)
qed simp

lemma closed_popen:
  "popen D d f l t \<Longrightarrow> twf t \<Longrightarrow> pre (closed D (spine d t) (d + tsize t)) d f l t"
  "popens D d f ts \<Longrightarrow> fwf ts \<Longrightarrow> pres (closed D (spines d ts) (d + fsize ts)) d f ts"
proof (induction t and ts arbitrary: d f l and d f rule: tcount_fcount.induct)
  case (1 n ts)
  let ?c = "closed D (spines (d + own_qwords n) ts) (d + (own_qwords n + fsize ts))"
  have c: "pres ?c (d + own_qwords n) True ts" using 1(1) [of "d + own_qwords n" True] 1(2,3) by (simp add: add.assoc)
  have "?c d = D d"
    using 1(3) spine_bounds(2) [of ts d "d + own_qwords n"] by (intro closed_other) auto
  moreover have "pres (?c(d := x)) (d + own_qwords n) True ts" for x
    by (rule pre_cong(2) [OF _ _ c]) (use 1(3) in auto)
  ultimately show ?case
    using 1(2) by (auto simp: closed_append ac_simps simp del: fun_upd_apply) (simp_all add: fun_upd_same)
next
  case (3 t ts)
  show ?case
  proof (cases "ts = []")
    case False
    have "pre (closed D (spines (d + tsize t) ts) (d + (tsize t + fsize ts))) d f False t"
    proof (rule pre_cong(1))
      show "closed D (spines (d + tsize t) ts) (d + (tsize t + fsize ts)) i = D i" if "i < d + tsize t" for i
        using spine_bounds(2) [of ts i "d + tsize t"] 3(4) that by (intro closed_other) auto
    qed (use 3(3,4) False in auto)
    then show ?thesis using 3(2) [of "d + tsize t" False] 3(3,4) False by (simp add: add.assoc)
  qed (use 3(1) [of d f True] 3(3,4) in simp)
qed simp

lemma pop_siblings_step:
  "D p = Some q \<Longrightarrow> S \<noteq> [] \<Longrightarrow> pop_siblings D (p # S) e =
     (let D' = closed D [p] e in if last_sibling q then pop_siblings D' S e else Inr (D', S))"
  by (cases S) (auto simp: Let_def)

lemma pop_siblings_open:
  "popen D d f l t \<Longrightarrow> twf t \<Longrightarrow> S \<noteq> [] \<Longrightarrow> pop_siblings D (spine d t @ S) e =
     (let D' = closed D (spine d t) e in if l then pop_siblings D' S e else Inr (D', S))"
  "popens D d f ts \<Longrightarrow> fwf ts \<Longrightarrow> S \<noteq> [] \<Longrightarrow> pop_siblings D (spines d ts @ S) e =
     pop_siblings (closed D (spines d ts) e) S e"
proof (induction t and ts arbitrary: d f l S and d f S rule: tcount_fcount.induct)
  case (1 n ts)
  let ?c = "closed D (spines (d + own_qwords n) ts) e"
  have "?c d = D d"
    using 1(3) spine_bounds(2) [of ts d "d + own_qwords n"] by (intro closed_other) auto
  then show ?case
    using 1(1) [of "d + own_qwords n" True "d # S"] 1(2-4)
    by (auto simp: pop_siblings_step closed_append Let_def simp del: pop_siblings.simps fun_upd_apply)
next
  case (3 t ts)
  show ?case
  proof (cases "ts = []")
    case True
    then show ?thesis using 3(1) [of d f True S] 3(3-5) by (simp add: Let_def)
  next
    case False
    then show ?thesis using 3(2) [of "d + tsize t" False S] 3(3-5) by simp
  qed
qed simp

lemma close_siblings_closed: "(\<And>p. p \<in> set ps \<Longrightarrow> D p \<noteq> None) \<Longrightarrow> close_siblings D ps e = Inr (closed D ps e)"
proof (induction ps arbitrary: D)
  case (Cons p ps)
  then obtain q where q: "D p = Some q" by auto
  have "close_siblings (D(p \<mapsto> q\<lparr>next_sibling_offset := e - p\<rparr>)) ps e =
      Inr (closed (D(p \<mapsto> q\<lparr>next_sibling_offset := e - p\<rparr>)) ps e)"
    by (rule Cons(1)) (use Cons(2) in auto)
  then show ?case using q by simp
qed simp

lemma popen_spine_not_None:
  "popen D d f l t \<Longrightarrow> p \<in> set (spine d t) \<Longrightarrow> D p \<noteq> None"
  "popens D d f ts \<Longrightarrow> p \<in> set (spines d ts) \<Longrightarrow> D p \<noteq> None"
  by (induction t and ts arbitrary: d f l and d f rule: tcount_fcount.induct) (auto split: if_splits)

section \<open>Copying\<close>

definition resume ::
  "nat \<Rightarrow> node_store \<Rightarrow> node_store \<Rightarrow> nat list \<Rightarrow> nat \<Rightarrow> nat \<Rightarrow> (node_store \<times> nat list) outcome" where
  "resume steps N D S k d = (if k = NO_CHILDREN then Inr (D, S) else copy_loop steps N D S k d)"

text \<open>The stack \<open>Q\<close> becomes \<open>S\<close> and the nodes \<open>D\<close> become \<open>D'\<close> when a node is put at \<open>d\<close>.\<close>

definition makes_room :: "bool \<Rightarrow> node_store \<Rightarrow> nat list \<Rightarrow> nat \<Rightarrow> node_store \<Rightarrow> nat list \<Rightarrow> bool" where
  "makes_room f D Q d D' S \<longleftrightarrow>
     (if f then Q = S \<and> D' = D else \<forall>x. pop_siblings (D(d := x)) Q d = Inr (D'(d := x), S))"

lemma copy_loop_step:
  assumes "N i = Some node" and "makes_room (first_sibling node) D Q d D' S" and "length S < MAX_AST_DEPTH"
  shows "copy_loop (Suc steps) N D Q i d =
    resume steps N (D'(d \<mapsto> node)) (d # S) (next_sibling_offset node) (d + own_qwords node)"
  using assms by (simp add: makes_room_def resume_def Let_def split: if_splits)

lemma makes_room_sibling:
  assumes "popen D d f False t" and "twf t" and "S \<noteq> []"
  shows "makes_room False D (spine d t @ S) (d + tsize t) (closed D (spine d t) (d + tsize t)) S"
proof -
  have "d + tsize t \<notin> set (spine d t)"
    using spine_bounds(1) [OF assms(2)] by force
  moreover have "pop_siblings (D(d + tsize t := x)) (spine d t @ S) e = Inr (closed (D(d + tsize t := x)) (spine d t) e, S)" for x e
  proof -
    have "popen (D(d + tsize t := x)) d f False t"
      by (rule popen_cong(1) [OF _ assms(2,1)]) simp
    from pop_siblings_open(1) [OF this assms(2,3), of e] show ?thesis by (simp only: Let_def if_False)
  qed
  ultimately show ?thesis by (simp only: makes_room_def closed_upd if_False not_False_eq_True simp_thms)
qed

lemma copy_loop_laid:
  "laid Linked N b f l k t \<Longrightarrow> twf t \<Longrightarrow> b + tsize t < NO_CHILDREN
     \<Longrightarrow> length S + theight t \<le> MAX_AST_DEPTH \<Longrightarrow> makes_room f D Q d D1 S
     \<Longrightarrow> \<exists>D'. copy_loop (tcount t + steps) N D Q (root_pos b t) d = resume steps N D' (spine d t @ S) k (d + tsize t)
         \<and> popen D' d f l t \<and> same_outside d (d + tsize t) D1 D'"
  "laids Linked True True N b f k ts \<Longrightarrow> fwf ts \<Longrightarrow> ts \<noteq> [] \<Longrightarrow> b + fsize ts < NO_CHILDREN \<Longrightarrow> S \<noteq> []
     \<Longrightarrow> length S + fheight ts \<le> MAX_AST_DEPTH \<Longrightarrow> makes_room f D Q d D1 S
     \<Longrightarrow> \<exists>D'. copy_loop (fcount ts + steps) N D Q (root_pos b (hd ts)) d = resume steps N D' (spines d ts @ S) k (d + fsize ts)
         \<and> popens D' d f ts \<and> same_outside d (d + fsize ts) D1 D'"
proof (induction t and ts arbitrary: b f l k S D Q d D1 steps and b f k S D Q d D1 steps rule: tcount_fcount.induct)
  case (1 n ts)
  define x where "x = (case ts of [] \<Rightarrow> k | t # _ \<Rightarrow> root_pos b t)"
  define node where "node = with_structure n f l (ts = []) x"
  let ?D = "D1(d \<mapsto> node)"
  have root: "N (b + fsize ts) = Some node" using 1(2) by (simp add: node_def x_def)
  have pos: "0 < own_qwords n" "fwf ts" "length S < MAX_AST_DEPTH" using 1(3,5) by auto
  have step: "copy_loop (Suc m) N D Q (b + fsize ts) d = resume m N ?D (d # S) x (d + own_qwords n)" for m
    using copy_loop_step [of N "b + fsize ts" node D Q d D1 S] root pos(3) 1(6) by (simp add: node_def)
  show ?case
  proof (cases "ts = []")
    case True
    then show ?thesis
      using step [of steps] pos same_outside_upd [of d d "d + own_qwords n" D1]
      by (intro exI [of _ ?D]) (auto simp: node_def x_def fun_upd_same simp del: copy_loop.simps fun_upd_apply)
  next
    case False
    then have x: "x = root_pos b (hd ts)" by (cases ts) (auto simp: x_def)
    have "x < b + fsize ts"
      using root_pos_bounds [of "hd ts" b] pos(2) False x by (cases ts) auto
    then have "resume m N ?D (d # S) x e = copy_loop m N ?D (d # S) (root_pos b (hd ts)) e" for m e
      using 1(4) x by (simp add: resume_def)
    moreover obtain D' where D':
      "copy_loop (fcount ts + steps) N ?D (d # S) (root_pos b (hd ts)) (d + own_qwords n) =
         resume steps N D' (spines (d + own_qwords n) ts @ d # S) k (d + own_qwords n + fsize ts)"
      "popens D' (d + own_qwords n) True ts"
      "same_outside (d + own_qwords n) (d + own_qwords n + fsize ts) ?D D'"
      using 1(1) [of b True k "d # S" ?D "d # S" "d + own_qwords n" ?D steps] 1(2,4,5) pos False
      by (auto simp: makes_room_def simp del: fun_upd_apply)
    have "D' d = Some node" using D'(3) pos(1) by (simp add: same_outside_def)
    moreover have "same_outside d (d + tsize (Tree n ts)) D1 D'"
      using D'(3) pos(1) by (auto simp: same_outside_def)
    ultimately show ?thesis
      using step [of "fcount ts + steps"] D'(1,2)
      by (intro exI [of _ D']) (auto simp: node_def ac_simps simp del: copy_loop.simps)
  qed
next
  case (3 t ts)
  let ?e = "d + tsize t"
  have t: "twf t" "fwf ts" "b + tsize t < NO_CHILDREN" "length S + theight t \<le> MAX_AST_DEPTH"
    "length S + fheight ts \<le> MAX_AST_DEPTH" using 3(4,6,8) by auto
  define k' where "k' = (case ts of [] \<Rightarrow> k | u # _ \<Rightarrow> root_pos (b + tsize t) u)"
  have "laid Linked N b f (ts = []) k' t" using 3(3) by (auto simp: k'_def split: list.splits)
  then obtain D2 where D2: "copy_loop (tcount t + (fcount ts + steps)) N D Q (root_pos b t) d =
      resume (fcount ts + steps) N D2 (spine d t @ S) k' ?e"
    "popen D2 d f (ts = []) t" "same_outside d ?e D1 D2"
    using 3(1) [OF _ t(1,3,4) 3(9)] by blast
  show ?case
  proof (cases "ts = []")
    case True
    then show ?thesis using D2 by (intro exI [of _ D2]) (simp add: k'_def)
  next
    case False
    let ?D = "closed D2 (spine d t) ?e"
    have k': "k' = root_pos (b + tsize t) (hd ts)" using False by (cases ts) (auto simp: k'_def)
    have "k' < b + tsize t + fsize ts"
      using root_pos_bounds [of "hd ts" "b + tsize t"] t(2) False k' by (cases ts) auto
    then have go: "resume m N D2 (spine d t @ S) k' ?e = copy_loop m N D2 (spine d t @ S) (root_pos (b + tsize t) (hd ts)) ?e" for m
      using 3(6) k' by (simp add: resume_def)
    have room: "makes_room False D2 (spine d t @ S) ?e ?D S"
      using makes_room_sibling [OF _ t(1) 3(7)] D2(2) False by simp
    have flags: "laids Linked True True N (b + tsize t) False k ts" "b + tsize t + fsize ts < NO_CHILDREN"
      using 3(3,6) by auto
    obtain D' where D': "copy_loop (fcount ts + steps) N D2 (spine d t @ S) (root_pos (b + tsize t) (hd ts)) ?e =
        resume steps N D' (spines ?e ts @ S) k (?e + fsize ts)"
      "popens D' ?e False ts" "same_outside ?e (?e + fsize ts) ?D D'"
      using 3(2) [OF flags(1) t(2) False flags(2) 3(7) t(5) room] by blast
    have "pre ?D d f False t" using closed_popen(1) [OF _ t(1)] D2(2) False by simp
    then have "pre D' d f False t"
      by (rule pre_cong(1) [OF _ t(1), rotated]) (use D'(3) in \<open>auto simp: same_outside_def\<close>)
    moreover have "?D i = D2 i" if "i < d \<or> ?e \<le> i" for i
      using spine_bounds(1) [OF t(1), of i d] that by (intro closed_other) auto
    then have "same_outside d (d + fsize (t # ts)) D1 D'"
      using D2(3) D'(3) by (auto simp: same_outside_def)
    ultimately show ?thesis
      using D2(1) go D'(1,2) False by (intro exI [of _ D']) (simp add: ac_simps)
  qed
qed simp

lemma copy_whole_tree:
  assumes "laid Linked N 0 True True NO_CHILDREN t" and "twf t" and "tsize t < NO_CHILDREN"
    and "theight t \<le> MAX_AST_DEPTH"
  shows "\<exists>D S D'. copy_loop (tsize t) N (\<lambda>_. None) [] (root_pos 0 t) 0 = Inr (D, S)
    \<and> close_siblings D S (tsize t) = Inr D' \<and> pre D' 0 True True t"
proof -
  obtain D where D: "copy_loop (tsize t) N (\<lambda>_. None) [] (root_pos 0 t) 0 = Inr (D, spine 0 t)" "popen D 0 True True t"
    using copy_loop_laid(1) [OF assms(1,2), of "[]" "\<lambda>_. None" "[]" 0 "\<lambda>_. None" "tsize t - tcount t"]
      assms(3,4) tcount_tsize(1) [OF assms(2)] by (auto simp: makes_room_def resume_def)
  have "close_siblings D (spine 0 t) (tsize t) = Inr (closed D (spine 0 t) (tsize t))"
    using popen_spine_not_None(1) [OF D(2)] by (rule close_siblings_closed)
  then show ?thesis using closed_popen(1) [OF D(2) assms(2)] D(1) by auto
qed

lemma complete_ast_laid:
  assumes "laid Pushed (node_builder a) 0 False False NO_CHILDREN t" and "builder_used a = tsize t"
    and "twf t" and "theight t \<le> MAX_AST_DEPTH" and "tsize t < NO_CHILDREN"
    and "ast_used a + tsize t \<le> NODES_RESERVE_SIZE" and "ast_room a (ast_used a + tsize t)"
  shows "\<exists>N. complete_ast a = Inr (a\<lparr>node_builder := (\<lambda>_. None), builder_used := 0,
        ast_nodes := N, ast_used := ast_used a + tsize t\<rparr>, ast_used a)
    \<and> pre N (ast_used a) True True t
    \<and> (\<forall>i. i < ast_used a \<or> ast_used a + tsize t \<le> i \<longrightarrow> N i = ast_nodes a i)"
proof -
  obtain N1 where N1: "set_flags (node_builder a) (tsize t) = Inr N1" "laid Flagged N1 0 True True NO_CHILDREN t"
    using set_flags_laid [OF assms(1,3,5)] by blast
  obtain N2 where N2: "build_traversal_list N1 (tsize t) = Inr (N2, root_pos 0 t)" "laid Linked N2 0 True True NO_CHILDREN t"
    using build_traversal_list_laid [OF N1(2) assms(3,5,4)] by blast
  obtain D S D' where D: "copy_loop (tsize t) N2 (\<lambda>_. None) [] (root_pos 0 t) 0 = Inr (D, S)"
    "close_siblings D S (tsize t) = Inr D'" "pre D' 0 True True t"
    using copy_whole_tree [OF N2(2) assms(3,5,4)] by blast
  let ?N = "\<lambda>i. if ast_used a \<le> i \<and> i < ast_used a + tsize t then D' (i - ast_used a) else ast_nodes a i"
  have "pre ?N (ast_used a + 0) True True t"
    by (rule pre_shift(1) [OF D(3) assms(3)]) simp
  moreover have "complete_ast a = Inr (a\<lparr>node_builder := (\<lambda>_. None), builder_used := 0,
        ast_nodes := ?N, ast_used := ast_used a + tsize t\<rparr>, ast_used a)"
    using N1(1) N2(1) D(1,2) assms(2,6,7)
    by (simp add: complete_ast_def copy_postorder_to_preorder_def alloc_ast_def cong: if_cong)
  ultimately show ?thesis by auto
qed

section \<open>Building and completing a tree\<close>

text \<open>The calls of \<open>push_node\<close> for a tree: the children first, then the node with the place of its first child.\<close>

fun push_tree :: "AstPool \<Rightarrow> tree \<Rightarrow> (AstPool \<times> nat) outcome"
  and push_forest :: "AstPool \<Rightarrow> tree list \<Rightarrow> (AstPool \<times> nat) outcome" where
  "push_tree a (Tree n ts) =
     obind (push_forest a ts) (\<lambda>(a, first_child).
       push_node_data a first_child (node_source n) (flags n) (tag n) (attachment n))"
| "push_forest a [] = Inr (a, NO_CHILDREN)"
| "push_forest a (t # ts) =
     obind (push_tree a t) (\<lambda>(a, i). obind (push_forest a ts) (\<lambda>(a, _). Inr (a, i)))"

text \<open>The sizes in the tree are those that \<open>push_node\<close> computes from the attachments.\<close>

fun tsized :: "tree \<Rightarrow> bool" and fsized :: "tree list \<Rightarrow> bool" where
  "tsized (Tree n ts) \<longleftrightarrow> own_qwords n = 1 + attachment_qwords (attachment n) \<and> own_qwords n < 256 \<and> fsized ts"
| "fsized [] \<longleftrightarrow> True"
| "fsized (t # ts) \<longleftrightarrow> tsized t \<and> fsized ts"

lemma tsized_twf: "tsized t \<Longrightarrow> twf t" "fsized ts \<Longrightarrow> fwf ts"
  by (induction t and ts rule: tcount_fcount.induct) auto

definition builder_fits :: "AstPool \<Rightarrow> nat \<Rightarrow> bool" where
  "builder_fits a n \<longleftrightarrow> builder_used a + n \<le> NODE_BUILDER_RESERVE_SIZE \<and> (\<forall>i \<le> builder_used a + n. builder_room a i)"

lemma push_tree_laid:
  "tsized t \<Longrightarrow> builder_fits a (tsize t) \<Longrightarrow>
     \<exists>N. push_tree a t = Inr (a\<lparr>node_builder := N, builder_used := builder_used a + tsize t\<rparr>, root_pos (builder_used a) t)
       \<and> laid Pushed N (builder_used a) False False NO_CHILDREN t
       \<and> same_outside (builder_used a) (builder_used a + tsize t) (node_builder a) N"
  "fsized ts \<Longrightarrow> builder_fits a (fsize ts) \<Longrightarrow>
     \<exists>N. push_forest a ts = Inr (a\<lparr>node_builder := N, builder_used := builder_used a + fsize ts\<rparr>,
             case ts of [] \<Rightarrow> NO_CHILDREN | t # _ \<Rightarrow> root_pos (builder_used a) t)
       \<and> laids Pushed False False N (builder_used a) f NO_CHILDREN ts
       \<and> same_outside (builder_used a) (builder_used a + fsize ts) (node_builder a) N"
proof (induction t and ts arbitrary: a and a f rule: tcount_fcount.induct)
  case (1 n ts)
  let ?b = "builder_used a" and ?r = "builder_used a + fsize ts"
  let ?x = "case ts of [] \<Rightarrow> NO_CHILDREN | t # _ \<Rightarrow> root_pos ?b t"
  have sized: "own_qwords n = 1 + attachment_qwords (attachment n)" "own_qwords n < 256" "fsized ts"
    and fits: "builder_fits a (fsize ts)" "?r + own_qwords n \<le> NODE_BUILDER_RESERVE_SIZE" "builder_room a (?r + own_qwords n)"
    using 1(2,3) by (auto simp: builder_fits_def)
  obtain N where N: "push_forest a ts = Inr (a\<lparr>node_builder := N, builder_used := ?r\<rparr>, ?x)"
    "laids Pushed False False N ?b True NO_CHILDREN ts" "same_outside ?b ?r (node_builder a) N"
    using 1(1) [OF sized(3) fits(1), of True] by blast
  let ?node = "with_structure n False False (ts = []) ?x"
  have "?x < NO_CHILDREN" if "ts \<noteq> []"
    using root_pos_bounds [of "hd ts" ?b] tsized_twf(2) [OF sized(3)] fits(2) that
    by (cases ts) (auto simp: NODE_BUILDER_RESERVE_SIZE_def)
  then have "?x = NO_CHILDREN \<longleftrightarrow> ts = []" by (cases ts) auto
  then have node: "?node = \<lparr>tag = tag n, flags = flags n, own_qwords = own_qwords n, first_sibling = False,
      last_sibling = False, no_children = (?x = NO_CHILDREN), next_sibling_offset = ?x,
      attachment = attachment n, node_source = node_source n\<rparr>"
    by (cases n) (simp add: with_structure_def)
  have "push_tree a (Tree n ts) =
      Inr (a\<lparr>node_builder := N(?r \<mapsto> ?node), builder_used := ?r + own_qwords n\<rparr>, ?r)"
    using N(1) sized fits(2,3) by (simp add: push_node_data_def push_node_qwords_def node)
  moreover have "laids Pushed False False (N(?r \<mapsto> ?node)) ?b True NO_CHILDREN ts"
    by (rule laid_cong(2) [OF _ N(2) tsized_twf(2) [OF sized(3)]]) simp
  moreover have "same_outside ?b (?b + tsize (Tree n ts)) (node_builder a) (N(?r \<mapsto> ?node))"
    using N(3) sized(1) by (auto simp: same_outside_def)
  ultimately show ?case
    by (intro exI [of _ "N(?r \<mapsto> ?node)"]) (simp add: add.assoc fun_upd_same del: fun_upd_apply)
next
  case (2 a f)
  then show ?case by (intro exI [of _ "node_builder a"]) simp
next
  case (3 t ts)
  let ?b = "builder_used a" and ?m = "builder_used a + tsize t"
  have sized: "tsized t" "fsized ts" and fits: "builder_fits a (tsize t)" using 3(3,4) by (auto simp: builder_fits_def)
  obtain N where N: "push_tree a t = Inr (a\<lparr>node_builder := N, builder_used := ?m\<rparr>, root_pos ?b t)"
    "laid Pushed N ?b False False NO_CHILDREN t" "same_outside ?b ?m (node_builder a) N"
    using 3(1) [OF sized(1) fits] by blast
  have "builder_fits (a\<lparr>node_builder := N, builder_used := ?m\<rparr>) (fsize ts)"
    using 3(4) by (auto simp: builder_fits_def add.assoc)
  from 3(2) [OF sized(2) this, of False] obtain N' x where N':
    "push_forest (a\<lparr>node_builder := N, builder_used := ?m\<rparr>) ts = Inr (a\<lparr>node_builder := N', builder_used := ?m + fsize ts\<rparr>, x)"
    "laids Pushed False False N' ?m False NO_CHILDREN ts" "same_outside ?m (?m + fsize ts) N N'"
    by auto
  have "laid Pushed N' ?b False False NO_CHILDREN t"
    by (rule laid_outside(1) [OF N'(3) _ N(2) tsized_twf(1) [OF sized(1)]]) simp
  moreover have "same_outside ?b (?b + fsize (t # ts)) (node_builder a) N'"
    using N(3) N'(3) by (auto simp: same_outside_def)
  ultimately show ?case
    using N(1) N'(1,2) by (intro exI [of _ N']) (simp add: add.assoc split: list.split)
qed

section \<open>A sample tree\<close>

definition sample_node :: "AstTag \<Rightarrow> AstNode" where
  "sample_node tg = \<lparr>tag = tg, flags = 0, own_qwords = 1, first_sibling = False, last_sibling = False,
     no_children = False, next_sibling_offset = 0, attachment = NoData, node_source = 0\<rparr>"

definition sample_forest :: "tree list" where
  "sample_forest = [Tree (sample_node Tag_Block) [Tree (sample_node Tag_Wildcard) []], Tree (sample_node Tag_Self) []]"

definition sample_tree :: tree where
  "sample_tree = Tree (sample_node Tag_If) sample_forest"

definition sample_pool :: AstPool where
  "sample_pool = \<lparr>node_builder = (\<lambda>_. None), builder_used = 0, ast_nodes = (\<lambda>_. None), ast_used = 1,
     closure_lists = (\<lambda>_. None), closure_used = 1, builder_room = (\<lambda>_. True), ast_room = (\<lambda>_. True),
     closure_room = (\<lambda>_. True)\<rparr>"

lemma sample_node_own [simp]: "own_qwords (sample_node tg) = 1" "attachment (sample_node tg) = NoData"
  by (simp_all add: sample_node_def)

text \<open>
  C19: A tree whose nodes are pushed to an empty builder in postorder, and that is at most 128
  levels deep and fits the pool, is completed: the pool gets the tree in preorder behind what it
  has, each node with its sibling flags and the size of its subtree, earlier trees keep their
  nodes, and the builder is empty again.
\<close>

theorem complete_ast_builds_tree:
  assumes "builder_used a = 0" and "tsized t" and "theight t \<le> MAX_AST_DEPTH"
    and "builder_fits a (tsize t)"
    and "ast_used a + tsize t \<le> NODES_RESERVE_SIZE" and "ast_room a (ast_used a + tsize t)"
  shows "\<exists>a' N. obind (push_tree a t) (\<lambda>(a', _). complete_ast a') = Inr (a', ast_used a)
    \<and> a' = a\<lparr>node_builder := (\<lambda>_. None), ast_nodes := N, ast_used := ast_used a + tsize t\<rparr>
    \<and> pre N (ast_used a) True True t
    \<and> (\<forall>i. i < ast_used a \<or> ast_used a + tsize t \<le> i \<longrightarrow> N i = ast_nodes a i)"
proof -
  obtain N where N: "push_tree a t = Inr (a\<lparr>node_builder := N, builder_used := tsize t\<rparr>, root_pos 0 t)"
    "laid Pushed N 0 False False NO_CHILDREN t"
    using push_tree_laid(1) [OF assms(2,4)] assms(1) by auto
  have "tsize t < NO_CHILDREN" using assms(1,4) by (simp add: builder_fits_def NODE_BUILDER_RESERVE_SIZE_def)
  then show ?thesis
    using complete_ast_laid [of "a\<lparr>node_builder := N, builder_used := tsize t\<rparr>" t] N assms(1,3,5,6)
      tsized_twf(1) [OF assms(2)] by (cases a) auto
qed

lemma complete_ast_builds_tree_witness:
  "\<exists>a' N. obind (push_tree sample_pool sample_tree) (\<lambda>(a', _). complete_ast a') = Inr (a', 1)
    \<and> pre N 1 True True sample_tree \<and> ast_nodes a' = N"
proof -
  have "builder_used sample_pool = 0" and "tsized sample_tree" and "theight sample_tree \<le> MAX_AST_DEPTH"
    and "builder_fits sample_pool (tsize sample_tree)"
    and "ast_used sample_pool + tsize sample_tree \<le> NODES_RESERVE_SIZE"
    and "ast_room sample_pool (ast_used sample_pool + tsize sample_tree)"
    by (simp_all add: sample_pool_def sample_tree_def sample_forest_def builder_fits_def
      MAX_AST_DEPTH_def NODES_RESERVE_SIZE_def NODE_BUILDER_RESERVE_SIZE_def)
  moreover have "ast_used sample_pool = 1" by (simp add: sample_pool_def)
  ultimately show ?thesis using complete_ast_builds_tree [of sample_pool sample_tree] by auto
qed

end
