(* ===== verification/AstIterators.thy ===== *)
theory AstIterators
  imports AstAccess AstPreorder
begin

text \<open>
  What the iterators of src/core/ast_pool.cpp return on a tree in preorder: each as the list of all
  its results, with the bound on the rounds that the number of nodes gives.
\<close>

section \<open>Lists of nodes\<close>

fun child_positions :: "nat \<Rightarrow> tree list \<Rightarrow> nat list" where
  "child_positions d [] = []"
| "child_positions d (t # ts) = d # child_positions (d + tsize t) ts"

fun preorder_nodes :: "nat \<Rightarrow> nat \<Rightarrow> tree list \<Rightarrow> (nat \<times> nat) list" where
  "preorder_nodes dep d [] = []"
| "preorder_nodes dep d (Tree n us # ts) =
     (d, dep) # preorder_nodes (Suc dep) (d + own_qwords n) us @ preorder_nodes dep (d + tsize (Tree n us)) ts"

fun postorder_nodes :: "nat \<Rightarrow> nat \<Rightarrow> tree list \<Rightarrow> (nat \<times> nat) list" where
  "postorder_nodes dep d [] = []"
| "postorder_nodes dep d (Tree n us # ts) =
     postorder_nodes (Suc dep) (d + own_qwords n) us @ (d, dep) # postorder_nodes dep (d + tsize (Tree n us)) ts"

lemma node_lists_same_set: "set (preorder_nodes dep d ts) = set (postorder_nodes dep d ts)"
  by (induction dep d ts rule: preorder_nodes.induct) auto

lemma pre_root: "pre N d f l (Tree n ts) \<Longrightarrow> N d = Some (with_structure n f l (ts = []) (tsize (Tree n ts)))"
  by (simp add: add.commute)

abbreviation prepend :: "'a list \<Rightarrow> 'a list outcome \<Rightarrow> 'a list outcome" where
  "prepend xs r \<equiv> obind r (\<lambda>ys. Inr (xs @ ys))"

lemma prepend_prepend: "prepend xs (prepend ys r) = prepend (xs @ ys) r"
  by (simp add: obind_assoc)

lemma prepend_Nil [simp]: "prepend [] r = r"
  by (cases r) auto

lemma drain_done: "\<not> has it \<Longrightarrow> drain r has nxt it = Inr []"
  by (subst drain.simps) simp

lemma drain_step:
  "has it \<Longrightarrow> nxt it = Inr (x, it') \<Longrightarrow> drain (Suc r) has nxt it = prepend [x] (drain r has nxt it')"
  by (subst drain.simps) simp

section \<open>The direct children\<close>

lemma drain_children:
  "pres N d f ts \<Longrightarrow> ts \<noteq> [] \<Longrightarrow>
     drain (length ts) (\<lambda>it. it \<noteq> None) (next_direct_child N) (Some d) = Inr (child_positions d ts)"
proof (induction d ts arbitrary: f rule: child_positions.induct)
  case (2 d t ts)
  obtain n us where t: "t = Tree n us" by (cases t)
  have node: "N d = Some (with_structure n f (ts = []) (us = []) (tsize t))"
    using 2(2) by (simp add: t add.commute)
  show ?case
  proof (cases "ts = []")
    case True
    have "next_direct_child N (Some d) = Inr (d, None)"
      using node True by (simp add: next_direct_child_def has_next_sibling_def)
    then show ?thesis using True by (simp add: drain_step drain_done)
  next
    case False
    have "next_direct_child N (Some d) = Inr (d, Some (d + tsize t))"
      using node False by (simp add: next_direct_child_def has_next_sibling_def next_sibling_of_def)
    then show ?thesis using 2(1) [of False] 2(2) False by (simp add: drain_step)
  qed
qed simp

text \<open>The iterator over the direct children of a node returns the places of all its children in their order.\<close>

theorem direct_children_in_order:
  assumes "pre N d f l (Tree n ts)"
  shows "obind (direct_children_of N d) (drain (length ts) (\<lambda>it. it \<noteq> None) (next_direct_child N)) =
    Inr (child_positions (d + own_qwords n) ts)"
  using drain_children [of N "d + own_qwords n" True ts] assms
  by (cases "ts = []") (auto simp: direct_children_of_def first_child_of_def has_children_def drain_done)

section \<open>Preorder\<close>

definition pre_state :: "nat \<Rightarrow> nat \<Rightarrow> nat list \<Rightarrow> AstPreorderIterator" where
  "pre_state d dep st = \<lparr>pre_curr = Some d, pre_depth = dep, pre_prev_depths = st\<rparr>"

text \<open>The state behind the last node of a subtree whose root is a last sibling.\<close>

definition pre_popped :: "nat \<Rightarrow> nat \<Rightarrow> nat list \<Rightarrow> AstPreorderIterator" where
  "pre_popped d dep st = (case st of
     [] \<Rightarrow> \<lparr>pre_curr = None, pre_depth = dep, pre_prev_depths = []\<rparr>
   | x # xs \<Rightarrow> pre_state d x xs)"

abbreviation drain_pre :: "nat \<Rightarrow> node_store \<Rightarrow> AstPreorderIterator \<Rightarrow> (nat \<times> nat) list outcome" where
  "drain_pre r N \<equiv> drain r (\<lambda>it. pre_curr it \<noteq> None) (next_preorder N)"

lemma next_preorder_step:
  assumes "N d = Some (with_structure n f l c x)" and "\<not> c \<Longrightarrow> Suc dep < MAX_AST_DEPTH" and "length st \<le> dep"
  shows "next_preorder N (pre_state d dep st) = Inr ((d, dep),
    if c then (if l then pre_popped (d + own_qwords n) dep st else pre_state (d + own_qwords n) dep st)
    else pre_state (d + own_qwords n) (Suc dep) (if l then st else dep # st))"
  using assms by (auto simp: next_preorder_def pre_state_def pre_popped_def Let_def split: list.split)

lemma drain_preorder:
  "pre N d f l t \<Longrightarrow> dep + theight t \<le> MAX_AST_DEPTH \<Longrightarrow> length st \<le> dep \<Longrightarrow>
     \<exists>dep'. drain_pre (tcount t + r) N (pre_state d dep st) =
       prepend (preorder_nodes dep d [t])
         (drain_pre r N (if l then pre_popped (d + tsize t) dep' st else pre_state (d + tsize t) dep st))"
  "pres N d f ts \<Longrightarrow> ts \<noteq> [] \<Longrightarrow> dep + fheight ts \<le> MAX_AST_DEPTH \<Longrightarrow> length st \<le> dep \<Longrightarrow>
     \<exists>dep'. drain_pre (fcount ts + r) N (pre_state d dep st) =
       prepend (preorder_nodes dep d ts) (drain_pre r N (pre_popped (d + fsize ts) dep' st))"
proof (induction t and ts arbitrary: d f l dep st r and d f dep st r rule: tcount_fcount.induct)
  case (1 n ts)
  let ?d = "d + own_qwords n"
  have node: "N d = Some (with_structure n f l (ts = []) (tsize (Tree n ts)))" by (rule pre_root [OF 1(2)])
  have deep: "Suc dep < MAX_AST_DEPTH" if "ts \<noteq> []"
    using 1(3) that by (cases ts; cases "hd ts") auto
  note step = next_preorder_step [of N d n f l "ts = []" "tsize (Tree n ts)" dep st, OF node deep 1(4)]
  show ?case
  proof (cases "ts = []")
    case True
    then show ?thesis
      using step by (intro exI [of _ dep]) (auto simp: drain_step pre_state_def)
  next
    case False
    let ?st = "if l then st else dep # st"
    have len: "length ?st \<le> Suc dep" using 1(4) by simp
    from 1(1) [of ?d True "Suc dep" ?st r] obtain dep' where
      IH: "drain_pre (fcount ts + r) N (pre_state ?d (Suc dep) ?st) =
        prepend (preorder_nodes (Suc dep) ?d ts) (drain_pre r N (pre_popped (?d + fsize ts) dep' ?st))"
      using 1(2,3) False len by (auto simp del: preorder_nodes.simps)
    have "drain_pre (tcount (Tree n ts) + r) N (pre_state d dep st) =
        prepend [(d, dep)] (drain_pre (fcount ts + r) N (pre_state ?d (Suc dep) ?st))"
      using step False by (simp add: drain_step pre_state_def)
    then show ?thesis
      unfolding IH prepend_prepend
      by (intro exI [of _ dep']) (simp add: pre_popped_def ac_simps)
  qed
next
  case (3 t ts)
  let ?d = "d + tsize t"
  have deep: "dep + theight t \<le> MAX_AST_DEPTH" "dep + fheight ts \<le> MAX_AST_DEPTH" using 3(5) by auto
  obtain dep1 where t: "drain_pre (tcount t + (fcount ts + r)) N (pre_state d dep st) =
      prepend (preorder_nodes dep d [t])
        (drain_pre (fcount ts + r) N (if ts = [] then pre_popped ?d dep1 st else pre_state ?d dep st))"
    using 3(1) [OF _ deep(1) 3(6), of d f "ts = []" "fcount ts + r"] 3(3) by auto
  obtain n us where tt: "t = Tree n us" by (cases t)
  show ?case
  proof (cases "ts = []")
    case True
    then show ?thesis using t by auto
  next
    case False
    obtain dep2 where "drain_pre (fcount ts + r) N (pre_state ?d dep st) =
      prepend (preorder_nodes dep ?d ts) (drain_pre r N (pre_popped (?d + fsize ts) dep2 st))"
      using 3(2) [OF _ False deep(2) 3(6), of ?d False r] 3(3) by auto
    then show ?thesis
      using t False by (intro exI [of _ dep2]) (simp add: obind_assoc tt ac_simps)
  qed
qed simp

text \<open>
  C21: The preorder iterator returns every node below its node exactly in preorder, with its depth,
  for every tree that \<open>complete_ast\<close> builds.
\<close>

theorem preorder_iterator_order:
  assumes "pre N d f l (Tree n ts)" and "theight (Tree n ts) \<le> MAX_AST_DEPTH"
  shows "obind (preorder_ancestors_of N d) (drain_pre (fcount ts) N) = Inr (preorder_nodes 0 (d + own_qwords n) ts)"
proof (cases "ts = []")
  case True
  then show ?thesis
    using pre_root [OF assms(1)] by (simp add: preorder_ancestors_of_def has_children_def drain_done)
next
  case False
  have "preorder_ancestors_of N d = Inr (pre_state (d + own_qwords n) 0 [])"
    using pre_root [OF assms(1)] False
    by (simp add: preorder_ancestors_of_def first_child_of_def has_children_def pre_state_def)
  moreover obtain dep' where "drain_pre (fcount ts + 0) N (pre_state (d + own_qwords n) 0 []) =
      prepend (preorder_nodes 0 (d + own_qwords n) ts)
        (drain_pre 0 N (pre_popped (d + own_qwords n + fsize ts) dep' []))"
    using drain_preorder(2) [of N "d + own_qwords n" True ts 0 "[]" 0] assms False by auto
  ultimately show ?thesis by (simp add: pre_popped_def drain_done)
qed

section \<open>Postorder\<close>

text \<open>The first leaf of a tree and its ancestors below the root, the leaf in front.\<close>

fun first_path :: "nat \<Rightarrow> tree \<Rightarrow> nat list" where
  "first_path d (Tree n []) = []"
| "first_path d (Tree n (t # ts)) = first_path (d + own_qwords n) t @ [d + own_qwords n]"

definition post_state :: "nat \<Rightarrow> nat list \<Rightarrow> AstPostorderIterator" where
  "post_state b ps = \<lparr>post_base = b, offsets = map (\<lambda>p. p - b) ps\<rparr>"

lemma descend_next_first_path:
  "pre N d f l t \<Longrightarrow> length st + theight t \<le> Suc MAX_AST_DEPTH \<Longrightarrow>
     descend_next N b d st = Inr (map (\<lambda>p. p - b) (first_path d t) @ st)"
proof (induction d t arbitrary: f l st rule: first_path.induct)
  case (1 d n)
  then show ?case by (subst descend_next.simps) (simp add: has_children_def)
next
  case (2 d n t ts)
  have "0 < theight t" by (cases t) simp
  then have "length st < MAX_AST_DEPTH" using 2(3) by simp
  moreover have "descend_next N b (d + own_qwords n) ((d + own_qwords n - b) # st) =
      Inr (map (\<lambda>p. p - b) (first_path (d + own_qwords n) t) @ (d + own_qwords n - b) # st)"
    using 2(1) [of True "ts = []" "(d + own_qwords n - b) # st"] 2(2,3) by auto
  ultimately show ?case
    using 2(2) by (subst descend_next.simps) (auto simp: has_children_def Let_def)
qed

lemma descend_first_next:
  "descend_next N b d st = Inr ps \<Longrightarrow> descend_first N b d st = Inr ps"
proof (induction N b d st rule: descend_next.induct)
  case (1 N b d st)
  obtain node where node: "node_at N d = Inr node"
    using 1(2) by (subst (asm) descend_next.simps) (auto simp: obind_eq_Inr_iff)
  show ?case
    using 1(2) 1(1) [OF _ refl] node
    by (subst descend_first.simps, subst (asm) descend_next.simps) (auto simp: Let_def split: if_splits)
qed

abbreviation drain_post :: "nat \<Rightarrow> node_store \<Rightarrow> AstPostorderIterator \<Rightarrow> (nat \<times> nat) list outcome" where
  "drain_post r N \<equiv> drain r (\<lambda>it. offsets it \<noteq> []) (next_postorder N)"

lemma next_postorder_last:
  assumes "N d = Some (with_structure n f True c x)" and "b \<le> d"
  shows "next_postorder N (post_state b (d # ps)) = Inr ((d, length ps), post_state b ps)"
  using assms by (simp add: next_postorder_def post_state_def has_next_sibling_def)

lemma next_postorder_sibling:
  assumes "N d = Some (with_structure n f False c x)" and "b \<le> d" and "pre N (d + x) f' l t"
    and "length ps + theight t \<le> MAX_AST_DEPTH"
  shows "next_postorder N (post_state b (d # ps)) =
    Inr ((d, length ps), post_state b (first_path (d + x) t @ (d + x) # ps))"
  using assms descend_next_first_path [OF assms(3), of "(d + x - b) # map (\<lambda>p. p - b) ps" b]
  by (simp add: next_postorder_def post_state_def has_next_sibling_def next_sibling_of_def)

lemma drain_postorder:
  "pre N d f l t \<Longrightarrow> b \<le> d \<Longrightarrow> length ps + theight t \<le> MAX_AST_DEPTH \<Longrightarrow>
     drain_post (tcount t - 1 + r) N (post_state b (first_path d t @ d # ps)) =
       prepend (case t of Tree n ts \<Rightarrow> postorder_nodes (Suc (length ps)) (d + own_qwords n) ts)
         (drain_post r N (post_state b (d # ps)))"
  "pres N d f ts \<Longrightarrow> ts \<noteq> [] \<Longrightarrow> b \<le> d \<Longrightarrow> length ps + fheight ts \<le> MAX_AST_DEPTH \<Longrightarrow>
     drain_post (fcount ts + r) N (post_state b (first_path d (hd ts) @ d # ps)) =
       prepend (postorder_nodes (length ps) d ts) (drain_post r N (post_state b ps))"
proof (induction t and ts arbitrary: d f l ps r and d f ps r rule: tcount_fcount.induct)
  case (1 n ts)
  show ?case
  proof (cases ts)
    case (Cons u us)
    then show ?thesis
      using 1(1) [of "d + own_qwords n" True "d # ps" r] 1(2-4) by simp
  qed (simp add: prepend_Nil [unfolded append_Nil])
next
  case (3 t ts)
  obtain n us where t: "t = Tree n us" by (cases t)
  let ?d = "d + tsize t"
  have deep: "length ps + theight t \<le> MAX_AST_DEPTH" "length ps + fheight ts \<le> MAX_AST_DEPTH" using 3(6) by auto
  have node: "N d = Some (with_structure n f (ts = []) (us = []) (tsize t))"
    using pre_root [of N d f "ts = []" n us] 3(3) t by simp
  have sub: "drain_post (tcount t - 1 + Suc (fcount ts + r)) N (post_state b (first_path d t @ d # ps)) =
      prepend (postorder_nodes (Suc (length ps)) (d + own_qwords n) us)
        (drain_post (Suc (fcount ts + r)) N (post_state b (d # ps)))"
    using 3(1) [OF _ 3(5) deep(1), of f "ts = []" "Suc (fcount ts + r)"] 3(3) t by simp
  have count: "tcount t - 1 + Suc (fcount ts + r) = fcount (t # ts) + r" by (simp add: t)
  have "drain_post (Suc (fcount ts + r)) N (post_state b (d # ps)) =
      prepend ((d, length ps) # postorder_nodes (length ps) ?d ts) (drain_post r N (post_state b ps))"
  proof (cases ts)
    case Nil
    then show ?thesis
      using next_postorder_last [of N d n f "us = []" "tsize t" b ps] node 3(5)
      by (simp add: drain_step post_state_def)
  next
    case (Cons u vs)
    have "next_postorder N (post_state b (d # ps)) =
        Inr ((d, length ps), post_state b (first_path ?d u @ ?d # ps))"
      using next_postorder_sibling [of N d n f "us = []" "tsize t" b False "vs = []" u ps]
        node 3(3,5) deep Cons by auto
    then show ?thesis
      using 3(2) [OF _ _ _ deep(2), of ?d False r] 3(3,5) Cons
      by (simp add: drain_step post_state_def obind_assoc)
  qed
  then show ?case using sub unfolding count by (simp add: t obind_assoc)
qed simp

text \<open>
  C20: The postorder iterator returns every node below its node exactly once, each behind its
  descendants and its preceding siblings, with its depth.
\<close>

theorem postorder_iterator_order:
  assumes "pre N d f l (Tree n ts)" and "theight (Tree n ts) \<le> MAX_AST_DEPTH"
  shows "obind (postorder_ancestors_of N d) (drain_post (fcount ts) N) =
    Inr (postorder_nodes 0 (d + own_qwords n) ts)"
proof -
  have start: "postorder_ancestors_of N d = Inr (post_state d (first_path d (Tree n ts)))"
    using descend_first_next [OF descend_next_first_path [OF assms(1), of "[]" d]] assms(2)
    by (simp add: postorder_ancestors_of_def post_state_def)
  show ?thesis
  proof (cases ts)
    case Nil
    then show ?thesis using start by (simp add: drain_done post_state_def)
  next
    case (Cons u us)
    have "drain_post (fcount ts + 0) N (post_state d (first_path (d + own_qwords n) u @ [d + own_qwords n])) =
        prepend (postorder_nodes 0 (d + own_qwords n) ts) (drain_post 0 N (post_state d []))"
    proof -
      have "length ([] :: nat list) + fheight ts \<le> MAX_AST_DEPTH" using assms(2) by simp
      from drain_postorder(2) [OF _ _ _ this, of N "d + own_qwords n" True d 0] show ?thesis
        using assms(1) Cons by simp
    qed
    then show ?thesis using start Cons by (simp add: drain_done post_state_def)
  qed
qed

section \<open>The iterators on the sample tree\<close>

definition sample_store :: node_store where
  "sample_store = [
     0 \<mapsto> with_structure (sample_node Tag_If) True True False 4,
     1 \<mapsto> with_structure (sample_node Tag_Block) True False False 2,
     2 \<mapsto> with_structure (sample_node Tag_Wildcard) True True True 1,
     3 \<mapsto> with_structure (sample_node Tag_Self) False True True 1]"

lemma sample_pre: "pre sample_store 0 True True (Tree (sample_node Tag_If) sample_forest)"
  by (simp add: sample_store_def sample_forest_def)

lemma sample_height: "theight (Tree (sample_node Tag_If) sample_forest) \<le> MAX_AST_DEPTH"
  by (simp add: sample_forest_def MAX_AST_DEPTH_def)

lemma direct_children_in_order_witness:
  "obind (direct_children_of sample_store 0) (drain 2 (\<lambda>it. it \<noteq> None) (next_direct_child sample_store)) = Inr [1, 3]"
  using direct_children_in_order [OF sample_pre] by (simp add: sample_forest_def eval_nat_numeral)

lemma preorder_iterator_order_witness:
  "obind (preorder_ancestors_of sample_store 0) (drain_pre 3 sample_store) = Inr [(1, 0), (2, 1), (3, 0)]"
  using preorder_iterator_order [OF sample_pre sample_height] by (simp add: sample_forest_def eval_nat_numeral)

lemma postorder_iterator_order_witness:
  "obind (postorder_ancestors_of sample_store 0) (drain_post 3 sample_store) = Inr [(2, 1), (1, 0), (3, 0)]"
  using postorder_iterator_order [OF sample_pre sample_height] by (simp add: sample_forest_def eval_nat_numeral)

end
