(* ===== verification/Parser.thy ===== *)
theory Parser
  imports Lexer AstPool
begin

text \<open>
  The parser (src/core/parse.cpp from \<open>pop_operator\<close> on): recursive descent for the constructs of
  the language, with an operator stack for expressions. It asks the lexer for lexemes and pushes
  nodes to the tree builder; a node is pushed behind its children, and \<open>first_child\<close> is the token
  of its first child.
\<close>

section \<open>State and results\<close>

record Core =
  parser :: ParserState
  asts :: AstPool

text \<open>
  Beside the results of the lexer, a run of the model can use up its budget of steps; the theorems
  of \<open>ParserTotal\<close> show that the budget of \<open>parse\<close> is enough.
\<close>

datatype ('a, 's) parsed = Done 'a 's | Jump 's | Halt fault | Exhausted

definition pbind :: "('a, 's) parsed \<Rightarrow> ('a \<Rightarrow> 's \<Rightarrow> ('b, 's) parsed) \<Rightarrow> ('b, 's) parsed" where
  "pbind m f = (case m of Done a s \<Rightarrow> f a s | Jump s \<Rightarrow> Jump s | Halt e \<Rightarrow> Halt e | Exhausted \<Rightarrow> Exhausted)"

lemma pbind_simps [simp]:
  "pbind (Done a s) f = f a s" "pbind (Jump s) f = Jump s" "pbind (Halt e) f = Halt e"
  "pbind Exhausted f = Exhausted"
  by (simp_all add: pbind_def)

definition lex :: "(ParserState \<Rightarrow> ('a, ParserState) lexed) \<Rightarrow> Core \<Rightarrow> ('a, Core) parsed" where
  "lex f c = (case f (parser c) of
     Ok a s \<Rightarrow> Done a (c\<lparr>parser := s\<rparr>) | Fatal s \<Rightarrow> Jump (c\<lparr>parser := s\<rparr>) | Stop e \<Rightarrow> Halt e)"

definition halt_unless :: "fault \<Rightarrow> bool \<Rightarrow> ('a, 's) parsed \<Rightarrow> ('a, 's) parsed" where
  "halt_unless e b m = (if b then m else Halt e)"

text \<open>Pushing a node to the builder of the tree pool; the result is its token.\<close>

definition push :: "(AstPool \<Rightarrow> (AstPool \<times> nat) outcome) \<Rightarrow> Core \<Rightarrow> (nat, Core) parsed" where
  "push f c = (case f (asts c) of Inl e \<Rightarrow> Halt e | Inr (a, tok) \<Rightarrow> Done tok (c\<lparr>asts := a\<rparr>))"

definition push_ast :: "nat \<Rightarrow> u32 \<Rightarrow> AstFlag \<Rightarrow> AstTag \<Rightarrow> Core \<Rightarrow> (nat, Core) parsed" where
  "push_ast first_child sid fl tg = push (\<lambda>a. push_node a first_child sid fl tg)"

definition push_ast_data ::
  "nat \<Rightarrow> u32 \<Rightarrow> AstFlag \<Rightarrow> AstTag \<Rightarrow> AstAttachment \<Rightarrow> Core \<Rightarrow> (nat, Core) parsed" where
  "push_ast_data first_child sid fl tg data = push (\<lambda>a. push_node_data a first_child sid fl tg data)"

definition fatal :: "u32 \<Rightarrow> CompileError \<Rightarrow> Core \<Rightarrow> ('a, Core) parsed" where
  "fatal sid err = lex (\<lambda>s. parse_error_fatal s sid err)"

definition continuable :: "u32 \<Rightarrow> CompileError \<Rightarrow> Core \<Rightarrow> Core" where
  "continuable sid err c = c\<lparr>parser := parse_error_continuable (parser c) sid err\<rparr>"

abbreviation next' :: "Core \<Rightarrow> (Lexeme, Core) parsed" where "next' \<equiv> lex next_lexeme"
abbreviation peek' :: "Core \<Rightarrow> (Lexeme, Core) parsed" where "peek' \<equiv> lex peek"
abbreviation skip' :: "Core \<Rightarrow> (unit, Core) parsed" where "skip' \<equiv> lex skip"
abbreviation peek_n' :: "nat \<Rightarrow> Core \<Rightarrow> (Lexeme, Core) parsed" where "peek_n' n \<equiv> lex (\<lambda>s. peek_n s n)"

text \<open>A loop whose body says how to go on (\<open>Inl\<close>) or with what to leave (\<open>Inr\<close>).\<close>

fun repeat_steps ::
  "nat \<Rightarrow> ('a \<Rightarrow> Core \<Rightarrow> ('a + 'b, Core) parsed) \<Rightarrow> 'a \<Rightarrow> Core \<Rightarrow> ('b, Core) parsed" where
  "repeat_steps 0 body a c = Exhausted"
| "repeat_steps (Suc k) body a c =
     pbind (body a c) (\<lambda>r c. case r of Inl a \<Rightarrow> repeat_steps k body a c | Inr b \<Rightarrow> Done b c)"

definition identifier_of :: "Lexeme \<Rightarrow> Core \<Rightarrow> (u32, Core) parsed" where
  "identifier_of l c = (case lexeme_value l of IdentifierValue i \<Rightarrow> Done i c | _ \<Rightarrow> Halt Undefined)"

definition first_of :: "nat \<Rightarrow> nat \<Rightarrow> nat" where
  "first_of first_child tok = (if first_child = NO_CHILDREN then tok else first_child)"

section \<open>Operators\<close>

record OperatorDesc =
  node_type :: AstTag
  node_flags :: AstFlag
  precedence :: nat
  is_right_to_left :: bool
  is_binary :: bool

record OperatorDescWithSource =
  operator_desc :: OperatorDesc
  operator_source :: u32

text \<open>Both arrays from their tops down; \<open>operator_top\<close> and \<open>operand_count\<close> are their lengths.\<close>

record OperatorStack =
  operators :: "OperatorDescWithSource list"
  operand_tokens :: "nat list"
  expression_source_id :: u32

definition MAX_OPERATORS :: nat where "MAX_OPERATORS = 64"
definition MAX_OPERANDS :: nat where "MAX_OPERANDS = 128"
definition MAX_FUNC_PARAM_COUNT :: nat where "MAX_FUNC_PARAM_COUNT = 64"

definition desc :: "AstTag \<Rightarrow> AstFlag \<Rightarrow> nat \<Rightarrow> bool \<Rightarrow> bool \<Rightarrow> OperatorDesc" where
  "desc t f p r b = \<lparr>node_type = t, node_flags = f, precedence = p, is_right_to_left = r, is_binary = b\<rparr>"

definition UNARY_OPERATOR_DESCS :: "OperatorDesc list" where
  "UNARY_OPERATOR_DESCS = [
     desc Tag_INVALID Flag_EMPTY 10 False True,
     desc Tag_UOpEval Flag_EMPTY 8 False False,
     desc Tag_UOpTry Flag_EMPTY 8 False False,
     desc Tag_UOpDefer Flag_EMPTY 8 False False,
     desc Tag_UOpDistinct Flag_EMPTY 2 False False,
     desc Tag_UOpBitNot Flag_EMPTY 2 False False,
     desc Tag_UOpLogNot Flag_EMPTY 2 False False,
     desc Tag_UOpTypeOptPtr Type_IsMut 2 False False,
     desc Tag_UOpTypeVarArgs Flag_EMPTY 2 False False,
     desc Tag_UOpTypeTailArray Flag_EMPTY 2 False False,
     desc Tag_UOpTypeMultiPtr Type_IsMut 2 False False,
     desc Tag_UOpTypeOptMultiPtr Type_IsMut 2 False False,
     desc Tag_UOpTypeSlice Type_IsMut 2 False False,
     desc Tag_UOpTypePtr Type_IsMut 2 False False,
     desc Tag_UOpNegate Flag_EMPTY 2 False False,
     desc Tag_UOpPos Flag_EMPTY 2 False False]"

definition BINARY_OPERATOR_DESCS :: "OperatorDesc list" where
  "BINARY_OPERATOR_DESCS = [
     desc Tag_OpMul Flag_EMPTY 2 True True,
     desc Tag_OpSub Flag_EMPTY 3 True True,
     desc Tag_OpAdd Flag_EMPTY 3 True True,
     desc Tag_OpDiv Flag_EMPTY 2 True True,
     desc Tag_OpAddTC Flag_EMPTY 3 True True,
     desc Tag_OpSubTC Flag_EMPTY 3 True True,
     desc Tag_OpMulTC Flag_EMPTY 2 True True,
     desc Tag_OpMod Flag_EMPTY 2 True True,
     desc Tag_UOpAddr Flag_EMPTY 1 False False,
     desc Tag_UOpDeref Flag_EMPTY 1 False False,
     desc Tag_OpBitAnd Flag_EMPTY 6 True True,
     desc Tag_OpBitOr Flag_EMPTY 6 True True,
     desc Tag_OpBitXor Flag_EMPTY 6 True True,
     desc Tag_OpShiftL Flag_EMPTY 4 True True,
     desc Tag_OpShiftR Flag_EMPTY 4 True True,
     desc Tag_OpLogAnd Flag_EMPTY 7 True True,
     desc Tag_OpLogOr Flag_EMPTY 7 True True,
     desc Tag_OpCmpLT Flag_EMPTY 5 True True,
     desc Tag_OpCmpGT Flag_EMPTY 5 True True,
     desc Tag_OpCmpLE Flag_EMPTY 5 True True,
     desc Tag_OpCmpGE Flag_EMPTY 5 True True,
     desc Tag_OpCmpNE Flag_EMPTY 5 True True,
     desc Tag_OpCmpEQ Flag_EMPTY 5 True True,
     desc Tag_OpSet Flag_EMPTY 9 False True,
     desc Tag_OpSetAdd Flag_EMPTY 9 False True,
     desc Tag_OpSetSub Flag_EMPTY 9 False True,
     desc Tag_OpSetMul Flag_EMPTY 9 False True,
     desc Tag_OpSetDiv Flag_EMPTY 9 False True,
     desc Tag_OpSetAddTC Flag_EMPTY 9 False True,
     desc Tag_OpSetSubTC Flag_EMPTY 9 False True,
     desc Tag_OpSetMulTC Flag_EMPTY 9 False True,
     desc Tag_OpSetMod Flag_EMPTY 9 False True,
     desc Tag_OpSetBitAnd Flag_EMPTY 9 False True,
     desc Tag_OpSetBitOr Flag_EMPTY 9 False True,
     desc Tag_OpSetBitXor Flag_EMPTY 9 False True,
     desc Tag_OpSetShiftL Flag_EMPTY 9 False True,
     desc Tag_OpSetShiftR Flag_EMPTY 9 False True]"

definition pop_operator :: "OperatorStack \<Rightarrow> Core \<Rightarrow> (OperatorStack, Core) parsed" where
  "pop_operator stack c =
     (case operators stack of
        [] \<Rightarrow> Halt Assertion
      | opr # ops \<Rightarrow>
          let d = operator_desc opr; stack = stack\<lparr>operators := ops\<rparr> in
          if node_type d = Tag_INVALID then Done stack c
          else if length (operand_tokens stack) \<le> (if is_binary d then 1 else 0) then
            fatal (expression_source_id stack)
              (if is_binary d then ParseBinaryOperatorMissingOperand else ParseUnaryOperatorMissingOperand) c
          else
            let tokens = (if is_binary d then tl (operand_tokens stack) else operand_tokens stack) in
            pbind (push_ast (hd tokens) (operator_source opr) (node_flags d) (node_type d) c) (\<lambda>tok.
              Done (stack\<lparr>operand_tokens := tok # tl tokens\<rparr>)))"

text \<open>The loop of \<open>pop_to_precedence\<close> removes one operator in each round.\<close>

fun pop_operators ::
  "nat \<Rightarrow> OperatorStack \<Rightarrow> nat \<Rightarrow> bool \<Rightarrow> Core \<Rightarrow> (OperatorStack \<times> bool, Core) parsed" where
  "pop_operators 0 stack prec pop_equal c = Done (stack, False) c"
| "pop_operators (Suc n) stack prec pop_equal c =
     (case operators stack of
        [] \<Rightarrow> Done (stack, False) c
      | opr # _ \<Rightarrow>
          if prec < precedence (operator_desc opr) \<or> precedence (operator_desc opr) = prec \<and> \<not> pop_equal
          then Done (stack, True) c
          else pbind (pop_operator stack c) (\<lambda>stack. pop_operators n stack prec pop_equal))"

definition pop_to_precedence ::
  "OperatorStack \<Rightarrow> nat \<Rightarrow> bool \<Rightarrow> Core \<Rightarrow> (OperatorStack \<times> bool, Core) parsed" where
  "pop_to_precedence stack prec pop_equal = pop_operators (length (operators stack)) stack prec pop_equal"

definition push_operand :: "OperatorStack \<Rightarrow> nat \<Rightarrow> Core \<Rightarrow> (OperatorStack, Core) parsed" where
  "push_operand stack tok c =
     (if length (operand_tokens stack) = MAX_OPERANDS - 1 then
        fatal (expression_source_id stack) ParseOpenOperandCountTooLarge c
      else Done (stack\<lparr>operand_tokens := tok # operand_tokens stack\<rparr>) c)"

definition push_operator :: "OperatorStack \<Rightarrow> OperatorDesc \<Rightarrow> u32 \<Rightarrow> Core \<Rightarrow> (OperatorStack, Core) parsed" where
  "push_operator stack d sid c =
     pbind (if node_type d \<noteq> Tag_INVALID then pop_to_precedence stack (precedence d) (is_right_to_left d) c
            else Done (stack, False) c) (\<lambda>(stack, _) c.
     if length (operators stack) = MAX_OPERATORS then
       fatal (expression_source_id stack) ParseOpenOperatorCountTooLarge c
     else Done (stack\<lparr>operators := \<lparr>operator_desc = d, operator_source = sid\<rparr> # operators stack\<rparr>) c)"

definition remove_lparen :: "OperatorStack \<Rightarrow> Core \<Rightarrow> (OperatorStack, Core) parsed" where
  "remove_lparen stack c =
     (case operators stack of
        [] \<Rightarrow> Halt Assertion
      | opr # ops \<Rightarrow>
          halt_unless Assertion (node_type (operator_desc opr) = Tag_INVALID)
            (Done (stack\<lparr>operators := ops\<rparr>) c))"

fun pop_all :: "nat \<Rightarrow> OperatorStack \<Rightarrow> Core \<Rightarrow> (OperatorStack, Core) parsed" where
  "pop_all 0 stack c = Done stack c"
| "pop_all (Suc n) stack c = pbind (pop_operator stack c) (\<lambda>stack. pop_all n stack)"

definition pop_remaining :: "OperatorStack \<Rightarrow> Core \<Rightarrow> (nat, Core) parsed" where
  "pop_remaining stack c =
     pbind (pop_all (length (operators stack)) stack c) (\<lambda>stack c.
     if length (operand_tokens stack) \<noteq> 1 then
       fatal (expression_source_id stack) ParseOperatorOperandCountMismatch c
     else Done (hd (operand_tokens stack)) c)"

text \<open>The operand on top becomes the node \<open>tok\<close> that was pushed around it.\<close>

definition replace_operand :: "OperatorStack \<Rightarrow> nat \<Rightarrow> OperatorStack" where
  "replace_operand stack tok = stack\<lparr>operand_tokens := tok # tl (operand_tokens stack)\<rparr>"

section \<open>Definitions and statements\<close>

definition is_definition_start :: "Token \<Rightarrow> bool" where
  "is_definition_start t \<longleftrightarrow> t = KwdLet \<or> t = KwdPub \<or> t = KwdMut"

type_synonym expr_parser = "bool \<Rightarrow> Core \<Rightarrow> (nat, Core) parsed"

definition modifier_step :: "bool \<Rightarrow> AstFlag \<times> Lexeme \<Rightarrow> Core \<Rightarrow> ((AstFlag \<times> Lexeme) + (AstFlag \<times> Lexeme), Core) parsed" where
  "modifier_step is_param = (\<lambda>(fl, l) c.
     if token l = KwdPub then
       let c = (if is_param then continuable (source_id l) ParseFunctionParameterIsPub c else c);
           c = (if fl AND Definition_IsPub \<noteq> 0 then continuable (source_id l) ParseDefinitionMultiplePub c else c)
       in pbind (next' c) (\<lambda>l. Done (Inl (fl OR Definition_IsPub, l)))
     else if token l = KwdMut then
       let c = (if fl AND Definition_IsMut \<noteq> 0 then continuable (source_id l) ParseDefinitionMultipleMut c else c)
       in pbind (next' c) (\<lambda>l. Done (Inl (fl OR Definition_IsMut, l)))
     else Done (Inr (fl, l)) c)"

text \<open>
  The type of a definition behind its colon. The second result is \<open>out_variadic_source_id\<close>, which
  a parameter with a type sets and a definition leaves.
\<close>

definition parse_definition_type ::
  "expr_parser \<Rightarrow> bool \<Rightarrow> u32 option \<Rightarrow> Core \<Rightarrow> (nat \<times> u32 option, Core) parsed" where
  "parse_definition_type parse_expr is_param variadic c =
     pbind (skip' c) (\<lambda>_ c.
     pbind (peek' c) (\<lambda>l c.
     if is_param \<and> token l = TypVar then
       pbind (skip' c) (\<lambda>_ c.
       pbind (parse_expr False c) (\<lambda>expr_token c.
       pbind (push_ast expr_token (source_id l) Flag_EMPTY Tag_UOpTypeVarArgs c) (\<lambda>tok.
         Done (tok, Some (source_id l)))))
     else pbind (parse_expr False c) (\<lambda>tok. Done (tok, if is_param then None else variadic))))"

text \<open>The parts of \<open>parse_definition\<close>: up to the name, the type, and the value.\<close>

definition definition_modifiers :: "nat \<Rightarrow> bool \<Rightarrow> Core \<Rightarrow> (u32 \<times> AstFlag \<times> Lexeme, Core) parsed" where
  "definition_modifiers budget is_param c =
     pbind (next' c) (\<lambda>l0 c.
     pbind (if is_param \<and> token l0 = KwdEval then pbind (next' c) (\<lambda>l. Done (Definition_IsEval, l))
            else Done (Flag_EMPTY, l0) c) (\<lambda>(fl, l) c.
     pbind (if token l = KwdLet then pbind (next' c) (\<lambda>l. Done (fl, l))
            else repeat_steps budget (modifier_step is_param) (fl, l) c) (\<lambda>(fl, l).
       Done (source_id l0, fl, l))))"

definition definition_type ::
  "expr_parser \<Rightarrow> bool \<Rightarrow> bool \<Rightarrow> u32 option \<Rightarrow> AstFlag \<Rightarrow> Lexeme \<Rightarrow> Core
     \<Rightarrow> (AstFlag \<times> nat \<times> u32 option \<times> Lexeme, Core) parsed" where
  "definition_type parse_expr is_optional_type is_param variadic fl l c =
     (if token l = Colon then
        pbind (parse_definition_type parse_expr is_param variadic c) (\<lambda>(tok, variadic) c.
        pbind (peek' c) (\<lambda>l. Done (fl OR Definition_HasType, tok, variadic, l)))
      else
        let c = (if \<not> is_optional_type then continuable (source_id l) ParseDefinitionMissingColon c else c)
        in Done (fl, NO_CHILDREN, variadic, l) c)"

definition definition_value :: "expr_parser \<Rightarrow> bool \<Rightarrow> nat \<Rightarrow> Lexeme \<Rightarrow> Core \<Rightarrow> (nat, Core) parsed" where
  "definition_value parse_expr is_optional_value first_child l c =
     (if token l = OpSet then
        pbind (skip' c) (\<lambda>_ c.
        pbind (parse_expr True c) (\<lambda>value_token. Done (first_of first_child value_token)))
      else
        let c = (if \<not> is_optional_value then continuable (source_id l) ParseDefinitionMissingEquals c else c)
        in Done first_child c)"

definition parse_definition ::
  "nat \<Rightarrow> expr_parser \<Rightarrow> bool \<Rightarrow> bool \<Rightarrow> bool \<Rightarrow> u32 option \<Rightarrow> Core \<Rightarrow> (nat \<times> u32 option, Core) parsed" where
  "parse_definition budget parse_expr is_optional_type is_optional_value is_param variadic c =
     pbind (definition_modifiers budget is_param c) (\<lambda>(sid, fl, l) c.
     if token l \<noteq> Ident then fatal (source_id l) ParseDefinitionMissingName c
     else
     pbind (identifier_of l c) (\<lambda>identifier_id c.
     pbind (peek' c) (\<lambda>l c.
     pbind (definition_type parse_expr is_optional_type is_param variadic fl l c) (\<lambda>(fl, first_child, variadic, l) c.
     pbind (definition_value parse_expr is_optional_value first_child l c) (\<lambda>first_child c.
     pbind (if is_param then push_ast_data first_child sid fl Tag_Parameter (ParameterData identifier_id) c
            else push_ast_data first_child sid fl Tag_Definition (DefinitionData identifier_id) c) (\<lambda>tok.
       Done (tok, variadic)))))))"

definition definition_token ::
  "nat \<Rightarrow> expr_parser \<Rightarrow> bool \<Rightarrow> bool \<Rightarrow> Core \<Rightarrow> (nat, Core) parsed" where
  "definition_token budget parse_expr is_optional_type is_optional_value c =
     pbind (parse_definition budget parse_expr is_optional_type is_optional_value False None c) (\<lambda>(tok, _). Done tok)"

text \<open>The first lexeme of a construct, which its caller has seen.\<close>

definition expect :: "Token \<Rightarrow> Core \<Rightarrow> (u32, Core) parsed" where
  "expect t c =
     pbind (peek' c) (\<lambda>l c. halt_unless Assertion (token l = t) (pbind (next' c) (\<lambda>l. Done (source_id l))))"

definition parse_return :: "expr_parser \<Rightarrow> Core \<Rightarrow> (nat, Core) parsed" where
  "parse_return parse_expr c =
     pbind (expect KwdReturn c) (\<lambda>sid c.
     pbind (parse_expr True c) (\<lambda>value_token. push_ast value_token sid Flag_EMPTY Tag_Return))"

definition parse_leave :: "Core \<Rightarrow> (nat, Core) parsed" where
  "parse_leave c = pbind (expect KwdLeave c) (\<lambda>sid. push_ast NO_CHILDREN sid Flag_EMPTY Tag_Leave)"

definition parse_yield :: "expr_parser \<Rightarrow> Core \<Rightarrow> (nat, Core) parsed" where
  "parse_yield parse_expr c =
     pbind (expect KwdYield c) (\<lambda>sid c.
     pbind (parse_expr True c) (\<lambda>value_token. push_ast value_token sid Flag_EMPTY Tag_Yield))"

definition parse_argument :: "nat \<Rightarrow> expr_parser \<Rightarrow> Core \<Rightarrow> (nat, Core) parsed" where
  "parse_argument budget parse_expr c =
     pbind (peek' c) (\<lambda>l c.
     pbind (if is_definition_start (token l) then Done True c
            else if token l = Ident then pbind (peek_n' 1 c) (\<lambda>l. Done (token l = Colon))
            else Done False c) (\<lambda>is_definition c.
     if is_definition then definition_token budget parse_expr True True c else parse_expr True c))"

definition parse_statement :: "nat \<Rightarrow> expr_parser \<Rightarrow> Core \<Rightarrow> (nat, Core) parsed" where
  "parse_statement budget parse_expr c =
     pbind (peek' c) (\<lambda>l c.
     if is_definition_start (token l) then definition_token budget parse_expr True False c
     else if token l = KwdReturn then parse_return parse_expr c
     else if token l = KwdLeave then parse_leave c
     else if token l = KwdYield then parse_yield parse_expr c
     else parse_expr True c)"

text \<open>Further elements of a list, each behind a comma.\<close>

definition comma_step :: "(Core \<Rightarrow> (nat, Core) parsed) \<Rightarrow> unit \<Rightarrow> Core \<Rightarrow> (unit + unit, Core) parsed" where
  "comma_step element u c =
     pbind (peek' c) (\<lambda>l c.
     if token l \<noteq> Comma then Done (Inr ()) c
     else pbind (skip' c) (\<lambda>_ c. pbind (element c) (\<lambda>_. Done (Inl ()))))"

definition parse_where :: "nat \<Rightarrow> expr_parser \<Rightarrow> Core \<Rightarrow> (nat, Core) parsed" where
  "parse_where budget parse_expr c =
     pbind (expect KwdWhere c) (\<lambda>sid c.
     pbind (definition_token budget parse_expr True False c) (\<lambda>first_child c.
     pbind (repeat_steps budget (comma_step (definition_token budget parse_expr True False)) () c) (\<lambda>_.
       push_ast first_child sid Flag_EMPTY Tag_Where)))"

text \<open>A \<open>where\<close> clause, if there is one, sets its flag; the result also has the lexeme behind it.\<close>

definition parse_optional_where ::
  "nat \<Rightarrow> expr_parser \<Rightarrow> AstFlag \<Rightarrow> AstFlag \<Rightarrow> Lexeme \<Rightarrow> Core \<Rightarrow> (AstFlag \<times> Lexeme, Core) parsed" where
  "parse_optional_where budget parse_expr where_flag fl l c =
     (if token l = KwdWhere then
        pbind (parse_where budget parse_expr c) (\<lambda>_ c. pbind (peek' c) (\<lambda>l. Done (fl OR where_flag, l)))
      else Done (fl, l) c)"

definition skip_optional :: "Token \<Rightarrow> Lexeme \<Rightarrow> Core \<Rightarrow> (unit, Core) parsed" where
  "skip_optional t l c = (if token l = t then skip' c else Done () c)"

definition parse_if :: "nat \<Rightarrow> expr_parser \<Rightarrow> Core \<Rightarrow> (nat, Core) parsed" where
  "parse_if budget parse_expr c =
     pbind (expect KwdIf c) (\<lambda>sid c.
     pbind (parse_expr False c) (\<lambda>first_child c.
     pbind (peek' c) (\<lambda>l c.
     pbind (parse_optional_where budget parse_expr If_HasWhere Flag_EMPTY l c) (\<lambda>(fl, l) c.
     pbind (skip_optional KwdThen l c) (\<lambda>_ c.
     pbind (parse_expr True c) (\<lambda>_ c.
     pbind (peek' c) (\<lambda>l c.
     pbind (if token l = KwdElse then
              pbind (skip' c) (\<lambda>_ c. pbind (parse_expr True c) (\<lambda>_. Done (fl OR If_HasElse)))
            else Done fl c) (\<lambda>fl.
       push_ast first_child sid fl Tag_If))))))))"

text \<open>The end of both kinds of loops: \<open>do\<close>, the body, and \<open>finally\<close>, which is left for \<open>parse_expr\<close>.\<close>

definition parse_loop_body :: "expr_parser \<Rightarrow> AstFlag \<Rightarrow> AstFlag \<Rightarrow> Lexeme \<Rightarrow> Core \<Rightarrow> (AstFlag, Core) parsed" where
  "parse_loop_body parse_expr finally_flag fl l c =
     pbind (skip_optional KwdDo l c) (\<lambda>_ c.
     pbind (parse_expr True c) (\<lambda>_ c.
     pbind (peek' c) (\<lambda>l c.
     if token l = KwdFinally then pbind (parse_expr True c) (\<lambda>_. Done (fl OR finally_flag))
     else Done fl c)))"

definition is_foreach :: "Core \<Rightarrow> (bool, Core) parsed" where
  "is_foreach c =
     pbind (peek' c) (\<lambda>l c.
     if is_definition_start (token l) then Done True c
     else
     pbind (peek_n' 1 c) (\<lambda>lookahead_1 c.
     if token lookahead_1 = ThinArrowL then Done True c
     else if token lookahead_1 = Comma then
       pbind (peek_n' 2 c) (\<lambda>lookahead_2 c.
       pbind (peek_n' 3 c) (\<lambda>lookahead_3.
         Done (is_definition_start (token lookahead_2) \<or> token lookahead_3 = ThinArrowL)))
     else Done False c))"

definition try_parse_foreach :: "nat \<Rightarrow> expr_parser \<Rightarrow> u32 \<Rightarrow> Core \<Rightarrow> (nat, Core) parsed" where
  "try_parse_foreach budget parse_expr sid c =
     pbind (is_foreach c) (\<lambda>foreach c.
     if \<not> foreach then Done NO_CHILDREN c
     else
     pbind (definition_token budget parse_expr True True c) (\<lambda>first_child c.
     pbind (peek' c) (\<lambda>l c.
     pbind (if token l = Comma then
              pbind (skip' c) (\<lambda>_ c.
              pbind (definition_token budget parse_expr True True c) (\<lambda>_ c.
              pbind (peek' c) (\<lambda>l. Done (ForEach_HasIndex, l))))
            else Done (Flag_EMPTY, l) c) (\<lambda>(fl, l) c.
     if token l \<noteq> ThinArrowL then fatal (source_id l) ParseForeachExpectThinArrowLeft c
     else
     pbind (skip' c) (\<lambda>_ c.
     pbind (parse_expr False c) (\<lambda>_ c.
     pbind (peek' c) (\<lambda>l c.
     pbind (parse_optional_where budget parse_expr ForEach_HasWhere fl l c) (\<lambda>(fl, l) c.
     pbind (parse_loop_body parse_expr ForEach_HasFinally fl l c) (\<lambda>fl.
       push_ast first_child sid fl Tag_ForEach)))))))))"

definition parse_for :: "nat \<Rightarrow> expr_parser \<Rightarrow> Core \<Rightarrow> (nat, Core) parsed" where
  "parse_for budget parse_expr c =
     pbind (expect KwdFor c) (\<lambda>sid c.
     pbind (try_parse_foreach budget parse_expr sid c) (\<lambda>foreach_token c.
     if foreach_token \<noteq> NO_CHILDREN then Done foreach_token c
     else
     pbind (parse_expr False c) (\<lambda>first_child c.
     pbind (peek' c) (\<lambda>l c.
     pbind (if token l = Comma then
              pbind (skip' c) (\<lambda>_ c.
              pbind (parse_expr True c) (\<lambda>_ c.
              pbind (peek' c) (\<lambda>l. Done (For_HasStep, l))))
            else Done (Flag_EMPTY, l) c) (\<lambda>(fl, l) c.
     pbind (parse_optional_where budget parse_expr For_HasWhere fl l c) (\<lambda>(fl, l) c.
     pbind (parse_loop_body parse_expr For_HasFinally fl l c) (\<lambda>fl.
       push_ast first_child sid fl Tag_For)))))))"

definition parse_case :: "expr_parser \<Rightarrow> Core \<Rightarrow> (nat, Core) parsed" where
  "parse_case parse_expr c =
     pbind (expect KwdCase c) (\<lambda>sid c.
     pbind (parse_expr False c) (\<lambda>first_child c.
     pbind (next' c) (\<lambda>l c.
     if token l \<noteq> ThinArrowR then fatal (source_id l) ParseCaseMissingThinArrowRight c
     else push_ast first_child sid Flag_EMPTY Tag_Case c)))"

definition case_step :: "expr_parser \<Rightarrow> unit \<Rightarrow> Core \<Rightarrow> (unit + unit, Core) parsed" where
  "case_step parse_expr u c =
     pbind (parse_case parse_expr c) (\<lambda>_ c.
     pbind (peek' c) (\<lambda>l. Done (if token l \<noteq> KwdCase then Inr () else Inl ())))"

definition parse_switch :: "nat \<Rightarrow> expr_parser \<Rightarrow> Core \<Rightarrow> (nat, Core) parsed" where
  "parse_switch budget parse_expr c =
     pbind (expect KwdSwitch c) (\<lambda>sid c.
     pbind (parse_expr False c) (\<lambda>first_child c.
     pbind (peek' c) (\<lambda>l c.
     pbind (parse_optional_where budget parse_expr Switch_HasWhere Flag_EMPTY l c) (\<lambda>(fl, l) c.
     pbind (if token l = KwdCase then repeat_steps budget (case_step parse_expr) () c
            else Done () (continuable (source_id l) ParseSwitchMissingCase c)) (\<lambda>_.
       push_ast first_child sid fl Tag_Switch)))))"

text \<open>\<open>parse_expects\<close> and \<open>parse_ensures\<close> of the code.\<close>

definition parse_conditions :: "Token \<Rightarrow> AstTag \<Rightarrow> nat \<Rightarrow> expr_parser \<Rightarrow> Core \<Rightarrow> (nat, Core) parsed" where
  "parse_conditions kwd tg budget parse_expr c =
     pbind (expect kwd c) (\<lambda>sid c.
     pbind (parse_expr False c) (\<lambda>first_child c.
     pbind (repeat_steps budget (comma_step (parse_expr False)) () c) (\<lambda>_.
       push_ast first_child sid Flag_EMPTY tg)))"

definition parse_expects :: "nat \<Rightarrow> expr_parser \<Rightarrow> Core \<Rightarrow> (nat, Core) parsed" where
  "parse_expects = parse_conditions KwdExpects Tag_Expects"

definition parse_ensures :: "nat \<Rightarrow> expr_parser \<Rightarrow> Core \<Rightarrow> (nat, Core) parsed" where
  "parse_ensures = parse_conditions KwdEnsures Tag_Ensures"

section \<open>Functions and traits\<close>

text \<open>The loop over the parameters: the lexeme seen, the first parameter, their number and the last variadic one.\<close>

definition parameter_step ::
  "nat \<Rightarrow> expr_parser \<Rightarrow> Lexeme \<times> nat \<times> nat \<times> u32 option \<Rightarrow> Core
     \<Rightarrow> ((Lexeme \<times> nat \<times> nat \<times> u32 option) + nat, Core) parsed" where
  "parameter_step budget parse_expr = (\<lambda>(l, first_parameter, param_count, variadic) c.
     if token l = ParenR then Done (Inr first_parameter) c
     else
       let c = (if param_count = MAX_FUNC_PARAM_COUNT
                then continuable (source_id l) ParseSignatureTooManyParameters c else c);
           c = (case variadic of None \<Rightarrow> c | Some sid \<Rightarrow> continuable sid ParseDefinitionUnexpectedVariadic c)
       in
       pbind (parse_definition budget parse_expr True True True None c) (\<lambda>(parameter_token, variadic) c.
       pbind (peek' c) (\<lambda>l c.
       if token l = Comma then
         pbind (skip' c) (\<lambda>_. Done (Inl (l, first_of first_parameter parameter_token, param_count + 1, variadic)))
       else if token l \<noteq> ParenR then fatal (source_id l) ParseSignatureUnexpectedParameterListEnd c
       else Done (Inl (l, first_of first_parameter parameter_token, param_count + 1, variadic)) c)))"

definition parse_optional_conditions ::
  "Token \<Rightarrow> (Core \<Rightarrow> (nat, Core) parsed) \<Rightarrow> AstFlag \<Rightarrow> AstFlag \<Rightarrow> Lexeme \<Rightarrow> Core \<Rightarrow> (AstFlag, Core) parsed" where
  "parse_optional_conditions kwd conditions cond_flag fl l c =
     (if token l = kwd then pbind (conditions c) (\<lambda>_. Done (fl OR cond_flag)) else Done fl c)"

definition parse_signature :: "nat \<Rightarrow> expr_parser \<Rightarrow> Core \<Rightarrow> (nat, Core) parsed" where
  "parse_signature budget parse_expr c =
     pbind (next' c) (\<lambda>l c.
     let func_source = source_id l;
         fl = (if token l = KwdProc then Signature_IsProc else Flag_EMPTY) in
     halt_unless Assertion (token l = KwdProc \<or> token l = KwdFunc)
     (pbind (next' c) (\<lambda>l c.
      let list_source = source_id l in
      if token l \<noteq> ParenL then
        fatal list_source
          (if fl AND Signature_IsProc = 0 then ParseSignatureMissingParenthesisAfterProc
           else ParseSignatureMissingParenthesisAfterFunc) c
      else
      pbind (peek' c) (\<lambda>l c.
      pbind (repeat_steps budget (parameter_step budget parse_expr) (l, NO_CHILDREN, 0, None) c) (\<lambda>first_parameter c.
      pbind (push_ast first_parameter list_source Flag_EMPTY Tag_ParameterList c) (\<lambda>parameter_list c.
      pbind (skip' c) (\<lambda>_ c.
      pbind (peek' c) (\<lambda>l c.
      if token l \<noteq> ThinArrowR then fatal (source_id l) ParseSignatureMissingReturnType c
      else
      pbind (skip' c) (\<lambda>_ c.
      pbind (parse_expr False c) (\<lambda>_ c.
      pbind (peek' c) (\<lambda>l c.
      pbind (parse_optional_conditions KwdExpects (parse_expects budget parse_expr) Signature_HasExpects fl l c) (\<lambda>fl c.
      pbind (if token l = KwdExpects then peek' c else Done l c) (\<lambda>l c.
      pbind (parse_optional_conditions KwdEnsures (parse_ensures budget parse_expr) Signature_HasEnsures fl l c) (\<lambda>fl.
        push_ast_data parameter_list func_source fl Tag_Signature SignatureData))))))))))))))"

definition parse_func :: "nat \<Rightarrow> expr_parser \<Rightarrow> Core \<Rightarrow> (nat, Core) parsed" where
  "parse_func budget parse_expr c =
     pbind (peek' c) (\<lambda>l c.
     let func_source = source_id l in
     pbind (parse_signature budget parse_expr c) (\<lambda>signature_token c.
     pbind (peek' c) (\<lambda>l c.
     if token l \<noteq> WideArrowR then Done signature_token c
     else
     pbind (skip' c) (\<lambda>_ c.
     pbind (parse_expr True c) (\<lambda>_.
       push_ast_data signature_token func_source Flag_EMPTY Tag_Func FuncData)))))"

definition trait_parameter_step ::
  "Lexeme \<times> nat \<times> nat \<Rightarrow> Core \<Rightarrow> ((Lexeme \<times> nat \<times> nat) + (nat \<times> nat), Core) parsed" where
  "trait_parameter_step = (\<lambda>(l, first_parameter, parameter_count) c.
     if token l = ParenR then Done (Inr (first_parameter, parameter_count)) c
     else if token l \<noteq> Ident then fatal (source_id l) ParseTraitParameterMissingName c
     else
     pbind (identifier_of l c) (\<lambda>identifier_id c.
     pbind (push_ast_data NO_CHILDREN (source_id l) Flag_EMPTY Tag_Identifier (IdentifierData identifier_id) c) (\<lambda>parameter_token c.
     pbind (next' c) (\<lambda>l c.
     if token l = Comma then
       pbind (next' c) (\<lambda>l. Done (Inl (l, first_of first_parameter parameter_token, parameter_count + 1)))
     else if token l \<noteq> ParenR then fatal (source_id l) ParseSignatureMissingParenthesisAfterTrait c
     else Done (Inl (l, first_of first_parameter parameter_token, parameter_count + 1)) c))))"

text \<open>The definitions of a trait or an implementation up to the closing brace, which stays.\<close>

definition member_step :: "nat \<Rightarrow> expr_parser \<Rightarrow> bool \<Rightarrow> bool \<Rightarrow> unit \<Rightarrow> Core \<Rightarrow> (unit + unit, Core) parsed" where
  "member_step budget parse_expr is_optional_type is_optional_value u c =
     pbind (peek' c) (\<lambda>l c.
     if token l = CurlyR then Done (Inr ()) c
     else pbind (definition_token budget parse_expr is_optional_type is_optional_value c) (\<lambda>_. Done (Inl ())))"

definition parse_trait :: "nat \<Rightarrow> expr_parser \<Rightarrow> Core \<Rightarrow> (nat, Core) parsed" where
  "parse_trait budget parse_expr c =
     pbind (expect KwdTrait c) (\<lambda>sid c.
     pbind (next' c) (\<lambda>l c.
     if token l \<noteq> ParenL then fatal (source_id l) ParseSignatureMissingParenthesisAfterTrait c
     else
     let list_source = source_id l in
     pbind (next' c) (\<lambda>l c.
     pbind (repeat_steps budget trait_parameter_step (l, NO_CHILDREN, 0) c) (\<lambda>(first_parameter, parameter_count) c.
     pbind (push_ast_data first_parameter list_source Flag_EMPTY Tag_TraitParameterList
              (TraitParameterListData parameter_count) c) (\<lambda>first_child c.
     pbind (next' c) (\<lambda>l c.
     pbind (if token l = KwdExpects then pbind (parse_expects budget parse_expr c) (\<lambda>_. next')
            else Done l c) (\<lambda>l c.
     if token l \<noteq> CurlyL then fatal (source_id l) ParseTraitExpectOpeningCurly c
     else
     pbind (repeat_steps budget (member_step budget parse_expr False True) () c) (\<lambda>_ c.
     pbind (skip' c) (\<lambda>_.
       push_ast first_child sid Flag_EMPTY Tag_Trait)))))))))"

section \<open>Expressions\<close>

text \<open>
  How a round of the loop of \<open>parse_expr\<close> ends: at its end, which skips the lexeme; with
  \<open>continue\<close> and the lexeme peeked; with \<open>break\<close>; or with \<open>return\<close>.
\<close>

datatype Round =
    Advance OperatorStack bool
  | Continue Lexeme OperatorStack bool
  | Break OperatorStack
  | Return nat

definition push_value :: "OperatorStack \<Rightarrow> (nat, Core) parsed \<Rightarrow> (Round, Core) parsed" where
  "push_value stack value =
     pbind value (\<lambda>tok c. pbind (push_operand stack tok c) (\<lambda>stack. Done (Advance stack False)))"

definition push_construct :: "OperatorStack \<Rightarrow> (nat, Core) parsed \<Rightarrow> (Round, Core) parsed" where
  "push_construct stack value =
     pbind value (\<lambda>tok c.
     pbind (push_operand stack tok c) (\<lambda>stack c.
     pbind (peek' c) (\<lambda>l. Done (Continue l stack False))))"

text \<open>Elements separated by commas up to a closing lexeme, which stays; the result is the first of them.\<close>

definition element_step ::
  "Token \<Rightarrow> CompileError \<Rightarrow> (Core \<Rightarrow> (nat, Core) parsed) \<Rightarrow> Lexeme \<times> nat \<Rightarrow> Core
     \<Rightarrow> ((Lexeme \<times> nat) + nat, Core) parsed" where
  "element_step closing err element = (\<lambda>(l, first_child) c.
     if token l = closing then Done (Inr first_child) c
     else
     pbind (element c) (\<lambda>tok c.
     pbind (peek' c) (\<lambda>l c.
     if token l = Comma then
       pbind (skip' c) (\<lambda>_ c. pbind (peek' c) (\<lambda>l. Done (Inl (l, first_of first_child tok))))
     else if token l \<noteq> closing then fatal (source_id l) err c
     else Done (Inl (l, first_of first_child tok)) c)))"

definition parse_initializer ::
  "nat \<Rightarrow> expr_parser \<Rightarrow> Token \<Rightarrow> CompileError \<Rightarrow> AstTag \<Rightarrow> u32 \<Rightarrow> Core \<Rightarrow> (nat, Core) parsed" where
  "parse_initializer budget parse_expr closing err tg sid c =
     pbind (skip' c) (\<lambda>_ c.
     pbind (peek' c) (\<lambda>l c.
     pbind (repeat_steps budget (element_step closing err (parse_expr True)) (l, NO_CHILDREN) c) (\<lambda>first_child.
       push_ast first_child sid Flag_EMPTY tg)))"

definition statement_step :: "nat \<Rightarrow> expr_parser \<Rightarrow> Lexeme \<times> nat \<Rightarrow> Core \<Rightarrow> ((Lexeme \<times> nat) + nat, Core) parsed" where
  "statement_step budget parse_expr = (\<lambda>(l, first_child) c.
     if token l = CurlyR then Done (Inr first_child) c
     else
     pbind (parse_statement budget parse_expr c) (\<lambda>tok c.
     pbind (peek' c) (\<lambda>l. Done (Inl (l, first_of first_child tok)))))"

definition parse_block :: "nat \<Rightarrow> expr_parser \<Rightarrow> u32 \<Rightarrow> Core \<Rightarrow> (nat, Core) parsed" where
  "parse_block budget parse_expr sid c =
     pbind (skip' c) (\<lambda>_ c.
     pbind (peek' c) (\<lambda>l c.
     pbind (repeat_steps budget (statement_step budget parse_expr) (l, NO_CHILDREN) c) (\<lambda>first_child.
       push_ast first_child sid Flag_EMPTY Tag_Block)))"

definition parse_implied_member :: "u32 \<Rightarrow> Core \<Rightarrow> (nat, Core) parsed" where
  "parse_implied_member sid c =
     pbind (skip' c) (\<lambda>_ c.
     pbind (peek' c) (\<lambda>l c.
     if token l \<noteq> Ident then fatal (source_id l) ParseImpliedMemberUnexpectedToken c
     else
     pbind (identifier_of l c) (\<lambda>identifier_id.
       push_ast_data NO_CHILDREN sid Flag_EMPTY Tag_ImpliedMember (ImpliedMemberData identifier_id))))"

definition unary_round :: "Lexeme \<Rightarrow> OperatorStack \<Rightarrow> Core \<Rightarrow> (Round, Core) parsed" where
  "unary_round l stack c =
     (let c = (if token l = TypVar then continuable (source_id l) ParseDefinitionUnexpectedVariadic c else c) in
      if token_ordinal (token l) < token_ordinal ParenL \<or> token_ordinal OpAdd < token_ordinal (token l) then
        fatal (source_id l) ParseExprExpectOperand c
      else
      let d = UNARY_OPERATOR_DESCS ! unat (token_ordinal (token l) - token_ordinal ParenL) in
      pbind (skip' c) (\<lambda>_ c.
      pbind (peek' c) (\<lambda>l' c.
      pbind (if node_flags d = Type_IsMut then
               (if token l' = KwdMut then pbind (skip' c) (\<lambda>_ c. pbind (peek' c) (\<lambda>l'. Done (d, l')))
                else Done (d\<lparr>node_flags := Flag_EMPTY\<rparr>, l') c)
             else Done (d, l') c) (\<lambda>(d, l') c.
      pbind (push_operator stack d (source_id l) c) (\<lambda>stack.
        Done (Continue l' stack True))))))"

definition literal_of :: "Lexeme \<Rightarrow> Core \<Rightarrow> (nat, Core) parsed" where
  "literal_of l c =
     (case lexeme_value l of
        StringValue v \<Rightarrow> push_ast_data NO_CHILDREN (source_id l) Flag_EMPTY Tag_LitString (LitStringData v) c
      | FloatValue v \<Rightarrow> push_ast_data NO_CHILDREN (source_id l) Flag_EMPTY Tag_LitFloat (LitFloatData v) c
      | IntegerValue v \<Rightarrow> push_ast_data NO_CHILDREN (source_id l) Flag_EMPTY Tag_LitInteger (LitIntegerData v) c
      | CharValue v \<Rightarrow> push_ast_data NO_CHILDREN (source_id l) Flag_EMPTY Tag_LitChar (LitCharData v) c
      | _ \<Rightarrow> Halt Undefined)"

definition identifier_operand :: "Lexeme \<Rightarrow> Core \<Rightarrow> (nat, Core) parsed" where
  "identifier_operand l c =
     pbind (identifier_of l c) (\<lambda>identifier_id.
       push_ast_data NO_CHILDREN (source_id l) Flag_EMPTY Tag_Identifier (IdentifierData identifier_id))"

definition builtin_operand :: "Lexeme \<Rightarrow> Core \<Rightarrow> (nat, Core) parsed" where
  "builtin_operand l c =
     (case lexeme_value l of
        BuiltinValue b \<Rightarrow> push_ast NO_CHILDREN (source_id l) (builtin_ordinal b) Tag_Builtin c
      | _ \<Rightarrow> Halt Undefined)"

definition array_type_round :: "expr_parser \<Rightarrow> Lexeme \<Rightarrow> OperatorStack \<Rightarrow> Core \<Rightarrow> (Round, Core) parsed" where
  "array_type_round parse_expr l stack c =
     pbind (skip' c) (\<lambda>_ c.
     pbind (parse_expr False c) (\<lambda>count_token c.
     pbind (peek' c) (\<lambda>l' c.
     if token l' \<noteq> BracketR then fatal (source_id l') ParseArrayTypeUnexpectedToken c
     else
     pbind (push_operand stack count_token c) (\<lambda>stack c.
     pbind (push_operator stack (desc Tag_OpTypeArray Flag_EMPTY 2 False True) (source_id l) c) (\<lambda>stack.
       Done (Advance stack True))))))"

definition leaf_operand :: "Lexeme \<Rightarrow> AstTag \<Rightarrow> Core \<Rightarrow> (nat, Core) parsed" where
  "leaf_operand l tg = push_ast NO_CHILDREN (source_id l) Flag_EMPTY tg"

definition operand_round :: "nat \<Rightarrow> expr_parser \<Rightarrow> Lexeme \<Rightarrow> OperatorStack \<Rightarrow> Core \<Rightarrow> (Round, Core) parsed" where
  "operand_round budget parse_expr l stack c =
     (if token l = Ident then push_value stack (identifier_operand l c)
      else if token l \<in> {LitString, LitFloat, LitInteger, LitChar} then push_value stack (literal_of l c)
      else if token l = Wildcard then push_value stack (leaf_operand l Tag_Wildcard c)
      else if token l = CompositeInitializer then
        push_value stack (parse_initializer budget parse_expr CurlyR ParseCompositeLiteralUnexpectedToken
          Tag_CompositeInitializer (source_id l) c)
      else if token l = ArrayInitializer then
        push_value stack (parse_initializer budget parse_expr BracketR ParseArrayLiteralUnexpectedToken
          Tag_ArrayInitializer (source_id l) c)
      else if token l = BracketL then array_type_round parse_expr l stack c
      else if token l = CurlyL then push_value stack (parse_block budget parse_expr (source_id l) c)
      else if token l = KwdIf then push_construct stack (parse_if budget parse_expr c)
      else if token l = KwdFor then push_construct stack (parse_for budget parse_expr c)
      else if token l = KwdSwitch then push_construct stack (parse_switch budget parse_expr c)
      else if token l = KwdFunc \<or> token l = KwdProc then push_construct stack (parse_func budget parse_expr c)
      else if token l = KwdTrait then push_construct stack (parse_trait budget parse_expr c)
      else if token l = KwdUnreachable then push_value stack (leaf_operand l Tag_Unreachable c)
      else if token l = KwdUndefined then push_value stack (leaf_operand l Tag_Undefined c)
      else if token l = KwdSelf then push_value stack (leaf_operand l Tag_Self c)
      else if token l = Builtin then push_value stack (builtin_operand l c)
      else if token l = OpMemberOrRef then push_value stack (parse_implied_member (source_id l) c)
      else unary_round l stack c)"

text \<open>
  A node around the operand on top, behind which its further children have been pushed. The
  operators that bind tighter are popped before.
\<close>

definition wrap_operand ::
  "OperatorStack \<Rightarrow> (nat \<Rightarrow> Core \<Rightarrow> (nat, Core) parsed) \<Rightarrow> Core \<Rightarrow> (OperatorStack, Core) parsed" where
  "wrap_operand stack node c =
     (case operand_tokens stack of
        [] \<Rightarrow> Halt Undefined
      | tok # _ \<Rightarrow> pbind (node tok c) (\<lambda>tok'. Done (replace_operand stack tok')))"

definition argument_step ::
  "nat \<Rightarrow> expr_parser \<Rightarrow> Lexeme \<times> nat \<Rightarrow> Core \<Rightarrow> ((Lexeme \<times> nat) + unit, Core) parsed" where
  "argument_step budget parse_expr = (\<lambda>(l, arg_count) c.
     if token l = ParenR then Done (Inr ()) c
     else
     let c = (if arg_count = MAX_FUNC_PARAM_COUNT
              then continuable (source_id l) ParseCallTooManyArguments c else c) in
     pbind (parse_argument budget parse_expr c) (\<lambda>_ c.
     pbind (peek' c) (\<lambda>l c.
     if token l = Comma then
       pbind (skip' c) (\<lambda>_ c. pbind (peek' c) (\<lambda>l. Done (Inl (l, arg_count + 1))))
     else if token l \<noteq> ParenR then fatal (source_id l) ParseCallUnexpectedToken c
     else Done (Inl (l, arg_count + 1)) c)))"

definition call_round :: "nat \<Rightarrow> expr_parser \<Rightarrow> Lexeme \<Rightarrow> OperatorStack \<Rightarrow> Core \<Rightarrow> (Round, Core) parsed" where
  "call_round budget parse_expr l stack c =
     halt_unless Assertion (operand_tokens stack \<noteq> [])
     (pbind (pop_to_precedence stack 1 True c) (\<lambda>(stack, _) c.
      pbind (skip' c) (\<lambda>_ c.
      pbind (peek' c) (\<lambda>l' c.
      pbind (repeat_steps budget (argument_step budget parse_expr) (l', 0) c) (\<lambda>_ c.
      pbind (wrap_operand stack (\<lambda>tok. push_ast tok (source_id l) Flag_EMPTY Tag_Call) c) (\<lambda>stack.
        Done (Advance stack False)))))))"

definition rparen_round :: "OperatorStack \<Rightarrow> Core \<Rightarrow> (Round, Core) parsed" where
  "rparen_round stack c =
     pbind (pop_to_precedence stack 10 False c) (\<lambda>(stack, found) c.
     if \<not> found then
       halt_unless Assertion (length (operand_tokens stack) = 1) (Done (Return (hd (operand_tokens stack))) c)
     else pbind (remove_lparen stack c) (\<lambda>stack. Done (Advance stack False)))"

text \<open>The upper bound of a slice behind its two dots.\<close>

definition slice_end_flag :: "expr_parser \<Rightarrow> AstFlag \<Rightarrow> Core \<Rightarrow> (AstFlag, Core) parsed" where
  "slice_end_flag parse_expr fl c =
     pbind (skip' c) (\<lambda>_ c.
     pbind (peek' c) (\<lambda>l c.
     if token l \<noteq> BracketR then
       pbind (parse_expr False c) (\<lambda>_ c.
       pbind (peek' c) (\<lambda>l c.
       if token l \<noteq> BracketR then fatal (source_id l) ParseSliceUnexpectedToken c
       else Done (fl OR OpSliceOf_HasEnd) c))
     else Done fl c))"

definition bracket_round :: "expr_parser \<Rightarrow> Lexeme \<Rightarrow> OperatorStack \<Rightarrow> Core \<Rightarrow> (Round, Core) parsed" where
  "bracket_round parse_expr l stack c =
     halt_unless Assertion (operand_tokens stack \<noteq> [])
     (pbind (pop_to_precedence stack 1 True c) (\<lambda>(stack, _) c.
      pbind (skip' c) (\<lambda>_ c.
      pbind (peek' c) (\<lambda>l' c.
      pbind (if token l' = DoubleDot then
               pbind (slice_end_flag parse_expr Flag_EMPTY c) (\<lambda>fl. Done (Tag_OpSliceOf, fl))
             else
               pbind (parse_expr False c) (\<lambda>_ c.
               pbind (peek' c) (\<lambda>l' c.
               if token l' = BracketR then Done (Tag_OpArrayIndex, Flag_EMPTY) c
               else if token l' = DoubleDot then
                 pbind (slice_end_flag parse_expr OpSliceOf_HasBegin c) (\<lambda>fl. Done (Tag_OpSliceOf, fl))
               else fatal (source_id l') ParseArrayIndexUnexpectedToken c))) (\<lambda>(tg, fl) c.
      pbind (wrap_operand stack (\<lambda>tok. push_ast tok (source_id l) fl tg) c) (\<lambda>stack.
        Done (Advance stack False)))))))"

definition catch_round :: "nat \<Rightarrow> expr_parser \<Rightarrow> Lexeme \<Rightarrow> OperatorStack \<Rightarrow> Core \<Rightarrow> (Round, Core) parsed" where
  "catch_round budget parse_expr l stack c =
     pbind (pop_to_precedence stack 1 True c) (\<lambda>(stack, _) c.
     pbind (skip' c) (\<lambda>_ c.
     pbind (peek' c) (\<lambda>l' c.
     pbind (if is_definition_start (token l') then Done True c
            else pbind (peek_n' 1 c) (\<lambda>l1. Done (token l1 = ThinArrowR))) (\<lambda>has_definition c.
     pbind (if has_definition then
              pbind (definition_token budget parse_expr True True c) (\<lambda>_ c.
              pbind (next' c) (\<lambda>l' c.
              if token l' \<noteq> ThinArrowR then
                fatal (source_id l') ParseCatchMissingThinArrowRightAfterDefinition c
              else Done Catch_HasDefinition c))
            else Done Flag_EMPTY c) (\<lambda>fl c.
     pbind (parse_expr False c) (\<lambda>_ c.
     pbind (wrap_operand stack (\<lambda>tok. push_ast tok (source_id l) fl Tag_Catch) c) (\<lambda>stack c.
     pbind (peek' c) (\<lambda>l'. Done (Continue l' stack False)))))))))"

definition member_round :: "Lexeme \<Rightarrow> OperatorStack \<Rightarrow> Core \<Rightarrow> (Round, Core) parsed" where
  "member_round l stack c =
     pbind (pop_to_precedence stack 1 True c) (\<lambda>(stack, _) c.
     pbind (skip' c) (\<lambda>_ c.
     pbind (peek' c) (\<lambda>l' c.
     if token l' \<noteq> Ident then fatal (source_id l') ParseMemberUnexpectedToken c
     else
     pbind (identifier_of l' c) (\<lambda>identifier_id c.
     pbind (wrap_operand stack (\<lambda>tok. push_ast_data tok (source_id l) Flag_EMPTY Tag_Member (MemberData identifier_id)) c) (\<lambda>stack.
       Done (Advance stack False))))))"

definition impl_round :: "nat \<Rightarrow> expr_parser \<Rightarrow> Lexeme \<Rightarrow> OperatorStack \<Rightarrow> Core \<Rightarrow> (Round, Core) parsed" where
  "impl_round budget parse_expr l stack c =
     pbind (pop_to_precedence stack 9 True c) (\<lambda>(stack, _) c.
     pbind (skip' c) (\<lambda>_ c.
     pbind (parse_expr False c) (\<lambda>_ c.
     pbind (next' c) (\<lambda>l' c.
     if token l' \<noteq> CurlyL then fatal (source_id l') ParseImplExpectOpeningCurly c
     else
     pbind (repeat_steps budget (member_step budget parse_expr True False) () c) (\<lambda>_ c.
     pbind (wrap_operand stack (\<lambda>tok. push_ast_data tok (source_id l) Flag_EMPTY Tag_Impl ImplData) c) (\<lambda>stack.
       Done (Advance stack False)))))))"

definition binary_round :: "bool \<Rightarrow> Lexeme \<Rightarrow> OperatorStack \<Rightarrow> Core \<Rightarrow> (Round, Core) parsed" where
  "binary_round allow_complex l stack c =
     (if token_ordinal (token l) < token_ordinal OpMulOrTypPtr \<or> token_ordinal OpSetShr < token_ordinal (token l)
         \<or> (\<not> allow_complex \<and> token l = OpSet) then Done (Break stack) c
      else
      let d = BINARY_OPERATOR_DESCS ! unat (token_ordinal (token l) - token_ordinal OpMulOrTypPtr) in
      pbind (push_operator stack d (source_id l) c) (\<lambda>stack. Done (Advance stack (is_binary d))))"

definition operator_round ::
  "nat \<Rightarrow> expr_parser \<Rightarrow> bool \<Rightarrow> Lexeme \<Rightarrow> OperatorStack \<Rightarrow> Core \<Rightarrow> (Round, Core) parsed" where
  "operator_round budget parse_expr allow_complex l stack c =
     (if token l = ParenL then call_round budget parse_expr l stack c
      else if token l = ParenR then rparen_round stack c
      else if token l = BracketL then bracket_round parse_expr l stack c
      else if token l = KwdCatch then catch_round budget parse_expr l stack c
      else if token l = OpMemberOrRef then member_round l stack c
      else if token l = KwdImpl then impl_round budget parse_expr l stack c
      else binary_round allow_complex l stack c)"

definition expr_step ::
  "nat \<Rightarrow> expr_parser \<Rightarrow> bool \<Rightarrow> Lexeme \<times> OperatorStack \<times> bool \<Rightarrow> Core
     \<Rightarrow> ((Lexeme \<times> OperatorStack \<times> bool) + (OperatorStack + nat), Core) parsed" where
  "expr_step budget parse_expr allow_complex = (\<lambda>(l, stack, expecting_operand) c.
     pbind (if expecting_operand then operand_round budget parse_expr l stack c
            else operator_round budget parse_expr allow_complex l stack c) (\<lambda>r c.
     case r of
       Advance stack expecting \<Rightarrow>
         pbind (skip' c) (\<lambda>_ c. pbind (peek' c) (\<lambda>l. Done (Inl (l, stack, expecting))))
     | Continue l stack expecting \<Rightarrow> Done (Inl (l, stack, expecting)) c
     | Break stack \<Rightarrow> Done (Inr (Inl stack)) c
     | Return tok \<Rightarrow> Done (Inr (Inr tok)) c))"

definition parse_expr_with :: "nat \<Rightarrow> expr_parser \<Rightarrow> bool \<Rightarrow> Core \<Rightarrow> (nat, Core) parsed" where
  "parse_expr_with budget parse_expr allow_complex c =
     pbind (peek' c) (\<lambda>l c.
     pbind (repeat_steps budget (expr_step budget parse_expr allow_complex)
              (l, \<lparr>operators = [], operand_tokens = [], expression_source_id = source_id l\<rparr>, True) c) (\<lambda>r c.
     case r of Inl stack \<Rightarrow> pop_remaining stack c | Inr tok \<Rightarrow> Done tok c))"

fun parse_expr :: "nat \<Rightarrow> expr_parser" where
  "parse_expr 0 allow_complex c = Exhausted"
| "parse_expr (Suc budget) allow_complex c = parse_expr_with (Suc budget) (parse_expr budget) allow_complex c"

section \<open>Files\<close>

definition file_step :: "nat \<Rightarrow> nat \<times> nat \<Rightarrow> Core \<Rightarrow> ((nat \<times> nat) + (nat \<times> nat), Core) parsed" where
  "file_step budget = (\<lambda>(first_child, member_count) c.
     pbind (peek' c) (\<lambda>l c.
     if is_definition_start (token l) then
       pbind (definition_token budget (parse_expr budget) True False c) (\<lambda>tok.
         Done (Inl (first_of first_child tok, member_count + 1)))
     else if token l = END_OF_SOURCE then Done (Inr (first_child, member_count)) c
     else
       let c = continuable (source_id l) ParseUnexpectedTopLevelExpr c;
           c = c\<lparr>parser := (parser c)\<lparr>suppress_errors := True\<rparr>\<rparr> in
       pbind (parse_expr budget True c) (\<lambda>tok c.
         Done (Inl (first_of first_child tok, member_count)) (c\<lparr>parser := (parser c)\<lparr>suppress_errors := False\<rparr>\<rparr>))))"

definition parse_file_body :: "nat \<Rightarrow> Core \<Rightarrow> (bool, Core) parsed" where
  "parse_file_body budget c =
     pbind (repeat_steps budget (file_step budget) (NO_CHILDREN, 0) c) (\<lambda>(first_child, member_count) c.
     pbind (push_ast_data first_child (source_id_base (parser c)) Flag_EMPTY Tag_File (FileData member_count) c) (\<lambda>_ c.
       Done (\<not> has_errors (parser c)) c))"

text \<open>\<open>setjmp\<close>: a jump to \<open>error_jump_buffer\<close> makes \<open>parse_file\<close> return false.\<close>

definition parse_file :: "nat \<Rightarrow> Core \<Rightarrow> (bool, Core) parsed" where
  "parse_file budget c = (case parse_file_body budget c of Jump c \<Rightarrow> Done False c | r \<Rightarrow> r)"

definition complete_tree :: "Core \<Rightarrow> (nat option, Core) parsed" where
  "complete_tree c = pbind (push complete_ast c) (\<lambda>root. Done (Some root))"

definition parse_with :: "nat \<Rightarrow> Core \<Rightarrow> string \<Rightarrow> u32 \<Rightarrow> bool \<Rightarrow> (nat option, Core) parsed" where
  "parse_with budget c content base is_std_source =
     (case parse_setup (parser c) content base is_std_source of
        Inl e \<Rightarrow> Halt e
      | Inr s \<Rightarrow>
          pbind (parse_file budget (c\<lparr>parser := s\<rparr>)) (\<lambda>ok c. if ok then complete_tree c else Done None c))"

text \<open>Every round of a loop and every nested expression takes a lexeme, of at least one byte.\<close>

definition parse :: "Core \<Rightarrow> string \<Rightarrow> u32 \<Rightarrow> bool \<Rightarrow> (nat option, Core) parsed" where
  "parse c content base is_std_source = parse_with (4 * length content + 8) c content base is_std_source"

end
