(* ===== verification/ParserTree.thy ===== *)
theory ParserTree
  imports Parser LexerFacts AstPreorder
begin

text \<open>
  Every function of the parser, when it returns, has pushed exactly one tree to the builder and
  taken at least one lexeme. With that, the parser ends within its budget, and \<open>complete_ast\<close>
  finds in the builder what it needs: the nodes of one tree in postorder.
\<close>

section \<open>Weakest preconditions\<close>

definition wp :: "('a, Core) parsed \<Rightarrow> ('a \<Rightarrow> Core \<Rightarrow> bool) \<Rightarrow> bool" where
  "wp m Q = (case m of Done a c \<Rightarrow> Q a c | Jump c \<Rightarrow> True | Halt e \<Rightarrow> True | Exhausted \<Rightarrow> False)"

lemma wp_simps [simp]:
  "wp (Done a c) Q = Q a c" "wp (Jump c) Q" "wp (Halt e) Q" "\<not> wp Exhausted Q"
  "wp (pbind m f) Q = wp m (\<lambda>a c. wp (f a c) Q)"
  by (auto simp: wp_def pbind_def split: parsed.splits)

lemma wp_mono: "wp m P \<Longrightarrow> (\<And>a c. P a c \<Longrightarrow> Q a c) \<Longrightarrow> wp m Q"
  by (auto simp: wp_def split: parsed.splits)

lemma wp_if [intro]: "(b \<Longrightarrow> wp x Q) \<Longrightarrow> (\<not> b \<Longrightarrow> wp y Q) \<Longrightarrow> wp (if b then x else y) Q"
  by simp

lemma wp_fatal [simp]: "wp (fatal sid err c) Q"
  by (simp add: fatal_def lex_def parse_error_fatal_def)

lemma wp_halt_unless [simp]: "wp (halt_unless e b m) Q \<longleftrightarrow> (b \<longrightarrow> wp m Q)"
  by (simp add: halt_unless_def)

lemma wp_identifier_of: "(\<And>i. Q i c) \<Longrightarrow> wp (identifier_of l c) Q"
  by (simp add: identifier_of_def split: LexemeValue.split)

lemma wp_repeat:
  "I a c \<Longrightarrow> m a c < k
     \<Longrightarrow> (\<And>a c. I a c \<Longrightarrow> wp (body a c) (\<lambda>r c'. case r of Inl a' \<Rightarrow> I a' c' \<and> m a' c' < m a c | Inr b \<Rightarrow> Q b c'))
     \<Longrightarrow> wp (repeat_steps k body a c) Q"
proof (induction k arbitrary: a c)
  case (Suc k)
  show ?case
    unfolding repeat_steps.simps wp_simps
  proof (rule wp_mono [OF Suc(4) [OF Suc(2)]])
    fix r c'
    assume "case r of Inl a' \<Rightarrow> I a' c' \<and> m a' c' < m a c | Inr b \<Rightarrow> Q b c'"
    then show "wp (case r of Inl a \<Rightarrow> repeat_steps k body a c' | Inr b \<Rightarrow> Done b c') Q"
      using Suc(1) Suc(3,4) by (cases r) auto
  qed
qed simp

section \<open>Lexemes left\<close>

definition lexemes_left :: "ParserState \<Rightarrow> nat" where
  "lexemes_left s = 2 * length (rest s) + (if token (peek_slot s) \<in> {EMPTY, END_OF_SOURCE} then 0 else 1)"

abbreviation left :: "Core \<Rightarrow> nat" where "left c \<equiv> lexemes_left (parser c)"

definition live :: "Core \<Rightarrow> bool" where
  "live c \<longleftrightarrow> (token (peek_slot (parser c)) \<notin> {EMPTY, END_OF_SOURCE})"

lemma next_lexeme_left:
  assumes "next_lexeme s = Ok l s'" and "terminated (rest s)"
  shows "terminated (rest s') \<and> lexemes_left s' \<le> lexemes_left s
    \<and> (token l \<noteq> END_OF_SOURCE \<longrightarrow> lexemes_left s' < lexemes_left s)
    \<and> (token (peek_slot s) \<noteq> EMPTY \<longrightarrow> l = peek_slot s \<and> rest s' = rest s)
    \<and> token (peek_slot s') = EMPTY"
proof (cases "token (peek_slot s) = EMPTY")
  case True
  obtain s1 where s1: "scanned 0 s s1"
    "token l = END_OF_SOURCE \<and> s' = s1 \<and> length (rest s') = 1 \<or> scanned 1 s1 s'"
    using next_lexeme_scan [OF assms(1) True assms(2)] by blast
  have "terminated (rest s')" using s1 scanned_terminated assms(2) by metis
  moreover have "peek_slot s' = peek_slot s" "length (rest s') \<le> length (rest s)"
    "token l \<noteq> END_OF_SOURCE \<longrightarrow> length (rest s') < length (rest s)"
    using s1 scanned_frame [of 0 s s1] scanned_frame [of 1 s1 s'] by auto
  ultimately show ?thesis using True by (auto simp: lexemes_left_def)
next
  case False
  then show ?thesis using assms by (auto simp: next_lexeme_def clear_peek_def lexemes_left_def)
qed

lemma peek_left:
  assumes "peek s = Ok l s'" and "terminated (rest s)"
  shows "terminated (rest s') \<and> lexemes_left s' \<le> lexemes_left s \<and> peek_slot s' = l"
proof (cases "token (peek_slot s) = EMPTY")
  case True
  then obtain s1 where s1: "next_lexeme s = Ok l s1" "s' = s1\<lparr>peek_slot := l\<rparr>"
    using assms(1) by (auto simp: peek_def lbind_eq_Ok_iff)
  obtain s2 where s2: "scanned 0 s s2"
    "token l = END_OF_SOURCE \<and> s1 = s2 \<and> length (rest s1) = 1 \<or> scanned 1 s2 s1"
    using next_lexeme_scan [OF s1(1) True assms(2)] by blast
  show ?thesis
    using s1(2) s2 scanned_terminated [OF s2(1) assms(2)] scanned_terminated [of 1 s2 s1]
      scanned_frame [OF s2(1)] scanned_frame [of 1 s2 s1] True
    by (auto simp: lexemes_left_def)
next
  case False
  then show ?thesis using assms by (auto simp: peek_def)
qed

lemma peek_n_left:
  assumes "peek_n s n = Ok l s'" and "terminated (rest s)"
  shows "terminated (rest s') \<and> lexemes_left s' \<le> lexemes_left s
    \<and> (token (peek_slot s) \<noteq> EMPTY \<longrightarrow> peek_slot s' = peek_slot s)"
proof -
  obtain l1 s1 where p: "peek s = Ok l1 s1" "rest s' = rest s1 \<and> peek_slot s' = l1"
    using assms(1) by (auto simp: peek_n_def lbind_eq_Ok_iff Let_def split: if_splits)
  have "lexemes_left s' = lexemes_left s1"
    using p peek_left [OF p(1) assms(2)] by (simp add: lexemes_left_def)
  moreover have "token (peek_slot s) \<noteq> EMPTY \<longrightarrow> l1 = peek_slot s"
    using p(1) by (auto simp: peek_def split: if_splits)
  ultimately show ?thesis using p(2) peek_left [OF p(1) assms(2)] by simp
qed

section \<open>Growing the builder\<close>

abbreviation used :: "Core \<Rightarrow> nat" where "used c \<equiv> builder_used (asts c)"

definition sound :: "Core \<Rightarrow> bool" where
  "sound c \<longleftrightarrow> terminated (rest (parser c)) \<and> used c \<le> NODE_BUILDER_RESERVE_SIZE"

definition grown :: "Core \<Rightarrow> tree list \<Rightarrow> Core \<Rightarrow> bool" where
  "grown c ts c' \<longleftrightarrow> sound c' \<and> fsized ts \<and> left c' \<le> left c \<and>
     (\<exists>N. asts c' = (asts c)\<lparr>node_builder := N, builder_used := used c + fsize ts\<rparr>
       \<and> laids Pushed False False N (used c) False NO_CHILDREN ts
       \<and> same_outside (used c) (used c + fsize ts) (node_builder (asts c)) N)"

definition first_token :: "Core \<Rightarrow> tree list \<Rightarrow> nat" where
  "first_token c ts = (case ts of [] \<Rightarrow> NO_CHILDREN | t # _ \<Rightarrow> root_pos (used c) t)"

lemma first_token_simps [simp]:
  "first_token c [] = NO_CHILDREN" "first_token c (t # ts) = root_pos (used c) t"
  "ts \<noteq> [] \<Longrightarrow> first_token c (ts @ us) = first_token c ts"
  by (auto simp: first_token_def split: list.split)

lemma grown_sound: "grown c ts c' \<Longrightarrow> sound c'"
  by (simp add: grown_def)

lemma grown_used: "grown c ts c' \<Longrightarrow> used c' = used c + fsize ts"
  by (auto simp: grown_def)

lemma grown_left: "grown c ts c' \<Longrightarrow> left c' \<le> left c"
  by (simp add: grown_def)

lemma grown_refl: "sound c \<Longrightarrow> grown c [] c"
  unfolding grown_def by (intro conjI exI [of _ "node_builder (asts c)"]) simp_all

lemma fsize_append [simp]: "fsize (ts @ us) = fsize ts + fsize us"
  by (induction ts) auto

lemma fsized_append [simp]: "fsized (ts @ us) \<longleftrightarrow> fsized ts \<and> fsized us"
  by (induction ts) auto

lemma laids_pushed_first:
  "laids Pushed False False N b f NO_CHILDREN ts = laids Pushed False False N b False NO_CHILDREN ts"
  by (cases ts) auto

lemma laids_pushed_Cons [simp]:
  "laids Pushed False False N b f NO_CHILDREN (t # ts) \<longleftrightarrow>
     laid Pushed N b False False NO_CHILDREN t \<and> laids Pushed False False N (b + tsize t) False NO_CHILDREN ts"
  by (cases ts) auto

lemma laids_pushed_append:
  "laids Pushed False False N b f NO_CHILDREN (ts @ us) \<longleftrightarrow>
     laids Pushed False False N b f NO_CHILDREN ts \<and> laids Pushed False False N (b + fsize ts) f NO_CHILDREN us"
proof (induction ts arbitrary: b f)
  case (Cons t ts)
  then show ?case
    using laids_pushed_first [of N _ f us] by (simp only: append_Cons laids_pushed_Cons fsize.simps add.assoc) auto
qed simp

lemma grown_trans:
  assumes "grown c ts c1" and "grown c1 us c2"
  shows "grown c (ts @ us) c2"
proof -
  obtain N where N: "asts c1 = (asts c)\<lparr>node_builder := N, builder_used := used c + fsize ts\<rparr>"
    "laids Pushed False False N (used c) False NO_CHILDREN ts"
    "same_outside (used c) (used c + fsize ts) (node_builder (asts c)) N" "fsized ts" "left c1 \<le> left c"
    using assms(1) by (auto simp: grown_def)
  obtain M where M: "asts c2 = (asts c1)\<lparr>node_builder := M, builder_used := used c1 + fsize us\<rparr>"
    "laids Pushed False False M (used c1) False NO_CHILDREN us"
    "same_outside (used c1) (used c1 + fsize us) N M" "fsized us" "left c2 \<le> left c1" "sound c2"
    using assms(2) N(1) by (auto simp: grown_def)
  have "laids Pushed False False M (used c) False NO_CHILDREN ts"
    by (rule laid_outside(2) [OF M(3) _ N(2) tsized_twf(2) [OF N(4)]]) (simp add: N(1))
  moreover have "asts c2 = (asts c)\<lparr>node_builder := M, builder_used := used c + fsize (ts @ us)\<rparr>"
    using M(1) N(1) by simp
  moreover have "same_outside (used c) (used c + fsize (ts @ us)) (node_builder (asts c)) M"
    using M(3) N(1,3) by (auto simp: same_outside_def)
  ultimately show ?thesis
    unfolding grown_def using M N by (intro conjI exI [of _ M]) (simp_all add: laids_pushed_append)
qed

section \<open>Rules for the operations\<close>

lemma grown_lexed:
  "grown c0 ts c \<Longrightarrow> terminated (rest s) \<Longrightarrow> lexemes_left s \<le> left c \<Longrightarrow> grown c0 ts (c\<lparr>parser := s\<rparr>)"
  by (auto simp: grown_def sound_def)

lemma grown_terminated: "grown c0 ts c \<Longrightarrow> terminated (rest (parser c))"
  by (simp add: grown_def sound_def)

lemma wp_lex:
  assumes "grown c0 ts c"
    and "\<And>a s. f (parser c) = Ok a s \<Longrightarrow> terminated (rest s) \<and> lexemes_left s \<le> left c"
    and "\<And>a c'. f (parser c) = Ok a (parser c') \<Longrightarrow> grown c0 ts c' \<Longrightarrow> left c' \<le> left c \<Longrightarrow> P a c'"
  shows "wp (lex f c) P"
proof (cases "f (parser c)")
  case (Ok a s)
  have "grown c0 ts (c\<lparr>parser := s\<rparr>)"
    using assms(1) assms(2) [OF Ok] by (blast intro: grown_lexed)
  then show ?thesis using assms(2) [OF Ok] assms(3) [of a "c\<lparr>parser := s\<rparr>"] Ok by (simp add: lex_def)
qed (simp_all add: lex_def)

lemma wp_next:
  assumes "grown c0 ts c"
    and "\<And>l c'. grown c0 ts c' \<Longrightarrow> left c' \<le> left c \<Longrightarrow> (token l \<noteq> END_OF_SOURCE \<Longrightarrow> left c' < left c)
      \<Longrightarrow> (live c \<Longrightarrow> l = peek_slot (parser c)) \<Longrightarrow> P l c'"
  shows "wp (next' c) P"
proof (rule wp_lex [OF assms(1)])
  show "terminated (rest s) \<and> lexemes_left s \<le> left c" if "next_lexeme (parser c) = Ok l s" for l s
    using next_lexeme_left [OF that grown_terminated [OF assms(1)]] by simp
  show "P l c'" if "next_lexeme (parser c) = Ok l (parser c')" "grown c0 ts c'" "left c' \<le> left c" for l c'
    using next_lexeme_left [OF that(1) grown_terminated [OF assms(1)]]
    by (intro assms(2) that) (auto simp: live_def)
qed

lemma wp_peek:
  assumes "grown c0 ts c"
    and "\<And>l c'. grown c0 ts c' \<Longrightarrow> left c' \<le> left c \<Longrightarrow> peek_slot (parser c') = l \<Longrightarrow> P l c'"
  shows "wp (peek' c) P"
proof (rule wp_lex [OF assms(1)])
  show "terminated (rest s) \<and> lexemes_left s \<le> left c" if "peek (parser c) = Ok l s" for l s
    using peek_left [OF that grown_terminated [OF assms(1)]] by simp
  show "P l c'" if "peek (parser c) = Ok l (parser c')" "grown c0 ts c'" "left c' \<le> left c" for l c'
    using peek_left [OF that(1) grown_terminated [OF assms(1)]] by (intro assms(2) that) simp
qed

lemma wp_peek_n:
  assumes "grown c0 ts c"
    and "\<And>l c'. grown c0 ts c' \<Longrightarrow> left c' \<le> left c \<Longrightarrow> (live c \<Longrightarrow> peek_slot (parser c') = peek_slot (parser c))
      \<Longrightarrow> P l c'"
  shows "wp (peek_n' n c) P"
proof (rule wp_lex [OF assms(1)])
  show "terminated (rest s) \<and> lexemes_left s \<le> left c" if "peek_n (parser c) n = Ok l s" for l s
    using peek_n_left [OF that grown_terminated [OF assms(1)]] by simp
  show "P l c'" if "peek_n (parser c) n = Ok l (parser c')" "grown c0 ts c'" "left c' \<le> left c" for l c'
    using peek_n_left [OF that(1) grown_terminated [OF assms(1)]] by (intro assms(2) that) (auto simp: live_def)
qed

lemma wp_skip:
  assumes "grown c0 ts c"
    and "\<And>c'. grown c0 ts c' \<Longrightarrow> left c' \<le> left c \<Longrightarrow> (live c \<Longrightarrow> left c' < left c) \<Longrightarrow> P () c'"
  shows "wp (skip' c) P"
proof -
  have "skip' c = pbind (next' c) (\<lambda>_. Done ())"
    by (simp add: lex_def skip_def lbind_def split: lexed.split)
  then show ?thesis
    using wp_next [OF assms(1), of "\<lambda>_ c'. P () c'"] assms(2) by (auto simp: live_def)
qed

lemma wp_expect:
  assumes "grown c0 ts c" and "t \<noteq> EMPTY" and "t \<noteq> END_OF_SOURCE"
    and "\<And>sid c'. grown c0 ts c' \<Longrightarrow> left c' < left c \<Longrightarrow> P sid c'"
  shows "wp (expect t c) P"
  unfolding expect_def wp_simps wp_halt_unless
proof (rule wp_peek [OF assms(1)], intro impI)
  fix l c'
  assume p: "grown c0 ts c'" "left c' \<le> left c" "peek_slot (parser c') = l" "token l = t"
  show "wp (next' c') (\<lambda>l. P (source_id l))"
    by (rule wp_next [OF p(1)]) (use p assms(2-4) in \<open>auto simp: live_def\<close>)
qed

lemma continuable_simps [simp]:
  "left (continuable sid err c) = left c" "grown c0 ts (continuable sid err c) = grown c0 ts c"
  "peek_slot (parser (continuable sid err c)) = peek_slot (parser c)" "live (continuable sid err c) = live c"
  "used (continuable sid err c) = used c" "asts (continuable sid err c) = asts c"
  by (auto simp: continuable_def parse_error_continuable_def record_error_def Let_def grown_def sound_def
      lexemes_left_def live_def)

lemma continuable_if [simp]:
  "left (if b then continuable sid err c else c) = left c"
  "grown c0 ts (if b then continuable sid err c else c) = grown c0 ts c"
  "live (if b then continuable sid err c else c) = live c"
  "peek_slot (parser (if b then continuable sid err c else c)) = peek_slot (parser c)"
  by simp_all

subsection \<open>Nodes\<close>

definition node_ok :: "Core \<Rightarrow> (nat, Core) parsed \<Rightarrow> bool" where
  "node_ok c m \<longleftrightarrow> wp m (\<lambda>tok c'. \<exists>t. grown c [t] c' \<and> tok = root_pos (used c) t \<and> left c' < left c)"

lemma wp_node:
  assumes "grown c0 ts c" and "node_ok c m"
    and "\<And>t c'. grown c0 (ts @ [t]) c' \<Longrightarrow> left c' < left c \<Longrightarrow> P (root_pos (used c0 + fsize ts) t) c'"
  shows "wp m P"
proof (rule wp_mono [OF assms(2) [unfolded node_ok_def]])
  fix tok c'
  assume "\<exists>t. grown c [t] c' \<and> tok = root_pos (used c) t \<and> left c' < left c"
  then obtain t where t: "grown c [t] c'" "tok = root_pos (used c) t" "left c' < left c" by blast
  show "P tok c'"
    using assms(3) [OF grown_trans [OF assms(1) t(1)] t(3)] t(2) grown_used [OF assms(1)] by simp
qed

lemma grown_push:
  assumes "grown c0 ts c" and "push_node_data (asts c) (first_token c0 ts) sid fl tg data = Inr (a, tok)"
    and "attachment_qwords data < 255"
  shows "\<exists>n. tag n = tg \<and> attachment n = data \<and> grown c0 [Tree n ts] (c\<lparr>asts := a\<rparr>)
    \<and> tok = root_pos (used c0) (Tree n ts)"
proof -
  obtain N where N: "asts c = (asts c0)\<lparr>node_builder := N, builder_used := used c0 + fsize ts\<rparr>"
    "laids Pushed False False N (used c0) False NO_CHILDREN ts"
    "same_outside (used c0) (used c0 + fsize ts) (node_builder (asts c0)) N" "fsized ts" "left c \<le> left c0" "sound c"
    using assms(1) by (auto simp: grown_def)
  let ?n = "\<lparr>tag = tg, flags = fl, own_qwords = 1 + attachment_qwords data, first_sibling = False,
    last_sibling = False, no_children = (ts = []), next_sibling_offset = first_token c0 ts, attachment = data,
    node_source = sid\<rparr>"
  let ?r = "used c0 + fsize ts" and ?t = "Tree ?n ts"
  have u: "used c = ?r" by (rule grown_used [OF assms(1)])
  have "first_token c0 ts < NO_CHILDREN" if "ts \<noteq> []"
    using root_pos_bounds [of "hd ts" "used c0"] tsized_twf(2) [OF N(4)] that N(6) u
    by (cases ts) (auto simp: sound_def NODE_BUILDER_RESERVE_SIZE_def)
  then have "first_token c0 ts = NO_CHILDREN \<longleftrightarrow> ts = []" by (cases "ts = []") auto
  then have a: "a = (asts c)\<lparr>node_builder := N(?r \<mapsto> ?n), builder_used := ?r + (1 + attachment_qwords data)\<rparr>"
    "tok = ?r" "?r + (1 + attachment_qwords data) \<le> NODE_BUILDER_RESERVE_SIZE"
    using assms(2,3) N(1) u
    by (auto simp: push_node_data_def push_node_qwords_def ensure_eq_Inr_iff Let_def)
  have "laids Pushed False False (N(?r \<mapsto> ?n)) (used c0) False NO_CHILDREN ts"
    by (rule laid_cong(2) [OF _ N(2) tsized_twf(2) [OF N(4)]]) simp
  then have "laid Pushed (N(?r \<mapsto> ?n)) (used c0) False False NO_CHILDREN ?t"
    using laids_pushed_first [of _ "used c0" True ts]
    by (simp add: with_structure_def first_token_def fun_upd_same del: fun_upd_apply)
  moreover have "same_outside (used c0) (used c0 + tsize ?t) (node_builder (asts c0)) (N(?r \<mapsto> ?n))"
    using N(3) by (auto simp: same_outside_def)
  ultimately have "grown c0 [?t] (c\<lparr>asts := a\<rparr>)"
    unfolding grown_def using N assms(3) a(3)
    by (intro conjI exI [of _ "N(?r \<mapsto> ?n)"]) (simp_all add: a(1) sound_def add.assoc)
  then show ?thesis using a(2) by (intro exI [of _ ?n]) simp
qed

lemma wp_push_data:
  assumes "grown c0 ts c" and "tok = first_token c0 ts" and "attachment_qwords data < 255"
    and "\<And>t c'. grown c0 [t] c' \<Longrightarrow> parser c' = parser c \<Longrightarrow> P (root_pos (used c0) t) c'"
  shows "wp (push_ast_data tok sid fl tg data c) P"
proof (cases "push_node_data (asts c) tok sid fl tg data")
  case (Inr r)
  obtain a i where r: "r = (a, i)" by (cases r)
  obtain t where "grown c0 [t] (c\<lparr>asts := a\<rparr>)" "i = root_pos (used c0) t"
    using grown_push [OF assms(1)] Inr r assms(2,3) by blast
  then show ?thesis using Inr r assms(4) by (simp add: push_ast_data_def push_def)
qed (simp add: push_ast_data_def push_def)

lemma push_ast_as_data: "push_ast tok sid fl tg = push_ast_data tok sid fl tg NoData"
  by (simp add: push_ast_def push_ast_data_def push_node_def push_node_data_def fun_eq_iff)

lemma wp_push:
  assumes "grown c0 ts c" and "tok = first_token c0 ts"
    and "\<And>t c'. grown c0 [t] c' \<Longrightarrow> parser c' = parser c \<Longrightarrow> P (root_pos (used c0) t) c'"
  shows "wp (push_ast tok sid fl tg c) P"
  unfolding push_ast_as_data by (rule wp_push_data [where P = P, OF assms(1,2) _ assms(3)]) simp_all

lemma node_ok_push:
  assumes "grown c0 ts c" and "tok = first_token c0 ts" and "left c < left c0"
  shows "node_ok c0 (push_ast tok sid fl tg c)"
    and "attachment_qwords data < 255 \<Longrightarrow> node_ok c0 (push_ast_data tok sid fl tg data c)"
  unfolding node_ok_def
  by (rule wp_push [OF assms(1,2)] wp_push_data [OF assms(1,2)]; use assms(3) in auto)+

definition rec_ok :: "nat \<Rightarrow> expr_parser \<Rightarrow> bool" where
  "rec_ok n rec \<longleftrightarrow> (\<forall>allow_complex c. sound c \<longrightarrow> left c < n \<longrightarrow> node_ok c (rec allow_complex c))"

lemma wp_rec:
  assumes "grown c0 ts c" and "rec_ok n rec" and "left c < n"
    and "\<And>t c'. grown c0 (ts @ [t]) c' \<Longrightarrow> left c' < left c \<Longrightarrow> P (root_pos (used c0 + fsize ts) t) c'"
  shows "wp (rec allow_complex c) P"
  by (rule wp_node [where P = P, OF assms(1) _ assms(4)]) (use assms(2,3) grown_sound [OF assms(1)] in \<open>auto simp: rec_ok_def\<close>)

section \<open>Definitions and statements\<close>

lemma parse_return_ok:
  assumes "sound c" and "rec_ok n rec" and "left c \<le> n"
  shows "node_ok c (parse_return rec c)"
  unfolding node_ok_def parse_return_def wp_simps
  by (insert assms) (rule wp_expect, erule grown_refl, simp, simp,
      erule (1) wp_rec, linarith, erule wp_push, simp, fastforce)

lemma parse_yield_ok:
  assumes "sound c" and "rec_ok n rec" and "left c \<le> n"
  shows "node_ok c (parse_yield rec c)"
  unfolding node_ok_def parse_yield_def wp_simps
  by (insert assms) (rule wp_expect, erule grown_refl, simp, simp,
      erule (1) wp_rec, linarith, erule wp_push, simp, fastforce)

lemma parse_leave_ok:
  assumes "sound c"
  shows "node_ok c (parse_leave c)"
  unfolding node_ok_def parse_leave_def wp_simps
  by (insert assms) (rule wp_expect, erule grown_refl, simp, simp, erule wp_push, simp, fastforce)

text \<open>What \<open>modifier_step\<close> keeps: only the end of the source may come without a lexeme taken.\<close>

definition seen :: "Core \<Rightarrow> Lexeme \<Rightarrow> Core \<Rightarrow> bool" where
  "seen c0 l c \<longleftrightarrow> grown c0 [] c \<and> (left c < left c0 \<or> token l = END_OF_SOURCE)"

definition modifiers_left :: "AstFlag \<times> Lexeme \<Rightarrow> Core \<Rightarrow> nat" where
  "modifiers_left = (\<lambda>(fl, l) c. left c + (if token l \<in> {KwdPub, KwdMut} then 1 else 0))"

lemma seen_next:
  assumes "grown c0 [] c" and "left c < left c0"
  shows "wp (next' c) (\<lambda>l c'. seen c0 l c' \<and> left c' < left c0 \<and> modifiers_left (fl, l) c' \<le> left c)"
  by (rule wp_next [OF assms(1)]) (use assms(2) in \<open>auto simp: seen_def modifiers_left_def\<close>)

lemma modifier_step_ok:
  assumes "seen c0 l c"
  shows "wp (modifier_step is_param (fl, l) c) (\<lambda>r c'.
    case r of Inl (fl', l') \<Rightarrow> seen c0 l' c' \<and> modifiers_left (fl', l') c' < modifiers_left (fl, l) c
    | Inr (fl', l') \<Rightarrow> seen c0 l' c')"
proof (cases "token l = KwdPub \<or> token l = KwdMut")
  case True
  then have "grown c0 [] c" "left c < left c0" and m: "modifiers_left (fl, l) c = left c + 1"
    using assms by (auto simp: seen_def modifiers_left_def)
  then have "wp (next' c2) (\<lambda>l' c'. seen c0 l' c' \<and> modifiers_left (fl', l') c' < modifiers_left (fl, l) c)"
    if "grown c0 [] c2" "left c2 = left c" for c2 fl'
    by (intro wp_mono [OF seen_next [of c0 c2 fl']]) (use that in auto)
  with \<open>grown c0 [] c\<close> True show ?thesis
    by (auto simp: modifier_step_def Let_def)
next
  case False
  then show ?thesis using assms by (simp add: modifier_step_def)
qed

lemma grown_token:
  assumes "grown c0 (t # ts) c"
  shows "root_pos (used c0) t \<noteq> NO_CHILDREN"
proof -
  have "twf t" using assms tsized_twf(1) [of t] by (auto simp: grown_def)
  moreover have "used c0 + tsize t \<le> NODE_BUILDER_RESERVE_SIZE"
    using grown_used [OF assms] grown_sound [OF assms] by (simp add: sound_def)
  ultimately show ?thesis
    using root_pos_bounds [of t "used c0"] by (simp add: NODE_BUILDER_RESERVE_SIZE_def)
qed

lemma first_of_token:
  assumes "grown c0 ts c"
  shows "first_of (first_token c0 ts) (root_pos (used c0 + fsize ts) t) = first_token c0 (ts @ [t])"
  using assms grown_token by (cases ts) (auto simp: first_of_def)

lemma parse_definition_type_ok:
  assumes "grown c0 [] c" and "rec_ok n rec" and "left c < n"
  shows "wp (parse_definition_type rec is_param v c)
    (\<lambda>(tok, v) c'. \<exists>t. grown c0 [t] c' \<and> tok = first_token c0 [t] \<and> left c' < left c)"
  unfolding parse_definition_type_def wp_simps
  by (insert assms) (erule wp_skip, erule wp_peek, rule wp_if,
      simp only: wp_simps, erule wp_skip, erule (1) wp_rec, linarith, erule wp_push, simp, fastforce,
      simp only: wp_simps, erule (1) wp_rec, linarith, fastforce)

text \<open>The state between the parts of a definition.\<close>

abbreviation children :: "Core \<Rightarrow> nat \<Rightarrow> Core \<Rightarrow> bool" where
  "children c0 first c \<equiv> \<exists>ts. grown c0 ts c \<and> first = first_token c0 ts"

definition definition_ok :: "Core \<Rightarrow> (nat \<times> u32 option, Core) parsed \<Rightarrow> bool" where
  "definition_ok c m \<longleftrightarrow>
     wp m (\<lambda>(tok, v) c'. \<exists>t. grown c [t] c' \<and> tok = root_pos (used c) t \<and> left c' < left c)"

lemma wp_definition:
  assumes "grown c0 ts c" and "definition_ok c m"
    and "\<And>t v c'. grown c0 (ts @ [t]) c' \<Longrightarrow> left c' < left c \<Longrightarrow> P (root_pos (used c0 + fsize ts) t, v) c'"
  shows "wp m P"
proof (rule wp_mono [OF assms(2) [unfolded definition_ok_def]], clarify)
  fix v c' t
  assume t: "grown c [t] c'" "left c' < left c"
  show "P (root_pos (used c) t, v) c'"
    using assms(3) [OF grown_trans [OF assms(1) t(1)] t(2)] grown_used [OF assms(1)] by simp
qed

lemma definition_modifiers_ok:
  assumes "sound c" and "left c < budget"
  shows "wp (definition_modifiers budget is_param c) (\<lambda>(sid, fl, l) c'. seen c l c')"
  unfolding definition_modifiers_def wp_simps
proof (rule wp_next [OF grown_refl [OF assms(1)]])
  fix l0 :: Lexeme and c1
  assume l0: "grown c [] c1" "left c1 \<le> left c" "token l0 \<noteq> END_OF_SOURCE \<Longrightarrow> left c1 < left c"
  have "wp (if is_param \<and> token l0 = KwdEval then pbind (next' c1) (\<lambda>l. Done (Definition_IsEval, l))
      else Done (Flag_EMPTY, l0) c1) (\<lambda>(fl, l) c'. seen c l c')"
    by (rule wp_if; (unfold wp_simps, rule wp_next [OF l0(1)])?) (use l0 in \<open>auto simp: seen_def\<close>)
  moreover have "wp (if token l = KwdLet then pbind (next' c2) (\<lambda>l. Done (fl, l))
      else repeat_steps budget (modifier_step is_param) (fl, l) c2) (\<lambda>(fl, l) c'. seen c l c')"
    if "seen c l c2" for fl l c2
  proof (rule wp_if)
    show "wp (pbind (next' c2) (\<lambda>l. Done (fl, l))) (\<lambda>(fl, l) c'. seen c l c')" if "token l = KwdLet"
    proof -
      have c2: "grown c [] c2" "left c2 < left c" using \<open>seen c l c2\<close> that by (auto simp: seen_def)
      show ?thesis unfolding wp_simps by (rule wp_next [OF c2(1)]) (use c2(2) in \<open>auto simp: seen_def\<close>)
    qed
    show "wp (repeat_steps budget (modifier_step is_param) (fl, l) c2) (\<lambda>(fl, l) c'. seen c l c')"
    proof (rule wp_repeat [where I = "\<lambda>(fl, l) c'. seen c l c'" and m = modifiers_left])
      show "modifiers_left (fl, l) c2 < budget"
        using that assms(2) grown_left [of c "[]" c2] by (auto simp: seen_def modifiers_left_def)
      show "wp (modifier_step is_param a c') (\<lambda>r c''. case r of
          Inl a' \<Rightarrow> (case a' of (fl, l) \<Rightarrow> seen c l) c'' \<and> modifiers_left a' c'' < modifiers_left a c'
        | Inr b \<Rightarrow> (case b of (fl, l) \<Rightarrow> seen c l) c'')"
        if "(case a of (fl, l) \<Rightarrow> seen c l) c'" for a c'
        using that modifier_step_ok [of c "snd a" c' is_param "fst a"]
        by (cases a) (auto elim!: wp_mono split: sum.splits prod.splits)
    qed (use that in simp)
  qed
  ultimately show "wp (if is_param \<and> token l0 = KwdEval then pbind (next' c1) (\<lambda>l. Done (Definition_IsEval, l))
      else Done (Flag_EMPTY, l0) c1) (\<lambda>a ca. wp ((case a of (fl, l) \<Rightarrow> \<lambda>c.
        pbind (if token l = KwdLet then pbind (next' c) (\<lambda>l. Done (fl, l))
            else repeat_steps budget (modifier_step is_param) (fl, l) c) (\<lambda>(fl, l).
       Done (source_id l0, fl, l))) ca) (\<lambda>(sid, fl, l) c'. seen c l c'))"
    by (elim wp_mono) (auto elim!: wp_mono)
qed

lemma definition_type_ok:
  assumes "grown c0 [] c" and "rec_ok n rec" and "left c < n"
  shows "wp (definition_type rec opt_type is_param v fl l c)
    (\<lambda>(fl, first, v, l) c'. children c0 first c' \<and> left c' \<le> left c)"
  unfolding definition_type_def
proof (rule wp_if)
  show "wp (pbind (parse_definition_type rec is_param v c) (\<lambda>(tok, v) c.
        pbind (peek' c) (\<lambda>l. Done (fl OR Definition_HasType, tok, v, l))))
      (\<lambda>(fl, first, v, l) c'. children c0 first c' \<and> left c' \<le> left c)"
    unfolding wp_simps
  proof (rule wp_mono [OF parse_definition_type_ok [OF assms]], clarsimp)
    fix v c' t
    assume t: "grown c0 [t] c'" "left c' < left c"
    show "wp (peek' c') (\<lambda>a ca. children c0 (root_pos (used c0) t) ca \<and> left ca \<le> left c)"
      by (rule wp_peek [OF t(1)]) (use t(2) in \<open>auto intro!: exI [of _ "[t]"]\<close>)
  qed
  have "children c0 NO_CHILDREN c" using assms(1) by (intro exI [of _ "[]"]) simp
  then show "wp (let c = if \<not> opt_type then continuable (source_id l) ParseDefinitionMissingColon c else c
      in Done (fl, NO_CHILDREN, v, l) c) (\<lambda>(fl, first, v, l) c'. children c0 first c' \<and> left c' \<le> left c)"
    by (auto simp: Let_def)
qed

lemma definition_value_ok:
  assumes "children c0 first c" and "rec_ok n rec" and "left c < n"
  shows "wp (definition_value rec opt_value first l c) (\<lambda>first c'. children c0 first c' \<and> left c' \<le> left c)"
  unfolding definition_value_def
proof (rule wp_if)
  obtain ts where ts: "grown c0 ts c" "first = first_token c0 ts" using assms(1) by blast
  show "wp (pbind (skip' c) (\<lambda>_ c. pbind (rec True c) (\<lambda>value_token. Done (first_of first value_token))))
      (\<lambda>first c'. children c0 first c' \<and> left c' \<le> left c)"
    unfolding wp_simps
    by (insert ts assms(2,3)) (rule wp_skip, assumption, rule wp_rec, assumption, assumption, linarith,
      use first_of_token [OF ts(1)] in fastforce)
  show "wp (let c = if \<not> opt_value then continuable (source_id l) ParseDefinitionMissingEquals c else c in Done first c)
      (\<lambda>first c'. children c0 first c' \<and> left c' \<le> left c)"
    using ts by (auto simp: Let_def)
qed

lemma wp_modifiers:
  assumes "sound c0" and "left c0 < budget"
    and "\<And>sid fl l c'. seen c0 l c' \<Longrightarrow> P (sid, fl, l) c'"
  shows "wp (definition_modifiers budget is_param c0) P"
  by (rule wp_mono [OF definition_modifiers_ok [OF assms(1,2)]]) (use assms(3) in auto)

lemma wp_definition_type:
  assumes "grown c0 [] c" and "rec_ok n rec" and "left c < n"
    and "\<And>fl ts v l c'. grown c0 ts c' \<Longrightarrow> left c' \<le> left c \<Longrightarrow> P (fl, first_token c0 ts, v, l) c'"
  shows "wp (definition_type rec opt_type is_param v fl l c) P"
  by (rule wp_mono [OF definition_type_ok [OF assms(1-3)]]) (use assms(4) in auto)

lemma wp_definition_value:
  assumes "grown c0 ts c" and "rec_ok n rec" and "left c < n"
    and "\<And>ts c'. grown c0 ts c' \<Longrightarrow> left c' \<le> left c \<Longrightarrow> P (first_token c0 ts) c'"
  shows "wp (definition_value rec opt_value (first_token c0 ts) l c) P"
  by (rule wp_mono [OF definition_value_ok [OF _ assms(2,3)]]) (use assms(1,4) in auto)

lemma parse_definition_ok:
  assumes "sound c" and "rec_ok n rec" and "left c \<le> n" and "left c < budget"
  shows "definition_ok c (parse_definition budget rec opt_type opt_value is_param v c)"
  unfolding definition_ok_def parse_definition_def wp_simps
  by (insert assms) (erule wp_modifiers, assumption, simp only: prod.case, rule wp_if, simp,
      clarsimp simp: seen_def, rule wp_identifier_of, erule wp_peek, erule (1) wp_definition_type, linarith,
      simp only: prod.case wp_simps, erule (1) wp_definition_value, linarith,
      rule wp_if; erule wp_push_data, simp, simp, fastforce)

lemma definition_token_ok:
  assumes "sound c" and "rec_ok n rec" and "left c \<le> n" and "left c < budget"
  shows "node_ok c (definition_token budget rec opt_type opt_value c)"
  using parse_definition_ok [OF assms, of opt_type opt_value False None]
  by (auto simp: node_ok_def definition_ok_def definition_token_def elim!: wp_mono)

lemma wp_token:
  assumes "grown c0 ts c" and "rec_ok n rec" and "left c \<le> n" and "left c < budget"
    and "\<And>t c'. grown c0 (ts @ [t]) c' \<Longrightarrow> left c' < left c \<Longrightarrow> P (root_pos (used c0 + fsize ts) t) c'"
  shows "wp (definition_token budget rec opt_type opt_value c) P"
  by (rule wp_node [where P = P, OF assms(1) definition_token_ok [OF grown_sound [OF assms(1)] assms(2-4)] assms(5)])

lemma node_ok_via_peek:
  assumes "grown c [] c1" and "left c1 \<le> left c" and "node_ok c1 m"
  shows "node_ok c m"
  unfolding node_ok_def
  by (rule wp_node [OF assms(1,3)]) (use assms(2) in fastforce)

lemma parse_argument_ok:
  assumes "sound c" and "rec_ok n rec" and "left c < n" and "left c < budget"
  shows "node_ok c (parse_argument budget rec c)"
  unfolding node_ok_def parse_argument_def wp_simps
  by (insert assms, rule wp_peek, erule grown_refl)
    (erule (1) wp_token, linarith, linarith | erule (1) wp_rec, linarith | erule wp_peek_n
      | rule wp_if | simp only: wp_simps if_True if_False | fastforce)+

lemma parse_statement_ok:
  assumes "sound c" and "rec_ok n rec" and "left c < n" and "left c < budget"
  shows "node_ok c (parse_statement budget rec c)"
  unfolding node_ok_def parse_statement_def wp_simps
  by (insert assms, rule wp_peek, erule grown_refl)
    (erule (1) wp_token, linarith, linarith | erule (1) wp_rec, linarith
      | rule wp_node, assumption, rule parse_return_ok, erule grown_sound, assumption, linarith
      | rule wp_node, assumption, rule parse_yield_ok, erule grown_sound, assumption, linarith
      | rule wp_node, assumption, rule parse_leave_ok, erule grown_sound
      | rule wp_if | fastforce)+

section \<open>Lists of elements\<close>

text \<open>Nodes that are pushed one behind the other, as the children of a node to come.\<close>

definition more :: "Core \<Rightarrow> tree list \<Rightarrow> Core \<Rightarrow> Core \<Rightarrow> bool" where
  "more c0 ts c c' \<longleftrightarrow> (\<exists>us. grown c0 (ts @ us) c') \<and> left c' \<le> left c"

lemma comma_steps_ok:
  assumes "grown c0 ts c" and "left c < budget"
    and "\<And>c1. sound c1 \<Longrightarrow> left c1 < left c \<Longrightarrow> node_ok c1 (element c1)"
  shows "wp (repeat_steps budget (comma_step element) () c) (\<lambda>_ c'. more c0 ts c c')"
proof (rule wp_repeat [where I = "\<lambda>_ c'. more c0 ts c c'" and m = "\<lambda>_. left"])
  show "more c0 ts c c" unfolding more_def using assms(1) by (intro conjI exI [of _ "[]"]) simp_all
  fix u :: unit and c1
  assume "more c0 ts c c1"
  then obtain us where us: "grown c0 (ts @ us) c1" "left c1 \<le> left c" by (auto simp: more_def)
  show "wp (comma_step element u c1) (\<lambda>r c'. case r of
      Inl a' \<Rightarrow> more c0 ts c c' \<and> left c' < left c1 | Inr b \<Rightarrow> more c0 ts c c')"
    unfolding comma_step_def wp_simps
  proof (rule wp_peek [OF us(1)], rule wp_if)
    fix l c2
    assume c2: "grown c0 (ts @ us) c2" "left c2 \<le> left c1" "peek_slot (parser c2) = l"
    show "wp (Done (Inr ()) c2) (\<lambda>r c'. case r of
      Inl a' \<Rightarrow> more c0 ts c c' \<and> left c' < left c1 | Inr b \<Rightarrow> more c0 ts c c')"
      using c2 us(2) by (auto simp: more_def)
    assume "\<not> token l \<noteq> Comma"
    then have live: "live c2" using c2(3) by (simp add: live_def)
    show "wp (pbind (skip' c2) (\<lambda>_ c. pbind (element c) (\<lambda>_. Done (Inl ())))) (\<lambda>r c'. case r of
      Inl a' \<Rightarrow> more c0 ts c c' \<and> left c' < left c1 | Inr b \<Rightarrow> more c0 ts c c')"
      unfolding wp_simps
    proof (rule wp_skip [OF c2(1)])
      fix c3
      assume c3: "grown c0 (ts @ us) c3" "live c2 \<Longrightarrow> left c3 < left c2"
      then have ok: "node_ok c3 (element c3)"
        using assms(3) grown_sound us(2) c2(2) live by fastforce
      show "wp (element c3) (\<lambda>_ c'. case Inl () of
        Inl a' \<Rightarrow> more c0 ts c c' \<and> left c' < left c1 | Inr b \<Rightarrow> more c0 ts c c')"
        by (rule wp_node [OF c3(1) ok]) (use c3(2) live c2(2) us(2) in \<open>auto simp: more_def\<close>)
    qed
  qed
qed (use assms(2) in simp)

lemma wp_comma_steps:
  assumes "grown c0 ts c" and "left c < budget"
    and "\<And>c1. sound c1 \<Longrightarrow> left c1 < left c \<Longrightarrow> node_ok c1 (element c1)"
    and "\<And>us u c'. grown c0 (ts @ us) c' \<Longrightarrow> left c' \<le> left c \<Longrightarrow> P u c'"
  shows "wp (repeat_steps budget (comma_step element) () c) P"
  by (rule wp_mono [OF comma_steps_ok [OF assms(1-3)]]) (use assms(4) in \<open>auto simp: more_def\<close>)

section \<open>Conditionals and loops\<close>

lemma parse_where_ok:
  assumes "sound c" and "rec_ok n rec" and "left c \<le> n" and "left c < budget"
  shows "node_ok c (parse_where budget rec c)"
  unfolding node_ok_def parse_where_def wp_simps
  by (insert assms, rule wp_expect, erule grown_refl, simp, simp, erule (1) wp_token, linarith, linarith,
      erule wp_comma_steps, linarith)
    (erule (1) definition_token_ok, linarith, linarith, erule wp_push, simp, fastforce)

lemma wp_optional_where:
  assumes "grown c0 ts c" and "rec_ok n rec" and "left c \<le> n" and "left c < budget" and "ts \<noteq> []"
    and "\<And>us fl l c'. grown c0 (ts @ us) c' \<Longrightarrow> left c' \<le> left c \<Longrightarrow> P (fl, l) c'"
  shows "wp (parse_optional_where budget rec where_flag fl l c) P"
  unfolding parse_optional_where_def
proof (rule wp_if)
  show "wp (Done (fl, l) c) P" using assms(6) [of "[]" c] assms(1) by simp
  show "wp (pbind (parse_where budget rec c) (\<lambda>_ c. pbind (peek' c) (\<lambda>l. Done (fl OR where_flag, l)))) P"
    unfolding wp_simps
    by (rule wp_node, rule assms(1), rule parse_where_ok, rule grown_sound [OF assms(1)], rule assms(2), rule assms(3),
        rule assms(4), erule wp_peek, rule assms(6), assumption, linarith)
qed

lemma wp_skip_optional:
  assumes "grown c0 ts c" and "\<And>u c'. grown c0 ts c' \<Longrightarrow> left c' \<le> left c \<Longrightarrow> P u c'"
  shows "wp (skip_optional t l c) P"
  unfolding skip_optional_def
  by (rule wp_if) (rule wp_skip [OF assms(1)], use assms in auto)

lemma parse_if_ok:
  assumes "sound c" and "rec_ok n rec" and "left c \<le> n" and "left c < budget"
  shows "node_ok c (parse_if budget rec c)"
  unfolding node_ok_def parse_if_def wp_simps
  by (insert assms, rule wp_expect, erule grown_refl, simp, simp, erule (1) wp_rec, linarith, erule wp_peek,
      erule (1) wp_optional_where, linarith, linarith, simp, simp only: prod.case wp_simps,
      erule wp_skip_optional, erule (1) wp_rec, linarith, erule wp_peek, rule wp_if)
    (simp only: wp_simps, erule wp_skip, erule (1) wp_rec, linarith, erule wp_push, simp, fastforce,
      simp only: wp_simps, erule wp_push, simp, fastforce)

lemma wp_loop_body:
  assumes "grown c0 ts c" and "rec_ok n rec" and "left c < n"
    and "\<And>us fl c'. grown c0 (ts @ us) c' \<Longrightarrow> left c' \<le> left c \<Longrightarrow> P fl c'"
  shows "wp (parse_loop_body rec finally_flag fl l c) P"
  unfolding parse_loop_body_def wp_simps
  by (insert assms(1,2,3), erule wp_skip_optional, erule (1) wp_rec, linarith, erule wp_peek, rule wp_if)
    (simp only: wp_simps, erule (1) wp_rec, linarith, rule assms(4), simp, linarith,
      simp only: wp_simps, rule assms(4), assumption, linarith)

lemma wp_is_foreach:
  assumes "grown c0 ts c" and "\<And>b c'. grown c0 ts c' \<Longrightarrow> left c' \<le> left c \<Longrightarrow> P b c'"
  shows "wp (is_foreach c) P"
  unfolding is_foreach_def wp_simps
  by (insert assms(1), erule wp_peek)
    (erule wp_peek_n | rule wp_if | simp only: wp_simps | (rule assms(2), assumption, linarith))+

lemma try_parse_foreach_ok:
  assumes "grown c0 [] c" and "rec_ok n rec" and "left c < n" and "left c < budget"
  shows "wp (try_parse_foreach budget rec sid c) (\<lambda>tok c'. left c' \<le> left c \<and>
    (if tok = NO_CHILDREN then grown c0 [] c' else \<exists>t. grown c0 [t] c' \<and> tok = root_pos (used c0) t))"
  unfolding try_parse_foreach_def wp_simps
  by (insert assms, erule wp_is_foreach, rule wp_if, simp, simp only: wp_simps, erule (1) wp_token, linarith, linarith,
      erule wp_peek)
    (erule (1) wp_token, linarith, linarith
      | erule (1) wp_rec, linarith
      | erule (1) wp_optional_where, linarith, linarith, simp
      | erule (1) wp_loop_body, linarith
      | erule wp_peek | erule wp_skip | rule wp_fatal | rule wp_if
      | simp only: wp_simps prod.case
      | erule wp_push, simp, use grown_token in fastforce)+

lemma wp_try_foreach:
  assumes "grown c0 [] c" and "rec_ok n rec" and "left c < n" and "left c < budget"
    and "\<And>c'. grown c0 [] c' \<Longrightarrow> left c' \<le> left c \<Longrightarrow> P NO_CHILDREN c'"
    and "\<And>t c'. grown c0 [t] c' \<Longrightarrow> left c' \<le> left c \<Longrightarrow> root_pos (used c0) t \<noteq> NO_CHILDREN \<Longrightarrow> P (root_pos (used c0) t) c'"
  shows "wp (try_parse_foreach budget rec sid c) P"
  by (rule wp_mono [OF try_parse_foreach_ok [OF assms(1-4)]])
    (use assms(5,6) grown_token in \<open>fastforce split: if_splits\<close>)

lemma parse_for_ok:
  assumes "sound c" and "rec_ok n rec" and "left c \<le> n" and "left c < budget"
  shows "node_ok c (parse_for budget rec c)"
  unfolding node_ok_def parse_for_def wp_simps
  by (insert assms, rule wp_expect, erule grown_refl, simp, simp,
      erule (1) wp_try_foreach, linarith, linarith, simp only: simp_thms if_False wp_simps)
    (erule (1) wp_rec, linarith
      | erule (1) wp_optional_where, linarith, linarith, simp
      | erule (1) wp_loop_body, linarith
      | erule wp_peek | erule wp_skip | rule wp_if | simp only: wp_simps prod.case
      | erule wp_push, simp, fastforce | fastforce)+

lemma parse_case_ok:
  assumes "sound c" and "rec_ok n rec" and "left c \<le> n"
  shows "node_ok c (parse_case rec c)"
  unfolding node_ok_def parse_case_def wp_simps
  by (insert assms, rule wp_expect, erule grown_refl, simp, simp, erule (1) wp_rec, linarith, erule wp_next,
      rule wp_if, rule wp_fatal, erule wp_push, simp, fastforce)

lemma wp_case_steps:
  assumes "grown c0 ts c" and "rec_ok n rec" and "left c \<le> n" and "left c < budget"
    and "\<And>us u c'. grown c0 (ts @ us) c' \<Longrightarrow> left c' \<le> left c \<Longrightarrow> P u c'"
  shows "wp (repeat_steps budget (case_step rec) () c) P"
proof (rule wp_repeat [where I = "\<lambda>_. more c0 ts c" and m = "\<lambda>_. left"])
  show "more c0 ts c c" unfolding more_def using assms(1) by (intro conjI exI [of _ "[]"]) simp_all
  fix u :: unit and c1
  assume "more c0 ts c c1"
  then obtain us where us: "grown c0 (ts @ us) c1" "left c1 \<le> left c" by (auto simp: more_def)
  show "wp (case_step rec u c1) (\<lambda>r c'. case r of
      Inl a' \<Rightarrow> more c0 ts c c' \<and> left c' < left c1 | Inr b \<Rightarrow> P b c')"
    unfolding case_step_def wp_simps
    by (insert us assms(2,3), rule wp_node, assumption, rule parse_case_ok, erule grown_sound, assumption, linarith, erule wp_peek)
      (auto simp: more_def intro: assms(5))
qed (use assms(4) in simp)

lemma parse_switch_ok:
  assumes "sound c" and "rec_ok n rec" and "left c \<le> n" and "left c < budget"
  shows "node_ok c (parse_switch budget rec c)"
  unfolding node_ok_def parse_switch_def wp_simps
  by (insert assms, rule wp_expect, erule grown_refl, simp, simp, erule (1) wp_rec, linarith, erule wp_peek,
      erule (1) wp_optional_where, linarith, linarith, simp, simp only: prod.case wp_simps, rule wp_if)
    (erule (1) wp_case_steps, linarith, linarith, erule wp_push, simp, fastforce,
      simp only: wp_simps, rule wp_push, simp only: continuable_simps, simp, simp, fastforce)

section \<open>Functions and traits\<close>

lemma parse_conditions_ok:
  assumes "sound c" and "rec_ok n rec" and "left c \<le> n" and "left c < budget" and "kwd \<noteq> EMPTY" and "kwd \<noteq> END_OF_SOURCE"
  shows "node_ok c (parse_conditions kwd tg budget rec c)"
  unfolding node_ok_def parse_conditions_def wp_simps
  by (insert assms, rule wp_expect, erule grown_refl, assumption, assumption, erule (1) wp_rec, linarith,
      erule wp_comma_steps, linarith)
    (simp add: rec_ok_def, erule wp_push, simp, fastforce)

lemmas parse_expects_ok = parse_conditions_ok [where kwd = KwdExpects and tg = Tag_Expects, folded parse_expects_def]
lemmas parse_ensures_ok = parse_conditions_ok [where kwd = KwdEnsures and tg = Tag_Ensures, folded parse_ensures_def]

text \<open>The nodes pushed so far are the children of the node to come, \<open>first\<close> is the token of the first.\<close>

definition collected :: "Core \<Rightarrow> nat \<Rightarrow> Core \<Rightarrow> Core \<Rightarrow> bool" where
  "collected c0 first c c' \<longleftrightarrow> (\<exists>ts. grown c0 ts c' \<and> first = first_token c0 ts) \<and> left c' \<le> left c"

lemma collectedE:
  assumes "collected c0 first c c'"
  obtains ts where "grown c0 ts c'" and "first = first_token c0 ts" and "left c' \<le> left c"
  using assms by (auto simp: collected_def)

lemma collected_Nil: "grown c0 [] c \<Longrightarrow> collected c0 NO_CHILDREN c c"
  unfolding collected_def by (intro conjI exI [of _ "[]"]) simp_all

lemma collected_snoc:
  assumes "grown c0 ts c1" and "grown c0 (ts @ [t]) c'" and "left c' \<le> left c"
  shows "collected c0 (first_of (first_token c0 ts) (root_pos (used c0 + fsize ts) t)) c c'"
  unfolding collected_def using first_of_token [OF assms(1)] assms(2,3) by auto

lemma wp_definition_any:
  assumes "grown c0 ts c" and "rec_ok n rec" and "left c \<le> n" and "left c < budget"
    and "\<And>t v c'. grown c0 (ts @ [t]) c' \<Longrightarrow> left c' < left c \<Longrightarrow> P (root_pos (used c0 + fsize ts) t, v) c'"
  shows "wp (parse_definition budget rec opt_type opt_value is_param v c) P"
  by (rule wp_definition [where P = P, OF assms(1) parse_definition_ok [OF grown_sound [OF assms(1)] assms(2-4)] assms(5)])

lemma parameter_step_ok:
  assumes "collected c0 first c c1" and "rec_ok n rec" and "left c \<le> n" and "left c < budget"
  shows "wp (parameter_step budget rec (l, first, cnt, v) c1) (\<lambda>r c'. case r of
      Inl (l', first', cnt', v') \<Rightarrow> collected c0 first' c c' \<and> left c' < left c1
    | Inr first' \<Rightarrow> collected c0 first' c c')"
  unfolding parameter_step_def prod.case
proof (rule wp_if)
  show "wp (Done (Inr first) c1) (\<lambda>r c'. case r of
      Inl (l', first', cnt', v') \<Rightarrow> collected c0 first' c c' \<and> left c' < left c1
    | Inr first' \<Rightarrow> collected c0 first' c c')"
    using assms(1) by simp
  obtain ts where ts: "grown c0 ts c1" "first = first_token c0 ts" "left c1 \<le> left c"
    using assms(1) by (rule collectedE)
  let ?c2 = "(case v of None \<Rightarrow> (if cnt = MAX_FUNC_PARAM_COUNT then continuable (source_id l) ParseSignatureTooManyParameters c1 else c1)
    | Some sid \<Rightarrow> continuable sid ParseDefinitionUnexpectedVariadic
        (if cnt = MAX_FUNC_PARAM_COUNT then continuable (source_id l) ParseSignatureTooManyParameters c1 else c1))"
  have c2: "grown c0 ts ?c2" "left ?c2 = left c1" using ts by (auto split: option.split)
  show "wp (let c = if cnt = MAX_FUNC_PARAM_COUNT then continuable (source_id l) ParseSignatureTooManyParameters c1 else c1;
          c = case v of None \<Rightarrow> c | Some sid \<Rightarrow> continuable sid ParseDefinitionUnexpectedVariadic c
      in pbind (parse_definition budget rec True True True None c) (\<lambda>(parameter_token, variadic) c.
       pbind (peek' c) (\<lambda>l c.
       if token l = Comma then
         pbind (skip' c) (\<lambda>_. Done (Inl (l, first_of first parameter_token, cnt + 1, variadic)))
       else if token l \<noteq> ParenR then fatal (source_id l) ParseSignatureUnexpectedParameterListEnd c
       else Done (Inl (l, first_of first parameter_token, cnt + 1, variadic)) c)))
     (\<lambda>r c'. case r of
      Inl (l', first', cnt', v') \<Rightarrow> collected c0 first' c c' \<and> left c' < left c1
    | Inr first' \<Rightarrow> collected c0 first' c c')"
    unfolding Let_def wp_simps
    by (insert assms(2-4) c2(2) ts(2,3), rule wp_definition_any [OF c2(1)], assumption, linarith, linarith,
        simp only: prod.case wp_simps, erule wp_peek, rule wp_if)
      (simp only: wp_simps, erule wp_skip, fastforce intro: collected_snoc [OF ts(1)],
        rule wp_if, rule wp_fatal, fastforce intro: collected_snoc [OF ts(1)])
qed

lemma wp_parameters:
  assumes "grown c0 [] c" and "rec_ok n rec" and "left c \<le> n" and "left c < budget"
    and "\<And>ts c'. grown c0 ts c' \<Longrightarrow> left c' \<le> left c \<Longrightarrow> P (first_token c0 ts) c'"
  shows "wp (repeat_steps budget (parameter_step budget rec) (l, NO_CHILDREN, 0, None) c) P"
proof (rule wp_repeat [where I = "\<lambda>(l, first, cnt, v). collected c0 first c" and m = "\<lambda>_. left"])
  fix a :: "Lexeme \<times> nat \<times> nat \<times> u32 option" and c1
  assume "(case a of (l, first, cnt, v) \<Rightarrow> collected c0 first c) c1"
  then obtain l first cnt v where a: "a = (l, first, cnt, v)" "collected c0 first c c1" by (cases a) auto
  have final: "P first' c'" if "collected c0 first' c c'" for first' c' using that assms(5) by (elim collectedE) simp
  show "wp (parameter_step budget rec a c1) (\<lambda>r c'. case r of
      Inl a' \<Rightarrow> (case a' of (l, first, cnt, v) \<Rightarrow> collected c0 first c) c' \<and> left c' < left c1
    | Inr b \<Rightarrow> P b c')"
    unfolding a(1) by (rule wp_mono [OF parameter_step_ok [OF a(2) assms(2-4)]])
      (auto simp: final split: sum.splits prod.splits)
qed (use assms collected_Nil in auto)

lemma wp_optional_conditions:
  assumes "grown c0 ts c" and "node_ok c (conditions c)"
    and "\<And>us fl c'. grown c0 (ts @ us) c' \<Longrightarrow> left c' \<le> left c \<Longrightarrow> P fl c'"
  shows "wp (parse_optional_conditions kwd conditions cond_flag fl l c) P"
  unfolding parse_optional_conditions_def
proof (rule wp_if)
  show "wp (Done fl c) P" using assms(3) [of "[]" c] assms(1) by simp
  show "wp (pbind (conditions c) (\<lambda>_. Done (fl OR cond_flag))) P"
    unfolding wp_simps by (rule wp_node [OF assms(1,2)]) (auto intro: assms(3))
qed

lemma parse_signature_ok:
  assumes "sound c" and "rec_ok n rec" and "left c \<le> n" and "left c < budget"
  shows "node_ok c (parse_signature budget rec c)"
  unfolding node_ok_def parse_signature_def wp_simps Let_def wp_halt_unless
  by (insert assms, rule wp_next, erule grown_refl, intro impI, erule wp_next, rule wp_if, rule wp_fatal,
      simp only: wp_simps, erule wp_peek, rule wp_parameters, assumption, assumption, (auto; fail), (auto; fail),
      erule wp_push, simp, erule wp_skip, erule wp_peek, rule wp_if, rule wp_fatal,
      simp only: wp_simps, erule wp_skip, erule (1) wp_rec, (auto; fail), erule wp_peek,
      rule wp_optional_conditions, assumption, rule parse_expects_ok, erule grown_sound, assumption,
      (auto; fail), (auto; fail), simp, simp, rule wp_if; (erule wp_peek | simp only: wp_simps),
      rule wp_optional_conditions, assumption, rule parse_ensures_ok, erule grown_sound, assumption,
      (auto; fail), (auto; fail), simp, simp, erule wp_push_data, simp, simp, (auto; fail))

lemma parse_func_ok:
  assumes "sound c" and "rec_ok n rec" and "left c \<le> n" and "left c < budget"
  shows "node_ok c (parse_func budget rec c)"
  unfolding node_ok_def parse_func_def wp_simps Let_def
  by (insert assms, rule wp_peek, erule grown_refl, rule wp_node, assumption,
      rule parse_signature_ok, erule grown_sound, assumption, linarith, linarith, erule wp_peek, rule wp_if)
    (fastforce, simp only: wp_simps, erule wp_skip, erule (1) wp_rec, linarith,
      erule wp_push_data, simp, simp, fastforce)

lemma wp_leaf_data:
  assumes "grown c0 ts c" and "attachment_qwords data < 255"
    and "\<And>t c'. grown c0 (ts @ [t]) c' \<Longrightarrow> parser c' = parser c \<Longrightarrow> P (root_pos (used c0 + fsize ts) t) c'"
  shows "wp (push_ast_data NO_CHILDREN sid fl tg data c) P"
  by (rule wp_push_data [OF grown_refl [OF grown_sound [OF assms(1)]]])
    (use assms grown_trans grown_used [OF assms(1)] in auto)

lemma wp_trait_parameters:
  assumes "grown c0 [] c" and "left c < budget"
    and "\<And>ts cnt c'. grown c0 ts c' \<Longrightarrow> left c' \<le> left c \<Longrightarrow> P (first_token c0 ts, cnt) c'"
  shows "wp (repeat_steps budget trait_parameter_step (l, NO_CHILDREN, 0) c) P"
proof (rule wp_repeat [where I = "\<lambda>(l, first, cnt). collected c0 first c" and m = "\<lambda>_. left"])
  fix a :: "Lexeme \<times> nat \<times> nat" and c1
  assume "(case a of (l, first, cnt) \<Rightarrow> collected c0 first c) c1"
  then obtain l first cnt ts where a: "a = (l, first, cnt)" "grown c0 ts c1" "first = first_token c0 ts" "left c1 \<le> left c"
    by (cases a) (auto elim: collectedE)
  show "wp (trait_parameter_step a c1) (\<lambda>r c'. case r of
      Inl a' \<Rightarrow> (case a' of (l, first, cnt) \<Rightarrow> collected c0 first c) c' \<and> left c' < left c1
    | Inr b \<Rightarrow> P b c')"
    unfolding a(1) trait_parameter_step_def prod.case
    by (rule wp_if, simp add: a(3), rule assms(3) [OF a(2,4)], rule wp_if, rule wp_fatal, simp only: wp_simps,
        rule wp_identifier_of, rule wp_leaf_data [OF a(2)], simp, erule wp_next, rule wp_if,
        simp only: wp_simps, erule wp_next, simp, (use a(3,4) in \<open>auto intro!: collected_snoc [OF a(2)]\<close>; fail),
        rule wp_if, rule wp_fatal, simp, (use a(3,4) in \<open>auto intro!: collected_snoc [OF a(2)]\<close>; fail))
qed (use assms collected_Nil in auto)

lemma wp_members:
  assumes "grown c0 ts c" and "rec_ok n rec" and "left c \<le> n" and "left c < budget"
    and "\<And>us u c'. grown c0 (ts @ us) c' \<Longrightarrow> left c' \<le> left c \<Longrightarrow> P u c'"
  shows "wp (repeat_steps budget (member_step budget rec opt_type opt_value) () c) P"
proof (rule wp_repeat [where I = "\<lambda>_. more c0 ts c" and m = "\<lambda>_. left"])
  show "more c0 ts c c" unfolding more_def using assms(1) by (intro conjI exI [of _ "[]"]) simp_all
  fix u :: unit and c1
  assume "more c0 ts c c1"
  then obtain us where us: "grown c0 (ts @ us) c1" "left c1 \<le> left c" by (auto simp: more_def)
  show "wp (member_step budget rec opt_type opt_value u c1) (\<lambda>r c'. case r of
      Inl a' \<Rightarrow> more c0 ts c c' \<and> left c' < left c1 | Inr b \<Rightarrow> P b c')"
    unfolding member_step_def wp_simps
    by (insert us assms(2-4), erule wp_peek, rule wp_if)
      (fastforce intro: assms(5), simp only: wp_simps, erule (1) wp_token, linarith, linarith, fastforce simp: more_def)
qed (use assms(4) in simp)

lemma parse_trait_ok:
  assumes "sound c" and "rec_ok n rec" and "left c \<le> n" and "left c < budget"
  shows "node_ok c (parse_trait budget rec c)"
  unfolding node_ok_def parse_trait_def wp_simps Let_def
  by (insert assms, rule wp_expect, erule grown_refl, simp, simp, erule wp_next, rule wp_if, rule wp_fatal,
      simp only: wp_simps, erule wp_next, rule wp_trait_parameters, assumption, linarith,
      simp only: prod.case wp_simps, erule wp_push_data, simp, simp, erule wp_next, rule wp_if)
    (simp only: wp_simps, rule wp_node, assumption, rule parse_expects_ok, erule grown_sound, assumption,
      (auto; fail), (auto; fail), simp, simp, erule wp_next, rule wp_if, rule wp_fatal,
      simp only: wp_simps, rule wp_members, assumption, assumption, (auto; fail), (auto; fail),
      erule wp_skip, erule wp_push, simp, (auto; fail),
      simp only: wp_simps, rule wp_if, rule wp_fatal,
      simp only: wp_simps, rule wp_members, assumption, assumption, (auto; fail), (auto; fail),
      erule wp_skip, erule wp_push, simp, (auto; fail))

section \<open>Operands\<close>

lemma wp_elements:
  assumes "grown c0 [] c" and "left c < budget"
    and "\<And>c1. sound c1 \<Longrightarrow> left c1 \<le> left c \<Longrightarrow> node_ok c1 (element c1)"
    and "\<And>ts c'. grown c0 ts c' \<Longrightarrow> left c' \<le> left c \<Longrightarrow> P (first_token c0 ts) c'"
  shows "wp (repeat_steps budget (element_step closing err element) (l, NO_CHILDREN) c) P"
proof (rule wp_repeat [where I = "\<lambda>(l, first). collected c0 first c" and m = "\<lambda>_. left"])
  fix a :: "Lexeme \<times> nat" and c1
  assume "(case a of (l, first) \<Rightarrow> collected c0 first c) c1"
  then obtain l first ts where a: "a = (l, first)" "grown c0 ts c1" "first = first_token c0 ts" "left c1 \<le> left c"
    by (cases a) (auto elim: collectedE)
  show "wp (element_step closing err element a c1) (\<lambda>r c'. case r of
      Inl a' \<Rightarrow> (case a' of (l, first) \<Rightarrow> collected c0 first c) c' \<and> left c' < left c1
    | Inr b \<Rightarrow> P b c')"
    unfolding a(1) element_step_def prod.case
    by (rule wp_if, simp add: a(3), rule assms(4) [OF a(2,4)], simp only: wp_simps,
        rule wp_node [OF a(2) assms(3) [OF grown_sound [OF a(2)] a(4)]], erule wp_peek, rule wp_if,
        simp only: wp_simps, erule wp_skip, erule wp_peek, simp,
        (use a(3,4) in \<open>auto intro!: collected_snoc [OF a(2)]\<close>; fail),
        rule wp_if, rule wp_fatal, simp, (use a(3,4) in \<open>auto intro!: collected_snoc [OF a(2)]\<close>; fail))
qed (use assms collected_Nil in auto)

text \<open>The operands that begin with a lexeme which the caller has peeked.\<close>

lemma parse_initializer_ok:
  assumes "sound c" and "live c" and "rec_ok n rec" and "left c \<le> n" and "left c < budget"
  shows "node_ok c (parse_initializer budget rec closing err tg sid c)"
  unfolding node_ok_def parse_initializer_def wp_simps
  by (insert assms, rule wp_skip, erule grown_refl, erule wp_peek, rule wp_elements, assumption, (auto; fail))
    (fastforce simp: rec_ok_def, erule wp_push, simp, (auto; fail))

lemma wp_statements:
  assumes "grown c0 [] c" and "rec_ok n rec" and "left c < n" and "left c < budget"
    and "\<And>ts c'. grown c0 ts c' \<Longrightarrow> left c' \<le> left c \<Longrightarrow> P (first_token c0 ts) c'"
  shows "wp (repeat_steps budget (statement_step budget rec) (l, NO_CHILDREN) c) P"
proof (rule wp_repeat [where I = "\<lambda>(l, first). collected c0 first c" and m = "\<lambda>_. left"])
  fix a :: "Lexeme \<times> nat" and c1
  assume "(case a of (l, first) \<Rightarrow> collected c0 first c) c1"
  then obtain l first ts where a: "a = (l, first)" "grown c0 ts c1" "first = first_token c0 ts" "left c1 \<le> left c"
    by (cases a) (auto elim: collectedE)
  have stmt: "node_ok c1 (parse_statement budget rec c1)"
    using parse_statement_ok [OF grown_sound [OF a(2)] assms(2)] a(4) assms(3,4) by simp
  show "wp (statement_step budget rec a c1) (\<lambda>r c'. case r of
      Inl a' \<Rightarrow> (case a' of (l, first) \<Rightarrow> collected c0 first c) c' \<and> left c' < left c1
    | Inr b \<Rightarrow> P b c')"
    unfolding a(1) statement_step_def prod.case
    by (rule wp_if, simp add: a(3), rule assms(5) [OF a(2,4)], simp only: wp_simps,
        rule wp_node [OF a(2) stmt], erule wp_peek, simp,
        (use a(3,4) in \<open>auto intro!: collected_snoc [OF a(2)]\<close>; fail))
qed (use assms collected_Nil in auto)

lemma parse_block_ok:
  assumes "sound c" and "live c" and "rec_ok n rec" and "left c \<le> n" and "left c < budget"
  shows "node_ok c (parse_block budget rec sid c)"
  unfolding node_ok_def parse_block_def wp_simps
  by (insert assms, rule wp_skip, erule grown_refl, erule wp_peek, rule wp_statements, assumption, assumption,
      (auto; fail), (auto; fail), erule wp_push, simp, (auto; fail))

lemma wp_arguments:
  assumes "grown c0 ts c" and "rec_ok n rec" and "left c < n" and "left c < budget"
    and "\<And>us u c'. grown c0 (ts @ us) c' \<Longrightarrow> left c' \<le> left c \<Longrightarrow> P u c'"
  shows "wp (repeat_steps budget (argument_step budget rec) (l, 0) c) P"
proof (rule wp_repeat [where I = "\<lambda>_. more c0 ts c" and m = "\<lambda>_. left"])
  show "more c0 ts c c" unfolding more_def using assms(1) by (intro conjI exI [of _ "[]"]) simp_all
  fix a :: "Lexeme \<times> nat" and c1
  assume "more c0 ts c c1"
  then obtain l cnt us where us: "a = (l, cnt)" "grown c0 (ts @ us) c1" "left c1 \<le> left c"
    by (cases a) (auto simp: more_def)
  let ?c = "if cnt = MAX_FUNC_PARAM_COUNT then continuable (source_id l) ParseCallTooManyArguments c1 else c1"
  have c2: "grown c0 (ts @ us) ?c" "left ?c = left c1" using us by simp_all
  have arg: "node_ok ?c (parse_argument budget rec ?c)"
    using parse_argument_ok [OF grown_sound [OF c2(1)] assms(2)] us(3) assms(3,4) c2(2) by simp
  show "wp (argument_step budget rec a c1) (\<lambda>r c'. case r of
      Inl a' \<Rightarrow> more c0 ts c c' \<and> left c' < left c1 | Inr b \<Rightarrow> P b c')"
    unfolding us(1) argument_step_def prod.case Let_def
    by (insert us(3) c2(2), rule wp_if, simp, rule assms(5) [OF us(2,3)], simp only: wp_simps,
        rule wp_node [OF c2(1) arg], erule wp_peek, rule wp_if, simp only: wp_simps, erule wp_skip, erule wp_peek,
        fastforce simp: more_def, rule wp_if, rule wp_fatal, fastforce simp: more_def)
qed (use assms(4) in simp)

end
