(* ===== verification/ParserExpr.thy ===== *)
theory ParserExpr
  imports ParserTree
begin

text \<open>
  Expressions: the trees of the open operands lie one behind the other at the end of the builder,
  and the operand stack holds their tokens. Popping an operator wraps the last one or two of them.
\<close>

section \<open>The operand stack\<close>

fun roots :: "nat \<Rightarrow> tree list \<Rightarrow> nat list" where
  "roots b [] = []"
| "roots b (t # ts) = root_pos b t # roots (b + tsize t) ts"

lemma roots_snoc [simp]: "roots b (ts @ [t]) = roots b ts @ [root_pos (b + fsize ts) t]"
  by (induction ts arbitrary: b) (auto simp: add.assoc)

lemma length_roots [simp]: "length (roots b ts) = length ts"
  by (induction ts arbitrary: b) auto

definition stacked :: "Core \<Rightarrow> OperatorStack \<Rightarrow> Core \<Rightarrow> bool" where
  "stacked c0 st c \<longleftrightarrow> (\<exists>ts. grown c0 ts c \<and> operand_tokens st = rev (roots (used c0) ts))"

lemma stackedI: "grown c0 ts c \<Longrightarrow> operand_tokens st = rev (roots (used c0) ts) \<Longrightarrow> stacked c0 st c"
  by (auto simp: stacked_def)

lemma stacked_snoc:
  "grown c0 (us @ [t]) c \<Longrightarrow> operand_tokens st = root_pos (used c0 + fsize us) t # rev (roots (used c0) us) \<Longrightarrow> stacked c0 st c"
  by (rule stackedI [of c0 "us @ [t]"]) simp_all

lemma stacked_cong: "stacked c0 st c \<Longrightarrow> operand_tokens st' = operand_tokens st \<Longrightarrow> stacked c0 st' c"
  by (simp add: stacked_def)

lemma grown_split:
  assumes "grown c0 (us @ ts) c"
  shows "\<exists>c1. grown c0 us c1 \<and> grown c1 ts c \<and> used c1 = used c0 + fsize us"
proof -
  obtain N where N: "asts c = (asts c0)\<lparr>node_builder := N, builder_used := used c0 + fsize (us @ ts)\<rparr>"
    "laids Pushed False False N (used c0) False NO_CHILDREN (us @ ts)"
    "same_outside (used c0) (used c0 + fsize (us @ ts)) (node_builder (asts c0)) N" "fsized (us @ ts)"
    "left c \<le> left c0" "sound c"
    using assms by (auto simp: grown_def)
  let ?m = "used c0 + fsize us"
  let ?N = "\<lambda>i. if i < ?m then N i else node_builder (asts c0) i"
  let ?c = "c\<lparr>asts := (asts c0)\<lparr>node_builder := ?N, builder_used := ?m\<rparr>\<rparr>"
  have "laids Pushed False False ?N (used c0) False NO_CHILDREN us"
    by (rule laid_cong(2) [where N = N]) (use N(2,4) tsized_twf(2) [of us] in \<open>auto simp: laids_pushed_append\<close>)
  then have "grown c0 us ?c"
    unfolding grown_def using N by (intro conjI exI [of _ ?N]) (auto simp: sound_def same_outside_def)
  moreover have "grown ?c ts c"
    unfolding grown_def using N
    by (intro conjI exI [of _ N]) (auto simp: laids_pushed_append same_outside_def add.assoc)
  ultimately show ?thesis by (intro exI [of _ ?c]) simp
qed

lemma wp_wrap_data:
  assumes "grown c0 (us @ t # ts) c" and "tok = root_pos (used c0 + fsize us) t" and "attachment_qwords data < 255"
    and "\<And>t' c'. grown c0 (us @ [t']) c' \<Longrightarrow> parser c' = parser c \<Longrightarrow> P (root_pos (used c0 + fsize us) t') c'"
  shows "wp (push_ast_data tok sid fl tg data c) P"
proof -
  obtain c1 where c1: "grown c0 us c1" "grown c1 (t # ts) c" "used c1 = used c0 + fsize us"
    using grown_split [OF assms(1)] by blast
  show ?thesis
  proof (rule wp_push_data [OF c1(2) _ assms(3)])
    show "tok = first_token c1 (t # ts)" using assms(2) c1(3) by simp
    show "P (root_pos (used c1) t') c'" if "grown c1 [t'] c'" "parser c' = parser c" for t' c'
      using assms(4) [OF grown_trans [OF c1(1) that(1)] that(2)] c1(3) by simp
  qed
qed

lemma wp_wrap:
  assumes "grown c0 (us @ t # ts) c" and "tok = root_pos (used c0 + fsize us) t"
    and "\<And>t' c'. grown c0 (us @ [t']) c' \<Longrightarrow> parser c' = parser c \<Longrightarrow> P (root_pos (used c0 + fsize us) t') c'"
  shows "wp (push_ast tok sid fl tg c) P"
  unfolding push_ast_as_data by (rule wp_wrap_data [where P = P, OF assms(1,2) _ assms(3)]) simp_all

lemma rev_roots_Cons:
  assumes "rev (roots b ts) = x # xs"
  shows "\<exists>us t. ts = us @ [t] \<and> x = root_pos (b + fsize us) t \<and> xs = rev (roots b us)"
  using assms by (cases ts rule: rev_cases) auto

lemma wp_pop_operator:
  assumes "stacked c0 st c"
    and "\<And>st' c'. stacked c0 st' c' \<Longrightarrow> parser c' = parser c \<Longrightarrow> P st' c'"
  shows "wp (pop_operator st c) P"
proof (cases "operators st")
  case Nil
  then show ?thesis by (simp add: pop_operator_def)
next
  case (Cons opr ops)
  let ?d = "operator_desc opr"
  obtain ts where ts: "grown c0 ts c" "operand_tokens st = rev (roots (used c0) ts)"
    using assms(1) by (auto simp: stacked_def)
  have done_INVALID: "P (st\<lparr>operators := ops\<rparr>) c"
    by (rule assms(2)) (use ts in \<open>auto simp: stacked_def\<close>)
  have wrap: "wp (push_ast (hd toks) (operator_source opr) (node_flags ?d) (node_type ?d) c)
      (\<lambda>tok c. wp (Done (st\<lparr>operators := ops, operand_tokens := tok # tl toks\<rparr>) c) P)"
    if "grown c0 (us @ t # vs) c" "toks = root_pos (used c0 + fsize us) t # rev (roots (used c0) us)" for us t vs toks
    by (rule wp_wrap [OF that(1)]) (use that(2) in \<open>auto intro!: assms(2) intro: stacked_snoc\<close>)
  show ?thesis
  proof (cases "node_type ?d = Tag_INVALID \<or> length (operand_tokens st) \<le> (if is_binary ?d then 1 else 0)")
    case True
    then show ?thesis using Cons done_INVALID by (auto simp: pop_operator_def Let_def)
  next
    case False
    define vs where "vs = (if is_binary ?d then [last ts] else [])"
    have "length ts > (if is_binary ?d then 1 else 0)" using False ts(2) by (auto split: if_splits)
    then have "\<exists>us t. ts = us @ t # vs"
      by (cases ts rule: rev_cases; cases "butlast ts" rule: rev_cases) (auto simp: vs_def split: if_splits)
    then obtain us t where us: "ts = us @ t # vs" by blast
    have toks: "(if is_binary ?d then tl (operand_tokens st) else operand_tokens st) =
        root_pos (used c0 + fsize us) t # rev (roots (used c0) us)"
    proof (cases "is_binary ?d")
      case True
      then have "ts = (us @ [t]) @ [last ts]" using us by (simp add: vs_def)
      then have "operand_tokens st = root_pos (used c0 + fsize (us @ [t])) (last ts) # rev (roots (used c0) (us @ [t]))"
        using ts(2) by (metis rev_eq_Cons_iff rev_rev_ident roots_snoc)
      then show ?thesis using True by simp
    next
      case False
      then show ?thesis using ts(2) us by (simp add: vs_def)
    qed
    show ?thesis
      using False Cons wrap [OF ts(1) [unfolded us] toks] 
      by (cases "is_binary ?d") (simp_all add: pop_operator_def Let_def)
  qed
qed

lemma wp_pop_operators:
  "stacked c0 st c \<Longrightarrow> (\<And>st' b c'. stacked c0 st' c' \<Longrightarrow> parser c' = parser c \<Longrightarrow> P (st', b) c')
     \<Longrightarrow> wp (pop_operators k st prec pop_equal c) P"
proof (induction k arbitrary: st c)
  case (Suc k)
  then show ?case
    by (auto split: list.split intro!: wp_pop_operator [OF Suc(2)])
qed simp

lemma wp_pop_to:
  assumes "stacked c0 st c"
    and "\<And>st' b c'. stacked c0 st' c' \<Longrightarrow> parser c' = parser c \<Longrightarrow> P (st', b) c'"
  shows "wp (pop_to_precedence st prec pop_equal c) P"
  unfolding pop_to_precedence_def by (rule wp_pop_operators [where P = P, OF assms])

lemma wp_push_operator:
  assumes "stacked c0 st c"
    and "\<And>st' c'. stacked c0 st' c' \<Longrightarrow> parser c' = parser c \<Longrightarrow> P st' c'"
  shows "wp (push_operator st d sid c) P"
proof -
  have "wp (if node_type d \<noteq> Tag_INVALID then pop_to_precedence st (precedence d) (is_right_to_left d) c
      else Done (st, False) c) (\<lambda>(st, _) c'. stacked c0 st c' \<and> parser c' = parser c)"
    using assms(1) by (auto intro!: wp_pop_to [OF assms(1)])
  then show ?thesis
    unfolding push_operator_def wp_simps
  proof (elim wp_mono, clarsimp)
    fix st' c'
    assume st': "stacked c0 st' c'" "parser c' = parser c"
    show "P (st'\<lparr>operators := \<lparr>operator_desc = d, operator_source = sid\<rparr> # operators st'\<rparr>) c'"
      by (rule assms(2) [OF stacked_cong [OF st'(1)] st'(2)]) simp
  qed
qed

lemma wp_push_operand:
  assumes "stacked c0 st c1" and "grown c0 ts c1" and "operand_tokens st = rev (roots (used c0) ts)"
    and "grown c0 (ts @ [t]) c" and "tok = root_pos (used c0 + fsize ts) t"
    and "\<And>st'. stacked c0 st' c \<Longrightarrow> P st' c"
  shows "wp (push_operand st tok c) P"
  unfolding push_operand_def using assms(3-5)
  by (auto simp: stacked_def intro!: assms(6) exI [of _ "ts @ [t]"])

lemma wp_pop_all:
  "stacked c0 st c \<Longrightarrow> (\<And>st' c'. stacked c0 st' c' \<Longrightarrow> parser c' = parser c \<Longrightarrow> P st' c')
     \<Longrightarrow> wp (pop_all k st c) P"
  by (induction k arbitrary: st c) (auto intro!: wp_pop_operator)

lemma wp_pop_remaining:
  assumes "stacked c0 st c"
    and "\<And>t c'. grown c0 [t] c' \<Longrightarrow> parser c' = parser c \<Longrightarrow> P (root_pos (used c0) t) c'"
  shows "wp (pop_remaining st c) P"
  unfolding pop_remaining_def wp_simps
proof (rule wp_pop_all [OF assms(1)], rule wp_if, rule wp_fatal)
  fix st' c'
  assume st: "stacked c0 st' c'" "parser c' = parser c" "\<not> length (operand_tokens st') \<noteq> 1"
  then obtain ts where ts: "grown c0 ts c'" "operand_tokens st' = rev (roots (used c0) ts)" "length ts = 1"
    by (auto simp: stacked_def)
  then obtain t where "ts = [t]" by (auto simp: length_Suc_conv)
  with ts have "grown c0 [t] c'" "operand_tokens st' = [root_pos (used c0) t]" by simp_all
  then show "wp (Done (hd (operand_tokens st')) c') P" using assms(2) st(2) by simp
qed

section \<open>Rounds\<close>

definition round_ok :: "bool \<Rightarrow> Core \<Rightarrow> Core \<Rightarrow> Round \<Rightarrow> Core \<Rightarrow> bool" where
  "round_ok expecting c0 c r c' = (case r of
     Advance st e \<Rightarrow> stacked c0 st c' \<and> left c' \<le> left c \<and> (left c' < left c \<or> live c')
   | Continue l st e \<Rightarrow> stacked c0 st c' \<and> left c' < left c \<and> peek_slot (parser c') = l
   | Break st \<Rightarrow> \<not> expecting \<and> stacked c0 st c' \<and> left c' \<le> left c
   | Return tok \<Rightarrow> \<not> expecting \<and> left c' \<le> left c \<and> (\<exists>t. grown c0 [t] c' \<and> tok = root_pos (used c0) t))"

text \<open>An operand takes a lexeme, or leaves the one it consists of.\<close>

definition value_ok :: "Core \<Rightarrow> (nat, Core) parsed \<Rightarrow> bool" where
  "value_ok c m \<longleftrightarrow> wp m (\<lambda>tok c'. \<exists>t. grown c [t] c' \<and> tok = root_pos (used c) t
     \<and> left c' \<le> left c \<and> (left c' < left c \<or> live c'))"

lemma value_ok_node: "node_ok c m \<Longrightarrow> value_ok c m"
  unfolding node_ok_def value_ok_def by (erule wp_mono) auto

lemma value_ok_leaf:
  assumes "sound c" and "live c"
  shows "attachment_qwords data < 255 \<Longrightarrow> value_ok c (push_ast_data NO_CHILDREN sid fl tg data c)"
    and "value_ok c (push_ast NO_CHILDREN sid fl tg c)"
  unfolding value_ok_def push_ast_as_data
  by (rule wp_push_data [OF grown_refl [OF assms(1)]], use assms(2) in \<open>auto simp: live_def\<close>)+

lemma value_ok_operands:
  assumes "sound c" and "live c"
  shows "value_ok c (identifier_operand l c)" and "value_ok c (literal_of l c)"
    and "value_ok c (builtin_operand l c)" and "value_ok c (leaf_operand l tg c)"
  using value_ok_leaf [OF assms] wp_identifier_of
  by (simp_all add: identifier_operand_def literal_of_def builtin_operand_def leaf_operand_def value_ok_def
      split: LexemeValue.split)

lemma parse_implied_member_ok:
  assumes "sound c" and "live c"
  shows "node_ok c (parse_implied_member sid c)"
  unfolding node_ok_def parse_implied_member_def wp_simps
  by (insert assms, rule wp_skip, erule grown_refl, erule wp_peek, rule wp_if, rule wp_fatal, simp only: wp_simps,
      rule wp_identifier_of, erule wp_push_data, simp, simp, (auto; fail))

lemma stacked_sound: "stacked c0 st c \<Longrightarrow> sound c"
  by (auto simp: stacked_def grown_sound)

lemma wp_operand:
  assumes "stacked c0 st c1" and "grown c1 [t] c"
    and "\<And>st'. stacked c0 st' c \<Longrightarrow> P st' c"
  shows "wp (push_operand st (root_pos (used c1) t) c) P"
proof -
  obtain ts where ts: "grown c0 ts c1" "operand_tokens st = rev (roots (used c0) ts)"
    using assms(1) by (auto simp: stacked_def)
  show ?thesis
    by (rule wp_push_operand [OF assms(1) ts grown_trans [OF ts(1) assms(2)]])
      (use grown_used [OF ts(1)] assms(3) in auto)
qed

lemma push_value_ok:
  assumes "stacked c0 st c" and "value_ok c m"
  shows "wp (push_value st m) (round_ok True c0 c)"
  unfolding push_value_def wp_simps
  by (rule wp_mono [OF assms(2) [unfolded value_ok_def]])
    (auto intro!: wp_operand [OF assms(1)] simp: round_ok_def)

text \<open>Looking at the next lexeme keeps the operands.\<close>

lemma wp_peek_stacked:
  assumes "stacked c0 st c"
    and "\<And>l c'. stacked c0 st c' \<Longrightarrow> left c' \<le> left c \<Longrightarrow> peek_slot (parser c') = l \<Longrightarrow> P l c'"
  shows "wp (peek' c) P"
proof -
  obtain ts where ts: "grown c0 ts c" "operand_tokens st = rev (roots (used c0) ts)"
    using assms(1) by (auto simp: stacked_def)
  show ?thesis by (rule wp_peek [OF ts(1)]) (use ts(2) assms(2) in \<open>auto intro: stackedI\<close>)
qed

lemma wp_skip_stacked:
  assumes "stacked c0 st c"
    and "\<And>u c'. stacked c0 st c' \<Longrightarrow> left c' \<le> left c \<Longrightarrow> (live c \<Longrightarrow> left c' < left c) \<Longrightarrow> P u c'"
  shows "wp (skip' c) P"
proof -
  obtain ts where ts: "grown c0 ts c" "operand_tokens st = rev (roots (used c0) ts)"
    using assms(1) by (auto simp: stacked_def)
  show ?thesis by (rule wp_skip [OF ts(1)]) (use ts(2) assms(2) in \<open>auto intro: stackedI\<close>)
qed

lemma wp_peek_n_stacked:
  assumes "stacked c0 st c"
    and "\<And>l c'. stacked c0 st c' \<Longrightarrow> left c' \<le> left c \<Longrightarrow> P l c'"
  shows "wp (peek_n' k c) P"
proof -
  obtain ts where ts: "grown c0 ts c" "operand_tokens st = rev (roots (used c0) ts)"
    using assms(1) by (auto simp: stacked_def)
  show ?thesis by (rule wp_peek_n [OF ts(1)]) (use ts(2) assms(2) in \<open>auto intro: stackedI\<close>)
qed

lemma push_construct_ok:
  assumes "stacked c0 st c" and "node_ok c m"
  shows "wp (push_construct st m) (round_ok True c0 c)"
  unfolding push_construct_def wp_simps
  by (rule wp_mono [OF assms(2) [unfolded node_ok_def]], clarify, rule wp_operand [OF assms(1)], assumption,
      erule wp_peek_stacked, simp add: round_ok_def)

lemma token_bounds:
  "token_ordinal EMPTY < token_ordinal ParenL" "token_ordinal OpAdd < token_ordinal END_OF_SOURCE"
  "token_ordinal EMPTY < token_ordinal OpMulOrTypPtr" "token_ordinal OpSetShr < token_ordinal END_OF_SOURCE"
  by (simp_all add: token_ordinal_def all_tokens_def)

text \<open>A nested expression above the operands.\<close>

lemma wp_rec_stacked:
  assumes "stacked c0 st c" and "rec_ok n rec" and "left c < n"
    and "\<And>t c'. stacked c0 st c \<Longrightarrow> grown c [t] c' \<Longrightarrow> left c' < left c \<Longrightarrow> P (root_pos (used c) t) c'"
  shows "wp (rec allow_complex c) P"
  by (rule wp_rec [OF grown_refl [OF stacked_sound [OF assms(1)]] assms(2,3)]) (use assms(1,4) in simp)

lemma array_type_round_ok:
  assumes "stacked c0 st c" and "live c" and "rec_ok n rec" and "left c \<le> n"
  shows "wp (array_type_round rec l st c) (round_ok True c0 c)"
  unfolding array_type_round_def wp_simps
  by (insert assms, erule wp_skip_stacked, erule (1) wp_rec_stacked, (auto; fail), erule wp_peek, rule wp_if,
      rule wp_fatal, simp only: wp_simps, rule wp_operand, assumption, assumption, erule wp_push_operator,
      simp add: round_ok_def)

lemma unary_round_ok:
  assumes "stacked c0 st c" and "peek_slot (parser c) = l"
  shows "wp (unary_round l st c) (round_ok True c0 c)"
proof -
  let ?c = "if token l = TypVar then continuable (source_id l) ParseDefinitionUnexpectedVariadic c else c"
  have c1: "stacked c0 st ?c" "left ?c = left c" "live ?c = live c" using assms(1) by (auto simp: stacked_def)
  let ?out = "token_ordinal (token l) < token_ordinal ParenL \<or> token_ordinal OpAdd < token_ordinal (token l)"
  have live: "\<not> ?out \<Longrightarrow> live ?c" using token_bounds(1,2) c1(3) assms(2) by (auto simp: live_def)
  show ?thesis
    unfolding unary_round_def Let_def
    by (insert c1 live, rule wp_if, rule wp_fatal, simp only: wp_simps, erule wp_skip_stacked, erule wp_peek_stacked)
      (rule wp_if | simp only: wp_simps prod.case | erule wp_skip_stacked | erule wp_peek_stacked
        | erule wp_push_operator, simp add: round_ok_def)+
qed

lemma operand_round_ok:
  assumes "stacked c0 st c" and "peek_slot (parser c) = l" and "rec_ok n rec" and "left c \<le> n" and "left c < budget"
  shows "wp (operand_round budget rec l st c) (round_ok True c0 c)"
proof (cases "token l = EMPTY \<or> token l = END_OF_SOURCE")
  case True
  then show ?thesis using unary_round_ok [OF assms(1,2)] by (auto simp: operand_round_def)
next
  case False
  have live: "live c" using False assms(2) by (simp add: live_def)
  note sound = stacked_sound [OF assms(1)]
  note leaf = value_ok_operands [OF sound live]
  note con = parse_if_ok [OF sound assms(3-5)] parse_for_ok [OF sound assms(3-5)] parse_switch_ok [OF sound assms(3-5)]
    parse_func_ok [OF sound assms(3-5)] parse_trait_ok [OF sound assms(3-5)]
  note val = parse_initializer_ok [OF sound live assms(3-5), THEN value_ok_node]
    parse_block_ok [OF sound live assms(3-5), THEN value_ok_node]
    parse_implied_member_ok [OF sound live, THEN value_ok_node]
  show ?thesis
    unfolding operand_round_def
    using push_value_ok [OF assms(1)] push_construct_ok [OF assms(1)] leaf con val
      array_type_round_ok [OF assms(1) live assms(3,4)] unary_round_ok [OF assms(1,2)]
    by simp
qed

section \<open>Operators\<close>

lemma wp_wrap_operand_data:
  assumes "stacked c0 st c1" and "grown c1 ts c" and "attachment_qwords data < 255"
    and "\<And>st' c'. stacked c0 st' c' \<Longrightarrow> parser c' = parser c \<Longrightarrow> P st' c'"
  shows "wp (wrap_operand st (\<lambda>tok. push_ast_data tok sid fl tg data) c) P"
proof (cases "operand_tokens st")
  case (Cons x xs)
  obtain vs where vs: "grown c0 vs c1" "operand_tokens st = rev (roots (used c0) vs)"
    using assms(1) by (auto simp: stacked_def)
  obtain us t where us: "vs = us @ [t]" "x = root_pos (used c0 + fsize us) t" "xs = rev (roots (used c0) us)"
    using rev_roots_Cons [OF trans [OF vs(2) [symmetric] Cons]] by blast
  have g: "grown c0 (us @ t # ts) c" using grown_trans [OF vs(1) assms(2)] us(1) by simp
  show ?thesis
    unfolding wrap_operand_def Cons list.case wp_simps
    by (rule wp_wrap_data [OF g us(2) assms(3)])
      (auto intro!: assms(4) intro: stacked_snoc simp: replace_operand_def Cons us(3))
qed (simp add: wrap_operand_def)

lemma wp_wrap_operand:
  assumes "stacked c0 st c1" and "grown c1 ts c"
    and "\<And>st' c'. stacked c0 st' c' \<Longrightarrow> parser c' = parser c \<Longrightarrow> P st' c'"
  shows "wp (wrap_operand st (\<lambda>tok. push_ast tok sid fl tg) c) P"
  unfolding push_ast_as_data by (rule wp_wrap_operand_data [where P = P, OF assms(1,2) _ assms(3)]) simp_all

lemma wp_pop_to_live:
  assumes "stacked c0 st c"
    and "\<And>st' b c'. stacked c0 st' c' \<Longrightarrow> left c' = left c \<Longrightarrow> live c' = live c \<Longrightarrow> P (st', b) c'"
  shows "wp (pop_to_precedence st prec pop_equal c) P"
  by (rule wp_pop_to [OF assms(1)]) (auto intro!: assms(2) simp: live_def)

lemma call_round_ok:
  assumes "stacked c0 st c" and "live c" and "rec_ok n rec" and "left c \<le> n" and "left c < budget"
  shows "wp (call_round budget rec l st c) (round_ok False c0 c)"
  unfolding call_round_def wp_halt_unless wp_simps
  by (insert assms, intro impI, erule wp_pop_to_live, simp only: prod.case wp_simps, erule wp_skip_stacked, erule wp_peek_stacked,
      rule wp_arguments [OF grown_refl], erule stacked_sound, assumption, (auto; fail), (auto; fail),
      rule wp_wrap_operand, assumption, assumption, simp add: round_ok_def)

lemma rparen_round_ok:
  assumes "stacked c0 st c" and "live c"
  shows "wp (rparen_round st c) (round_ok False c0 c)"
  unfolding rparen_round_def wp_simps
proof (rule wp_pop_to_live [OF assms(1)], simp only: prod.case, rule wp_if)
  fix st' c'
  assume st: "stacked c0 st' c'" "left c' = left c" "live c' = live c"
  then obtain ts where ts: "grown c0 ts c'" "operand_tokens st' = rev (roots (used c0) ts)"
    by (auto simp: stacked_def)
  show "wp (halt_unless Assertion (length (operand_tokens st') = 1) (Done (Return (hd (operand_tokens st'))) c')) (round_ok False c0 c)"
  proof (unfold wp_halt_unless, intro impI)
    assume "length (operand_tokens st') = 1"
    then obtain t where "ts = [t]" using ts(2) by (auto simp: length_Suc_conv)
    then show "wp (Done (Return (hd (operand_tokens st'))) c') (round_ok False c0 c)"
      using ts st(2) by (auto simp: round_ok_def)
  qed
  show "wp (pbind (remove_lparen st' c') (\<lambda>stack. Done (Advance stack False))) (round_ok False c0 c)"
  proof (cases "operators st'")
    case (Cons opr ops)
    have "stacked c0 (st'\<lparr>operators := ops\<rparr>) c'" by (rule stackedI [OF ts(1)]) (simp add: ts(2))
    then show ?thesis using Cons st assms(2) by (simp add: remove_lparen_def round_ok_def)
  qed (simp add: remove_lparen_def)
qed

lemma wp_slice_end:
  assumes "grown c0 ts c" and "rec_ok n rec" and "left c < n"
    and "\<And>us fl c'. grown c0 (ts @ us) c' \<Longrightarrow> left c' \<le> left c \<Longrightarrow> P fl c'"
  shows "wp (slice_end_flag rec fl c) P"
  unfolding slice_end_flag_def wp_simps
  by (insert assms(1-3), erule wp_skip, erule wp_peek, rule wp_if, simp only: wp_simps, erule (1) wp_rec, (auto; fail),
      erule wp_peek, rule wp_if, rule wp_fatal, simp only: wp_simps, erule assms(4), (auto; fail), simp only: wp_simps,
      rule assms(4) [of "[]"], simp, (auto; fail))

lemma bracket_round_ok:
  assumes "stacked c0 st c" and "live c" and "rec_ok n rec" and "left c \<le> n"
  shows "wp (bracket_round rec l st c) (round_ok False c0 c)"
  unfolding bracket_round_def wp_halt_unless wp_simps
  by (insert assms, intro impI, erule wp_pop_to_live, simp only: prod.case wp_simps, erule wp_skip_stacked, erule wp_peek_stacked)
    (rule wp_if | simp only: wp_simps prod.case | rule wp_fatal
      | rule wp_slice_end [OF grown_refl], erule stacked_sound, assumption, (auto; fail)
      | rule wp_slice_end, assumption, assumption, (auto; fail)
      | erule (1) wp_rec_stacked, (auto; fail) | erule wp_peek
      | rule wp_wrap_operand, assumption, assumption, (auto simp: round_ok_def; fail))+

lemma catch_round_ok:
  assumes "stacked c0 st c" and "live c" and "rec_ok n rec" and "left c \<le> n" and "left c < budget"
  shows "wp (catch_round budget rec l st c) (round_ok False c0 c)"
  unfolding catch_round_def wp_simps
  by (insert assms, erule wp_pop_to_live, simp only: prod.case wp_simps, erule wp_skip_stacked, erule wp_peek_stacked)
    (rule wp_if | simp only: wp_simps if_True if_False | erule wp_peek_n_stacked
      | rule wp_token [OF grown_refl], erule stacked_sound, assumption, (auto; fail), (auto; fail)
      | erule wp_next | rule wp_fatal
      | rule wp_rec, assumption, assumption, (auto; fail)
      | erule (1) wp_rec_stacked, (auto; fail)
      | rule wp_wrap_operand, assumption, assumption
      | erule wp_peek_stacked, (auto simp: round_ok_def; fail))+

lemma member_round_ok:
  assumes "stacked c0 st c" and "live c"
  shows "wp (member_round l st c) (round_ok False c0 c)"
  unfolding member_round_def wp_simps
  by (insert assms, erule wp_pop_to_live, simp only: prod.case wp_simps, erule wp_skip_stacked, erule wp_peek_stacked,
      rule wp_if, rule wp_fatal, simp only: wp_simps, rule wp_identifier_of, rule wp_wrap_operand_data, assumption,
      rule grown_refl, erule stacked_sound, simp, (auto simp: round_ok_def; fail))

lemma impl_round_ok:
  assumes "stacked c0 st c" and "live c" and "rec_ok n rec" and "left c \<le> n" and "left c < budget"
  shows "wp (impl_round budget rec l st c) (round_ok False c0 c)"
  unfolding impl_round_def wp_simps
  by (insert assms, erule wp_pop_to_live, simp only: prod.case wp_simps, erule wp_skip_stacked,
      erule (1) wp_rec_stacked, (auto; fail), erule wp_next, rule wp_if, rule wp_fatal, simp only: wp_simps,
      erule (1) wp_members, (auto; fail), (auto; fail), rule wp_wrap_operand_data, assumption, assumption, simp,
      (auto simp: round_ok_def; fail))

lemma binary_round_ok:
  assumes "stacked c0 st c" and "peek_slot (parser c) = l"
  shows "wp (binary_round allow_complex l st c) (round_ok False c0 c)"
  unfolding binary_round_def Let_def
proof (rule wp_if)
  show "wp (Done (Break st) c) (round_ok False c0 c)" using assms(1) by (simp add: round_ok_def)
  assume "\<not> (token_ordinal (token l) < token_ordinal OpMulOrTypPtr \<or> token_ordinal OpSetShr < token_ordinal (token l)
      \<or> \<not> allow_complex \<and> token l = OpSet)"
  then have "live c" using token_bounds(3,4) assms(2) by (auto simp: live_def)
  then show "wp (pbind (push_operator st (BINARY_OPERATOR_DESCS ! unat (token_ordinal (token l) - token_ordinal OpMulOrTypPtr)) (source_id l) c)
      (\<lambda>stack. Done (Advance stack (is_binary (BINARY_OPERATOR_DESCS ! unat (token_ordinal (token l) - token_ordinal OpMulOrTypPtr))))))
      (round_ok False c0 c)"
    unfolding wp_simps by (intro wp_push_operator [OF assms(1)]) (auto simp: round_ok_def live_def)
qed

lemma operator_round_ok:
  assumes "stacked c0 st c" and "peek_slot (parser c) = l" and "rec_ok n rec" and "left c \<le> n" and "left c < budget"
  shows "wp (operator_round budget rec allow_complex l st c) (round_ok False c0 c)"
proof (cases "token l = EMPTY \<or> token l = END_OF_SOURCE")
  case True
  then show ?thesis using binary_round_ok [OF assms(1,2)] by (auto simp: operator_round_def)
next
  case False
  have live: "live c" using False assms(2) by (simp add: live_def)
  show ?thesis
    unfolding operator_round_def
    using call_round_ok [OF assms(1) live assms(3-5)] rparen_round_ok [OF assms(1) live]
      bracket_round_ok [OF assms(1) live assms(3,4)] catch_round_ok [OF assms(1) live assms(3-5)]
      member_round_ok [OF assms(1) live] impl_round_ok [OF assms(1) live assms(3-5)] binary_round_ok [OF assms(1,2)]
    by simp
qed

section \<open>Expressions\<close>

definition expr_inv :: "Core \<Rightarrow> Lexeme \<times> OperatorStack \<times> bool \<Rightarrow> Core \<Rightarrow> bool" where
  "expr_inv c0 = (\<lambda>(l, st, expecting) c.
     stacked c0 st c \<and> peek_slot (parser c) = l \<and> (expecting \<or> left c < left c0))"

definition expr_end :: "Core \<Rightarrow> OperatorStack + nat \<Rightarrow> Core \<Rightarrow> bool" where
  "expr_end c0 r c \<longleftrightarrow> left c < left c0 \<and>
     (case r of Inl st \<Rightarrow> stacked c0 st c | Inr tok \<Rightarrow> \<exists>t. grown c0 [t] c \<and> tok = root_pos (used c0) t)"

lemma stacked_left: "stacked c0 st c \<Longrightarrow> left c \<le> left c0"
  by (auto simp: stacked_def dest: grown_left)

lemma expr_step_ok:
  assumes "expr_inv c0 a c" and "rec_ok n rec" and "left c0 \<le> n" and "left c0 < budget"
  shows "wp (expr_step budget rec allow_complex a c) (\<lambda>r c'. case r of
    Inl a' \<Rightarrow> expr_inv c0 a' c' \<and> left c' < left c | Inr b \<Rightarrow> expr_end c0 b c')"
proof -
  obtain l st e where a: "a = (l, st, e)" by (cases a)
  have inv: "stacked c0 st c" "peek_slot (parser c) = l" "e \<or> left c < left c0"
    using assms(1) by (auto simp: a expr_inv_def)
  have le: "left c \<le> n" "left c < budget" "left c \<le> left c0" using stacked_left [OF inv(1)] assms(3,4) by auto
  have round: "wp (if e then operand_round budget rec l st c else operator_round budget rec allow_complex l st c) (round_ok e c0 c)"
    using operand_round_ok [OF inv(1,2) assms(2) le(1,2)] operator_round_ok [OF inv(1,2) assms(2) le(1,2)] by simp
  show ?thesis
    unfolding a expr_step_def prod.case wp_simps
  proof (rule wp_mono [OF round])
    fix r c1
    assume r: "round_ok e c0 c r c1"
    show "wp (case r of Advance st e \<Rightarrow> pbind (skip' c1) (\<lambda>_ c. pbind (peek' c) (\<lambda>l. Done (Inl (l, st, e))))
        | Continue l st e \<Rightarrow> Done (Inl (l, st, e)) c1 | Break st \<Rightarrow> Done (Inr (Inl st)) c1 | Return tok \<Rightarrow> Done (Inr (Inr tok)) c1)
      (\<lambda>r c'. case r of Inl a' \<Rightarrow> expr_inv c0 a' c' \<and> left c' < left c | Inr b \<Rightarrow> expr_end c0 b c')"
    proof (cases r)
      case (Advance st' e')
      then have "stacked c0 st' c1" "left c1 \<le> left c" "left c1 < left c \<or> live c1" using r by (auto simp: round_ok_def)
      then show ?thesis
        unfolding Advance Round.case wp_simps
        by - (erule wp_skip_stacked, erule wp_peek_stacked, use le(3) in \<open>auto simp: expr_inv_def\<close>)
    next
      case (Continue l' st' e')
      then show ?thesis using r le(3) by (simp add: round_ok_def expr_inv_def)
    next
      case (Break st')
      then show ?thesis using r inv(3) by (auto simp: round_ok_def expr_end_def)
    next
      case (Return tok)
      then show ?thesis using r inv(3) by (auto simp: round_ok_def expr_end_def)
    qed
  qed
qed

lemma parse_expr_with_ok:
  assumes "sound c" and "rec_ok n rec" and "left c \<le> n" and "left c < budget"
  shows "node_ok c (parse_expr_with budget rec allow_complex c)"
  unfolding node_ok_def parse_expr_with_def wp_simps
proof (rule wp_peek [OF grown_refl [OF assms(1)]])
  fix l :: Lexeme and c1
  assume c1: "grown c [] c1" "left c1 \<le> left c" "peek_slot (parser c1) = l"
  let ?st = "\<lparr>operators = [], operand_tokens = [], expression_source_id = source_id l\<rparr>"
  show "wp (repeat_steps budget (expr_step budget rec allow_complex) (l, ?st, True) c1)
      (\<lambda>r c'. wp (case r of Inl stack \<Rightarrow> pop_remaining stack c' | Inr tok \<Rightarrow> Done tok c')
        (\<lambda>tok c'. \<exists>t. grown c [t] c' \<and> tok = root_pos (used c) t \<and> left c' < left c))"
  proof (rule wp_mono)
    show "wp (repeat_steps budget (expr_step budget rec allow_complex) (l, ?st, True) c1) (expr_end c)"
    proof (rule wp_repeat [where I = "expr_inv c" and m = "\<lambda>_. left"])
      show "expr_inv c (l, ?st, True) c1"
        using c1 stackedI [OF c1(1), of ?st] by (simp add: expr_inv_def)
      show "left c1 < budget" using c1(2) assms(4) by simp
    qed (rule expr_step_ok [OF _ assms(2-4)])
    fix r c'
    assume r: "expr_end c r c'"
    show "wp (case r of Inl stack \<Rightarrow> pop_remaining stack c' | Inr tok \<Rightarrow> Done tok c')
        (\<lambda>tok c'. \<exists>t. grown c [t] c' \<and> tok = root_pos (used c) t \<and> left c' < left c)"
      using r by (cases r) (auto simp: expr_end_def intro!: wp_pop_remaining)
  qed
qed

lemma parse_expr_rec_ok: "rec_ok n (parse_expr n)"
proof (induction n)
  case (Suc n)
  show ?case
    unfolding rec_ok_def parse_expr.simps
    using parse_expr_with_ok [OF _ Suc] by simp
qed (simp add: rec_ok_def)

section \<open>Files\<close>

lemma grown_suppress [simp]:
  "grown c0 ts (c\<lparr>parser := (parser c)\<lparr>suppress_errors := b\<rparr>\<rparr>) = grown c0 ts c"
  "lexemes_left ((parser c)\<lparr>suppress_errors := b\<rparr>) = left c"
  by (auto simp: grown_def sound_def lexemes_left_def)

lemma file_step_ok:
  assumes "collected c0 first c c1" and "left c < budget"
  shows "wp (file_step budget (first, cnt) c1) (\<lambda>r c'. case r of
      Inl (first', cnt') \<Rightarrow> collected c0 first' c c' \<and> left c' < left c1
    | Inr (first', cnt') \<Rightarrow> collected c0 first' c c')"
proof -
  obtain ts where ts: "grown c0 ts c1" "first = first_token c0 ts" "left c1 \<le> left c"
    using assms(1) by (rule collectedE)
  have nest: "wp (parse_expr budget True c2) (\<lambda>tok c'. collected c0 (first_of first tok) c c' \<and> left c' < left c1)"
    if "grown c0 ts c2" "left c2 \<le> left c1" for c2
    by (rule wp_rec [OF that(1) parse_expr_rec_ok])
      (use that(2) ts assms(2) collected_snoc [OF ts(1)] in \<open>auto intro: collected_snoc\<close>)
  show ?thesis
    unfolding file_step_def prod.case wp_simps
  proof (rule wp_peek [OF ts(1)])
    fix l :: Lexeme and c2
    assume c2: "grown c0 ts c2" "left c2 \<le> left c1"
    have def: "wp (definition_token budget (parse_expr budget) True False c2)
        (\<lambda>tok c'. collected c0 (first_of first tok) c c' \<and> left c' < left c1)"
      by (rule wp_token [OF c2(1) parse_expr_rec_ok])
        (use c2(2) ts assms(2) in \<open>auto intro: collected_snoc [OF ts(1)]\<close>)
    have suppressed: "collected c0 f c (c'\<lparr>parser := (parser c')\<lparr>suppress_errors := b\<rparr>\<rparr>) = collected c0 f c c'" for f c' b
      by (simp add: collected_def)
    let ?c = "continuable (source_id l) ParseUnexpectedTopLevelExpr c2"
    have expr: "wp (parse_expr budget True (?c\<lparr>parser := (parser ?c)\<lparr>suppress_errors := True\<rparr>\<rparr>))
        (\<lambda>tok c'. collected c0 (first_of first tok) c c' \<and> left c' < left c1)"
      by (rule nest) (use c2 in simp_all)
    show "wp (if is_definition_start (token l) then
         pbind (definition_token budget (parse_expr budget) True False c2) (\<lambda>tok. Done (Inl (first_of first tok, cnt + 1)))
       else if token l = END_OF_SOURCE then Done (Inr (first, cnt)) c2
       else let c = ?c; c = c\<lparr>parser := (parser c)\<lparr>suppress_errors := True\<rparr>\<rparr> in
         pbind (parse_expr budget True c) (\<lambda>tok c.
           Done (Inl (first_of first tok, cnt)) (c\<lparr>parser := (parser c)\<lparr>suppress_errors := False\<rparr>\<rparr>)))
      (\<lambda>r c'. case r of
          Inl (first', cnt') \<Rightarrow> collected c0 first' c c' \<and> left c' < left c1
        | Inr (first', cnt') \<Rightarrow> collected c0 first' c c')"
      using def expr c2 ts by (auto simp: Let_def suppressed collected_def elim!: wp_mono)
  qed
qed

text \<open>A file that parses leaves one tree in the builder, whose root is the node of the file.\<close>

lemma parse_file_body_ok:
  assumes "sound c" and "left c < budget"
  shows "wp (parse_file_body budget c) (\<lambda>ok c'. \<exists>n ts. tag n = Tag_File \<and> grown c [Tree n ts] c')"
proof -
  have loop: "wp (repeat_steps budget (file_step budget) (NO_CHILDREN, 0) c) (\<lambda>(first, cnt) c'. collected c first c c')"
  proof (rule wp_repeat [where I = "\<lambda>(first, cnt). collected c first c" and m = "\<lambda>_. left"])
    show "(case (NO_CHILDREN, 0) of (first, cnt) \<Rightarrow> collected c first c) c"
      using collected_Nil [OF grown_refl [OF assms(1)]] by simp
    fix a :: "nat \<times> nat" and c1
    assume "(case a of (first, cnt) \<Rightarrow> collected c first c) c1"
    then show "wp (file_step budget a c1) (\<lambda>r c'. case r of
        Inl a' \<Rightarrow> (case a' of (first, cnt) \<Rightarrow> collected c first c) c' \<and> left c' < left c1
      | Inr b \<Rightarrow> (case b of (first, cnt) \<Rightarrow> collected c first c) c')"
      using file_step_ok [of c "fst a" c c1 budget "snd a"] assms(2)
      by (cases a) (auto elim!: wp_mono split: sum.splits prod.splits)
  qed (rule assms(2))
  have node: "wp (push_ast_data first sid Flag_EMPTY Tag_File (FileData cnt) c1)
      (\<lambda>_ c'. \<exists>n ts. tag n = Tag_File \<and> grown c [Tree n ts] c')" if col: "collected c first c c1" for first cnt sid c1
  proof -
    obtain ts where ts: "grown c ts c1" "first = first_token c ts" using col by (rule collectedE)
    show ?thesis
      using grown_push [OF ts(1)] ts(2)
      by (fastforce simp: push_ast_data_def push_def wp_def split: sum.split prod.split)
  qed
  show ?thesis
    unfolding parse_file_body_def wp_simps
  proof (rule wp_mono [OF loop], clarify, unfold wp_simps)
    fix first cnt c1
    assume "collected c first c c1"
    then show "wp (push_ast_data first (source_id_base (parser c1)) Flag_EMPTY Tag_File (FileData cnt) c1)
        (\<lambda>_ c'. \<exists>n ts. tag n = Tag_File \<and> grown c [Tree n ts] c')"
      by (rule node)
  qed
qed

end
