(* ===== verification/ParserTotal.thy ===== *)
theory ParserTotal
  imports ParserExpr
begin

text \<open>
  The parser as a whole: a run ends within the budget of \<open>parse\<close>, whatever the source, and a file
  that is accepted leaves one completed tree in the pool.
\<close>

section \<open>Files\<close>

lemma parse_file_body_no_errors: "parse_file_body budget c = Done ok c' \<Longrightarrow> ok \<longleftrightarrow> \<not> has_errors (parser c')"
  by (auto simp: parse_file_body_def pbind_def split: parsed.splits prod.splits)

lemma parse_file_ok:
  assumes "sound c" and "left c < budget"
  shows "wp (parse_file budget c) (\<lambda>ok c'. ok \<longrightarrow>
    (\<exists>n ts. tag n = Tag_File \<and> grown c [Tree n ts] c') \<and> \<not> has_errors (parser c'))"
proof (cases "parse_file_body budget c")
  case (Done ok c')
  then show ?thesis
    using parse_file_body_ok [OF assms] parse_file_body_no_errors [OF Done] by (simp add: parse_file_def)
qed (use parse_file_body_ok [OF assms] in \<open>simp_all add: parse_file_def\<close>)

definition setup_core :: "Core \<Rightarrow> string \<Rightarrow> u32 \<Rightarrow> bool \<Rightarrow> Core" where
  "setup_core c content base is_std_source = c\<lparr>parser := (parser c)\<lparr>rest := content,
     source_length := length content - 1, source_id_base := base,
     peek_slot := (peek_slot (parser c))\<lparr>token := EMPTY\<rparr>, is_std := is_std_source, has_errors := False\<rparr>\<rparr>"

lemma parse_unfold:
  "parse c content base std =
     (if content \<noteq> [] \<and> last content = CHR 0x00 then
        pbind (parse_file (4 * length content + 8) (setup_core c content base std))
          (\<lambda>ok c. if ok then complete_tree c else Done None c)
      else Halt Assertion)"
  by (simp add: parse_def parse_with_def parse_setup_def ensure_def setup_core_def)

lemma sound_setup:
  assumes "builder_used (asts c) \<le> NODE_BUILDER_RESERVE_SIZE" and "content \<noteq> []" and "last content = CHR 0x00"
  shows "sound (setup_core c content base std)" and "left (setup_core c content base std) < 4 * length content + 8"
    and "asts (setup_core c content base std) = asts c"
  using assms by (auto simp: sound_def setup_core_def terminated_def lexemes_left_def)

lemma complete_tree_total: "complete_tree c \<noteq> Exhausted"
  by (auto simp: complete_tree_def push_def pbind_def split: sum.split)

lemma parse_ok:
  assumes "builder_used (asts c) \<le> NODE_BUILDER_RESERVE_SIZE"
  shows "wp (parse c content base std) (\<lambda>r c'. r = None \<or>
    (\<exists>c0 c1 n ts. asts c0 = asts c \<and> grown c0 [Tree n ts] c1 \<and> tag n = Tag_File
      \<and> \<not> has_errors (parser c1) \<and> complete_tree c1 = Done r c'))"
proof (cases "content \<noteq> [] \<and> last content = CHR 0x00")
  case True
  note S = sound_setup [OF assms True [THEN conjunct1] True [THEN conjunct2]]
  show ?thesis
    unfolding parse_unfold if_P [OF True] wp_simps
  proof (rule wp_mono [OF parse_file_ok [OF S(1,2)]])
    fix ok c1
    assume ok: "ok \<longrightarrow> (\<exists>n ts. tag n = Tag_File \<and> grown (setup_core c content base std) [Tree n ts] c1)
      \<and> \<not> has_errors (parser c1)"
    show "wp (if ok then complete_tree c1 else Done None c1) (\<lambda>r c'. r = None \<or>
        (\<exists>c0 c1 n ts. asts c0 = asts c \<and> grown c0 [Tree n ts] c1 \<and> tag n = Tag_File
          \<and> \<not> has_errors (parser c1) \<and> complete_tree c1 = Done r c'))"
    proof (cases ok)
      case True
      then obtain n ts where "tag n = Tag_File" "grown (setup_core c content base std) [Tree n ts] c1"
          "\<not> has_errors (parser c1)" using ok by blast
      then show ?thesis
        using True S(3) complete_tree_total [of c1] by (cases "complete_tree c1") (simp_all, blast)
    qed simp
  qed
qed (simp only: parse_unfold if_False, simp)

section \<open>The run ends\<close>


section \<open>The tree\<close>

lemma complete_tree_room:
  assumes "complete_tree c = Done r c'"
  shows "ast_used (asts c) + used c \<le> NODES_RESERVE_SIZE" and "ast_room (asts c) (ast_used (asts c) + used c)"
    and "parser c' = parser c" and "r = Some (ast_used (asts c))" and "used c' = 0"
    and "ast_used (asts c') = ast_used (asts c) + used c"
  using assms
  by (auto simp: complete_tree_def pbind_def push_def complete_ast_def copy_postorder_to_preorder_def
      alloc_ast_def ensure_def obind_eq_Inr_iff split: sum.splits if_splits parsed.splits)

lemma complete_tree_laid:
  assumes "grown c0 [t] c1" and "used c0 = 0" and "complete_tree c1 = Done r c'" and "theight t \<le> MAX_AST_DEPTH"
  shows "pre (ast_nodes (asts c')) (ast_used (asts c1)) True True t"
proof -
  have used: "used c1 = tsize t" using grown_used [OF assms(1)] assms(2) by simp
  have laid: "laid Pushed (node_builder (asts c1)) 0 False False NO_CHILDREN t" "tsized t"
    using assms(1,2) by (auto simp: grown_def)
  have small: "tsize t < NO_CHILDREN"
    using grown_sound [OF assms(1)] used by (simp add: sound_def NODE_BUILDER_RESERVE_SIZE_def)
  obtain N where N: "complete_ast (asts c1) = Inr ((asts c1)\<lparr>node_builder := (\<lambda>_. None), builder_used := 0,
        ast_nodes := N, ast_used := ast_used (asts c1) + tsize t\<rparr>, ast_used (asts c1))"
      "pre N (ast_used (asts c1)) True True t"
    using complete_ast_laid [OF laid(1) used tsized_twf(1) [OF laid(2)] assms(4) small]
      complete_tree_room(1,2) [OF assms(3)] used by auto
  then show ?thesis using assms(3) by (auto simp: complete_tree_def pbind_def push_def)
qed

text \<open>
  C18: A file that is accepted becomes one tree. When the parser starts with an empty builder and
  returns a root, no error was recorded; the pool has, behind what it had, the nodes of one tree
  whose root is the node of the file, in preorder with sibling flags and subtree sizes if the
  tree is at most 128 levels deep, and the builder is empty again.
\<close>

theorem parse_builds_tree:
  assumes "builder_used (asts c) = 0" and "parse c content base std = Done (Some root) c'"
  shows "\<exists>n ts. tag n = Tag_File \<and> tsized (Tree n ts)
    \<and> root = ast_used (asts c) \<and> ast_used (asts c') = root + tsize (Tree n ts)
    \<and> builder_used (asts c') = 0 \<and> \<not> has_errors (parser c')
    \<and> (theight (Tree n ts) \<le> MAX_AST_DEPTH \<longrightarrow> pre (ast_nodes (asts c')) root True True (Tree n ts))"
proof -
  have "builder_used (asts c) \<le> NODE_BUILDER_RESERVE_SIZE" by (simp add: assms(1))
  from parse_ok [OF this, of content base std]
  obtain c0 c1 n ts where R: "asts c0 = asts c" "grown c0 [Tree n ts] c1" "tag n = Tag_File"
      "\<not> has_errors (parser c1)" "complete_tree c1 = Done (Some root) c'"
    by (auto simp: assms(2))
  have "ast_used (asts c1) = ast_used (asts c)" "used c1 = tsize (Tree n ts)" "tsized (Tree n ts)"
    using R(1,2) assms(1) by (auto simp: grown_def)
  moreover have "used c0 = 0" by (simp add: R(1) assms(1))
  ultimately show ?thesis
    using complete_tree_room [OF R(5)] complete_tree_laid [OF R(2) _ R(5)] R(3,4)
    by (intro exI [of _ n] exI [of _ ts]) simp
qed

section \<open>Runs\<close>

definition sample_core :: "IdentifierPool \<Rightarrow> Core" where
  "sample_core pool = \<lparr>parser = source_state pool [], asts = sample_pool\<rparr>"

definition empty_end :: "IdentifierPool \<Rightarrow> Core" where
  "empty_end pool = (sample_core pool)\<lparr>parser := (source_state pool [])\<lparr>peek_slot :=
     \<lparr>token = END_OF_SOURCE, source_id = 1, lexeme_value = NoValue\<rparr>\<rparr>\<rparr>"

lemma empty_file_step:
  "file_step n (NO_CHILDREN, 0) (setup_core (sample_core pool) [CHR 0x00] 1 False) =
     Done (Inr (NO_CHILDREN, 0)) (empty_end pool)"
  by (simp add: file_step_def lex_def peek_def next_lexeme_at_end setup_core_def sample_core_def
      source_state_def is_definition_start_def empty_end_def)

definition file_node :: AstNode where
  "file_node = \<lparr>tag = Tag_File, flags = Flag_EMPTY, own_qwords = 2, first_sibling = False, last_sibling = False,
     no_children = True, next_sibling_offset = NO_CHILDREN, attachment = FileData 0, node_source = 1\<rparr>"

definition empty_pushed :: "IdentifierPool \<Rightarrow> Core" where
  "empty_pushed pool = (empty_end pool)\<lparr>asts := sample_pool\<lparr>node_builder := [0 \<mapsto> file_node], builder_used := 2\<rparr>\<rparr>"

lemma empty_file:
  "parse_file 12 (setup_core (sample_core pool) [CHR 0x00] 1 False) = Done True (empty_pushed pool)"
proof -
  let ?c = "setup_core (sample_core pool) [CHR 0x00] 1 False"
  have loop: "repeat_steps 12 (file_step 12) (NO_CHILDREN, 0) ?c = Done (NO_CHILDREN, 0) (empty_end pool)"
    using repeat_steps.simps(2) [of 11 "file_step 12" "(NO_CHILDREN, 0)" ?c] by (simp add: empty_file_step)
  have "push_ast_data NO_CHILDREN 1 Flag_EMPTY Tag_File (FileData 0) (empty_end pool) = Done 0 (empty_pushed pool)"
    by (simp flip: One_nat_def numeral_2_eq_2 add: push_ast_data_def push_def push_node_data_def push_node_qwords_def Let_def ensure_def
        sample_pool_def NODE_BUILDER_RESERVE_SIZE_def empty_end_def sample_core_def empty_pushed_def file_node_def)
  moreover have "source_id_base (parser (empty_end pool)) = 1" "\<not> has_errors (parser (empty_pushed pool))"
    by (simp_all add: empty_pushed_def empty_end_def source_state_def)
  ultimately show ?thesis
    unfolding parse_file_def parse_file_body_def loop by simp
qed

lemma empty_complete: "\<exists>c'. complete_tree (empty_pushed pool) = Done (Some 1) c'"
proof -
  have "laid Pushed (node_builder (asts (empty_pushed pool))) 0 False False NO_CHILDREN (Tree file_node [])"
    by (simp add: empty_pushed_def with_structure_def file_node_def)
  from complete_ast_laid [OF this]
  show ?thesis
    by (auto simp: complete_tree_def push_def empty_pushed_def file_node_def sample_pool_def MAX_AST_DEPTH_def
        NODES_RESERVE_SIZE_def)
qed

lemma parse_empty: "\<exists>c'. parse (sample_core pool) [CHR 0x00] 1 False = Done (Some 1) c'"
  using empty_complete [of pool] by (simp add: parse_unfold empty_file)


theorem parse_builds_tree_witness:
  "\<forall>pool. \<exists>c'. parse (sample_core pool) [CHR 0x00] 1 False = Done (Some 1) c'
     \<and> (\<exists>n ts. tag n = Tag_File \<and> ast_used (asts c') = 1 + tsize (Tree n ts)) \<and> builder_used (asts c') = 0"
proof
  fix pool
  obtain c' where c': "parse (sample_core pool) [CHR 0x00] 1 False = Done (Some 1) c'" using parse_empty by blast
  have "builder_used (asts (sample_core pool)) = 0" by (simp add: sample_core_def sample_pool_def)
  from c' parse_builds_tree [OF this c'] show "\<exists>c'. parse (sample_core pool) [CHR 0x00] 1 False = Done (Some 1) c'
     \<and> (\<exists>n ts. tag n = Tag_File \<and> ast_used (asts c') = 1 + tsize (Tree n ts)) \<and> builder_used (asts c') = 0"
    by blast
qed

end
