(* ===== verification/CompHeap.thy ===== *)
theory CompHeap
  imports InfraMath
begin

text \<open>
  The heap of compile-time values (src/core/comp_heap.cpp). An address in the heap is its distance
  from \<open>memory\<close>, which is aligned to pages; a slot is a unit of \<open>COMP_HEAP_MIN_ALLOCATION_SIZE\<close>
  bytes. The bitmaps are arrays of words with a bit for each slot. Of the contents of the memory
  the heap itself reads and writes the first word of a free block, the link to the next one, and
  the header in front of a global member: \<open>cells\<close> maps a slot to what was written last.
\<close>

section \<open>State\<close>

definition COMP_HEAP_MIN_ALLOCATION_SIZE_LOG2 :: nat where "COMP_HEAP_MIN_ALLOCATION_SIZE_LOG2 = 4"
definition COMP_HEAP_MAX_FREELIST_SIZE_LOG2 :: nat where "COMP_HEAP_MAX_FREELIST_SIZE_LOG2 = 18"
definition COMP_HEAP_MIN_ALLOCATION_SIZE :: nat where "COMP_HEAP_MIN_ALLOCATION_SIZE = 16"
definition COMP_HEAP_MAX_FREELIST_SIZE :: nat where "COMP_HEAP_MAX_FREELIST_SIZE = 262144"
definition BYTES_PER_BITMAP_BYTE :: nat where "BYTES_PER_BITMAP_BYTE = 8 * COMP_HEAP_MIN_ALLOCATION_SIZE"
definition FREELIST_COUNT :: nat where "FREELIST_COUNT = 14"

lemmas heap_sizes [simp] = COMP_HEAP_MIN_ALLOCATION_SIZE_LOG2_def COMP_HEAP_MAX_FREELIST_SIZE_LOG2_def
  COMP_HEAP_MIN_ALLOCATION_SIZE_def COMP_HEAP_MAX_FREELIST_SIZE_def BYTES_PER_BITMAP_BYTE_def FREELIST_COUNT_def

datatype HeapCell = Payload | FreeLink nat | AllocationHeader u32 nat

type_synonym bitmap = "nat \<Rightarrow> u64"

text \<open>
  The platform: whether it commits the memory and the bitmaps up to a size, and whether memory
  that was given back reads as zero when it is committed again. Sizes are 64 bit integers, so
  sums of them are taken modulo 2^64.
\<close>

record CompHeap =
  heap_used :: nat
  heap_commit :: nat
  heap_reserve :: nat
  heap_commit_increment :: nat
  leak_bitmap :: bitmap
  begin_bitmap :: bitmap
  header_bitmap :: bitmap
  gc_bitmap :: bitmap
  freelists :: "nat list"
  cells :: "nat \<Rightarrow> HeapCell"
  heap_room :: "nat \<Rightarrow> bool"
  bitmap_room :: "nat \<Rightarrow> bool"
  gc_room :: "nat \<Rightarrow> bool"
  decommit_clears :: bool
  heap_page_bytes :: nat

definition wrap64 :: "nat \<Rightarrow> nat" where "wrap64 n = n mod 2 ^ 64"

text \<open>\<open>(n + m - 1) & ~(m - 1)\<close>, where \<open>m\<close> is a power of two.\<close>

definition round_up :: "nat \<Rightarrow> nat \<Rightarrow> nat" where
  "round_up n m = wrap64 (n + m - 1) div m * m"

section \<open>Free lists\<close>

definition push_free :: "nat \<Rightarrow> nat \<Rightarrow> CompHeap \<Rightarrow> CompHeap" where
  "push_free index cur h =
     h\<lparr>cells := (cells h)(cur div COMP_HEAP_MIN_ALLOCATION_SIZE := FreeLink (freelists h ! index)),
       freelists := (freelists h)[index := cur div COMP_HEAP_MIN_ALLOCATION_SIZE mod 2 ^ 32]\<rparr>"

text \<open>
  The first loop of \<open>comp_heap_add_to_freelist\<close>, from the smallest size up; \<open>piece\<close> (\<open>mask\<close> in the code) is the size of
  the list \<open>index\<close>. The second loop cuts what is left into blocks of the greatest size.
\<close>

fun add_pieces :: "nat \<Rightarrow> nat \<Rightarrow> nat \<Rightarrow> nat \<Rightarrow> nat \<Rightarrow> CompHeap \<Rightarrow> nat \<times> nat \<times> CompHeap" where
  "add_pieces 0 index piece cur bytes h = (cur, bytes, h)"
| "add_pieces (Suc k) index piece cur bytes h =
     (if bytes = 0 then (cur, bytes, h)
      else if odd (bytes div piece) then
        add_pieces k (index + 1) (2 * piece) (cur + piece) (bytes - piece) (push_free index cur h)
      else add_pieces k (index + 1) (2 * piece) cur bytes h)"

function add_large :: "nat \<Rightarrow> nat \<Rightarrow> CompHeap \<Rightarrow> CompHeap outcome" where
  "add_large cur bytes h =
     (if bytes = 0 then Inr h
      else if bytes < COMP_HEAP_MAX_FREELIST_SIZE then Inl Assertion
      else add_large (cur + COMP_HEAP_MAX_FREELIST_SIZE) (bytes - COMP_HEAP_MAX_FREELIST_SIZE)
             (push_free (FREELIST_COUNT - 1) cur h))"
  by pat_completeness auto
termination
  by (relation "measure (\<lambda>(cur, bytes, h). bytes)") auto

declare add_large.simps [simp del]

definition comp_heap_add_to_freelist :: "CompHeap \<Rightarrow> nat \<Rightarrow> nat \<Rightarrow> CompHeap outcome" where
  "comp_heap_add_to_freelist h first bytes =
     ensure Assertion (first + bytes \<le> heap_used h \<and> first mod COMP_HEAP_MIN_ALLOCATION_SIZE = 0
       \<and> COMP_HEAP_MIN_ALLOCATION_SIZE \<le> bytes)
     (let (cur, bytes, h) = add_pieces FREELIST_COUNT 0 COMP_HEAP_MIN_ALLOCATION_SIZE first bytes h
      in add_large cur bytes h)"

definition comp_heap_ensure_commit :: "CompHeap \<Rightarrow> nat \<Rightarrow> (bool \<times> CompHeap) outcome" where
  "comp_heap_ensure_commit h required =
     (if required \<le> heap_commit h then Inr (True, h)
      else if heap_reserve h < required then Inr (False, h)
      else
        let new_commit = round_up required (heap_commit_increment h) in
        ensure Assertion (new_commit \<le> heap_reserve h)
        (if \<not> heap_room h new_commit then Inr (False, h)
         else
           let old_bitmap_commit = heap_commit h div BYTES_PER_BITMAP_BYTE;
               new_bitmap_commit = new_commit div BYTES_PER_BITMAP_BYTE in
           ensure Assertion (new_bitmap_commit \<noteq> old_bitmap_commit)
           (if \<not> bitmap_room h new_bitmap_commit then Inr (False, h)
            else Inr (True, h\<lparr>heap_commit := new_commit\<rparr>))))"

section \<open>Bitmaps\<close>

definition slot_marked :: "bitmap \<Rightarrow> nat \<Rightarrow> bool" where
  "slot_marked bitmap i \<longleftrightarrow> bitmap (i div 64) AND push_bit (i mod 64) 1 \<noteq> 0"

definition mark_slot :: "bitmap \<Rightarrow> nat \<Rightarrow> bitmap" where
  "mark_slot bitmap i = bitmap(i div 64 := bitmap (i div 64) OR push_bit (i mod 64) 1)"

definition comp_heap_mark_bitmap_bits :: "bitmap \<Rightarrow> nat \<Rightarrow> nat \<Rightarrow> bitmap" where
  "comp_heap_mark_bitmap_bits bitmap first bytes =
     foldl mark_slot bitmap [first div COMP_HEAP_MIN_ALLOCATION_SIZE
       ..< (first + bytes + (COMP_HEAP_MIN_ALLOCATION_SIZE - 1)) div COMP_HEAP_MIN_ALLOCATION_SIZE]"

definition comp_heap_mark_bitmap_bit :: "bitmap \<Rightarrow> nat \<Rightarrow> bitmap outcome" where
  "comp_heap_mark_bitmap_bit bitmap address =
     (let slot_offset = address div COMP_HEAP_MIN_ALLOCATION_SIZE in
      ensure Assertion (\<not> slot_marked bitmap slot_offset) (Inr (mark_slot bitmap slot_offset)))"

section \<open>Allocation\<close>

text \<open>The first block of a free list and the list behind it.\<close>

definition pop_free :: "nat \<Rightarrow> CompHeap \<Rightarrow> (nat \<times> CompHeap) outcome" where
  "pop_free index h =
     (let head = freelists h ! index in
      case cells h head of
        FreeLink link \<Rightarrow> Inr (head * COMP_HEAP_MIN_ALLOCATION_SIZE, h\<lparr>freelists := (freelists h)[index := link]\<rparr>)
      | _ \<Rightarrow> Inl Undefined)"

definition alloc_from_freelist :: "CompHeap \<Rightarrow> nat \<Rightarrow> nat \<Rightarrow> (nat \<times> CompHeap) option outcome" where
  "alloc_from_freelist h header_size allocation_size =
     obind (log2_ceil (of_nat allocation_size :: u64)) (\<lambda>size_log2_ceil.
     let index = (if unat size_log2_ceil < COMP_HEAP_MIN_ALLOCATION_SIZE_LOG2 then 0
                  else unat size_log2_ceil - COMP_HEAP_MIN_ALLOCATION_SIZE_LOG2) in
     if freelists h ! index = 0 then Inr None
     else
     obind (pop_free index h) (\<lambda>(entry_begin, h).
     let entry_size = 2 ^ unat size_log2_ceil in
     obind (if COMP_HEAP_MIN_ALLOCATION_SIZE \<le> entry_size - allocation_size then
              comp_heap_add_to_freelist h (entry_begin + allocation_size) (entry_size - allocation_size)
            else Inr h) (\<lambda>h.
     obind (comp_heap_mark_bitmap_bit (begin_bitmap h) entry_begin) (\<lambda>bitmap.
       Inr (Some (entry_begin + header_size, h\<lparr>begin_bitmap := bitmap\<rparr>))))))"

definition alloc_fresh :: "CompHeap \<Rightarrow> nat \<Rightarrow> nat \<Rightarrow> nat \<Rightarrow> (nat option \<times> CompHeap) outcome" where
  "alloc_fresh h header_size bytes align =
     (let unaligned_begin = wrap64 (heap_used h + header_size);
          aligned_begin = round_up unaligned_begin align;
          new_used = round_up (wrap64 (aligned_begin + bytes)) COMP_HEAP_MIN_ALLOCATION_SIZE in
      obind (comp_heap_ensure_commit h new_used) (\<lambda>(committed, h).
      if \<not> committed then Inr (None, h)
      else
      let h = h\<lparr>heap_used := new_used\<rparr> in
      obind (if unaligned_begin \<noteq> aligned_begin then
               comp_heap_add_to_freelist h unaligned_begin (aligned_begin - unaligned_begin)
             else Inr h) (\<lambda>h.
      obind (comp_heap_mark_bitmap_bit (begin_bitmap h) (aligned_begin - header_size)) (\<lambda>bitmap.
        Inr (Some aligned_begin, h\<lparr>begin_bitmap := bitmap\<rparr>)))))"

definition comp_heap_alloc_internal :: "CompHeap \<Rightarrow> nat \<Rightarrow> nat \<Rightarrow> bool \<Rightarrow> (nat option \<times> CompHeap) outcome" where
  "comp_heap_alloc_internal h bytes align needs_header =
     ensure Assertion (align \<noteq> 0 \<and> is_pow2 (of_nat align :: u64))
     (let bytes = (if bytes = 0 \<and> \<not> needs_header then 1 else bytes);
          header_size = (if needs_header then COMP_HEAP_MIN_ALLOCATION_SIZE else 0);
          allocation_size = wrap64 (bytes + header_size) in
      obind (if align \<le> COMP_HEAP_MIN_ALLOCATION_SIZE \<and> allocation_size \<le> COMP_HEAP_MAX_FREELIST_SIZE_LOG2
             then alloc_from_freelist h header_size allocation_size else Inr None) (\<lambda>r.
      case r of
        Some (address, h) \<Rightarrow> Inr (Some address, h)
      | None \<Rightarrow> alloc_fresh h header_size bytes align))"

definition comp_heap_alloc :: "CompHeap \<Rightarrow> nat \<Rightarrow> nat \<Rightarrow> (nat option \<times> CompHeap) outcome" where
  "comp_heap_alloc h bytes align = comp_heap_alloc_internal h bytes align False"

definition comp_heap_alloc_global_member ::
  "CompHeap \<Rightarrow> nat \<Rightarrow> nat \<Rightarrow> u32 \<Rightarrow> (nat option \<times> CompHeap) outcome" where
  "comp_heap_alloc_global_member h bytes align type_id =
     obind (comp_heap_alloc_internal h bytes align True) (\<lambda>(allocation, h).
     case allocation of
       None \<Rightarrow> Inr (None, h)
     | Some address \<Rightarrow>
         let header = address - COMP_HEAP_MIN_ALLOCATION_SIZE;
             h = h\<lparr>cells := (cells h)(header div COMP_HEAP_MIN_ALLOCATION_SIZE := AllocationHeader type_id bytes)\<rparr> in
         obind (comp_heap_mark_bitmap_bit (header_bitmap h) header) (\<lambda>bitmap.
           Inr (Some address, h\<lparr>header_bitmap := bitmap\<rparr>)))"

section \<open>Headers and leaks\<close>

fun scan_begin_down :: "bitmap \<Rightarrow> nat \<Rightarrow> u64 \<Rightarrow> (nat \<times> u64) outcome" where
  "scan_begin_down bitmap i cur =
     (if cur \<noteq> 0 then Inr (i, cur)
      else case i of 0 \<Rightarrow> Inl Assertion | Suc i \<Rightarrow> scan_begin_down bitmap i (bitmap i))"

declare scan_begin_down.simps [simp del]

definition comp_heap_find_header :: "CompHeap \<Rightarrow> nat \<Rightarrow> nat option outcome" where
  "comp_heap_find_header h address =
     ensure Assertion (0 < address \<and> address < heap_used h)
     (let slot_offset = address div COMP_HEAP_MIN_ALLOCATION_SIZE;
          lower_slots_mask = drop_bit (63 - slot_offset mod 64) (NOT 0);
          i = slot_offset div 64 in
      obind (scan_begin_down (begin_bitmap h) i (begin_bitmap h i AND lower_slots_mask)) (\<lambda>(i, cur).
      obind (count_leading_zeros_assume_one cur) (\<lambda>zeros.
      let offset_in_qword = 63 - unat zeros in
      if header_bitmap h i AND push_bit offset_in_qword 1 = 0 then Inr None
      else Inr (Some (i * BYTES_PER_BITMAP_BYTE * 8 + offset_in_qword * COMP_HEAP_MIN_ALLOCATION_SIZE)))))"

definition header_at :: "CompHeap \<Rightarrow> nat \<Rightarrow> (u32 \<times> nat) outcome" where
  "header_at h address =
     (case cells h (address div COMP_HEAP_MIN_ALLOCATION_SIZE) of
        AllocationHeader type_id bytes \<Rightarrow> Inr (type_id, bytes)
      | _ \<Rightarrow> Inl Undefined)"

definition comp_heap_global_member_type :: "CompHeap \<Rightarrow> nat \<Rightarrow> u32 outcome" where
  "comp_heap_global_member_type h address =
     obind (comp_heap_find_header h address) (\<lambda>header.
     case header of
       None \<Rightarrow> Inl Assertion
     | Some header \<Rightarrow> obind (header_at h header) (\<lambda>(type_id, _). Inr type_id))"

text \<open>The memory may lie outside of the heap, so its bounds are integers.\<close>

definition comp_heap_leak :: "CompHeap \<Rightarrow> int \<Rightarrow> int \<Rightarrow> (bool \<times> CompHeap) outcome" where
  "comp_heap_leak h memory_begin memory_end =
     (if memory_end \<le> 0 \<or> int (heap_used h) \<le> memory_begin then Inr (True, h)
      else
      ensure Assertion (0 < memory_begin \<and> memory_end \<le> int (heap_used h))
      (if slot_marked (leak_bitmap h) (nat memory_begin div COMP_HEAP_MIN_ALLOCATION_SIZE) then Inr (True, h)
       else
       obind (comp_heap_find_header h (nat memory_begin)) (\<lambda>header.
       case header of
         None \<Rightarrow> Inr (True, h)
       | Some header \<Rightarrow>
           let allocation_begin = header + COMP_HEAP_MIN_ALLOCATION_SIZE in
           obind (header_at h header) (\<lambda>(_, bytes).
           if int (allocation_begin + bytes) \<le> memory_begin \<or> memory_end < int (allocation_begin + bytes)
           then Inr (False, h)
           else Inr (True, h\<lparr>leak_bitmap := comp_heap_mark_bitmap_bits (leak_bitmap h) allocation_begin bytes\<rparr>)))))"

definition comp_heap_dealloc :: "CompHeap \<Rightarrow> nat \<Rightarrow> nat \<Rightarrow> CompHeap outcome" where
  "comp_heap_dealloc h first bytes =
     (let bytes = (if bytes = 0 then 1 else bytes); begin_slot = first div COMP_HEAP_MIN_ALLOCATION_SIZE in
      ensure Assertion (0 < first \<and> first + bytes \<le> heap_used h \<and> slot_marked (begin_bitmap h) begin_slot
        \<and> \<not> slot_marked (header_bitmap h) begin_slot \<and> \<not> slot_marked (leak_bitmap h) begin_slot)
      (let h = h\<lparr>begin_bitmap := (begin_bitmap h)(begin_slot div 64 :=
             begin_bitmap h (begin_slot div 64) AND NOT (push_bit (begin_slot mod 64) 1))\<rparr> in
       if heap_used h - (first + bytes) < COMP_HEAP_MIN_ALLOCATION_SIZE then Inr (h\<lparr>heap_used := first\<rparr>)
       else comp_heap_add_to_freelist h first bytes))"

fun scan_leaks :: "bitmap \<Rightarrow> bitmap \<Rightarrow> nat \<Rightarrow> nat \<Rightarrow> u64 \<Rightarrow> (nat \<times> u64) option" where
  "scan_leaks begins leaks 0 i cur = (if cur \<noteq> 0 then Some (i, cur) else None)"
| "scan_leaks begins leaks (Suc left) i cur =
     (if cur \<noteq> 0 then Some (i, cur)
      else scan_leaks begins leaks left (i + 1) (begins (i + 1) AND leaks (i + 1)))"

text \<open>The result is the address behind the header, the size and the type of the next leaked allocation.\<close>

definition comp_heap_next_leak :: "CompHeap \<Rightarrow> nat option \<Rightarrow> (nat \<times> nat \<times> u32) option outcome" where
  "comp_heap_next_leak h prev =
     (let address = (case prev of Some a \<Rightarrow> a | None \<Rightarrow> 0) in
      ensure Assertion (address < heap_used h)
      (let fin = heap_used h div COMP_HEAP_MIN_ALLOCATION_SIZE div 64;
           prev_slot_offset = address div COMP_HEAP_MIN_ALLOCATION_SIZE;
           higher_slots_mask = push_bit (prev_slot_offset mod 64) (NOT 0);
           i = prev_slot_offset div 64 in
       case scan_leaks (begin_bitmap h) (leak_bitmap h) (fin - i) i
              (begin_bitmap h i AND leak_bitmap h i AND higher_slots_mask) of
         None \<Rightarrow> Inr None
       | Some (i, cur) \<Rightarrow>
           obind (count_trailing_zeros_assume_one cur) (\<lambda>zeros.
           let offset_in_qword = unat zeros in
           ensure Assertion (header_bitmap h i AND push_bit offset_in_qword 1 \<noteq> 0)
           (let leak_begin = i * BYTES_PER_BITMAP_BYTE * 8 + offset_in_qword * COMP_HEAP_MIN_ALLOCATION_SIZE in
            obind (header_at h leak_begin) (\<lambda>(type_id, bytes).
              Inr (Some (leak_begin + COMP_HEAP_MIN_ALLOCATION_SIZE, bytes, type_id)))))))"

section \<open>Garbage collection\<close>

definition comp_heap_gc_begin :: "CompHeap \<Rightarrow> CompHeap outcome" where
  "comp_heap_gc_begin h =
     (let gc_bitmap_commit = round_up ((heap_used h + BYTES_PER_BITMAP_BYTE - 1) div BYTES_PER_BITMAP_BYTE + 1)
            (heap_page_bytes h) in
      ensure Panic (gc_room h gc_bitmap_commit)
      (let bitmap = comp_heap_mark_bitmap_bits (gc_bitmap h) (heap_used h) 1;
           bitmap = comp_heap_mark_bitmap_bits bitmap 0 1 in
       Inr (h\<lparr>gc_bitmap := bitmap, freelists := replicate FREELIST_COUNT 0\<rparr>)))"

definition comp_heap_gc_mark :: "CompHeap \<Rightarrow> nat \<Rightarrow> nat \<Rightarrow> (bool \<times> CompHeap) outcome" where
  "comp_heap_gc_mark h first bytes =
     ensure Assertion (first mod COMP_HEAP_MIN_ALLOCATION_SIZE = 0 \<and> first + bytes \<le> heap_used h)
     (let slot = first div COMP_HEAP_MIN_ALLOCATION_SIZE in
      if slot_marked (gc_bitmap h) slot then Inr (False, h)
      else if \<not> slot_marked (begin_bitmap h) slot then
        ensure Assertion (0 < slot \<and> slot_marked (begin_bitmap h) (slot - 1) \<and> slot_marked (header_bitmap h) (slot - 1))
        (Inr (True, h\<lparr>gc_bitmap := comp_heap_mark_bitmap_bits (gc_bitmap h)
           (first - COMP_HEAP_MIN_ALLOCATION_SIZE) (bytes + COMP_HEAP_MIN_ALLOCATION_SIZE)\<rparr>))
      else Inr (True, h\<lparr>gc_bitmap := comp_heap_mark_bitmap_bits (gc_bitmap h) first (if bytes = 0 then 1 else bytes)\<rparr>))"

text \<open>\<open>skip_run\<close> is the loop over the slots that are marked, or that are not.\<close>

fun skip_run :: "nat \<Rightarrow> bool \<Rightarrow> bitmap \<Rightarrow> nat \<Rightarrow> nat outcome" where
  "skip_run 0 alive bitmap i = Inl Diverge"
| "skip_run (Suc k) alive bitmap i = (if slot_marked bitmap i = alive then skip_run k alive bitmap (i + 1) else Inr i)"

fun gc_runs :: "nat \<Rightarrow> nat \<Rightarrow> nat \<Rightarrow> CompHeap \<Rightarrow> (nat \<times> CompHeap) outcome" where
  "gc_runs 0 end_index bit_index h = Inl Diverge"
| "gc_runs (Suc k) end_index bit_index h =
     obind (skip_run (end_index + 2) True (gc_bitmap h) bit_index) (\<lambda>bit_index.
     let last_alive_index = bit_index * COMP_HEAP_MIN_ALLOCATION_SIZE in
     if end_index \<le> bit_index then Inr (last_alive_index, h)
     else
       obind (skip_run (end_index + 2) False (gc_bitmap h) bit_index) (\<lambda>free_end.
       obind (comp_heap_add_to_freelist h (bit_index * COMP_HEAP_MIN_ALLOCATION_SIZE)
                (free_end * COMP_HEAP_MIN_ALLOCATION_SIZE - bit_index * COMP_HEAP_MIN_ALLOCATION_SIZE)) (\<lambda>h.
         gc_runs k end_index free_end h)))"

definition comp_heap_gc_end :: "CompHeap \<Rightarrow> CompHeap outcome" where
  "comp_heap_gc_end h =
     (let gc_bitmap_commit = round_up (heap_used h div BYTES_PER_BITMAP_BYTE) (heap_page_bytes h);
          h = h\<lparr>begin_bitmap := (\<lambda>i. if i < gc_bitmap_commit div 8 then begin_bitmap h i AND gc_bitmap h i
                                    else begin_bitmap h i)\<rparr>;
          end_index = heap_used h div COMP_HEAP_MIN_ALLOCATION_SIZE in
      obind (gc_runs (end_index + 1) end_index 0 h) (\<lambda>(last_alive_index, h).
      let new_commit = round_up (heap_commit h) (heap_commit_increment h) in
      Inr (h\<lparr>heap_commit := new_commit, heap_used := last_alive_index,
        gc_bitmap := (\<lambda>i. if decommit_clears h \<and> i < gc_bitmap_commit div 8 then 0 else gc_bitmap h i)\<rparr>)))"

section \<open>Setup\<close>

definition calc_commit_increment :: "nat \<Rightarrow> nat \<Rightarrow> nat outcome" where
  "calc_commit_increment commit_increment page_size =
     (let min_size = page_size * BYTES_PER_BITMAP_BYTE in
      if commit_increment < min_size then Inr min_size
      else case next_pow2 (of_nat commit_increment :: u64) of None \<Rightarrow> Inl Diverge | Some n \<Rightarrow> Inr (unat n))"

definition calc_bitmap_reserve :: "nat \<Rightarrow> nat \<Rightarrow> nat" where
  "calc_bitmap_reserve page_size heap_size = round_up (heap_size div BYTES_PER_BITMAP_BYTE) page_size"

definition calc_memory_reserve :: "nat \<Rightarrow> nat \<Rightarrow> nat" where
  "calc_memory_reserve reserve commit_increment = round_up reserve commit_increment"

definition comp_heap_validate_config :: "nat \<Rightarrow> nat \<Rightarrow> bool" where
  "comp_heap_validate_config reserve commit_increment \<longleftrightarrow> commit_increment \<le> reserve"

text \<open>The sizes of the ranges for the memory and for the bitmaps.\<close>

definition comp_heap_memory_requirements :: "nat \<Rightarrow> nat \<Rightarrow> nat \<Rightarrow> (nat \<times> nat) outcome" where
  "comp_heap_memory_requirements reserve commit_increment page_size =
     obind (calc_commit_increment commit_increment page_size) (\<lambda>commit_increment.
     let heap_size = calc_memory_reserve reserve commit_increment in
       Inr (heap_size, 4 * calc_bitmap_reserve page_size heap_size + page_size))"

text \<open>The platform is given as a heap, of which the other fields are set.\<close>

definition comp_heap_init :: "CompHeap \<Rightarrow> nat \<Rightarrow> nat \<Rightarrow> CompHeap outcome" where
  "comp_heap_init platform reserve commit_increment =
     obind (calc_commit_increment commit_increment (heap_page_bytes platform)) (\<lambda>commit_increment.
     ensure Panic (heap_room platform commit_increment
       \<and> bitmap_room platform (commit_increment div BYTES_PER_BITMAP_BYTE))
     (Inr (platform\<lparr>heap_used := COMP_HEAP_MIN_ALLOCATION_SIZE, heap_commit := commit_increment,
        heap_reserve := calc_memory_reserve reserve commit_increment, heap_commit_increment := commit_increment,
        leak_bitmap := (\<lambda>_. 0), begin_bitmap := (\<lambda>_. 0), header_bitmap := (\<lambda>_. 0), gc_bitmap := (\<lambda>_. 0),
        freelists := replicate FREELIST_COUNT 0\<rparr>)))"

end
