(* ===== verification/CompHeapLists.thy ===== *)
theory CompHeapLists
  imports CompHeap "HOL-Library.Multiset"
begin

text \<open>
  What the bitmaps and the free lists of the heap stand for: sets of slots, and lists of blocks
  that are linked through their first slots.
\<close>

section \<open>Bitmaps as sets of slots\<close>

lemma slot_marked_bit: "slot_marked bm i \<longleftrightarrow> bit (bm (i div 64)) (i mod 64)"
  by (simp add: slot_marked_def bit_iff_and_push_bit_not_eq_0)

lemma div_mod_eq_nat: "(j :: nat) div n = i div n \<Longrightarrow> j mod n = i mod n \<Longrightarrow> j = i"
  by (metis div_mult_mod_eq)

lemma mark_slot [simp]: "slot_marked (mark_slot bm i) j \<longleftrightarrow> j = i \<or> slot_marked bm j"
  by (auto simp: slot_marked_bit mark_slot_def bit_or_iff bit_exp_iff dest: div_mod_eq_nat)

lemma mark_slots: "slot_marked (foldl mark_slot bm is) j \<longleftrightarrow> j \<in> set is \<or> slot_marked bm j"
  by (induction "is" arbitrary: bm) auto

lemma mark_bits [simp]:
  "slot_marked (comp_heap_mark_bitmap_bits bm first bytes) j \<longleftrightarrow>
     first div 16 \<le> j \<and> j < (first + bytes + 15) div 16 \<or> slot_marked bm j"
  by (simp add: comp_heap_mark_bitmap_bits_def mark_slots)

lemma clear_slot:
  "slot_marked (bm(i div 64 := bm (i div 64) AND NOT (push_bit (i mod 64) 1))) j \<longleftrightarrow> j \<noteq> i \<and> slot_marked bm j"
  by (auto simp: slot_marked_bit bit_and_iff bit_not_iff bit_exp_iff dest: div_mod_eq_nat)

section \<open>Free lists as blocks\<close>

fun free_chain :: "(nat \<Rightarrow> HeapCell) \<Rightarrow> nat \<Rightarrow> nat list \<Rightarrow> bool" where
  "free_chain c n [] \<longleftrightarrow> n = 0"
| "free_chain c n (s # ss) \<longleftrightarrow> n = s \<and> s \<noteq> 0 \<and> (\<exists>m. c s = FreeLink m \<and> free_chain c m ss)"

definition free_ok :: "CompHeap \<Rightarrow> (nat \<Rightarrow> nat list) \<Rightarrow> bool" where
  "free_ok h F \<longleftrightarrow> length (freelists h) = FREELIST_COUNT \<and>
     (\<forall>k < FREELIST_COUNT. free_chain (cells h) (freelists h ! k) (F k))"

text \<open>The slots of the blocks: a block of list \<open>k\<close> has \<open>2 ^ k\<close> of them.\<close>

definition list_slots :: "nat \<Rightarrow> nat list \<Rightarrow> nat list" where
  "list_slots k ss = concat (map (\<lambda>s. [s ..< s + 2 ^ k]) ss)"

definition free_slots :: "(nat \<Rightarrow> nat list) \<Rightarrow> nat multiset" where
  "free_slots F = (\<Sum>k < FREELIST_COUNT. mset (list_slots k (F k)))"

abbreviation slots :: "nat \<Rightarrow> nat \<Rightarrow> nat multiset" where
  "slots a n \<equiv> mset [a ..< a + n]"

lemma list_slots_Cons [simp]: "list_slots k (s # ss) = [s ..< s + 2 ^ k] @ list_slots k ss"
  by (simp add: list_slots_def)

lemma list_slots_Nil [simp]: "list_slots k [] = []"
  by (simp add: list_slots_def)

lemma in_list_slots: "s \<in> set ss \<Longrightarrow> s \<in> set (list_slots k ss)"
  by (auto simp: list_slots_def)

lemma free_slots_upd:
  assumes "k < FREELIST_COUNT"
  shows "free_slots (F(k := ss)) + mset (list_slots k (F k)) = free_slots F + mset (list_slots k ss)"
proof -
  have "free_slots (F(k := ss)) = mset (list_slots k ss) + (\<Sum>j \<in> {..<FREELIST_COUNT} - {k}. mset (list_slots j (F j)))"
    unfolding free_slots_def using assms by (subst sum.remove [of _ k]) (auto intro!: sum.cong)
  moreover have "free_slots F = mset (list_slots k (F k)) + (\<Sum>j \<in> {..<FREELIST_COUNT} - {k}. mset (list_slots j (F j)))"
    unfolding free_slots_def using assms by (subst sum.remove [of _ k]) auto
  ultimately show ?thesis by simp
qed

lemma free_slots_push: "k < FREELIST_COUNT \<Longrightarrow> free_slots (F(k := s # F k)) = free_slots F + slots s (2 ^ k)"
  using free_slots_upd [of k F "s # F k"] by (simp add: ac_simps)

lemma free_slots_pop: "k < FREELIST_COUNT \<Longrightarrow> F k = s # ss \<Longrightarrow> free_slots F = free_slots (F(k := ss)) + slots s (2 ^ k)"
  using free_slots_upd [of k F ss] by (simp add: ac_simps)

lemma head_in_slots: "k < FREELIST_COUNT \<Longrightarrow> s \<in> set (F k) \<Longrightarrow> s \<in># free_slots F"
  by (auto simp: free_slots_def set_mset_sum intro!: bexI [of _ k] in_list_slots)

lemma free_chain_cong: "(\<And>s. s \<in> set ss \<Longrightarrow> c' s = c s) \<Longrightarrow> free_chain c' n ss = free_chain c n ss"
  by (induction ss arbitrary: n) auto

lemma free_ok_cong:
  assumes "free_ok h F" and "freelists h' = freelists h" and "\<And>s. s \<in># free_slots F \<Longrightarrow> cells h' s = cells h s"
  shows "free_ok h' F"
proof -
  have "free_chain (cells h') (freelists h ! k) (F k)" if "k < FREELIST_COUNT" for k
    using assms(1,3) that head_in_slots [OF that] by (subst free_chain_cong [of _ _ "cells h"]) (auto simp: free_ok_def)
  then show ?thesis using assms(1,2) by (simp add: free_ok_def)
qed

lemma free_ok_push:
  assumes "free_ok h F" and "k < FREELIST_COUNT" and "0 < s" and "s < 2 ^ 32" and "s \<notin># free_slots F"
  shows "free_ok (push_free k (16 * s) h) (F(k := s # F k))"
proof -
  have old: "free_chain ((cells h)(s := x)) (freelists h ! j) (F j)" if "j < FREELIST_COUNT" for j x
    using assms(1,5) that head_in_slots [OF that] by (subst free_chain_cong [of _ _ "cells h"]) (auto simp: free_ok_def)
  show ?thesis
    using assms(1-4) old by (auto simp: free_ok_def push_free_def nth_list_update)
qed

section \<open>Adding memory to the free lists\<close>

definition only_lists :: "CompHeap \<Rightarrow> CompHeap \<Rightarrow> nat \<Rightarrow> nat \<Rightarrow> bool" where
  "only_lists h h' a n \<longleftrightarrow> (\<exists>c l. h' = h\<lparr>cells := c, freelists := l\<rparr>)
     \<and> (\<forall>i. i < a \<or> a + n \<le> i \<longrightarrow> cells h' i = cells h i)"

lemma only_lists_refl [simp]: "only_lists h h a n"
  unfolding only_lists_def by (intro conjI exI [of _ "cells h"] exI [of _ "freelists h"]) simp_all

lemma only_lists_trans:
  "only_lists h h1 a n \<Longrightarrow> only_lists h1 h2 a' n' \<Longrightarrow> a \<le> a' \<Longrightarrow> a' + n' \<le> a + n \<Longrightarrow> only_lists h h2 a n"
  by (fastforce simp: only_lists_def)

lemma only_lists_push: "a \<le> s \<Longrightarrow> s < a + n \<Longrightarrow> only_lists h (push_free k (16 * s) h) a n"
  by (auto simp: only_lists_def push_free_def)

lemma slots_split: "k \<le> n \<Longrightarrow> slots a n = slots a k + slots (a + k) (n - k)"
  by (metis Nat.add_diff_assoc add.assoc le_add1 le_add_diff_inverse mset_append upt_add_eq_append)

text \<open>A multiset of slots in which no slot occurs twice.\<close>

definition disjoint_slots :: "nat multiset \<Rightarrow> bool" where
  "disjoint_slots M \<longleftrightarrow> (\<forall>x. count M x \<le> 1)"

lemma disjoint_slots_mono: "disjoint_slots M \<Longrightarrow> N \<subseteq># M \<Longrightarrow> disjoint_slots N"
  by (meson disjoint_slots_def le_trans mset_subset_eq_count)

lemma disjoint_slots_not_in: "disjoint_slots (M + N) \<Longrightarrow> x \<in># N \<Longrightarrow> x \<notin># M"
  by (metis One_nat_def add_leD1 count_eq_zero_iff count_union disjoint_slots_def le_add_same_cancel1
      le_antisym le_zero_eq add.commute add_le_same_cancel1 not_less_eq_eq nat_le_linear)

lemma add_pieces_ok:
  "free_ok h F \<Longrightarrow> index + k = FREELIST_COUNT \<Longrightarrow> n mod 2 ^ index = 0 \<Longrightarrow> 0 < a \<Longrightarrow> a + n \<le> 2 ^ 32
     \<Longrightarrow> disjoint_slots (free_slots F + slots a n) \<Longrightarrow>
   \<exists>a' n' h' F'. add_pieces k index (16 * 2 ^ index) (16 * a) (16 * n) h = (16 * a', 16 * n', h')
     \<and> n' mod 2 ^ FREELIST_COUNT = 0 \<and> a' + n' = a + n \<and> a \<le> a' \<and> only_lists h h' a n \<and> free_ok h' F'
     \<and> free_slots F' + slots a' n' = free_slots F + slots a n"
proof (induction k arbitrary: index a n h F)
  case 0
  then show ?case by (intro exI [of _ a] exI [of _ n] exI [of _ h] exI [of _ F]) simp
next
  case (Suc k)
  have div: "16 * n div (16 * 2 ^ index) = n div 2 ^ index" by simp
  have twice: "16 * 2 ^ (index + 1) = 2 * (16 * 2 ^ index :: nat)" by simp
  have index: "index < FREELIST_COUNT" "Suc index + k = FREELIST_COUNT" using Suc.prems(2) by auto
  show ?case
  proof (cases "n = 0")
    case True
    then show ?thesis using Suc.prems by (intro exI [of _ a] exI [of _ 0] exI [of _ h] exI [of _ F]) simp
  next
    case False
    have half: "n = 2 ^ index * (n div 2 ^ index)" using Suc.prems(3) by auto
    show ?thesis
    proof (cases "odd (n div 2 ^ index)")
      case True
      then obtain q where q: "n div 2 ^ index = 2 * q + 1" by (auto elim: oddE)
      let ?s = "2 ^ index :: nat"
      have n: "n = ?s + 2 ^ Suc index * q" using half q by (simp add: algebra_simps)
      let ?h = "push_free index (16 * a) h" and ?F = "F(index := a # F index)"
      have slots: "free_slots ?F = free_slots F + slots a ?s" by (rule free_slots_push [OF index(1)])
      have le: "?s \<le> n" using n by simp
      have parts: "slots a n = slots a ?s + slots (a + ?s) (n - ?s)" by (rule slots_split [OF le])
      have "a \<in># slots a n" using False by simp
      then have "a \<notin># free_slots F" using Suc.prems(6) disjoint_slots_not_in by blast
      then have ok: "free_ok ?h ?F" using Suc.prems False index(1) by (intro free_ok_push) auto
      have rest: "(n - ?s) mod 2 ^ Suc index = 0" "0 < a + ?s" "a + ?s + (n - ?s) \<le> 2 ^ 32"
        using n Suc.prems(5) le by simp_all
      have disj: "disjoint_slots (free_slots ?F + slots (a + ?s) (n - ?s))"
        using Suc.prems(6) by (simp only: slots parts add.assoc)
      obtain a' n' h' F' where IH:
        "add_pieces k (Suc index) (16 * 2 ^ Suc index) (16 * (a + ?s)) (16 * (n - ?s)) ?h = (16 * a', 16 * n', h')"
        "n' mod 2 ^ FREELIST_COUNT = 0" "a' + n' = a + ?s + (n - ?s)" "a + ?s \<le> a'"
        "only_lists ?h h' (a + ?s) (n - ?s)" "free_ok h' F'"
        "free_slots F' + slots a' n' = free_slots ?F + slots (a + ?s) (n - ?s)"
        using Suc.IH [OF ok index(2) rest disj] by (elim exE conjE) (rule that)
      have "add_pieces (Suc k) index (16 * 2 ^ index) (16 * a) (16 * n) h = (16 * a', 16 * n', h')"
        using IH(1) True False
        by (simp del: mult_Suc mult_Suc_right add: div twice algebra_simps diff_mult_distrib2)
      moreover have "only_lists h h' a n"
        by (rule only_lists_trans [OF only_lists_push IH(5)]) (use le False in auto)
      moreover have "a' + n' = a + n" and "a \<le> a'" using IH(3,4) le by simp_all
      moreover have "free_slots F' + slots a' n' = free_slots F + slots a n"
        by (simp only: IH(7) slots parts add.assoc)
      ultimately show ?thesis
        using IH(2,6)
        by (intro exI [of _ a'] exI [of _ n'] exI [of _ h'] exI [of _ F'] conjI)
    next
      case even: False
      have "n mod 2 ^ Suc index = 0"
        using half even by (metis dvd_mult_div_cancel dvd_triv_left even_iff_mod_2_eq_zero mod_0_imp_dvd mod_mult_mult1
            mult.commute mult_0_right power_Suc2)
      from Suc.IH [OF Suc.prems(1) index(2) this Suc.prems(4-6)] obtain a' n' h' F' where IH:
        "add_pieces k (Suc index) (16 * 2 ^ Suc index) (16 * a) (16 * n) h = (16 * a', 16 * n', h')"
        "n' mod 2 ^ FREELIST_COUNT = 0" "a' + n' = a + n" "a \<le> a'" "only_lists h h' a n" "free_ok h' F'"
        "free_slots F' + slots a' n' = free_slots F + slots a n"
        by (elim exE conjE) (rule that)
      moreover have "add_pieces (Suc k) index (16 * 2 ^ index) (16 * a) (16 * n) h = (16 * a', 16 * n', h')"
        using IH(1) even False by (simp del: mult_Suc mult_Suc_right add: div twice)
      ultimately show ?thesis
        by (intro exI [of _ a'] exI [of _ n'] exI [of _ h'] exI [of _ F'] conjI)
    qed
  qed
qed

lemma add_large_ok:
  "free_ok h F \<Longrightarrow> 0 < a \<Longrightarrow> a + n \<le> 2 ^ 32 \<Longrightarrow> n mod 2 ^ FREELIST_COUNT = 0 \<Longrightarrow> disjoint_slots (free_slots F + slots a n)
     \<Longrightarrow> \<exists>h' F'. add_large (16 * a) (16 * n) h = Inr h' \<and> only_lists h h' a n \<and> free_ok h' F'
       \<and> free_slots F' \<subseteq># free_slots F + slots a n"
proof (induction n arbitrary: a h F rule: less_induct)
  case (less n)
  show ?case
  proof (cases "n = 0")
    case True
    then show ?thesis using less.prems(1)
      by (intro exI [of _ h] exI [of _ F]) (simp add: add_large.simps [of "16 * a"])
  next
    case False
    let ?s = "2 ^ 14 :: nat" and ?k = "FREELIST_COUNT - 1"
    have le: "?s \<le> n" using False less.prems(4) by (simp add: mod_eq_0_iff_dvd dvd_imp_le)
    let ?h = "push_free ?k (16 * a) h" and ?F = "F(?k := a # F ?k)"
    have "a \<in># slots a n" using False by simp
    then have "a \<notin># free_slots F" using less.prems(5) disjoint_slots_not_in by blast
    then have ok: "free_ok ?h ?F" using less.prems(1-3) False by (intro free_ok_push) auto
    have "slots a ?s \<subseteq># slots a n" and parts: "slots a n = slots a ?s + slots (a + ?s) (n - ?s)"
      using slots_split [OF le, of a] by simp_all
    have half: "slots a ?s = slots a (2 ^ 13) + slots (a + 2 ^ 13) (2 ^ 13)"
      using slots_split [of "2 ^ 13" ?s a] by simp
    have slots: "free_slots ?F = free_slots F + slots a (2 ^ 13)"
      using free_slots_push [of ?k F a] by simp
    have sub: "free_slots ?F + slots (a + ?s) (n - ?s) \<subseteq># free_slots F + slots a n"
      by (simp only: slots parts half add.assoc) (simp add: subset_mset.add_increasing2 del: mset_upt)
    have rest: "0 < a + ?s" "a + ?s + (n - ?s) \<le> 2 ^ 32" "(n - ?s) mod 2 ^ FREELIST_COUNT = 0"
      using le less.prems(3,4) by (simp_all add: le_mod_geq [symmetric])
    have "n - ?s < n" using False by simp
    from less.IH [OF this ok rest disjoint_slots_mono [OF less.prems(5) sub]] obtain h' F' where IH:
      "add_large (16 * (a + ?s)) (16 * (n - ?s)) ?h = Inr h'" "only_lists ?h h' (a + ?s) (n - ?s)" "free_ok h' F'"
      "free_slots F' \<subseteq># free_slots ?F + slots (a + ?s) (n - ?s)"
      by (elim exE conjE) (rule that)
    have "16 * (a + ?s) = 16 * a + COMP_HEAP_MAX_FREELIST_SIZE" "16 * (n - ?s) = 16 * n - COMP_HEAP_MAX_FREELIST_SIZE"
      by (simp_all add: diff_mult_distrib2)
    then have "add_large (16 * a) (16 * n) h = Inr h'"
      using IH(1) le False by (subst add_large.simps) simp
    moreover have "only_lists h h' a n"
      by (rule only_lists_trans [OF only_lists_push IH(2)]) (use le False in auto)
    ultimately show ?thesis
      using IH(3) subset_mset.order_trans [OF IH(4) sub] by (intro exI [of _ h'] exI [of _ F'] conjI)
  qed
qed

lemma add_to_freelist_ok:
  assumes "free_ok h F" and "0 < a" and "0 < n" and "16 * (a + n) \<le> heap_used h" and "a + n \<le> 2 ^ 32"
    and "disjoint_slots (free_slots F + slots a n)"
  obtains h' F' where "comp_heap_add_to_freelist h (16 * a) (16 * n) = Inr h'" and "only_lists h h' a n"
    and "free_ok h' F'" and "free_slots F' \<subseteq># free_slots F + slots a n"
proof -
  have "\<exists>b m h1 F1. add_pieces FREELIST_COUNT 0 16 (16 * a) (16 * n) h = (16 * b, 16 * m, h1)
      \<and> m mod 2 ^ FREELIST_COUNT = 0 \<and> b + m = a + n \<and> a \<le> b \<and> only_lists h h1 a n \<and> free_ok h1 F1
      \<and> free_slots F1 + slots b m = free_slots F + slots a n"
    using add_pieces_ok [OF assms(1), of 0 FREELIST_COUNT n a] assms(2,5,6) by (simp del: FREELIST_COUNT_def mset_upt)
  then obtain b m h1 F1 where P: "add_pieces FREELIST_COUNT 0 16 (16 * a) (16 * n) h = (16 * b, 16 * m, h1)"
    "m mod 2 ^ FREELIST_COUNT = 0" "b + m = a + n" "a \<le> b" "only_lists h h1 a n" "free_ok h1 F1"
    "free_slots F1 + slots b m = free_slots F + slots a n"
    by (elim exE conjE) (rule that)
  have "0 < b" "b + m \<le> 2 ^ 32" "disjoint_slots (free_slots F1 + slots b m)"
    using P(3,4,7) assms(2,5,6) by simp_all
  from add_large_ok [OF P(6) this(1,2) P(2) this(3)] obtain h' F' where L:
    "add_large (16 * b) (16 * m) h1 = Inr h'" "only_lists h1 h' b m" "free_ok h' F'"
    "free_slots F' \<subseteq># free_slots F1 + slots b m"
    by (elim exE conjE) (rule that)
  have "comp_heap_add_to_freelist h (16 * a) (16 * n) = Inr h'"
    using assms(3,4) P(1) L(1) by (simp add: comp_heap_add_to_freelist_def del: FREELIST_COUNT_def)
  moreover have "only_lists h h' a n" by (rule only_lists_trans [OF P(5) L(2)]) (use P(3,4) in auto)
  ultimately show thesis using that L(3,4) P(7) by simp
qed

text \<open>A size that is no multiple of the size of a slot ends in the assertion of the second loop.\<close>

lemma add_large_misaligned: "bytes mod 16 \<noteq> 0 \<Longrightarrow> add_large cur bytes h = Inl Assertion"
proof (induction cur bytes h rule: add_large.induct)
  case (1 cur bytes h)
  have "(bytes - COMP_HEAP_MAX_FREELIST_SIZE) mod 16 = bytes mod 16" if le: "COMP_HEAP_MAX_FREELIST_SIZE \<le> bytes"
  proof -
    obtain d where "bytes = d + 16 * 16384" using le_Suc_ex [OF le] by auto
    then show ?thesis by (simp add: mod_mult_self2 [of d 16 16384, simplified])
  qed
  then show ?case using 1 by (auto simp: add_large.simps [of cur] simp del: COMP_HEAP_MAX_FREELIST_SIZE_def)
qed

lemma add_pieces_mod:
  "piece mod 16 = 0 \<Longrightarrow> add_pieces k index piece cur bytes h = (cur', bytes', h') \<Longrightarrow> bytes' mod 16 = bytes mod 16"
proof (induction k index piece cur bytes h rule: add_pieces.induct)
  case (2 k index piece cur bytes h)
  have "(bytes - piece) mod 16 = bytes mod 16" if "odd (bytes div piece)"
  proof -
    have "piece \<le> bytes" using that by (cases "bytes < piece") auto
    then show ?thesis using 2(3) by (metis add.right_neutral le_add_diff_inverse2 mod_add_right_eq)
  qed
  moreover have "2 * piece mod 16 = 0" using 2(3) by presburger
  ultimately show ?case using 2 by (auto split: if_splits)
qed simp

lemma add_to_freelist_misaligned:
  assumes "bytes mod 16 \<noteq> 0"
  shows "comp_heap_add_to_freelist h first bytes = Inl Assertion"
proof -
  obtain cur' bytes' h' where A: "add_pieces FREELIST_COUNT 0 16 first bytes h = (cur', bytes', h')"
    by (cases "add_pieces FREELIST_COUNT 0 16 first bytes h")
  have "bytes' mod 16 \<noteq> 0" using add_pieces_mod [OF _ A] assms by simp
  then show ?thesis
    using A by (simp add: comp_heap_add_to_freelist_def ensure_def add_large_misaligned del: FREELIST_COUNT_def)
qed

end
