(* ===== verification/CompHeapAlloc.thy ===== *)
theory CompHeapAlloc
  imports CompHeapLists
begin

text \<open>
  The invariant of the heap: the free blocks and the live allocations are pairwise disjoint parts
  of the used memory, and the bitmap of begins has the first slots of the live ones. Allocation
  and deallocation keep it.
\<close>

section \<open>The invariant\<close>

definition sizes_ok :: "CompHeap \<Rightarrow> bool" where
  "sizes_ok h \<longleftrightarrow> heap_used h mod 16 = 0 \<and> 16 \<le> heap_used h \<and> heap_used h \<le> heap_commit h
     \<and> heap_commit h \<le> heap_reserve h \<and> heap_reserve h \<le> 2 ^ 36
     \<and> (\<exists>j \<ge> 7. heap_commit_increment h = 2 ^ j)
     \<and> heap_commit_increment h dvd heap_commit h \<and> heap_commit_increment h dvd heap_reserve h"

text \<open>A live allocation is given by its first slot, that of its header if it has one, and their number.\<close>

definition live_slots :: "(nat \<times> nat) list \<Rightarrow> nat multiset" where
  "live_slots L = (\<Sum>(s, n) \<leftarrow> L. slots s n)"

definition heap_ok :: "CompHeap \<Rightarrow> (nat \<Rightarrow> nat list) \<Rightarrow> (nat \<times> nat) list \<Rightarrow> bool" where
  "heap_ok h F L \<longleftrightarrow> sizes_ok h \<and> free_ok h F \<and> disjoint_slots (free_slots F + live_slots L)
     \<and> (\<forall>x \<in># free_slots F + live_slots L. 0 < x \<and> x < heap_used h div 16)
     \<and> (\<forall>(s, n) \<in> set L. 0 < n)
     \<and> (\<forall>i. slot_marked (begin_bitmap h) i \<longleftrightarrow> i \<in> fst ` set L)
     \<and> (\<forall>i. slot_marked (header_bitmap h) i \<longrightarrow> i \<in> fst ` set L)"

lemma live_slots_simps [simp]: "live_slots [] = {#}" "live_slots ((s, n) # L) = slots s n + live_slots L"
  by (simp_all add: live_slots_def)

lemma in_live_slots: "x \<in># live_slots L \<longleftrightarrow> (\<exists>(s, n) \<in> set L. s \<le> x \<and> x < s + n)"
  by (induction L) auto

lemma live_start: "\<forall>(s, n) \<in> set L. 0 < n \<Longrightarrow> s \<in> fst ` set L \<Longrightarrow> s \<in># live_slots L"
  by (fastforce simp: in_live_slots)

section \<open>Rounding and committing\<close>

lemma round_up_eq: "0 < m \<Longrightarrow> n + m \<le> 2 ^ 64 \<Longrightarrow> round_up n m = (n + m - 1) div m * m"
  by (simp add: round_up_def wrap64_def)

lemma round_up_props:
  assumes "0 < m" and "n + m \<le> 2 ^ 64"
  shows "n \<le> round_up n m" and "round_up n m < n + m" and "m dvd round_up n m"
proof -
  have "(n + m - 1) div m * m + (n + m - 1) mod m = n + m - 1" by simp
  moreover have "(n + m - 1) mod m < m" using assms(1) by simp
  ultimately show "n \<le> round_up n m" "round_up n m < n + m"
    using assms by (simp_all only: round_up_eq)
  show "m dvd round_up n m" using assms by (simp add: round_up_eq)
qed

lemma round_up_dvd:
  assumes "0 < m" and "n + m \<le> 2 ^ 64" and "m dvd n"
  shows "round_up n m = n"
proof -
  obtain k where k: "n = m * k" using assms(3) by (auto elim: dvdE)
  have "(m * k + m - 1) div m = k"
    using assms(1) by (intro div_nat_eqI) (auto simp: algebra_simps)
  then show ?thesis using assms(1,2) k by (simp add: round_up_eq)
qed

lemma round_up_16: "n + 16 \<le> 2 ^ 64 \<Longrightarrow> round_up n 16 = 16 * ((n + 15) div 16)"
  by (simp add: round_up_eq)

lemma ensure_commit_ok:
  assumes "sizes_ok h" and "required \<le> 2 ^ 62"
  obtains "comp_heap_ensure_commit h required = Inr (False, h)"
  | c where "comp_heap_ensure_commit h required = Inr (True, h\<lparr>heap_commit := c\<rparr>)" and "required \<le> c"
    and "heap_used h \<le> c" and "c \<le> heap_reserve h" and "heap_commit_increment h dvd c"
proof -
  obtain j where j: "7 \<le> j" "heap_commit_increment h = 2 ^ j" using assms(1) by (auto simp: sizes_ok_def)
  let ?m = "2 ^ j :: nat"
  have "0 < heap_commit h" "?m dvd heap_commit h" "heap_commit h \<le> 2 ^ 36" "?m dvd heap_reserve h"
    "heap_used h \<le> heap_commit h" "heap_commit h \<le> heap_reserve h"
    using assms(1) j(2) by (auto simp: sizes_ok_def)
  note S = this
  have "?m \<le> 2 ^ 36" using dvd_imp_le [OF S(2,1)] S(3) by simp
  then have fits: "required + ?m \<le> 2 ^ 64" using assms(2) by simp
  let ?c = "round_up required ?m"
  note R = round_up_props [OF _ fits]
  show thesis
  proof (cases "required \<le> heap_commit h")
    case True
    then show thesis using S j(2) by (intro that(2) [of "heap_commit h"]) (auto simp: comp_heap_ensure_commit_def)
  next
    case big: False
    show thesis
    proof (cases "heap_reserve h < required")
      case True
      then show thesis using big by (intro that(1)) (simp add: comp_heap_ensure_commit_def)
    next
      case False
      obtain r where r: "heap_reserve h = ?m * r" using S(4) by (auto elim: dvdE)
      obtain q where q: "?c = ?m * q" using R(3) by (auto elim: dvdE)
      obtain p where p: "heap_commit h = ?m * p" using S(2) by (auto elim: dvdE)
      have "?m * q < ?m * (r + 1)" using R(2) False q r by (simp add: algebra_simps)
      then have "q \<le> r" by (metis Suc_eq_plus1 less_Suc_eq_le mult_less_cancel1)
      then have le: "?c \<le> heap_reserve h" using q r by simp
      have "heap_commit h < ?c" using big R(1) by simp
      then have "p < q" using p q by (metis mult_less_cancel1)
      have "?m = 128 * 2 ^ (j - 7)" using j(1) using power_add [of "2 :: nat" 7 "j - 7"] by simp
      then have "heap_commit h div 128 = 2 ^ (j - 7) * p" "?c div 128 = 2 ^ (j - 7) * q"
        using p q by simp_all
      then have "?c div 128 \<noteq> heap_commit h div 128" using \<open>p < q\<close> by simp
      then show thesis
        using that(1) that(2) [of ?c] le big False R S(5) j(2)
        by (cases "heap_room h ?c"; cases "bitmap_room h (?c div 128)") (auto simp: comp_heap_ensure_commit_def Let_def)
    qed
  qed
qed

section \<open>Allocation behind the used memory\<close>

definition same_marks :: "CompHeap \<Rightarrow> CompHeap \<Rightarrow> bool" where
  "same_marks h h' \<longleftrightarrow> leak_bitmap h' = leak_bitmap h \<and> header_bitmap h' = header_bitmap h \<and> gc_bitmap h' = gc_bitmap h"

text \<open>An allocation of \<open>n\<close> slots from \<open>s\<close> on that is made in \<open>h\<close>.\<close>

definition allocated :: "CompHeap \<Rightarrow> (nat \<times> nat) list \<Rightarrow> nat \<Rightarrow> nat \<Rightarrow> CompHeap \<Rightarrow> bool" where
  "allocated h L s n h' \<longleftrightarrow> (\<exists>F'. heap_ok h' F' ((s, n) # L)) \<and> same_marks h h'
     \<and> (\<forall>x \<in># live_slots L. cells h' x = cells h x)"

lemma only_lists_fields:
  assumes "only_lists h h' a n"
  shows "heap_used h' = heap_used h" "heap_commit h' = heap_commit h" "heap_reserve h' = heap_reserve h"
    "heap_commit_increment h' = heap_commit_increment h" "begin_bitmap h' = begin_bitmap h" "same_marks h h'"
    "sizes_ok h' = sizes_ok h"
proof -
  obtain c l where "h' = h\<lparr>cells := c, freelists := l\<rparr>" using assms unfolding only_lists_def by blast
  then show "heap_used h' = heap_used h" "heap_commit h' = heap_commit h" "heap_reserve h' = heap_reserve h"
    "heap_commit_increment h' = heap_commit_increment h" "begin_bitmap h' = begin_bitmap h" "same_marks h h'"
    "sizes_ok h' = sizes_ok h"
    by (simp_all add: same_marks_def sizes_ok_def)
qed

lemma disjoint_slots_add: "disjoint_slots (M + slots a n) \<longleftrightarrow> disjoint_slots M \<and> (\<forall>x. a \<le> x \<and> x < a + n \<longrightarrow> x \<notin># M)"
proof -
  have c: "count (slots a n) x = (if a \<le> x \<and> x < a + n then 1 else 0)" for x
    by (simp add: count_mset_set')
  have "count M x + count (slots a n) x \<le> 1 \<longleftrightarrow> count M x \<le> 1 \<and> (a \<le> x \<and> x < a + n \<longrightarrow> x \<notin># M)" for x
    unfolding c not_in_iff by auto
  then show ?thesis unfolding disjoint_slots_def count_union by blast
qed

lemma alloc_fresh_ok:
  assumes ok: "heap_ok h F L" and align: "align = 2 ^ j" "j \<le> 60" and bytes: "bytes \<le> 2 ^ 60"
    and header: "header = 0 \<and> 0 < bytes \<or> header = 1 \<and> j \<le> 4"
  obtains "alloc_fresh h (16 * header) bytes align = Inr (None, h)"
  | p h' where "alloc_fresh h (16 * header) bytes align = Inr (Some (16 * p), h')" and "align dvd 16 * p"
    and "header \<le> p" and "allocated h L (p - header) (header + (bytes + 15) div 16) h'" and "16 * p + bytes \<le> heap_used h'"
proof -
  obtain u where u: "heap_used h = 16 * u" using ok by (auto simp: heap_ok_def sizes_ok_def elim: dvdE)
  have bounds: "1 \<le> u" "16 * u \<le> 2 ^ 36" using ok u by (auto simp: heap_ok_def sizes_ok_def)
  have align_le: "align \<le> 2 ^ 60" "0 < align" using align power_increasing [of j 60 "2 :: nat"] by simp_all
  let ?un = "16 * (u + header)"
  have un: "wrap64 (heap_used h + 16 * header) = ?un" using u bounds header by (auto simp: wrap64_def)
  have fits: "?un + align \<le> 2 ^ 64" using bounds align_le header by auto
  note R = round_up_props [OF align_le(2) fits]
  have "16 dvd round_up ?un align"
  proof (cases "j \<le> 4")
    case True
    then have "(2 :: nat) ^ j dvd 2 ^ 4" by (rule le_imp_power_dvd)
    then have "align dvd ?un" using align(1) by (simp add: dvd_mult2)
    then show ?thesis using round_up_dvd [OF align_le(2) fits] by simp
  next
    case False
    then have "(2 :: nat) ^ 4 dvd 2 ^ j" by (intro le_imp_power_dvd) simp
    then have "16 dvd align" by (simp add: align(1))
    then show ?thesis using R(3) by (rule dvd_trans)
  qed
  then obtain b where b: "round_up ?un align = 16 * b" by (auto elim: dvdE)
  have b_le: "u + header \<le> b" "16 * b < ?un + align" using R(1,2) b by simp_all
  let ?n = "(bytes + 15) div 16"
  have "(16 * b + bytes + 15) div 16 = b + ?n" by (simp add: add.assoc)
  then have new: "round_up (wrap64 (16 * b + bytes)) 16 = 16 * (b + ?n)"
    using b_le(2) bounds align_le bytes header by (subst round_up_16) (auto simp: wrap64_def)
  note run = alloc_fresh_def [of h "16 * header" bytes align,
      unfolded Let_def COMP_HEAP_MIN_ALLOCATION_SIZE_def un b new]
  have new_le: "16 * (b + ?n) \<le> 2 ^ 62" using b_le(2) bounds align_le bytes header by auto
  have sizes: "sizes_ok h" using ok by (simp add: heap_ok_def)
  show thesis
  proof (cases rule: ensure_commit_ok [OF sizes new_le])
    case 1
    then show thesis
      by (intro that(1)) (simp only: run 1 obind_Inr prod.case, simp)
  next
    case (2 c)
    let ?h = "h\<lparr>heap_commit := c, heap_used := 16 * (b + ?n)\<rparr>"
    have sizes: "sizes_ok ?h" using ok 2(2-5) bounds(1) b_le(1) by (auto simp: heap_ok_def sizes_ok_def)
    have live: "\<forall>x \<in># free_slots F + live_slots L. 0 < x \<and> x < u" using ok u by (simp add: heap_ok_def)
    have below: "x < u" if "x \<in># free_slots F \<or> x \<in># live_slots L" for x using live that by auto
    have disj: "disjoint_slots (free_slots F + live_slots L)" "free_ok h F" using ok by (simp_all add: heap_ok_def)
    have "\<exists>h1 F1. (if ?un \<noteq> 16 * b then comp_heap_add_to_freelist ?h ?un (16 * b - ?un) else Inr ?h) = Inr h1
      \<and> only_lists ?h h1 (u + header) (b - (u + header)) \<and> free_ok h1 F1
      \<and> free_slots F1 \<subseteq># free_slots F + slots (u + header) (b - (u + header)) \<and> (header = 1 \<longrightarrow> b = u + header)"
    proof (cases "?un = 16 * b")
      case True
      then show ?thesis
        using free_ok_cong [OF disj(2), of ?h] by (intro exI [of _ ?h] exI [of _ F]) auto
    next
      case False
      have "header = 0"
      proof (rule ccontr)
        assume "header \<noteq> 0"
        then have "j \<le> 4" using header by simp
        then have "(2 :: nat) ^ j dvd 2 ^ 4" by (rule le_imp_power_dvd)
        then have "align dvd ?un" using align(1) by (simp add: dvd_mult2)
        then show False using round_up_dvd [OF align_le(2) fits] b False by simp
      qed
      have "free_ok ?h F" using free_ok_cong [OF disj(2)] by simp
      moreover have "disjoint_slots (free_slots F + slots (u + header) (b - (u + header)))"
        unfolding disjoint_slots_add
      proof (intro conjI allI impI notI)
        show "disjoint_slots (free_slots F)" by (rule disjoint_slots_mono [OF disj(1)]) simp
        fix x assume "u + header \<le> x \<and> x < u + header + (b - (u + header))" "x \<in># free_slots F"
        then show False using below [of x] by simp
      qed
      ultimately obtain h1 F1 where
        "comp_heap_add_to_freelist ?h (16 * (u + header)) (16 * (b - (u + header))) = Inr h1"
        "only_lists ?h h1 (u + header) (b - (u + header))" "free_ok h1 F1"
        "free_slots F1 \<subseteq># free_slots F + slots (u + header) (b - (u + header))"
        using add_to_freelist_ok [of ?h F "u + header" "b - (u + header)"] bounds False b_le 2(2-5) ok
        by (auto simp: heap_ok_def sizes_ok_def)
      then show ?thesis using False \<open>header = 0\<close> by (auto simp: diff_mult_distrib2)
    qed
    then obtain h1 F1 where A: "(if ?un \<noteq> 16 * b then comp_heap_add_to_freelist ?h ?un (16 * b - ?un) else Inr ?h) = Inr h1"
      "only_lists ?h h1 (u + header) (b - (u + header))" "free_ok h1 F1"
      "free_slots F1 \<subseteq># free_slots F + slots (u + header) (b - (u + header))" "header = 1 \<longrightarrow> b = u + header"
      by (elim exE conjE) (rule that)
    note fields = only_lists_fields [OF A(2)]
    let ?s = "b - header"
    have s: "u \<le> ?s" "16 * b - 16 * header = 16 * ?s" "?s + (header + ?n) = b + ?n"
      using b_le(1) by auto
    have marks: "slot_marked (begin_bitmap h) i \<longleftrightarrow> i \<in> fst ` set L" "slot_marked (header_bitmap h) i \<Longrightarrow> i \<in> fst ` set L"
      "\<forall>(s, n) \<in> set L. 0 < n" for i
      using ok by (simp_all add: heap_ok_def)
    have "\<not> slot_marked (begin_bitmap h) ?s"
      using live_start [OF marks(3)] below s(1) unfolding marks(1) by (meson not_less)
    then have result: "alloc_fresh h (16 * header) bytes align =
        Inr (Some (16 * b), h1\<lparr>begin_bitmap := mark_slot (begin_bitmap h) ?s\<rparr>)"
      using fields(5)
      by (simp only: run 2(1) obind_Inr prod.case not_True_eq_False if_False A(1) s(2))
        (simp add: comp_heap_mark_bitmap_bit_def)
    let ?h' = "h1\<lparr>begin_bitmap := mark_slot (begin_bitmap h) ?s\<rparr>"
    have n_pos: "0 < header + ?n" using header by auto
    have sub: "free_slots F1 + live_slots ((?s, header + ?n) # L)
        \<subseteq># free_slots F + live_slots L + slots (u + header) (b - (u + header)) + slots ?s (header + ?n)"
      using A(4) by (simp add: ac_simps subset_mset.add_mono del: mset_upt)
    have "disjoint_slots (free_slots F + live_slots L + slots (u + header) (b - (u + header)) + slots ?s (header + ?n))"
    proof (unfold disjoint_slots_add, intro conjI allI impI disj(1))
      show "x \<notin># free_slots F + live_slots L" if "u + header \<le> x \<and> x < u + header + (b - (u + header))" for x
        using that below [of x] by auto
      show "x \<notin># free_slots F + live_slots L + slots (u + header) (b - (u + header))"
        if "?s \<le> x \<and> x < ?s + (header + ?n)" for x
        using that below [of x] s(1) A(5) header b_le(1) by auto
    qed
    then have d: "disjoint_slots (free_slots F1 + live_slots ((?s, header + ?n) # L))" using sub by (rule disjoint_slots_mono)
    have inside: "0 < x \<and> x < b + ?n" if "x \<in># free_slots F1 + live_slots ((?s, header + ?n) # L)" for x
    proof -
      have "0 < x \<and> x < u \<or> u + header \<le> x \<and> x < b \<or> ?s \<le> x \<and> x < b + ?n"
        using mset_subset_eqD [OF sub that] live b_le(1) s(3) by auto
      then show ?thesis using bounds(1) b_le(1) s(1) by linarith
    qed
    have "heap_ok ?h' F1 ((?s, header + ?n) # L)"
      unfolding heap_ok_def
    proof (intro conjI)
      show "sizes_ok ?h'" using sizes fields(7) by (simp add: sizes_ok_def)
      show "free_ok ?h' F1" using free_ok_cong [OF A(3)] by simp
      show "\<forall>x \<in># free_slots F1 + live_slots ((?s, header + ?n) # L). 0 < x \<and> x < heap_used ?h' div 16"
        using inside fields(1) by simp
      show "\<forall>i. slot_marked (header_bitmap ?h') i \<longrightarrow> i \<in> fst ` set ((?s, header + ?n) # L)"
        using marks(2) fields(6) by (auto simp: same_marks_def)
    qed (use d n_pos marks(1,3) in auto)
    moreover have "same_marks h ?h'" using fields(6) by (simp add: same_marks_def)
    moreover have "\<forall>x \<in># live_slots L. cells ?h' x = cells h x"
    proof
      fix x assume "x \<in># live_slots L"
      then show "cells ?h' x = cells h x" using A(2) below [of x] by (auto simp: only_lists_def)
    qed
    ultimately have "allocated h L ?s (header + ?n) ?h'" by (auto simp: allocated_def)
    moreover have "16 * b + bytes \<le> heap_used ?h'" using fields(1) by simp
    ultimately show thesis using that(2) [OF result] R(3) b b_le(1) by simp
  qed
qed

section \<open>Allocation from a free list\<close>

lemma log2_ceil_small:
  assumes "1 \<le> n" and "n \<le> 18"
  obtains r where "log2_ceil (of_nat n :: u64) = Inr r" and "n < 16 \<Longrightarrow> unat r \<le> 4" and "16 \<le> n \<Longrightarrow> unat r = 5"
    and "n < 2 ^ unat r"
proof -
  have u: "uint (of_nat n :: u64) = int n" using assms by (simp add: unsigned_of_nat take_bit_nat_eq_self)
  obtain r where r: "log2_ceil (of_nat n :: u64) = Inr r" "1 \<le> unat r" "n < 2 ^ unat r" "2 ^ (unat r - 1) \<le> n"
    using log2_ceil_bit_length [of "of_nat n :: u64"] assms unfolding u by fastforce
  have "\<not> 5 \<le> unat r" if "n < 16"
  proof
    assume "5 \<le> unat r"
    then have "(2 :: nat) ^ 4 \<le> 2 ^ (unat r - 1)" by (intro power_increasing) auto
    then show False using r(4) that by simp
  qed
  moreover have "unat r = 5" if "16 \<le> n"
  proof (rule antisym)
    show "unat r \<le> 5"
    proof (rule ccontr)
      assume "\<not> unat r \<le> 5"
      then have "(2 :: nat) ^ 5 \<le> 2 ^ (unat r - 1)" by (intro power_increasing) auto
      then show False using r(4) assms(2) by simp
    qed
    show "5 \<le> unat r"
    proof (rule ccontr)
      assume "\<not> 5 \<le> unat r"
      then have "(2 :: nat) ^ unat r \<le> 2 ^ 4" by (intro power_increasing) auto
      then show False using r(3) that by simp
    qed
  qed
  ultimately show thesis using that r by fastforce
qed

lemma pop_free_ok:
  assumes "free_ok h F" and "k < FREELIST_COUNT" and "freelists h ! k \<noteq> 0"
  obtains s ss h1 where "pop_free k h = Inr (16 * s, h1)" and "F k = s # ss" and "free_ok h1 (F(k := ss))"
    and "only_lists h h1 s 0"
proof -
  have chain: "free_chain (cells h) (freelists h ! k) (F k)" using assms(1,2) by (simp add: free_ok_def)
  then obtain s ss m where F: "F k = s # ss" "freelists h ! k = s" "cells h s = FreeLink m" "free_chain (cells h) m ss"
    using assms(3) by (cases "F k") auto
  let ?h = "h\<lparr>freelists := (freelists h)[k := m]\<rparr>"
  have "free_ok ?h (F(k := ss))" using assms(1,2) F(4) by (auto simp: free_ok_def nth_list_update)
  moreover have "only_lists h ?h s 0"
    unfolding only_lists_def by (intro conjI exI [of _ "cells h"] exI [of _ "(freelists h)[k := m]"]) simp_all
  ultimately show thesis using F by (intro that [of s ?h ss]) (simp_all add: pop_free_def)
qed

lemma alloc_from_freelist_ok:
  assumes ok: "heap_ok h F L" and n: "1 \<le> n" "n \<le> 18"
  obtains "alloc_from_freelist h hs n = Inr None"
  | s h' where "alloc_from_freelist h hs n = Inr (Some (16 * s + hs, h'))" and "allocated h L s ((n + 15) div 16) h'"
    and "16 * s + n \<le> heap_used h'"
proof -
  obtain r where r: "log2_ceil (of_nat n :: u64) = Inr r" "n < 16 \<Longrightarrow> unat r \<le> 4" "16 \<le> n \<Longrightarrow> unat r = 5" "n < 2 ^ unat r"
    using log2_ceil_small [OF n] by blast
  let ?k = "if unat r < 4 then 0 else unat r - 4" and ?n = "(n + 15) div 16"
  have k: "?k = (if n < 16 then 0 else 1)" using r(2,3) by (cases "n < 16") auto
  have kn: "?n = (if n \<le> 16 then 1 else 2)" using n by auto
  have index: "?k < FREELIST_COUNT" using k by simp
  note run = alloc_from_freelist_def [of h hs n, unfolded r(1) obind_Inr Let_def heap_sizes]
  show thesis
  proof (cases "freelists h ! ?k = 0")
    case True
    then show thesis by (intro that(1)) (simp only: run simp_thms if_True)
  next
    case False
    have parts: "free_ok h F" "disjoint_slots (free_slots F + live_slots L)"
      "\<forall>x \<in># free_slots F + live_slots L. 0 < x \<and> x < heap_used h div 16"
      "\<forall>(s, n) \<in> set L. 0 < n" "\<And>i. slot_marked (begin_bitmap h) i \<longleftrightarrow> i \<in> fst ` set L"
      "\<And>i. slot_marked (header_bitmap h) i \<Longrightarrow> i \<in> fst ` set L" "sizes_ok h"
      using ok by (simp_all add: heap_ok_def)
    obtain s ss h1 where pop: "pop_free ?k h = Inr (16 * s, h1)" "F ?k = s # ss" "free_ok h1 (F(?k := ss))" "only_lists h h1 s 0"
      using pop_free_ok [OF parts(1) index False] by blast
    note pop_slots = free_slots_pop [of ?k F s ss, OF index pop(2)]
    have slots_le: "?n \<le> 2 ^ ?k" using k kn n by auto
    have halves: "slots s (2 ^ ?k) = slots s ?n + slots (s + ?n) (2 ^ ?k - ?n)" by (rule slots_split [OF slots_le])
    have inside: "0 < s" "s + 2 ^ ?k \<le> heap_used h div 16"
    proof -
      have "s \<in># free_slots F" "s + 2 ^ ?k - 1 \<in># free_slots F"
        unfolding pop_slots set_mset_union set_mset_mset set_upt using one_le_power [of "2 :: nat" ?k]
        by (intro UnI2, simp only: atLeastLessThan_iff, linarith)+
      then have "0 < s" "s + 2 ^ ?k - 1 < heap_used h div 16" using parts(3) by simp_all
      then show "0 < s" "s + 2 ^ ?k \<le> heap_used h div 16" by simp_all
    qed
    have used: "heap_used h = 16 * (heap_used h div 16)" "heap_used h div 16 \<le> 2 ^ 32"
      using parts(7) by (auto simp: sizes_ok_def)
    have disj: "disjoint_slots (free_slots (F(?k := ss)) + slots (s + ?n) (2 ^ ?k - ?n))"
      by (rule disjoint_slots_mono [OF parts(2)]) (simp add: pop_slots halves del: mset_upt)
    have "\<exists>h2 F2. (if 16 \<le> 2 ^ unat r - n then comp_heap_add_to_freelist h1 (16 * s + n) (2 ^ unat r - n) else Inr h1) = Inr h2
       \<and> only_lists h1 h2 (s + ?n) (2 ^ ?k - ?n) \<and> free_ok h2 F2
       \<and> free_slots F2 \<subseteq># free_slots (F(?k := ss)) + slots (s + ?n) (2 ^ ?k - ?n)"
    proof (cases "n = 16")
      case True
      have "16 * (s + 1 + 1) \<le> heap_used h1" "s + 1 + 1 \<le> 2 ^ 32"
        using inside(2) used only_lists_fields(1) [OF pop(4)] True k by auto
      moreover have "disjoint_slots (free_slots (F(?k := ss)) + slots (s + 1) 1)" using disj True k by simp
      ultimately obtain h2 F2 where "comp_heap_add_to_freelist h1 (16 * (s + 1)) (16 * 1) = Inr h2" "only_lists h1 h2 (s + 1) 1"
        "free_ok h2 F2" "free_slots F2 \<subseteq># free_slots (F(?k := ss)) + slots (s + 1) 1"
        using add_to_freelist_ok [OF pop(3), of "s + 1" 1] by auto
      then show ?thesis using True k r(3) by (auto simp: add.commute)
    next
      case False
      then have "\<not> 16 \<le> 2 ^ unat r - n"
        using r(2,3) n k by (cases "n < 16") (auto dest: power_increasing [of "unat r" 4 "2 :: nat"])
      then show ?thesis using pop(3) by (intro exI [of _ h1] exI [of _ "F(?k := ss)"]) simp
    qed
    then obtain h2 F2 where A: "(if 16 \<le> 2 ^ unat r - n then comp_heap_add_to_freelist h1 (16 * s + n) (2 ^ unat r - n) else Inr h1) = Inr h2"
       "only_lists h1 h2 (s + ?n) (2 ^ ?k - ?n)" "free_ok h2 F2"
       "free_slots F2 \<subseteq># free_slots (F(?k := ss)) + slots (s + ?n) (2 ^ ?k - ?n)"
      by (elim exE conjE) (rule that)
    note f1 = only_lists_fields [OF pop(4)] and f2 = only_lists_fields [OF A(2)]
    have s_free: "s \<in># free_slots F" unfolding pop_slots by simp
    have "s \<notin># live_slots L" using parts(2) s_free disjoint_slots_not_in by (metis union_commute)
    then have "\<not> slot_marked (begin_bitmap h) s" using live_start [OF parts(4)] parts(5) by blast
    then have result: "alloc_from_freelist h hs n = Inr (Some (16 * s + hs, h2\<lparr>begin_bitmap := mark_slot (begin_bitmap h) s\<rparr>))"
      using f1(5) f2(5)
      by (simp only: run False if_False pop(1) obind_Inr prod.case A(1)) (simp add: comp_heap_mark_bitmap_bit_def)
    let ?h' = "h2\<lparr>begin_bitmap := mark_slot (begin_bitmap h) s\<rparr>"
    have n_pos: "0 < ?n" using kn by simp
    have sub: "free_slots F2 + live_slots ((s, ?n) # L) \<subseteq># free_slots F + live_slots L"
      using A(4) by (simp add: pop_slots halves ac_simps subset_mset.add_mono del: mset_upt)
    have "heap_ok ?h' F2 ((s, ?n) # L)"
      unfolding heap_ok_def
    proof (intro conjI)
      show "sizes_ok ?h'" using parts(7) f1(7) f2(7) by (simp add: sizes_ok_def)
      show "free_ok ?h' F2" using free_ok_cong [OF A(3)] by simp
      show "disjoint_slots (free_slots F2 + live_slots ((s, ?n) # L))" by (rule disjoint_slots_mono [OF parts(2) sub])
      show "\<forall>x \<in># free_slots F2 + live_slots ((s, ?n) # L). 0 < x \<and> x < heap_used ?h' div 16"
        using mset_subset_eqD [OF sub] parts(3) f1(1) f2(1) by simp
      show "\<forall>i. slot_marked (header_bitmap ?h') i \<longrightarrow> i \<in> fst ` set ((s, ?n) # L)"
        using parts(6) f1(6) f2(6) by (auto simp: same_marks_def)
    qed (use n_pos parts(4,5) in auto)
    moreover have "same_marks h ?h'" using f1(6) f2(6) by (simp add: same_marks_def)
    moreover have "\<forall>x \<in># live_slots L. cells ?h' x = cells h x"
    proof
      fix x assume x: "x \<in># live_slots L"
      then have "x \<notin># free_slots F" using parts(2) disjoint_slots_not_in by blast
      then have "x < s + ?n \<or> s + 2 ^ ?k \<le> x" unfolding pop_slots by auto
      then show "cells ?h' x = cells h x" using A(2) pop(4) slots_le by (auto simp: only_lists_def)
    qed
    ultimately have "allocated h L s ?n ?h'" by (auto simp: allocated_def)
    moreover have "16 * s + n \<le> heap_used ?h'"
    proof -
      have "16 * s + n \<le> 16 * (s + 2 ^ ?k)" using k n by auto
      also have "\<dots> \<le> 16 * (heap_used h div 16)" by (rule mult_le_mono2 [OF inside(2)])
      finally show ?thesis using f1(1) f2(1) used(1) by simp
    qed
    ultimately show thesis using that(2) [OF result] by simp
  qed
qed

section \<open>Allocation keeps the invariant\<close>

lemma is_pow2_of_nat: "j \<le> 60 \<Longrightarrow> is_pow2 (of_nat (2 ^ j) :: u64)"
  using is_pow2_exp [of j, where 'a = 64] by simp

lemma alloc_internal_ok:
  assumes ok: "heap_ok h F L" and align: "align = 2 ^ j" "j \<le> 60" and bytes: "bytes \<le> 2 ^ 60"
    and header: "needs_header \<Longrightarrow> j \<le> 4"
    and m: "m = (if bytes = 0 \<and> \<not> needs_header then 1 else bytes)" and k: "k = (if needs_header then 1 else 0)"
  obtains "comp_heap_alloc_internal h bytes align needs_header = Inr (None, h)"
  | p h' where "comp_heap_alloc_internal h bytes align needs_header = Inr (Some (16 * p), h')" and "align dvd 16 * p"
    and "k \<le> p" and "allocated h L (p - k) (k + (m + 15) div 16) h'" and "16 * p + m \<le> heap_used h'"
proof -
  note none_case = that(1) and some_case = that(2)
  have hs: "(if needs_header then COMP_HEAP_MIN_ALLOCATION_SIZE else 0) = 16 * k" by (simp add: k)
  have w: "wrap64 (m + 16 * k) = m + 16 * k" using bytes by (simp add: wrap64_def m k)
  have pow: "align \<noteq> 0 \<and> is_pow2 (of_nat align :: u64)" using align is_pow2_of_nat by simp
  note run = comp_heap_alloc_internal_def [of h bytes align needs_header, unfolded Let_def m [symmetric] hs w]
  have mb: "m \<le> 2 ^ 60" "k = 0 \<and> 0 < m \<or> k = 1 \<and> j \<le> 4" using bytes header m k by auto
  have fresh: thesis if none: "comp_heap_alloc_internal h bytes align needs_header = alloc_fresh h (16 * k) m align"
    by (rule alloc_fresh_ok [OF ok align mb]) (use none_case some_case none in auto)
  show thesis
  proof (cases "align \<le> 16 \<and> m + 16 * k \<le> 18")
    case False
    then have "comp_heap_alloc_internal h bytes align needs_header = alloc_fresh h (16 * k) m align"
      using pow by (simp only: run simp_thms ensure_True heap_sizes if_False obind_Inr option.case)
    then show thesis by (rule fresh)
  next
    case True
    then have "1 \<le> m + 16 * k" "m + 16 * k \<le> 18" using mb(2) by auto
    then show thesis
    proof (cases rule: alloc_from_freelist_ok [OF ok, of "m + 16 * k" "16 * k"])
      case 3
      then have "comp_heap_alloc_internal h bytes align needs_header = alloc_fresh h (16 * k) m align"
        using True pow by (simp only: run simp_thms ensure_True heap_sizes if_True obind_Inr option.case)
      then show thesis by (rule fresh)
    next
      case (4 s h')
      have "j \<le> 4"
      proof (rule ccontr)
        assume "\<not> j \<le> 4"
        then have "(2 :: nat) ^ 5 \<le> 2 ^ j" by (intro power_increasing) auto
        then show False using True align(1) by simp
      qed
      then have "(2 :: nat) ^ j dvd 2 ^ 4" by (rule le_imp_power_dvd)
      then have "align dvd 16 * (s + k)" using align(1) by (simp add: dvd_mult2 del: distrib_left_numeral)
      moreover have "(m + 16 * k + 15) div 16 = k + (m + 15) div 16"
      proof -
        have "m + 16 * k + 15 = m + 15 + k * 16" by simp
        then show ?thesis by (simp only: div_mult_self1 add.commute)
      qed
      moreover have "comp_heap_alloc_internal h bytes align needs_header = Inr (Some (16 * (s + k)), h')"
        using pow True
        by (simp only: run simp_thms ensure_True heap_sizes if_True 4(1) obind_Inr option.case prod.case distrib_left_numeral)
      moreover have "16 * (s + k) + m \<le> heap_used h'" using 4(3) by simp
      ultimately show thesis using some_case [of "s + k" h'] 4(2) by (simp del: distrib_left_numeral)
    qed simp_all
  qed
qed

end
