(* ===== verification/CompHeapScan.thy ===== *)
theory CompHeapScan
  imports CompHeapAlloc
begin

text \<open>
  The scans of the bitmaps, word by word, against the sets of slots: the header of an address is
  looked up at the last begin that is not behind it, and the next leak is the first slot from
  the address on that is a begin and leaked.
\<close>

section \<open>The last begin\<close>

lemma scan_begin_down_cases:
  "(scan_begin_down bm i w = Inl Assertion \<and> w = 0 \<and> (\<forall>k < i. bm k = 0))
   \<or> (\<exists>j v. scan_begin_down bm i w = Inr (j, v) \<and> v \<noteq> 0 \<and> j \<le> i \<and> v = (if j = i then w else bm j)
       \<and> (j < i \<longrightarrow> w = 0) \<and> (\<forall>k. j < k \<and> k < i \<longrightarrow> bm k = 0))"
proof (induction i arbitrary: w)
  case 0
  then show ?case by (cases "w = 0") (simp_all add: scan_begin_down.simps)
next
  case (Suc i)
  show ?case
  proof (cases "w = 0")
    case True
    have step: "scan_begin_down bm (Suc i) w = scan_begin_down bm i (bm i)"
      using True by (simp add: scan_begin_down.simps [of bm "Suc i"])
    from Suc [of "bm i"] show ?thesis unfolding step
    proof (elim disjE exE conjE)
      fix j v
      assume "scan_begin_down bm i (bm i) = Inr (j, v)" "v \<noteq> 0" "j \<le> i" "v = (if j = i then bm i else bm j)"
        "j < i \<longrightarrow> bm i = 0" "\<forall>k. j < k \<and> k < i \<longrightarrow> bm k = 0"
      then show "scan_begin_down bm i (bm i) = Inl Assertion \<and> w = 0 \<and> (\<forall>k < Suc i. bm k = 0) \<or>
          (\<exists>j v. scan_begin_down bm i (bm i) = Inr (j, v) \<and> v \<noteq> 0 \<and> j \<le> Suc i \<and> v = (if j = Suc i then w else bm j)
            \<and> (j < Suc i \<longrightarrow> w = 0) \<and> (\<forall>k. j < k \<and> k < Suc i \<longrightarrow> bm k = 0))"
        using True by (intro disjI2 exI [of _ j] exI [of _ v]) (auto simp: less_Suc_eq)
    qed (use True in \<open>auto simp: less_Suc_eq\<close>)
  qed (auto simp: scan_begin_down.simps [of bm "Suc i"])
qed

lemma highest_bit:
  assumes "(w :: u64) \<noteq> 0"
  obtains z where "count_leading_zeros_assume_one w = Inr z" and "bit w (63 - unat z)" and "\<And>i. 63 - unat z < i \<Longrightarrow> \<not> bit w i"
proof -
  let ?c = "clz_upto 64 w"
  have c: "?c < 64" "bit w (63 - ?c)" "\<forall>i > 63 - ?c. \<not> bit w i"
    using clz_upto_props [of 64 w] assms bit_imp_le_length [of w] by fastforce+
  have "unat (of_nat ?c :: u8) = ?c" using c(1) by (simp add: unsigned_of_nat take_bit_nat_eq_self)
  then show thesis
    using that [of "of_nat ?c"] c assms by (simp add: count_leading_zeros_assume_one_def clz_shim_def clz_builtin_def)
qed

lemma word_index_le: "(j :: nat) < i \<Longrightarrow> k \<le> 63 \<Longrightarrow> j * 64 + k \<le> i * 64 + r"
  by linarith

text \<open>The last begin at or in front of a slot.\<close>

definition last_begin :: "CompHeap \<Rightarrow> nat \<Rightarrow> nat \<Rightarrow> bool" where
  "last_begin h slot s \<longleftrightarrow> s \<le> slot \<and> slot_marked (begin_bitmap h) s \<and> (\<forall>k. s < k \<and> k \<le> slot \<longrightarrow> \<not> slot_marked (begin_bitmap h) k)"

lemma last_begin_unique: "last_begin h slot s \<Longrightarrow> last_begin h slot s' \<Longrightarrow> s = s'"
  unfolding last_begin_def by (meson not_less_iff_gr_or_eq)

lemma find_header_cases:
  assumes "0 < a" and "a < heap_used h"
  shows "(comp_heap_find_header h a = Inl Assertion \<and> (\<forall>k \<le> a div 16. \<not> slot_marked (begin_bitmap h) k))
    \<or> (\<exists>s. last_begin h (a div 16) s \<and>
        comp_heap_find_header h a = Inr (if slot_marked (header_bitmap h) s then Some (16 * s) else None))"
proof -
  let ?bm = "begin_bitmap h" and ?slot = "a div 16"
  let ?i = "?slot div 64" and ?r = "?slot mod 64"
  let ?w = "?bm ?i AND drop_bit (63 - ?r) (NOT 0)"
  note run = comp_heap_find_header_def [of h a, unfolded Let_def heap_sizes]
  have above: "\<not> slot_marked ?bm k" if "?slot div 64 = k div 64" "\<not> bit ?w (k mod 64)" "k \<le> ?slot" for k
  proof -
    have "k mod 64 \<le> ?r" using that(1,3) by (metis add_le_cancel_left div_mult_mod_eq)
    then show ?thesis using that(1,2) by (simp add: slot_marked_bit bit_and_iff bit_mask_iff)
  qed
  from scan_begin_down_cases [of ?bm ?i ?w] show ?thesis
  proof (elim disjE exE conjE)
    assume A: "scan_begin_down ?bm ?i ?w = Inl Assertion" "?w = 0" "\<forall>k < ?i. ?bm k = 0"
    have "\<not> slot_marked ?bm k" if "k \<le> ?slot" for k
    proof (cases "k div 64 = ?i")
      case True
      then show ?thesis using above [of k] A(2) that by simp
    next
      case False
      then have "k div 64 < ?i" using div_le_mono [OF that, of 64] by simp
      then show ?thesis using A(3) by (simp add: slot_marked_bit)
    qed
    then show ?thesis using A(1) assms by (intro disjI1) (simp only: run ensure_True A(1) obind_Inl simp_thms, simp)
  next
    fix j v
    assume A: "scan_begin_down ?bm ?i ?w = Inr (j, v)" "v \<noteq> 0" "j \<le> ?i" "v = (if j = ?i then ?w else ?bm j)"
      "j < ?i \<longrightarrow> ?w = 0" "\<forall>k. j < k \<and> k < ?i \<longrightarrow> ?bm k = 0"
    obtain z where z: "count_leading_zeros_assume_one v = Inr z" "bit v (63 - unat z)" "\<And>i. 63 - unat z < i \<Longrightarrow> \<not> bit v i"
      using highest_bit [OF A(2)] by blast
    let ?o = "63 - unat z"
    let ?s = "j * 64 + ?o"
    have s: "?s div 64 = j" "?s mod 64 = ?o" by simp_all
    have "last_begin h ?slot ?s"
      unfolding last_begin_def
    proof (intro conjI allI impI)
      have "bit (?bm j) ?o" "j = ?i \<Longrightarrow> ?o \<le> ?r" using z(2) A(4) by (auto simp: bit_and_iff bit_mask_iff split: if_splits)
      then show "slot_marked ?bm ?s" unfolding slot_marked_bit s by simp
      show "?s \<le> ?slot"
      proof (cases "j = ?i")
        case True
        then have "?s = ?i * 64 + ?o" "?o \<le> ?r" using \<open>j = ?i \<Longrightarrow> ?o \<le> ?r\<close> by simp_all
        then show ?thesis using div_mult_mod_eq [of ?slot 64] by linarith
      next
        case False
        then have "?s \<le> ?i * 64 + ?r" using A(3) by (intro word_index_le) simp_all
        then show ?thesis unfolding div_mult_mod_eq .
      qed
      fix k assume k: "?s < k \<and> k \<le> ?slot"
      have kdiv: "j \<le> k div 64" "k div 64 \<le> ?i" using k div_le_mono [of ?s k 64] div_le_mono [of k ?slot 64] s(1) by simp_all
      show "\<not> slot_marked ?bm k"
      proof (cases "k div 64 = j")
        case True
        then have "?o < k mod 64" using k s by (metis add_less_cancel_left div_mult_mod_eq)
        then have "\<not> bit v (k mod 64)" by (rule z(3))
        then show ?thesis using True A(4) above [of k] k by (cases "j = ?i") (auto simp: slot_marked_bit)
      next
        case False
        then have j: "j < k div 64" using kdiv by simp
        show ?thesis
        proof (cases "k div 64 = ?i")
          case True
          then have "?w = 0" using A(5) j by simp
          then show ?thesis using above [of k] True k by simp
        next
          case False
          then show ?thesis using A(6) j kdiv by (simp add: slot_marked_bit)
        qed
      qed
    qed
    moreover have "comp_heap_find_header h a = Inr (if slot_marked (header_bitmap h) ?s then Some (16 * ?s) else None)"
      using assms by (simp only: run A(1) z(1) obind_Inr prod.case ensure_True simp_thms slot_marked_def s)
        (simp add: algebra_simps)
    ultimately show ?thesis by blast
  qed
qed

lemma find_header_last:
  assumes "last_begin h (a div 16) s" and "0 < a" and "a < heap_used h"
  shows "comp_heap_find_header h a = Inr (if slot_marked (header_bitmap h) s then Some (16 * s) else None)"
  using find_header_cases [OF assms(2,3)]
proof (elim disjE exE conjE)
  assume "\<forall>k \<le> a div 16. \<not> slot_marked (begin_bitmap h) k"
  then show ?thesis using assms(1) unfolding last_begin_def by blast
next
  fix s' assume "last_begin h (a div 16) s'"
    "comp_heap_find_header h a = Inr (if slot_marked (header_bitmap h) s' then Some (16 * s') else None)"
  then show ?thesis using last_begin_unique [OF assms(1)] by simp
qed

lemma last_begin_find:
  assumes "last_begin h slot s"
  shows "List.find (slot_marked (begin_bitmap h)) (rev [0 ..< Suc slot]) = Some s"
proof -
  have "rev [0 ..< Suc slot] ! j = slot - j" if "j \<le> slot" for j
    using that by (subst rev_nth) (auto simp del: upt_Suc)
  then show ?thesis
    using assms unfolding find_Some_iff last_begin_def
    by (intro exI [of _ "slot - s"]) (auto simp del: upt_Suc)
qed

text \<open>
  C14: \<open>comp_heap_find_header\<close> finds the last begin at or in front of the slot of an address, as a
  search slot by slot does: if it carries a header bit the result is its address, else there is
  none, and without a begin the assertion on the word index fails.
\<close>

theorem find_header_is_last_begin:
  assumes "0 < a" and "a < heap_used h"
  shows "comp_heap_find_header h a =
    (case List.find (slot_marked (begin_bitmap h)) (rev [0 ..< Suc (a div 16)]) of
       None \<Rightarrow> Inl Assertion
     | Some s \<Rightarrow> Inr (if slot_marked (header_bitmap h) s then Some (16 * s) else None))"
  using find_header_cases [OF assms]
proof (elim disjE exE conjE)
  assume "comp_heap_find_header h a = Inl Assertion" "\<forall>k \<le> a div 16. \<not> slot_marked (begin_bitmap h) k"
  moreover from this have "List.find (slot_marked (begin_bitmap h)) (rev [0 ..< Suc (a div 16)]) = None"
    by (auto simp: find_None_iff simp del: upt_Suc)
  ultimately show ?thesis by simp
qed (simp add: last_begin_find del: upt_Suc)

theorem find_header_is_last_begin_witness:
  "\<forall>platform. comp_heap_find_header
     (platform\<lparr>heap_used := 4096, begin_bitmap := mark_slot (mark_slot (\<lambda>_. 0) 1) 70, header_bitmap := mark_slot (\<lambda>_. 0) 70\<rparr>) 1200
   = Inr (Some 1120)"
proof
  fix platform :: CompHeap
  let ?h = "platform\<lparr>heap_used := 4096, begin_bitmap := mark_slot (mark_slot (\<lambda>_. 0) 1) 70, header_bitmap := mark_slot (\<lambda>_. 0) 70\<rparr>"
  have slot: "1200 div 16 = (75 :: nat)" by simp
  have "last_begin ?h 75 70" by (auto simp: last_begin_def slot_marked_bit [of "\<lambda>_. 0"])
  from find_header_is_last_begin [of 1200 ?h, unfolded slot last_begin_find [OF this]]
  show "comp_heap_find_header ?h 1200 = Inr (Some 1120)" by simp
qed

end
