(* ===== verification/CompHeapSafety.thy ===== *)
theory CompHeapSafety
  imports CompHeapScan
begin

text \<open>
  What the heap promises its clients: allocations are aligned and disjoint from each other and from
  the free lists, the type of a global member is found from every address in it, and memory that
  is given back is free again. The theorems name where the code breaks its promise.
\<close>

section \<open>Allocation\<close>

declare mset_upt [simp del]

lemma in_slots [simp]: "x \<in># slots s n \<longleftrightarrow> s \<le> x \<and> x < s + n"
  by simp

lemma heap_ok_disjoint:
  assumes "heap_ok h F ((s, n) # L)" and "(t, m) \<in> set L"
  shows "s + n \<le> t \<or> t + m \<le> s"
proof (rule ccontr)
  assume overlap: "\<not> (s + n \<le> t \<or> t + m \<le> s)"
  have "disjoint_slots (live_slots L + slots s n)"
    using assms(1) disjoint_slots_mono [of "free_slots F + live_slots ((s, n) # L)" "live_slots L + slots s n"]
    by (auto simp: heap_ok_def ac_simps)
  then have "x \<notin># live_slots L" if "s \<le> x \<and> x < s + n" for x using that by (simp only: disjoint_slots_add) blast
  moreover have "max s t \<in># live_slots L" unfolding in_live_slots using assms overlap
    by (intro bexI [of _ "(t, m)"]) (auto simp: heap_ok_def)
  ultimately show False using overlap assms(1) by (auto simp: heap_ok_def)
qed

lemma heap_ok_live_inside:
  assumes "heap_ok h F L" and "(s, n) \<in> set L"
  shows "0 < s" and "0 < n" and "16 * (s + n) \<le> heap_used h"
proof -
  show n: "0 < n" using assms by (auto simp: heap_ok_def)
  have "s \<in># live_slots L" "s + n - 1 \<in># live_slots L" unfolding in_live_slots using assms(2) n by (intro bexI [of _ "(s, n)"]; simp)+
  then have "0 < s" "s + n - 1 < heap_used h div 16" using assms(1) by (auto simp: heap_ok_def)
  then show "0 < s" "16 * (s + n) \<le> heap_used h" by simp_all
qed

lemma heap_ok_free:
  assumes "heap_ok h F ((s, n) # L)" and "s \<le> x" and "x < s + n"
  shows "x \<notin># free_slots F"
proof (rule disjoint_slots_not_in)
  show "disjoint_slots (free_slots F + live_slots ((s, n) # L))" using assms(1) unfolding heap_ok_def by blast
  show "x \<in># live_slots ((s, n) # L)" using assms(2,3) by simp
qed

lemma heap_ok_header:
  assumes "heap_ok h F ((s, n) # L)"
  shows "heap_ok (h\<lparr>cells := (cells h)(s := c), header_bitmap := mark_slot (header_bitmap h) s\<rparr>) F ((s, n) # L)"
proof -
  have n: "0 < n" using assms by (simp add: heap_ok_def)
  have "free_ok (h\<lparr>cells := (cells h)(s := c), header_bitmap := mark_slot (header_bitmap h) s\<rparr>) F"
  proof (rule free_ok_cong)
    show "free_ok h F" using assms by (simp add: heap_ok_def)
    fix x assume "x \<in># free_slots F"
    then show "cells (h\<lparr>cells := (cells h)(s := c), header_bitmap := mark_slot (header_bitmap h) s\<rparr>) x = cells h x"
      using heap_ok_free [OF assms, of s] n by auto
  qed simp
  then show ?thesis using assms by (simp add: heap_ok_def sizes_ok_def)
qed

text \<open>
  C8: \<open>comp_heap_alloc\<close> either cannot commit memory and changes nothing, or returns an address of
  the alignment asked for in front of as many bytes (one, for none) of the used memory that
  overlap no live allocation; the invariant holds again with the new allocation.
\<close>

theorem comp_heap_alloc_safe:
  assumes "heap_ok h F L" and "align = 2 ^ j" and "j \<le> 60" and "bytes \<le> 2 ^ 60"
  shows "comp_heap_alloc h bytes align = Inr (None, h) \<or>
    (\<exists>p h' F'. comp_heap_alloc h bytes align = Inr (Some p, h') \<and> align dvd p \<and> 16 dvd p
      \<and> 0 < p \<and> p + max 1 bytes \<le> heap_used h'
      \<and> (\<forall>(s, n) \<in> set L. p + max 1 bytes \<le> 16 * s \<or> 16 * (s + n) \<le> p)
      \<and> heap_ok h' F' ((p div 16, (max 1 bytes + 15) div 16) # L))"
proof (rule alloc_internal_ok [OF assms, where needs_header = False and m = "max 1 bytes" and k = 0])
  show "max 1 bytes = (if bytes = 0 \<and> \<not> False then 1 else bytes)" by simp
  fix p h'
  assume A: "comp_heap_alloc_internal h bytes align False = Inr (Some (16 * p), h')" "align dvd 16 * p"
    "allocated h L (p - 0) (0 + (max 1 bytes + 15) div 16) h'" "16 * p + max 1 bytes \<le> heap_used h'"
  then obtain F' where ok: "heap_ok h' F' ((p, (max 1 bytes + 15) div 16) # L)" by (auto simp: allocated_def)
  have "0 < 16 * p" using heap_ok_live_inside(1) [OF ok, of p "(max 1 bytes + 15) div 16"] by simp
  moreover have "16 * p + max 1 bytes \<le> 16 * s \<or> 16 * (s + n) \<le> 16 * p" if "(s, n) \<in> set L" for s n
    using heap_ok_disjoint [OF ok that] by auto
  ultimately show ?thesis
    using A ok by (intro disjI2 exI [of _ "16 * p"] exI [of _ h'] exI [of _ F']) (auto simp: comp_heap_alloc_def)
qed (simp_all add: comp_heap_alloc_def)

section \<open>Deallocation\<close>

lemma live_slots_mset: "mset L = mset L' \<Longrightarrow> live_slots L = live_slots L'"
proof -
  have "live_slots L = (\<Sum>(s, n) \<in># mset L. slots s n)" for L
    unfolding live_slots_def by (simp only: sum_mset_sum_list mset_map [symmetric])
  then show "mset L = mset L' \<Longrightarrow> live_slots L = live_slots L'" by simp
qed

lemma heap_ok_perm: "mset L = mset L' \<Longrightarrow> heap_ok h F L = heap_ok h F L'"
  using live_slots_mset [of L L'] mset_eq_setD [of L L'] by (simp add: heap_ok_def)

lemma heap_ok_start:
  assumes "heap_ok h F ((s, n) # L)"
  shows "s \<notin> fst ` set L"
proof
  assume "s \<in> fst ` set L"
  then obtain m where m: "(s, m) \<in> set L" by auto
  have "0 < n" "0 < m" using heap_ok_live_inside(2) [OF assms] m by auto
  then show False using heap_ok_disjoint [OF assms m] by simp
qed

text \<open>A global member: the allocation of \<open>h1\<close> with its header written.\<close>

definition with_header :: "CompHeap \<Rightarrow> nat \<Rightarrow> u32 \<Rightarrow> nat \<Rightarrow> CompHeap" where
  "with_header h s type_id bytes = h\<lparr>cells := (cells h)(s := AllocationHeader type_id bytes),
     header_bitmap := mark_slot (header_bitmap h) s\<rparr>"

lemma global_member_ok:
  assumes "heap_ok h F L" and "align = 2 ^ j" and "j \<le> 4" and "bytes \<le> 2 ^ 60"
  obtains "comp_heap_alloc_global_member h bytes align type_id = Inr (None, h)"
  | p h1 where "comp_heap_alloc_global_member h bytes align type_id = Inr (Some (16 * p), with_header h1 (p - 1) type_id bytes)"
    and "align dvd 16 * p" and "1 < p" and "allocated h L (p - 1) (1 + (bytes + 15) div 16) h1"
    and "16 * p + bytes \<le> heap_used h1" and "\<not> slot_marked (header_bitmap h1) (p - 1)"
proof (rule alloc_internal_ok [OF assms(1,2) _ assms(4), where needs_header = True and m = bytes and k = 1])
  assume "comp_heap_alloc_internal h bytes align True = Inr (None, h)"
  then show thesis by (intro that(1)) (simp add: comp_heap_alloc_global_member_def)
next
  fix p h1
  assume A: "comp_heap_alloc_internal h bytes align True = Inr (Some (16 * p), h1)" "align dvd 16 * p" "1 \<le> p"
    "allocated h L (p - 1) (1 + (bytes + 15) div 16) h1" "16 * p + bytes \<le> heap_used h1"
  obtain F1 where ok: "heap_ok h1 F1 ((p - 1, 1 + (bytes + 15) div 16) # L)" using A(4) by (auto simp: allocated_def)
  have s: "0 < p - 1" using heap_ok_live_inside(1) [OF ok, of "p - 1" "1 + (bytes + 15) div 16"] by simp
  have addr: "16 * p - 16 = 16 * (p - 1)" using A(3) by simp
  have "\<not> slot_marked (header_bitmap h1) (p - 1)"
    using assms(1) A(4) heap_ok_start [OF ok] by (auto simp: allocated_def same_marks_def heap_ok_def)
  moreover from this have "comp_heap_alloc_global_member h bytes align type_id =
      Inr (Some (16 * p), with_header h1 (p - 1) type_id bytes)"
    using A(1) by (simp add: comp_heap_alloc_global_member_def Let_def addr comp_heap_mark_bitmap_bit_def with_header_def)
  ultimately show thesis using that(2) [of p h1] A(2,4,5) s by simp
qed (use assms(3) in simp_all)

lemma member_type_ok:
  assumes "heap_ok h F ((s, n) # L)" and "s < a div 16" and "a div 16 < s + n" and "a < heap_used h"
  shows "comp_heap_global_member_type (with_header h s type_id bytes) a = Inr type_id"
proof -
  let ?h = "with_header h s type_id bytes"
  have "last_begin ?h (a div 16) s"
    unfolding last_begin_def
  proof (intro conjI allI impI)
    show "slot_marked (begin_bitmap ?h) s" using assms(1) by (simp add: heap_ok_def with_header_def)
    fix k assume k: "s < k \<and> k \<le> a div 16"
    show "\<not> slot_marked (begin_bitmap ?h) k"
    proof
      assume "slot_marked (begin_bitmap ?h) k"
      then have "k \<in> fst ` set ((s, n) # L)" using assms(1) by (simp add: heap_ok_def with_header_def)
      then obtain m where m: "(k, m) \<in> set L" using k by auto
      then show False using heap_ok_disjoint [OF assms(1) m] heap_ok_live_inside(2) [OF assms(1), of k m] k assms(3) by auto
    qed
  qed (use assms(2) in simp)
  then have "comp_heap_find_header ?h a = Inr (Some (16 * s))"
    using find_header_last [of ?h a s] assms(2,4) by (simp add: with_header_def)
  then show ?thesis by (simp add: comp_heap_global_member_type_def header_at_def with_header_def)
qed


lemma heap_ok_cleared:
  assumes "heap_ok h F ((s, n) # L)" and "\<not> slot_marked (header_bitmap h) s"
    and "h' = h\<lparr>begin_bitmap := (begin_bitmap h)(s div 64 := begin_bitmap h (s div 64) AND NOT (push_bit (s mod 64) 1))\<rparr>"
  shows "heap_ok h' F L"
proof -
  have "slot_marked (begin_bitmap h') i \<longleftrightarrow> i \<noteq> s \<and> slot_marked (begin_bitmap h) i" for i
    using clear_slot [of "begin_bitmap h" s i] by (simp add: assms(3))
  then have starts: "slot_marked (begin_bitmap h') i \<longleftrightarrow> i \<in> fst ` set L" for i
    using assms(1) heap_ok_start [OF assms(1)] by (auto simp: heap_ok_def)
  have "disjoint_slots (free_slots F + live_slots L)"
    using assms(1) disjoint_slots_mono [of "free_slots F + live_slots ((s, n) # L)" "free_slots F + live_slots L"]
    by (simp add: heap_ok_def)
  moreover have "free_ok h' F" using assms(1) free_ok_cong [of h F h'] by (simp add: heap_ok_def assms(3))
  moreover have "sizes_ok h'" using assms(1) by (simp add: heap_ok_def sizes_ok_def assms(3))
  moreover have "slot_marked (header_bitmap h') i \<longrightarrow> i \<in> fst ` set L" for i
    using assms(1,2) by (auto simp: heap_ok_def assms(3))
  ultimately show ?thesis using assms(1) starts by (auto simp: heap_ok_def assms(3))
qed

lemma dealloc_ok:
  assumes "heap_ok h F ((s, n) # L)" and "n = (max 1 bytes + 15) div 16"
    and "\<not> slot_marked (header_bitmap h) s" and "\<not> slot_marked (leak_bitmap h) s"
  shows "if 16 * (s + n) = heap_used h
         then \<exists>h'. comp_heap_dealloc h (16 * s) bytes = Inr h' \<and> heap_used h' = 16 * s \<and> heap_ok h' F L
           \<and> same_marks h h' \<and> cells h' = cells h
         else if max 1 bytes mod 16 = 0
         then \<exists>h' F'. comp_heap_dealloc h (16 * s) bytes = Inr h' \<and> heap_used h' = heap_used h
           \<and> heap_ok h' F' L \<and> free_slots F' \<subseteq># free_slots F + slots s n
           \<and> same_marks h h' \<and> (\<forall>x. x < s \<or> s + n \<le> x \<longrightarrow> cells h' x = cells h x)
         else comp_heap_dealloc h (16 * s) bytes = Inl Assertion"
proof -
  define b where "b = max 1 bytes"
  define h1 where "h1 = h\<lparr>begin_bitmap := (begin_bitmap h)(s div 64 := begin_bitmap h (s div 64) AND NOT (push_bit (s mod 64) 1))\<rparr>"
  have ok: "heap_ok h1 F L" by (rule heap_ok_cleared [OF assms(1,3) h1_def])
  have pos: "0 < s" "0 < n" and fits: "16 * (s + n) \<le> heap_used h"
    using heap_ok_live_inside [OF assms(1), of s n] by simp_all
  have used: "heap_used h = 16 * (heap_used h div 16)" "heap_used h div 16 \<le> 2 ^ 32" "heap_used h1 = heap_used h"
    using assms(1) by (auto simp: heap_ok_def sizes_ok_def h1_def)
  have n: "b \<le> 16 * n" "16 * n < b + 16" using assms(2) by (auto simp: b_def)
  have b: "(if bytes = 0 then 1 else bytes) = b" by (simp add: b_def)
  have "slot_marked (begin_bitmap h) s" using assms(1) by (simp add: heap_ok_def)
  then have cond: "0 < 16 * s" "16 * s + b \<le> heap_used h" "slot_marked (begin_bitmap h) s"
      "\<not> slot_marked (header_bitmap h) s" "\<not> slot_marked (leak_bitmap h) s"
    using assms(3,4) pos fits n(1) by auto
  have d: "16 * s div 16 = s" by simp
  note run0 = comp_heap_dealloc_def [of h "16 * s" bytes, unfolded Let_def b heap_sizes d h1_def [symmetric]]
  have "comp_heap_dealloc h (16 * s) bytes =
      (if heap_used h1 - (16 * s + b) < 16 then Inr (h1\<lparr>heap_used := 16 * s\<rparr>) else comp_heap_add_to_freelist h1 (16 * s) b)"
    using run0 by (simp only: cond ensure_True simp_thms)
  moreover have "heap_used h1 - (16 * s + b) < 16 \<longleftrightarrow> 16 * (s + n) = heap_used h"
  proof -
    obtain u where u: "heap_used h = 16 * u" using used(1) by blast
    have "u < s + n + 1" if "16 * u - (16 * s + b) < 16" using that n(1) by linarith
    moreover have "s + n \<le> u" using fits u by simp
    moreover have "16 * (s + n) - (16 * s + b) < 16" using n(2) pos(2) by (simp only: distrib_left)
    ultimately show ?thesis unfolding used(3) u by (cases "s + n = u") auto
  qed
  ultimately have run: "comp_heap_dealloc h (16 * s) bytes =
      (if 16 * (s + n) = heap_used h then Inr (h1\<lparr>heap_used := 16 * s\<rparr>) else comp_heap_add_to_freelist h1 (16 * s) b)"
    by simp
  show ?thesis
  proof (cases "16 * (s + n) = heap_used h")
    case True
    have "0 < x \<and> x < s" if x: "x \<in># free_slots F + live_slots L" for x
    proof -
      have "x \<notin># slots s n"
        using assms(1) x disjoint_slots_not_in [of "free_slots F + live_slots L" "slots s n" x]
        by (auto simp: heap_ok_def ac_simps)
      moreover have "heap_used h1 div 16 = s + n" unfolding used(3) True [symmetric] by (rule nonzero_mult_div_cancel_left) simp
      then have "0 < x" "x < s + n" using ok x by (auto simp: heap_ok_def)
      ultimately show ?thesis by auto
    qed
    moreover have "sizes_ok (h1\<lparr>heap_used := 16 * s\<rparr>)" using ok pos fits used(3) by (auto simp: heap_ok_def sizes_ok_def)
    moreover have "free_ok (h1\<lparr>heap_used := 16 * s\<rparr>) F" using ok by (auto simp: heap_ok_def intro: free_ok_cong)
    ultimately have "heap_ok (h1\<lparr>heap_used := 16 * s\<rparr>) F L" using ok by (simp add: heap_ok_def)
    then show ?thesis using True run by (auto simp: same_marks_def h1_def)
  next
    case False
    show ?thesis
    proof (cases "b mod 16 = 0")
      case True
      then have bn: "b = 16 * n" using n by presburger
      have "free_ok h1 F" "16 * (s + n) \<le> heap_used h1" "s + n \<le> 2 ^ 32" "disjoint_slots (free_slots F + slots s n)"
        using ok fits used assms(1) disjoint_slots_mono [of "free_slots F + live_slots ((s, n) # L)" "free_slots F + slots s n"]
        by (auto simp: heap_ok_def)
      then obtain h' F' where A: "comp_heap_add_to_freelist h1 (16 * s) (16 * n) = Inr h'" "only_lists h1 h' s n" "free_ok h' F'"
        "free_slots F' \<subseteq># free_slots F + slots s n"
        using add_to_freelist_ok pos by metis
      note fields = only_lists_fields [OF A(2)]
      have sub: "free_slots F' + live_slots L \<subseteq># free_slots F + live_slots ((s, n) # L)"
        using A(4) by (simp add: subset_mset.add_mono ac_simps)
      have "heap_ok h' F' L"
        unfolding heap_ok_def
      proof (intro conjI)
        show "sizes_ok h'" using ok fields(7) by (simp add: heap_ok_def)
        show "disjoint_slots (free_slots F' + live_slots L)"
          using assms(1) disjoint_slots_mono [OF _ sub] by (simp add: heap_ok_def)
        show "\<forall>x \<in># free_slots F' + live_slots L. 0 < x \<and> x < heap_used h' div 16"
          using assms(1) mset_subset_eqD [OF sub] fields(1) used(3) by (metis heap_ok_def)
      qed (use ok A(3) fields in \<open>auto simp: heap_ok_def same_marks_def\<close>)
      moreover have "same_marks h h'" using fields(6) by (simp add: same_marks_def h1_def)
      moreover have "\<forall>x. x < s \<or> s + n \<le> x \<longrightarrow> cells h' x = cells h x"
        using A(2) by (auto simp: only_lists_def h1_def)
      ultimately show ?thesis
        using run A(1,4) bn False True fields(1) used(3) unfolding b_def [symmetric] by auto
    next
      case misaligned: False
      then show ?thesis using run False add_to_freelist_misaligned [OF misaligned] by (simp add: b_def)
    qed
  qed
qed


section \<open>Runs\<close>

text \<open>A heap of one mebibyte as \<open>comp_heap_init\<close> leaves it.\<close>

definition sample_heap :: CompHeap where
  "sample_heap = \<lparr>heap_used = 16, heap_commit = 2 ^ 20, heap_reserve = 2 ^ 20, heap_commit_increment = 2 ^ 20,
     leak_bitmap = (\<lambda>_. 0), begin_bitmap = (\<lambda>_. 0), header_bitmap = (\<lambda>_. 0), gc_bitmap = (\<lambda>_. 0),
     freelists = replicate FREELIST_COUNT 0, cells = (\<lambda>_. Payload), heap_room = (\<lambda>_. True),
     bitmap_room = (\<lambda>_. True), gc_room = (\<lambda>_. True), decommit_clears = True, heap_page_bytes = 4096\<rparr>"

lemma no_free_slots [simp]: "free_slots (\<lambda>_. []) = {#}"
  by (simp add: free_slots_def)

lemma slot_marked_0 [simp]: "\<not> slot_marked (\<lambda>_. 0) i"
  by (simp add: slot_marked_bit)

lemma empty_heap_ok:
  assumes "sizes_ok h" and "freelists h = replicate FREELIST_COUNT 0" and "begin_bitmap h = (\<lambda>_. 0)"
    and "header_bitmap h = (\<lambda>_. 0)"
  shows "heap_ok h (\<lambda>_. []) []"
  using assms by (simp add: heap_ok_def free_ok_def disjoint_slots_def)

lemma sample_heap_ok: "heap_ok sample_heap (\<lambda>_. []) []"
  by (rule empty_heap_ok) (auto simp: sample_heap_def sizes_ok_def intro: exI [of _ 20])

lemmas alloc_eval = comp_heap_alloc_def comp_heap_alloc_internal_def alloc_fresh_def comp_heap_ensure_commit_def
  round_up_def wrap64_def comp_heap_mark_bitmap_bit_def mark_slot_def slot_marked_def Let_def is_pow2_def

lemma sample_alloc: "\<exists>h. comp_heap_alloc sample_heap 24 8 = Inr (Some 16, h)"
  by (simp add: alloc_eval sample_heap_def)

theorem comp_heap_alloc_safe_witness:
  "\<exists>h F. comp_heap_alloc sample_heap 24 8 = Inr (Some 16, h) \<and> heap_ok h F [(1, 2)]"
  using comp_heap_alloc_safe [OF sample_heap_ok, of 8 3 24] sample_alloc by auto

lemma sample_global: "\<exists>h. comp_heap_alloc_global_member sample_heap 24 8 t = Inr (Some 32, h)"
  by (simp add: comp_heap_alloc_global_member_def alloc_eval sample_heap_def)



section \<open>Alignment of global members\<close>

lemma log2_ceil_17: "log2_ceil (17 :: u64) = Inr 5"
proof -
  obtain r where "log2_ceil (of_nat 17 :: u64) = Inr r" "unat r = 5"
    by (rule log2_ceil_small [of 17]) simp_all
  then show ?thesis by (simp add: word_unat_eq_iff)
qed


end
