(* ===== verification/CompHeapLeaks.thy ===== *)
theory CompHeapLeaks
  imports CompHeapSafety
begin

text \<open>
  Runs of the heap as steps on a heap with its live allocations. In every heap that a run reaches
  the leaked slots lie behind the headers of global members, so no slot is both a begin and
  leaked, which is what \<open>comp_heap_next_leak\<close> looks for.
\<close>

section \<open>Steps\<close>

type_synonym heap_state = "CompHeap \<times> (nat \<times> nat) list"

inductive heap_step :: "heap_state \<Rightarrow> heap_state \<Rightarrow> bool" where
  step_alloc: "comp_heap_alloc h bytes (2 ^ j) = Inr (Some p, h') \<Longrightarrow> j \<le> 60 \<Longrightarrow> bytes \<le> 2 ^ 60
    \<Longrightarrow> heap_step (h, L) (h', (p div 16, (max 1 bytes + 15) div 16) # L)"
| step_global: "comp_heap_alloc_global_member h bytes (2 ^ j) type_id = Inr (Some p, h') \<Longrightarrow> j \<le> 4 \<Longrightarrow> bytes \<le> 2 ^ 60
    \<Longrightarrow> heap_step (h, L) (h', (p div 16 - 1, 1 + (bytes + 15) div 16) # L)"
| step_leak: "comp_heap_leak h b e = Inr (r, h') \<Longrightarrow> heap_step (h, L) (h', L)"
| step_dealloc: "(s, (max 1 bytes + 15) div 16) \<in> set L \<Longrightarrow> comp_heap_dealloc h (16 * s) bytes = Inr h'
    \<Longrightarrow> heap_step (h, L) (h', remove1 (s, (max 1 bytes + 15) div 16) L)"

inductive_cases heap_stepE: "heap_step (h, L) x"

definition headers_ok :: "heap_state \<Rightarrow> bool" where
  "headers_ok = (\<lambda>(h, L). \<forall>s. slot_marked (header_bitmap h) s \<longrightarrow>
     (\<exists>t b. cells h s = AllocationHeader t b \<and> (s, 1 + (b + 15) div 16) \<in> set L))"

definition leaks_ok :: "heap_state \<Rightarrow> bool" where
  "leaks_ok = (\<lambda>(h, L). \<forall>i. slot_marked (leak_bitmap h) i \<longrightarrow>
     (\<exists>s n. (s, n) \<in> set L \<and> slot_marked (header_bitmap h) s \<and> s < i \<and> i < s + n))"

definition heap_state_ok :: "heap_state \<Rightarrow> bool" where
  "heap_state_ok x \<longleftrightarrow> (\<exists>F. heap_ok (fst x) F (snd x)) \<and> headers_ok x \<and> leaks_ok x"

lemma headers_live:
  assumes "heap_ok h F L" and "headers_ok (h, L)" and "slot_marked (header_bitmap h) s"
  shows "s \<in># live_slots L"
  using assms live_start [of L s] by (auto simp: heap_ok_def)

lemma headers_ok_allocated:
  assumes "heap_ok h F L" and "headers_ok (h, L)" and "leaks_ok (h, L)" and "allocated h L s n h'"
  shows "headers_ok (h', (s, n) # L)" and "leaks_ok (h', (s, n) # L)"
proof -
  have same: "header_bitmap h' = header_bitmap h" "leak_bitmap h' = leak_bitmap h"
    "\<And>x. x \<in># live_slots L \<Longrightarrow> cells h' x = cells h x"
    using assms(4) by (auto simp: allocated_def same_marks_def)
  show "headers_ok (h', (s, n) # L)"
    using assms(2) headers_live [OF assms(1,2)] same by (fastforce simp: headers_ok_def)
  show "leaks_ok (h', (s, n) # L)" using assms(3) same by (fastforce simp: leaks_ok_def)
qed

lemma step_alloc_ok:
  assumes "heap_state_ok (h, L)" and "comp_heap_alloc h bytes (2 ^ j) = Inr (Some p, h')" and "j \<le> 60" and "bytes \<le> 2 ^ 60"
  shows "heap_state_ok (h', (p div 16, (max 1 bytes + 15) div 16) # L)"
proof -
  obtain F where F: "heap_ok h F L" "headers_ok (h, L)" "leaks_ok (h, L)" using assms(1) by (auto simp: heap_state_ok_def)
  show ?thesis
  proof (rule alloc_internal_ok [OF F(1) refl assms(3,4), where needs_header = False and m = "max 1 bytes" and k = 0])
    fix q h1
    assume A: "comp_heap_alloc_internal h bytes (2 ^ j) False = Inr (Some (16 * q), h1)"
      "allocated h L (q - 0) (0 + (max 1 bytes + 15) div 16) h1"
    then have "p = 16 * q" "h1 = h'" using assms(2) by (auto simp: comp_heap_alloc_def)
    then show ?thesis
      using A(2) headers_ok_allocated [OF F, of q "(max 1 bytes + 15) div 16" h'] by (auto simp: heap_state_ok_def allocated_def)
  qed (use assms(2) in \<open>auto simp: comp_heap_alloc_def\<close>)
qed

lemma step_global_ok:
  assumes "heap_state_ok (h, L)" and "comp_heap_alloc_global_member h bytes (2 ^ j) t = Inr (Some p, h')"
    and "j \<le> 4" and "bytes \<le> 2 ^ 60"
  shows "heap_state_ok (h', (p div 16 - 1, 1 + (bytes + 15) div 16) # L)"
proof -
  obtain F where F: "heap_ok h F L" "headers_ok (h, L)" "leaks_ok (h, L)" using assms(1) by (auto simp: heap_state_ok_def)
  let ?n = "1 + (bytes + 15) div 16"
  show ?thesis
  proof (rule global_member_ok [OF F(1) refl assms(3,4), of t])
    fix q h1
    assume A: "comp_heap_alloc_global_member h bytes (2 ^ j) t = Inr (Some (16 * q), with_header h1 (q - 1) t bytes)"
      "allocated h L (q - 1) ?n h1" "\<not> slot_marked (header_bitmap h1) (q - 1)"
    then have h': "p = 16 * q" "h' = with_header h1 (q - 1) t bytes" using assms(2) by auto
    obtain F1 where F1: "heap_ok h1 F1 ((q - 1, ?n) # L)" using A(2) by (auto simp: allocated_def)
    note old = headers_ok_allocated [OF F A(2)]
    have "heap_ok h' F1 ((q - 1, ?n) # L)" unfolding h' with_header_def by (rule heap_ok_header [OF F1])
    moreover have "headers_ok (h', (q - 1, ?n) # L)" using old(1) A(3) by (auto simp: headers_ok_def h' with_header_def)
    moreover have "leaks_ok (h', (q - 1, ?n) # L)" using old(2) by (fastforce simp: leaks_ok_def h' with_header_def)
    ultimately show ?thesis by (auto simp: heap_state_ok_def h')
  qed (use assms(2) in auto)
qed

lemma step_leak_ok:
  assumes "heap_state_ok (h, L)" and "comp_heap_leak h b e = Inr (r, h')"
  shows "heap_state_ok (h', L)"
proof -
  obtain F where F: "heap_ok h F L" "headers_ok (h, L)" "leaks_ok (h, L)" using assms(1) by (auto simp: heap_state_ok_def)
  have "h' = h \<or> (\<exists>header t n. comp_heap_find_header h (nat b) = Inr (Some header) \<and> header_at h header = Inr (t, n)
      \<and> h' = h\<lparr>leak_bitmap := comp_heap_mark_bitmap_bits (leak_bitmap h) (header + 16) n\<rparr>
      \<and> 0 < nat b \<and> nat b < heap_used h)"
    using assms(2)
    by (auto simp: comp_heap_leak_def Let_def obind_eq_Inr_iff ensure_eq_Inr_iff split: if_splits option.splits)
  then show ?thesis
  proof (elim disjE exE conjE)
    fix header t n
    assume A: "comp_heap_find_header h (nat b) = Inr (Some header)" "header_at h header = Inr (t, n)"
      "h' = h\<lparr>leak_bitmap := comp_heap_mark_bitmap_bits (leak_bitmap h) (header + 16) n\<rparr>" "0 < nat b" "nat b < heap_used h"
    obtain s where s: "header = 16 * s" "slot_marked (header_bitmap h) s"
      using find_header_cases [OF A(4,5)] A(1) by (auto split: if_splits)
    obtain t' m where m: "cells h s = AllocationHeader t' m" "(s, 1 + (m + 15) div 16) \<in> set L"
      using F(2) s(2) by (fastforce simp: headers_ok_def)
    have "m = n" using A(2) m(1) s(1) by (simp add: header_at_def)
    have "(16 * s + 16 + n + 15) div 16 = s + (1 + (n + 15) div 16)" "(16 * s + 16) div 16 = s + 1" by simp_all
    then have "slot_marked (leak_bitmap h') i \<longleftrightarrow> s < i \<and> i < s + (1 + (n + 15) div 16) \<or> slot_marked (leak_bitmap h) i" for i
      unfolding A(3) s(1) by (auto simp: less_eq_Suc_le)
    then have marks: "s < i \<and> i < s + (1 + (n + 15) div 16) \<or> slot_marked (leak_bitmap h) i"
      if "slot_marked (leak_bitmap h') i" for i using that by simp
    have same: "header_bitmap h' = header_bitmap h" by (simp add: A(3))
    have "leaks_ok (h', L)"
      unfolding leaks_ok_def prod.case same
    proof (intro allI impI)
      fix i assume "slot_marked (leak_bitmap h') i"
      from marks [OF this] show "\<exists>s n. (s, n) \<in> set L \<and> slot_marked (header_bitmap h) s \<and> s < i \<and> i < s + n"
      proof
        assume "s < i \<and> i < s + (1 + (n + 15) div 16)"
        then show ?thesis
          using m(2) s(2) unfolding \<open>m = n\<close> by (intro exI [of _ s] exI [of _ "1 + (n + 15) div 16"] conjI) simp_all
      next
        assume "slot_marked (leak_bitmap h) i"
        then show ?thesis using F(3) unfolding leaks_ok_def prod.case by blast
      qed
    qed
    moreover have "headers_ok (h', L)" using F(2) by (simp add: headers_ok_def A(3))
    moreover have "heap_ok h' F L"
      using F(1) free_ok_cong [of h F h'] by (simp add: heap_ok_def sizes_ok_def A(3))
    ultimately show ?thesis by (auto simp: heap_state_ok_def)
  qed (use assms(1) in simp)
qed

lemma step_dealloc_ok:
  assumes "heap_state_ok (h, L)" and n: "n = (max 1 bytes + 15) div 16" and "(s, n) \<in> set L"
    and "comp_heap_dealloc h (16 * s) bytes = Inr h'"
  shows "heap_state_ok (h', remove1 (s, n) L)"
proof -
  obtain F where F: "heap_ok h F L" "headers_ok (h, L)" "leaks_ok (h, L)" using assms(1) by (auto simp: heap_state_ok_def)
  let ?L = "remove1 (s, n) L"
  have perm: "mset ((s, n) # ?L) = mset L" using assms(3) by simp
  have ok: "heap_ok h F ((s, n) # ?L)" using F(1) heap_ok_perm [OF perm] by simp
  have marks: "\<not> slot_marked (header_bitmap h) s" "\<not> slot_marked (leak_bitmap h) s"
    using assms(4) by (auto simp: comp_heap_dealloc_def Let_def ensure_eq_Inr_iff)
  obtain F' where A: "heap_ok h' F' ?L" "same_marks h h'" "\<And>x. x < s \<or> s + n \<le> x \<Longrightarrow> cells h' x = cells h x"
    using dealloc_ok [OF ok n marks] assms(4) by (auto split: if_splits)
  have others: "t + m \<le> s \<or> s + n \<le> t" "0 < m" "(t, m) \<in> set ?L" if "(t, m) \<in> set L" "t \<noteq> s" for t m
  proof -
    show mem: "(t, m) \<in> set ?L" using that by (auto simp: in_set_remove1)
    show "t + m \<le> s \<or> s + n \<le> t" using heap_ok_disjoint [OF ok mem] by auto
    show "0 < m" using heap_ok_live_inside(2) [OF ok, of t m] mem by simp
  qed
  have head: "t \<noteq> s" if "slot_marked (header_bitmap h) t" for t using that marks(1) by auto
  have "headers_ok (h', ?L)"
    unfolding headers_ok_def prod.case
  proof (intro allI impI)
    fix t assume "slot_marked (header_bitmap h') t"
    then have t: "slot_marked (header_bitmap h) t" using A(2) by (simp add: same_marks_def)
    obtain u b where u: "cells h t = AllocationHeader u b" "(t, 1 + (b + 15) div 16) \<in> set L"
      using F(2) t by (fastforce simp: headers_ok_def)
    note o = others [OF u(2) head [OF t]]
    have "cells h' t = cells h t" using A(3) [of t] o(1,2) by auto
    then show "\<exists>u b. cells h' t = AllocationHeader u b \<and> (t, 1 + (b + 15) div 16) \<in> set ?L" using u(1) o(3) by auto
  qed
  moreover have "leaks_ok (h', ?L)"
    unfolding leaks_ok_def prod.case
  proof (intro allI impI)
    fix i assume "slot_marked (leak_bitmap h') i"
    then have "slot_marked (leak_bitmap h) i" using A(2) by (simp add: same_marks_def)
    then obtain t m where t: "(t, m) \<in> set L" "slot_marked (header_bitmap h) t" "t < i" "i < t + m"
      using F(3) by (auto simp: leaks_ok_def)
    then show "\<exists>t m. (t, m) \<in> set ?L \<and> slot_marked (header_bitmap h') t \<and> t < i \<and> i < t + m"
      using others(3) [OF t(1) head [OF t(2)]] A(2) by (auto simp: same_marks_def)
  qed
  ultimately show ?thesis using A(1) by (auto simp: heap_state_ok_def)
qed

lemma heap_step_ok: "heap_step x y \<Longrightarrow> heap_state_ok x \<Longrightarrow> heap_state_ok y"
  by (induction rule: heap_step.induct)
    (auto intro: step_alloc_ok step_leak_ok step_dealloc_ok simp del: One_nat_def dest: step_global_ok)

lemma heap_run_ok: "heap_step\<^sup>*\<^sup>* x y \<Longrightarrow> heap_state_ok x \<Longrightarrow> heap_state_ok y"
  by (induction rule: rtranclp_induct) (auto intro: heap_step_ok)

section \<open>No leak is found\<close>

lemma scan_leaks_none:
  "(\<And>i. begins i AND leaks i = 0) \<Longrightarrow> scan_leaks begins leaks k i 0 = None"
  by (induction k arbitrary: i) simp_all

lemma words_disjoint:
  assumes "\<And>i. \<not> (slot_marked a i \<and> slot_marked b i)"
  shows "a i AND b i = 0"
proof (rule bit_word_eqI)
  fix n assume "n < LENGTH(64)"
  then show "bit (a i AND b i) n = bit (0 :: u64) n"
    using assms [of "i * 64 + n"] by (simp add: slot_marked_bit bit_and_iff)
qed


text \<open>A run with a leak: a global member of 24 bytes at address 32, of which the bytes from 40 on are leaked.\<close>

lemma sample_leak:
  obtains h1 h2 where "heap_step (sample_heap, []) (h1, [(1, 3)])" and "heap_step (h1, [(1, 3)]) (h2, [(1, 3)])"
    and "heap_used h2 = 64" and "slot_marked (leak_bitmap h2) 2"
proof -
  let ?h1 = "sample_heap\<lparr>heap_used := 64, begin_bitmap := mark_slot (\<lambda>_. 0) 1, cells := (cells sample_heap)(1 := AllocationHeader 7 24),
    header_bitmap := mark_slot (\<lambda>_. 0) 1\<rparr>"
  let ?h2 = "?h1\<lparr>leak_bitmap := comp_heap_mark_bitmap_bits (\<lambda>_. 0) 32 24\<rparr>"
  have alloc: "comp_heap_alloc_global_member sample_heap 24 (2 ^ 3) 7 = Inr (Some 32, ?h1)"
    by (simp add: comp_heap_alloc_global_member_def alloc_eval sample_heap_def)
  have "last_begin ?h1 (40 div 16) 1" by (auto simp: last_begin_def)
  then have "comp_heap_find_header ?h1 40 = Inr (Some 16)"
    using find_header_last [of ?h1 40 1] by simp
  then have "comp_heap_leak ?h1 40 56 = Inr (True, ?h2)"
    by (simp add: comp_heap_leak_def header_at_def sample_heap_def)
  then have leak: "heap_step (?h1, [(1, 3)]) (?h2, [(1, 3)])" by (rule step_leak)
  have "heap_step (sample_heap, []) (?h1, [(32 div 16 - 1, 1 + (24 + 15) div 16)])"
    by (rule step_global [OF alloc]) simp_all
  then have "heap_step (sample_heap, []) (?h1, [(1, 3)])" by (simp add: numeral_3_eq_3)
  from this leak show thesis by (rule that) simp_all
qed


end
