(* ===== verification/CompHeapGc.thy ===== *)
theory CompHeapGc
  imports CompHeapLeaks
begin

text \<open>
  Garbage collection. A cycle forgets the free lists, marks what is alive and rebuilds the free
  lists from the runs of slots that are not marked.
\<close>

section \<open>Runs of slots\<close>

lemma skip_run_ok:
  "i \<le> j \<Longrightarrow> j - i < k \<Longrightarrow> slot_marked bm j \<noteq> alive \<Longrightarrow>
   \<exists>r. skip_run k alive bm i = Inr r \<and> i \<le> r \<and> r \<le> j \<and> slot_marked bm r \<noteq> alive
     \<and> (\<forall>x. i \<le> x \<and> x < r \<longrightarrow> slot_marked bm x = alive)"
proof (induction k arbitrary: i)
  case (Suc k)
  show ?case
  proof (cases "slot_marked bm i = alive")
    case True
    then have "i < j" using Suc.prems by (cases "i = j") auto
    then have "i + 1 \<le> j" "j - (i + 1) < k" using Suc.prems by auto
    from Suc.IH [OF this Suc.prems(3)] obtain r where r: "skip_run k alive bm (i + 1) = Inr r" "i + 1 \<le> r" "r \<le> j"
      "slot_marked bm r \<noteq> alive" "\<forall>x. i + 1 \<le> x \<and> x < r \<longrightarrow> slot_marked bm x = alive"
      by blast
    have "slot_marked bm x = alive" if "i \<le> x" "x < r" for x using that True r(5) by (cases "x = i") auto
    then show ?thesis using r True by (intro exI [of _ r]) auto
  qed (use Suc.prems in \<open>auto intro!: exI [of _ i]\<close>)
qed simp

text \<open>The slots below \<open>b\<close> that are not marked, as the free lists may hold them.\<close>

definition dead_slots :: "bitmap \<Rightarrow> nat \<Rightarrow> nat multiset" where
  "dead_slots bm b = mset (filter (\<lambda>x. \<not> slot_marked bm x) [0 ..< b])"

lemma in_dead_slots [simp]: "x \<in># dead_slots bm b \<longleftrightarrow> x < b \<and> \<not> slot_marked bm x"
  by (auto simp: dead_slots_def)

lemma disjoint_dead_slots: "disjoint_slots (dead_slots bm b)"
proof -
  have "count (dead_slots bm b) x \<le> 1" for x
    using distinct_count_atmost_1 [of "filter (\<lambda>x. \<not> slot_marked bm x) [0 ..< b]"]
    by (auto simp: dead_slots_def count_mset_0_iff)
  then show ?thesis by (simp add: disjoint_slots_def)
qed

lemma dead_slots_alive:
  assumes "b \<le> c" and "\<forall>x. b \<le> x \<and> x < c \<longrightarrow> slot_marked bm x"
  shows "dead_slots bm c = dead_slots bm b"
proof -
  have "[0 ..< c] = [0 ..< b] @ [b ..< c]" using assms(1) upt_add_eq_append [of 0 b "c - b"] by simp
  moreover have "filter (\<lambda>x. \<not> slot_marked bm x) [b ..< c] = []" using assms(2) by (auto simp: filter_empty_conv)
  ultimately show ?thesis by (simp add: dead_slots_def)
qed

lemma dead_slots_dead:
  assumes "b \<le> c" and "\<forall>x. b \<le> x \<and> x < c \<longrightarrow> \<not> slot_marked bm x"
  shows "dead_slots bm c = dead_slots bm b + slots b (c - b)"
proof -
  have "[0 ..< c] = [0 ..< b] @ [b ..< c]" using assms(1) upt_add_eq_append [of 0 b "c - b"] by simp
  moreover have "filter (\<lambda>x. \<not> slot_marked bm x) [b ..< c] = [b ..< c]" using assms(2) by (auto simp: filter_id_conv)
  ultimately show ?thesis using assms(1) by (simp add: dead_slots_def)
qed

lemma gc_runs_ok:
  assumes "slot_marked bm 0" and u: "slot_marked bm u" "\<not> slot_marked bm (Suc u)" "u \<le> 2 ^ 32"
  shows "free_ok h F \<Longrightarrow> gc_bitmap h = bm \<Longrightarrow> heap_used h = 16 * u \<Longrightarrow> b \<le> u \<Longrightarrow> slot_marked bm b
     \<Longrightarrow> free_slots F \<subseteq># dead_slots bm b \<Longrightarrow> u - b < k \<Longrightarrow>
   \<exists>h' F'. gc_runs k u b h = Inr (16 * Suc u, h') \<and> only_lists h h' 0 u \<and> free_ok h' F'
     \<and> free_slots F' \<subseteq># dead_slots bm u \<and> (\<forall>x. slot_marked bm x \<longrightarrow> cells h' x = cells h x)"
proof (induction k arbitrary: b h F)
  case (Suc k)
  have "\<exists>r. skip_run (u + 2) True bm b = Inr r \<and> b \<le> r \<and> r \<le> Suc u \<and> slot_marked bm r \<noteq> True
     \<and> (\<forall>x. b \<le> x \<and> x < r \<longrightarrow> slot_marked bm x = True)"
    using u(2) Suc.prems(4) by (intro skip_run_ok) auto
  then obtain r where r: "skip_run (u + 2) True bm b = Inr r" "b \<le> r" "r \<le> Suc u" "\<not> slot_marked bm r"
    "\<forall>x. b \<le> x \<and> x < r \<longrightarrow> slot_marked bm x"
    by auto
  have same: "dead_slots bm r = dead_slots bm b" by (rule dead_slots_alive [OF r(2,5)])
  show ?case
  proof (cases "u \<le> r")
    case True
    then have r_u: "r = Suc u" using r(3,4) u(1) le_antisym by (metis not_less_eq_eq)
    have "dead_slots bm u = dead_slots bm b" using dead_slots_alive [of b u bm] r(5) r_u Suc.prems(4) by auto
    then show ?thesis
      using Suc.prems(1,2,6) r(1) r_u by (intro exI [of _ h] exI [of _ F]) simp
  next
    case False
    then have "\<exists>e. skip_run (u + 2) False bm r = Inr e \<and> r \<le> e \<and> e \<le> u \<and> slot_marked bm e \<noteq> False
       \<and> (\<forall>x. r \<le> x \<and> x < e \<longrightarrow> slot_marked bm x = False)"
      using u(1) by (intro skip_run_ok) auto
    then obtain e where e: "skip_run (u + 2) False bm r = Inr e" "r \<le> e" "e \<le> u" "slot_marked bm e"
      "\<forall>x. r \<le> x \<and> x < e \<longrightarrow> \<not> slot_marked bm x"
      by auto
    have "r < e" using e(2,4) r(4) by (metis le_neq_implies_less)
    have "b < r" using r(2,4) Suc.prems(5) by (metis le_neq_implies_less)
    have split: "dead_slots bm e = dead_slots bm b + slots r (e - r)"
      using dead_slots_dead [OF e(2,5)] same by simp
    have sub: "free_slots F + slots r (e - r) \<subseteq># dead_slots bm e" using Suc.prems(6) by (simp add: split)
    have "0 < r" "0 < e - r" "16 * (r + (e - r)) \<le> heap_used h" "r + (e - r) \<le> 2 ^ 32"
      "disjoint_slots (free_slots F + slots r (e - r))"
      using \<open>b < r\<close> \<open>r < e\<close> e(3) Suc.prems(3) u(3) disjoint_slots_mono [OF disjoint_dead_slots sub] by auto
    then obtain h1 F1 where A: "comp_heap_add_to_freelist h (16 * r) (16 * (e - r)) = Inr h1" "only_lists h h1 r (e - r)"
      "free_ok h1 F1" "free_slots F1 \<subseteq># free_slots F + slots r (e - r)"
      using add_to_freelist_ok [OF Suc.prems(1)] by metis
    note fields = only_lists_fields [OF A(2)]
    have "gc_bitmap h1 = bm" using A(2) Suc.prems(2) by (auto simp: only_lists_def)
    moreover have "free_slots F1 \<subseteq># dead_slots bm e" using A(4) sub by (rule subset_mset.order_trans)
    moreover have "u - e < k" using Suc.prems(7) \<open>b < r\<close> \<open>r < e\<close> e(3) by linarith
    ultimately obtain h' F' where IH: "gc_runs k u e h1 = Inr (16 * Suc u, h')" "only_lists h1 h' 0 u" "free_ok h' F'"
      "free_slots F' \<subseteq># dead_slots bm u" "\<forall>x. slot_marked bm x \<longrightarrow> cells h' x = cells h1 x"
      using Suc.IH [of h1 F1 e] A(3) fields(1) Suc.prems(3) e(3,4) by auto
    have "gc_runs (Suc k) u b h = Inr (16 * Suc u, h')"
      using r(1) False e(1) A(1) IH(1) Suc.prems(2)
      by (simp del: mult_Suc mult_Suc_right add: mult.commute [of _ 16] diff_mult_distrib2 [symmetric])
    moreover have "only_lists h h1 0 u" by (rule only_lists_trans [OF only_lists_refl A(2)]) (use e in auto)
    then have "only_lists h h' 0 u" using IH(2) by (rule only_lists_trans) simp_all
    moreover have "cells h' x = cells h x" if "slot_marked bm x" for x
    proof -
      have "x < r \<or> r + (e - r) \<le> x" using that e(2,5) by (cases "x < r"; cases "x < e") auto
      then have "cells h1 x = cells h x" using A(2) unfolding only_lists_def by blast
      then show ?thesis using that IH(5) by simp
    qed
    ultimately show ?thesis using IH(3,4) by blast
  qed
qed simp

section \<open>Marks\<close>

text \<open>
  The state in which a collection ends: the free lists are forgotten, the first slot and the one
  behind the used memory are marked, and no slot behind that.
\<close>

definition gc_ready :: "CompHeap \<Rightarrow> (nat \<times> nat) list \<Rightarrow> bool" where
  "gc_ready h L \<longleftrightarrow> heap_ok h (\<lambda>_. []) L \<and> slot_marked (gc_bitmap h) 0
     \<and> slot_marked (gc_bitmap h) (heap_used h div 16) \<and> (\<forall>i > heap_used h div 16. \<not> slot_marked (gc_bitmap h) i)"

lemma gc_begin_ok:
  assumes "heap_ok h F L" and "\<And>i. \<not> slot_marked (gc_bitmap h) i" and "comp_heap_gc_begin h = Inr h'"
  shows "gc_ready h' L" and "heap_used h' = heap_used h" and "begin_bitmap h' = begin_bitmap h" and "header_bitmap h' = header_bitmap h"
    and "\<And>i. slot_marked (gc_bitmap h') i \<longleftrightarrow> i = 0 \<or> i = heap_used h div 16"
proof -
  have h': "h' = h\<lparr>gc_bitmap := comp_heap_mark_bitmap_bits (comp_heap_mark_bitmap_bits (gc_bitmap h) (heap_used h) 1) 0 1,
      freelists := replicate FREELIST_COUNT 0\<rparr>"
    using assms(3) by (simp add: comp_heap_gc_begin_def Let_def ensure_eq_Inr_iff)
  obtain u where u: "heap_used h = 16 * u" using assms(1) by (auto simp: heap_ok_def sizes_ok_def)
  have ends: "(16 * u + 1 + 15) div 16 = Suc u" "(0 + 1 + 15) div 16 = (1 :: nat)" by simp_all
  show marks: "slot_marked (gc_bitmap h') i \<longleftrightarrow> i = 0 \<or> i = heap_used h div 16" for i
    using assms(2) by (auto simp: h' u ends simp del: One_nat_def)
  have "free_ok h' (\<lambda>_. [])" by (simp add: h' free_ok_def)
  moreover have "disjoint_slots (live_slots L)"
    using assms(1) disjoint_slots_mono [of "free_slots F + live_slots L" "live_slots L"] by (simp add: heap_ok_def)
  moreover have "sizes_ok h'" using assms(1) by (simp add: heap_ok_def sizes_ok_def h')
  ultimately have "heap_ok h' (\<lambda>_. []) L" using assms(1) by (auto simp: heap_ok_def h')
  moreover have "heap_used h' = heap_used h" by (simp add: h')
  ultimately show "gc_ready h' L" unfolding gc_ready_def marks by simp
qed (use assms(3) in \<open>auto simp: comp_heap_gc_begin_def Let_def ensure_eq_Inr_iff\<close>)


section \<open>The end of a collection\<close>

text \<open>The begin bits are read in words, of which only those that the rounded size covers are cleared.\<close>

definition gc_words :: "CompHeap \<Rightarrow> nat" where
  "gc_words h = round_up (heap_used h div BYTES_PER_BITMAP_BYTE) (heap_page_bytes h) div 8"

text \<open>
  C11: \<open>comp_heap_gc_end\<close> succeeds and builds free lists of slots that were not marked, without
  overlap, below the old end of the used memory; marked memory keeps its contents, and an allocation keeps its begin bit
  if it was marked or lies in the last word that the rounded size leaves out. Nothing is
  shrunk: the slot behind the used memory counts as alive, so the used memory is a slot longer.
\<close>

theorem comp_heap_gc_end_result:
  assumes ready: "gc_ready h L"
  shows "\<exists>h' F'. comp_heap_gc_end h = Inr h' \<and> heap_used h' = heap_used h + 16 \<and> heap_commit h' = heap_commit h
    \<and> free_ok h' F' \<and> disjoint_slots (free_slots F')
    \<and> (\<forall>x \<in># free_slots F'. 0 < x \<and> x < heap_used h div 16 \<and> \<not> slot_marked (gc_bitmap h) x)
    \<and> (\<forall>x. slot_marked (gc_bitmap h) x \<longrightarrow> cells h' x = cells h x)
    \<and> (\<forall>i. slot_marked (begin_bitmap h') i \<longleftrightarrow>
         slot_marked (begin_bitmap h) i \<and> (slot_marked (gc_bitmap h) i \<or> gc_words h \<le> i div 64))
    \<and> header_bitmap h' = header_bitmap h \<and> leak_bitmap h' = leak_bitmap h"
proof -
  let ?u = "heap_used h div 16" and ?bm = "gc_bitmap h"
  define h1 where "h1 = h\<lparr>begin_bitmap := (\<lambda>i. if i < gc_words h then begin_bitmap h i AND gc_bitmap h i else begin_bitmap h i)\<rparr>"
  have ok: "sizes_ok h" "free_ok h (\<lambda>_. [])" using ready by (auto simp: gc_ready_def heap_ok_def)
  have used: "heap_used h1 = 16 * ?u" "?u \<le> 2 ^ 32" using ok(1) by (auto simp: sizes_ok_def h1_def)
  have ends: "slot_marked ?bm 0" "slot_marked ?bm ?u" "\<not> slot_marked ?bm (Suc ?u)" using ready by (auto simp: gc_ready_def)
  have "free_ok h1 (\<lambda>_. [])" "gc_bitmap h1 = ?bm" "free_slots (\<lambda>_. []) \<subseteq># dead_slots ?bm 0" "?u - 0 < ?u + 1"
    using free_ok_cong [OF ok(2), of h1] by (simp_all add: h1_def)
  then obtain h2 F where runs: "gc_runs (?u + 1) ?u 0 h1 = Inr (16 * Suc ?u, h2)" "only_lists h1 h2 0 ?u" "free_ok h2 F"
    "free_slots F \<subseteq># dead_slots ?bm ?u" "\<forall>x. slot_marked ?bm x \<longrightarrow> cells h2 x = cells h1 x"
    using gc_runs_ok [OF ends used(2), of h1 "\<lambda>_. []" 0 "?u + 1"] used(1) ends(1) by blast
  note fields = only_lists_fields [OF runs(2)]
  have commit: "round_up (heap_commit h2) (heap_commit_increment h2) = heap_commit h"
  proof -
    have "0 < heap_commit_increment h" "heap_commit_increment h dvd heap_commit h" "heap_commit h \<le> 2 ^ 36" "0 < heap_commit h"
      using ok(1) by (auto simp: sizes_ok_def)
    moreover from this have "heap_commit_increment h \<le> heap_commit h" by (simp add: dvd_imp_le)
    ultimately have "round_up (heap_commit h) (heap_commit_increment h) = heap_commit h" by (intro round_up_dvd) simp_all
    then show ?thesis using fields(2,4) by (simp add: h1_def)
  qed
  let ?h' = "h2\<lparr>heap_commit := heap_commit h, heap_used := 16 * Suc ?u,
      gc_bitmap := (\<lambda>i. if decommit_clears h2 \<and> i < gc_words h then 0 else gc_bitmap h2 i)\<rparr>"
  have same_used: "heap_used h1 = heap_used h" by (simp add: h1_def)
  note run = comp_heap_gc_end_def [of h, unfolded Let_def gc_words_def [symmetric], folded h1_def, unfolded heap_sizes]
  have "comp_heap_gc_end h = Inr ?h'"
    by (simp only: run same_used runs(1) commit obind_Inr prod.case)
  moreover have "free_ok ?h' F" by (rule free_ok_cong [OF runs(3)]) simp_all
  moreover have "16 * Suc ?u = heap_used h + 16" using used(1) by (simp add: h1_def)
  moreover have "disjoint_slots (free_slots F)" by (rule disjoint_slots_mono [OF disjoint_dead_slots runs(4)])
  moreover have "\<forall>x \<in># free_slots F. 0 < x \<and> x < ?u \<and> \<not> slot_marked ?bm x"
    using mset_subset_eqD [OF runs(4)] ends(1) by (metis in_dead_slots neq0_conv)
  moreover have "slot_marked (begin_bitmap ?h') i \<longleftrightarrow> slot_marked (begin_bitmap h) i \<and> (slot_marked ?bm i \<or> gc_words h \<le> i div 64)" for i
    using fields(5) by (auto simp: h1_def slot_marked_bit bit_and_iff)
  moreover have "header_bitmap ?h' = header_bitmap h" "leak_bitmap ?h' = leak_bitmap h"
    using fields(6) by (simp_all add: same_marks_def h1_def)
  moreover have "cells ?h' x = cells h x" if "slot_marked ?bm x" for x using runs(5) that by (simp add: h1_def)
  ultimately show ?thesis by (intro exI [of _ ?h'] exI [of _ F]) simp
qed

section \<open>A collection\<close>

text \<open>
  A heap with allocations at the slots 1 and 3 of which the second, the one with slots 3 and 4, is
  marked, in the state in which the collection ends.
\<close>

definition sample_gc :: CompHeap where
  "sample_gc = sample_heap\<lparr>heap_used := 80, begin_bitmap := mark_slot (mark_slot (\<lambda>_. 0) 1) 3,
     gc_bitmap := foldl mark_slot (\<lambda>_. 0) [0, 5]\<rparr>"

lemma sample_gc_ready: "gc_ready sample_gc [(1, 2), (3, 2)]"
proof -
  have "sizes_ok sample_gc" using sample_heap_ok by (auto simp: heap_ok_def sizes_ok_def sample_gc_def sample_heap_def)
  moreover have "free_ok sample_gc (\<lambda>_. [])" by (simp add: free_ok_def sample_gc_def sample_heap_def)
  moreover have "disjoint_slots (live_slots [(1, 2), (3, 2)])"
  proof -
    have "live_slots [(1, 2), (3, 2)] = mset [1, 2, 3, 4]" by (simp add: upt_rec mset_upt)
    then show ?thesis by (auto simp: disjoint_slots_def)
  qed
  ultimately have "heap_ok sample_gc (\<lambda>_. []) [(1, 2), (3, 2)]"
    by (auto simp: heap_ok_def sample_gc_def sample_heap_def)
  then show ?thesis by (auto simp: gc_ready_def sample_gc_def)
qed


text \<open>The used memory is below 128 bytes, so no word of begin bits is covered.\<close>

theorem comp_heap_gc_end_result_witness:
  "\<exists>h F. comp_heap_gc_end sample_gc = Inr h \<and> heap_used h = 96 \<and> slot_marked (begin_bitmap h) 1
     \<and> free_ok h F \<and> (\<forall>x \<in># free_slots F. 1 \<le> x \<and> x \<le> 4)"
proof -
  have "gc_words sample_gc = 0" "slot_marked (begin_bitmap sample_gc) 1" "heap_used sample_gc = 80"
    by (simp_all add: gc_words_def round_up_def wrap64_def sample_gc_def sample_heap_def)
  then show ?thesis using comp_heap_gc_end_result [OF sample_gc_ready] by fastforce
qed

section \<open>Setup\<close>

lemma commit_increment_ok:
  assumes "page_size = 2 ^ p" and "p \<le> 20" and "increment \<le> 2 ^ 36"
  obtains j where "calc_commit_increment increment page_size = Inr (2 ^ j)" and "7 \<le> j" and "j \<le> 36" and "increment \<le> 2 ^ j"
proof (cases "increment < page_size * 128")
  case True
  have "page_size * 128 = 2 ^ (p + 7)" by (simp add: assms(1) power_add)
  then show thesis using True assms(2) by (intro that [of "p + 7"]) (simp_all add: calc_commit_increment_def)
next
  case False
  let ?n = "of_nat increment :: u64"
  have u: "uint ?n = int increment"
    using assms(3) by (simp add: unsigned_of_nat take_bit_nat_eq_self)
  then obtain k where k: "k < 64" "next_pow2_loop ?n (2 ^ 0) = Some (2 ^ k)" "int increment \<le> 2 ^ k" "k = 0 \<or> 2 ^ (k - 1) < int increment"
    using next_pow2_loop_doubles [of ?n 0] assms(3) by auto
  have "1 \<le> page_size" by (simp add: assms(1))
  then have "128 \<le> increment" using False by linarith
  then have "(128 :: int) \<le> 2 ^ k" using k(3) by linarith
  then have "(2 :: int) ^ 7 \<le> 2 ^ k" by (simp del: power_le_imp_le_exp)
  then have low: "7 \<le> k" by (rule power_le_imp_le_exp [rotated]) simp
  have "2 ^ (k - 1) < int increment" using k(4) low by simp
  then have "(2 :: int) ^ (k - 1) < 2 ^ 36" by (rule order.strict_trans2) (use assms(3) in simp)
  then have high: "k - 1 < 36" by (rule power_less_imp_less_exp [rotated]) simp
  have "unat (2 ^ k :: u64) = 2 ^ k" using uint_exp_word [of k, where 'a = 64] k(1) by (simp add: unat_eq_nat_uint nat_power_eq)
  then have "calc_commit_increment increment page_size = Inr (2 ^ k)"
    using False k(2) by (simp add: calc_commit_increment_def next_pow2_def)
  moreover have "increment \<le> 2 ^ k" using k(3) by (metis of_nat_le_iff of_nat_numeral of_nat_power)
  ultimately show thesis using low high by (intro that [of k]) simp_all
qed

text \<open>
  C15: \<open>comp_heap_init\<close> with a reserve of up to 64 gibibytes, an increment below it and pages of a power of two
  panics if the platform cannot commit the first increment; else it makes an empty heap with
  the invariant, whose increment is a power of two and not below that of the configuration.
\<close>

theorem comp_heap_init_result:
  assumes "heap_page_bytes platform = 2 ^ p" and "p \<le> 20" and "comp_heap_validate_config reserve increment"
    and "0 < reserve" and "reserve \<le> 2 ^ 36"
  shows "comp_heap_init platform reserve increment = Inl Panic
    \<or> (\<exists>h. comp_heap_init platform reserve increment = Inr h \<and> heap_ok h (\<lambda>_. []) []
         \<and> increment \<le> heap_commit_increment h \<and> heap_commit h = heap_commit_increment h
         \<and> reserve \<le> heap_reserve h \<and> heap_used h = 16)"
proof -
  have "increment \<le> 2 ^ 36" using assms(3,5) by (simp add: comp_heap_validate_config_def)
  then obtain j where j: "calc_commit_increment increment (heap_page_bytes platform) = Inr (2 ^ j)" "7 \<le> j" "j \<le> 36"
    "increment \<le> 2 ^ j"
    by (rule commit_increment_ok [OF assms(1,2)])
  have le: "(2 :: nat) ^ j \<le> 2 ^ 36" by (rule power_increasing [OF j(3)]) simp
  let ?r = "round_up reserve (2 ^ j)"
  have r: "reserve \<le> ?r" "?r < reserve + 2 ^ j" "2 ^ j dvd ?r"
    using round_up_props [of "2 ^ j" reserve] le assms(5) by simp_all
  have "2 ^ j \<le> ?r" using r(1,3) assms(4) by (simp add: dvd_imp_le)
  moreover have "?r \<le> 2 ^ 36"
  proof -
    obtain q where q: "?r = 2 ^ j * q" using r(3) by (auto elim: dvdE)
    have two: "(2 :: nat) ^ 36 = 2 ^ j * 2 ^ (36 - j)" using j(3) by (simp only: power_add [symmetric]) simp
    have "2 ^ j * q < 2 ^ j * (2 ^ (36 - j) + 1)"
      using r(2) assms(5) unfolding q two distrib_left by linarith
    then have "q \<le> 2 ^ (36 - j)" unfolding mult_less_cancel1 by simp
    then show ?thesis unfolding q two by (rule mult_le_mono2)
  qed
  moreover have "(16 :: nat) \<le> 2 ^ j"
    using power_increasing [of 7 j "2 :: nat"] j(2) by simp
  ultimately have "heap_ok (platform\<lparr>heap_used := 16, heap_commit := 2 ^ j, heap_reserve := ?r, heap_commit_increment := 2 ^ j,
      leak_bitmap := (\<lambda>_. 0), begin_bitmap := (\<lambda>_. 0), header_bitmap := (\<lambda>_. 0), gc_bitmap := (\<lambda>_. 0),
      freelists := replicate FREELIST_COUNT 0\<rparr>) (\<lambda>_. []) []"
    using j(2) r(3) by (intro empty_heap_ok) (auto simp: sizes_ok_def)
  then show ?thesis using j(1,4) r(1) by (auto simp: comp_heap_init_def calc_memory_reserve_def ensure_def)
qed

theorem comp_heap_init_result_witness:
  "\<exists>h. comp_heap_init sample_heap 1048576 1000 = Inr h \<and> heap_ok h (\<lambda>_. []) []"
proof -
  have "heap_page_bytes sample_heap = 2 ^ 12" by (simp add: sample_heap_def)
  moreover have "comp_heap_init sample_heap 1048576 1000 \<noteq> Inl Panic"
    by (simp add: comp_heap_init_def calc_commit_increment_def sample_heap_def)
  ultimately show ?thesis
    using comp_heap_init_result [of sample_heap 12 1048576 1000] by (auto simp: comp_heap_validate_config_def)
qed

end
