(* ===== verification/TempStack.thy ===== *)
theory TempStack
  imports VecReserve
begin

text \<open>
  The temporary stack (src/core/temp_stack.cpp): memory that a stage takes piece by piece and gives
  back all at once. It is a vector of bytes; the contents are those of its users, so the model
  keeps only how much is in use. An address is an offset from the begin of the stack.
\<close>

definition TEMP_STACK_RESERVE :: u64 where "TEMP_STACK_RESERVE = 2 ^ 29"
definition TEMP_STACK_COMMIT_INCREMENT :: u32 where "TEMP_STACK_COMMIT_INCREMENT = 2 ^ 14"

type_synonym temp_stack = "u8 ReservedVec"

definition temp_stack_validate_config :: bool where
  "temp_stack_validate_config = True"

definition temp_stack_memory_requirements :: u64 where
  "temp_stack_memory_requirements = TEMP_STACK_RESERVE"

definition temp_stack_init :: "u64 \<Rightarrow> (nat \<Rightarrow> u8) \<Rightarrow> (u32 \<Rightarrow> bool) \<Rightarrow> temp_stack outcome" where
  "temp_stack_init range_bytes memory os =
     ensure Assertion (range_bytes = TEMP_STACK_RESERVE)
       (rv_init memory (ucast range_bytes) TEMP_STACK_COMMIT_INCREMENT os)"

definition temp_stack_mark :: "temp_stack \<Rightarrow> u64" where
  "temp_stack_mark t = ucast (m_used t)"

definition temp_stack_alloc :: "temp_stack \<Rightarrow> u64 \<Rightarrow> u64 \<Rightarrow> (temp_stack \<times> u32) outcome" where
  "temp_stack_alloc t bytes align =
     ensure Assertion (bytes < 0xFFFFFFFF)
     (ensure Assertion (align < 0xFFFFFFFF)
     (obind (rv_pad_to_alignment 1 t (ucast align)) (\<lambda>t. rv_reserve_exact 1 t (ucast bytes))))"

definition temp_stack_release :: "temp_stack \<Rightarrow> u64 \<Rightarrow> temp_stack outcome" where
  "temp_stack_release t mark =
     ensure Assertion (mark \<le> ucast (m_used t)) (rv_pop_to t (ucast mark))"

end
