(* ===== verification/NameScopes.thy ===== *)
theory NameScopes
  imports TempStack AstAccess CompHeap
begin

text \<open>
  The state of name resolution and the maps of names in a scope (src/core/lexical_analyser.cpp up to
  \<open>set_closure_list\<close>). A pointer to a \<open>ScopeMap\<close> is held in one place only, the stack of scopes or
  that of closures, so the maps are values in these stacks.
\<close>

section \<open>State\<close>

definition MAX_SCOPE_ENTRY_COUNT :: nat where "MAX_SCOPE_ENTRY_COUNT = 2 ^ 15"

datatype ScopeMapKind = Kind_Local | Kind_Global | Kind_Closure | Kind_Signature | Kind_TraitSignature

record ScopeEntry =
  entry_rank :: nat
  closure_source_rank :: nat
  closure_source_out :: nat
  closure_source_is_closure :: bool
  param_is_templated :: bool
  entry_definition :: "nat option"

definition empty_entry :: ScopeEntry where
  "empty_entry = \<lparr>entry_rank = 0, closure_source_rank = 0, closure_source_out = 0, closure_source_is_closure = False,
     param_is_templated = False, entry_definition = None\<rparr>"

record ScopeMap =
  scope_capacity :: nat
  scope_used :: nat
  scope_kind :: ScopeMapKind
  has_closure :: bool
  occupied_bits :: "nat \<Rightarrow> u64"
  scope_names :: "nat \<Rightarrow> u32"
  scope_entries :: "nat \<Rightarrow> ScopeEntry"

datatype NameBinding =
    Binding_Scoped nat nat
  | Binding_Global nat u32
  | Binding_Closed nat
  | Binding_TraitArgument nat

record ClosureListEntry =
  source_rank :: nat
  source_out :: nat
  source_is_closure :: bool

text \<open>
  The parts of \<open>CoreData\<close> that name resolution works on. \<open>scopes\<close> is the array from its begin to
  \<open>scopes_top\<close>; an element of \<open>closures\<close> that was never set is \<open>None\<close>.
  \<open>bindings\<close> and \<open>closure_ids\<close> are the members of that name in the attachments of the nodes, and
  \<open>closure_entries\<close> the entries of the closure lists.
\<close>

record NameState =
  trees :: AstPool
  scopes :: "ScopeMap list"
  closures :: "nat \<Rightarrow> ScopeMap option"
  active_file_id :: u32
  prelude_file_id :: u32
  lex_has_error :: bool
  sink_error_count :: u32
  sink_records :: "(CompileError \<times> u32) list"
  bindings :: "nat \<Rightarrow> NameBinding option"
  closure_ids :: "nat \<Rightarrow> u32 option option"
  closure_entries :: "nat \<Rightarrow> nat \<Rightarrow> ClosureListEntry option"
  temp :: temp_stack
  name_heap :: CompHeap

text \<open>The index of the innermost scope; there is one when it is used.\<close>

definition scopes_top :: "NameState \<Rightarrow> nat" where
  "scopes_top s = length (scopes s) - 1"

abbreviation nodes :: "NameState \<Rightarrow> node_store" where
  "nodes s \<equiv> ast_nodes (trees s)"

definition record_node_error :: "NameState \<Rightarrow> nat option \<Rightarrow> CompileError \<Rightarrow> NameState outcome" where
  "record_node_error s source_node err =
     (case source_node of
        None \<Rightarrow> Inl Undefined
      | Some i \<Rightarrow> obind (source_id_of_ast_node (trees s) i) (\<lambda>sid.
          let prev_error_count = sink_error_count s;
              s = s\<lparr>sink_error_count := prev_error_count + 1\<rparr>
          in Inr (if unat prev_error_count < 16384 then s\<lparr>sink_records := sink_records s @ [(err, sid)]\<rparr> else s)))"

definition name_error :: "NameState \<Rightarrow> nat option \<Rightarrow> CompileError \<Rightarrow> NameState outcome" where
  "name_error s source_node err =
     obind (record_node_error s source_node err) (\<lambda>s. Inr (s\<lparr>lex_has_error := True\<rparr>))"

section \<open>Maps of names\<close>

definition scope_map_size :: "nat \<Rightarrow> nat" where
  "scope_map_size cap = (let occupied_bits_bytes = 8 * ((cap + 63) div 64) in 16 + occupied_bits_bytes + cap * (4 + 16))"

definition scope_map_alloc_sized :: "NameState \<Rightarrow> ScopeMapKind \<Rightarrow> nat \<Rightarrow> (ScopeMap \<times> NameState) outcome" where
  "scope_map_alloc_sized s kind cap =
     ensure Assertion (is_pow2 (of_nat cap :: u32))
     (obind (temp_stack_alloc (temp s) (of_nat (scope_map_size cap)) 8) (\<lambda>(t, _).
       Inr (\<lparr>scope_capacity = cap, scope_used = 0, scope_kind = kind, has_closure = False, occupied_bits = (\<lambda>_. 0),
              scope_names = (\<lambda>_. 0), scope_entries = (\<lambda>_. empty_entry)\<rparr>, s\<lparr>temp := t\<rparr>)))"

definition scope_map_alloc :: "NameState \<Rightarrow> ScopeMapKind \<Rightarrow> (ScopeMap \<times> NameState) outcome" where
  "scope_map_alloc s kind = scope_map_alloc_sized s kind 8"

definition name_hash :: "u32 \<Rightarrow> u32" where
  "name_hash name = fnv1a [ucast name, ucast (drop_bit 8 name), ucast (drop_bit 16 name), ucast (drop_bit 24 name)]"

definition home_index :: "ScopeMap \<Rightarrow> u32 \<Rightarrow> nat" where
  "home_index m name = unat (name_hash name AND of_nat (scope_capacity m - 1))"

text \<open>
  The place of a probe: its index, the word of \<open>occupied_bits\<close> and the mask of its bit there. The
  step to the next place is the same in both loops.
\<close>

definition first_probe :: "ScopeMap \<Rightarrow> nat \<Rightarrow> nat \<times> u64 \<times> u64" where
  "first_probe m index = (index, occupied_bits m (index div 64), push_bit (index mod 64) 1)"

definition next_probe :: "ScopeMap \<Rightarrow> nat \<times> u64 \<times> u64 \<Rightarrow> nat \<times> u64 \<times> u64" where
  "next_probe m = (\<lambda>(index, bits, bit_mask).
     let index = index + 1 in
     if index = scope_capacity m then (0, occupied_bits m 0, 1)
     else if sint bit_mask < 0 then (index, occupied_bits m (index div 64), 1)
     else (index, bits, push_bit 1 bit_mask))"

text \<open>
  The loop of \<open>scope_map_add_nogrow\<close>: the index of the first free place, or none if the name is found
  before. A map without a free place is searched for ever.
\<close>

fun add_probe :: "nat \<Rightarrow> ScopeMap \<Rightarrow> u32 \<Rightarrow> nat \<times> u64 \<times> u64 \<Rightarrow> nat option outcome" where
  "add_probe 0 m name place = Inl Diverge"
| "add_probe (Suc steps) m name place =
     (case place of (index, bits, bit_mask) \<Rightarrow>
        if bits AND bit_mask = 0 then Inr (Some index)
        else if scope_names m index = name then Inr None
        else add_probe steps m name (next_probe m place))"

definition put_entry :: "ScopeMap \<Rightarrow> nat \<Rightarrow> u32 \<Rightarrow> ScopeEntry \<Rightarrow> ScopeMap" where
  "put_entry m index name entry =
     m\<lparr>scope_used := scope_used m + 1,
       occupied_bits := (occupied_bits m)(index div 64 := occupied_bits m (index div 64) OR push_bit (index mod 64) 1),
       scope_names := (scope_names m)(index := name), scope_entries := (scope_entries m)(index := entry)\<rparr>"

definition scope_map_add_nogrow ::
  "bool \<Rightarrow> NameState \<Rightarrow> ScopeMap \<Rightarrow> u32 \<Rightarrow> ScopeEntry \<Rightarrow> nat option \<Rightarrow> (ScopeMap \<times> NameState) outcome" where
  "scope_map_add_nogrow check_duplicates s m name entry error_source =
     obind (add_probe (scope_capacity m + 1) m name (first_probe m (home_index m name))) (\<lambda>r.
     case r of
       Some index \<Rightarrow> Inr (put_entry m index name entry, s)
     | None \<Rightarrow>
         if check_duplicates then obind (name_error s error_source ScopeDuplicateName) (\<lambda>s. Inr (m, s))
         else Inl Assertion)"

text \<open>The bits of a word, from the least on; a word has at most 64.\<close>

fun grow_word :: "nat \<Rightarrow> u64 \<Rightarrow> nat \<Rightarrow> ScopeMap \<Rightarrow> ScopeMap \<Rightarrow> NameState \<Rightarrow> (ScopeMap \<times> NameState) outcome" where
  "grow_word 0 bitmask index_base old new s = (if bitmask = 0 then Inr (new, s) else Inl Diverge)"
| "grow_word (Suc steps) bitmask index_base old new s =
     (if bitmask = 0 then Inr (new, s)
      else obind (count_trailing_zeros_assume_one bitmask) (\<lambda>least_index.
        let index = index_base + unat least_index in
        obind (scope_map_add_nogrow False s new (scope_names old index) (scope_entries old index) None) (\<lambda>(new, s).
          grow_word steps (bitmask XOR push_bit (unat least_index) 1) index_base old new s)))"

fun grow_words :: "nat list \<Rightarrow> ScopeMap \<Rightarrow> ScopeMap \<Rightarrow> NameState \<Rightarrow> (ScopeMap \<times> NameState) outcome" where
  "grow_words [] old new s = Inr (new, s)"
| "grow_words (w # ws) old new s =
     obind (grow_word 64 (occupied_bits old w) (w * 64) old new s) (\<lambda>(new, s). grow_words ws old new s)"

text \<open>\<open>has_closure\<close> of the old scope is not taken over.\<close>

definition scope_map_grow :: "NameState \<Rightarrow> ScopeMap \<Rightarrow> (ScopeMap \<times> NameState) outcome" where
  "scope_map_grow s old_scope =
     obind (scope_map_alloc_sized s (scope_kind old_scope) (scope_capacity old_scope * 2)) (\<lambda>(new_scope, s).
       grow_words [0 ..< (scope_capacity old_scope + 63) div 64] old_scope new_scope s)"

fun get_probe :: "nat \<Rightarrow> ScopeMap \<Rightarrow> u32 \<Rightarrow> nat \<Rightarrow> nat \<times> u64 \<times> u64 \<Rightarrow> ScopeEntry option outcome" where
  "get_probe 0 m name initial_index place = Inl Diverge"
| "get_probe (Suc steps) m name initial_index place =
     (case place of (index, bits, bit_mask) \<Rightarrow>
        if bits AND bit_mask = 0 then Inr None
        else if scope_names m index = name then Inr (Some (scope_entries m index))
        else
          let place = next_probe m place in
          if initial_index = fst place then Inr None
          else get_probe steps m name initial_index place)"

definition scope_map_get :: "ScopeMap \<Rightarrow> u32 \<Rightarrow> ScopeEntry option outcome" where
  "scope_map_get m name =
     (let initial_index = home_index m name in
      get_probe (scope_capacity m + 1) m name initial_index (first_probe m initial_index))"

definition scope_map_add ::
  "NameState \<Rightarrow> ScopeMap \<Rightarrow> u32 \<Rightarrow> ScopeEntry \<Rightarrow> nat option \<Rightarrow> (ScopeMap option \<times> NameState) outcome" where
  "scope_map_add s m name entry error_source =
     (if scope_used m = MAX_SCOPE_ENTRY_COUNT then
        obind (name_error s error_source ScopeTooManyDefinitions) (\<lambda>s. Inr (None, s))
      else
        obind (if scope_capacity m * 2 < scope_used m * 3 then scope_map_grow s m else Inr (m, s)) (\<lambda>(m, s).
        obind (scope_map_add_nogrow True s m name entry error_source) (\<lambda>(m, s). Inr (Some m, s))))"

text \<open>
  The number of bytes to clear is \<open>8 * (capacity + 63) / 64\<close>, which can be up to seven more than the
  bits take; these clear the first bytes of \<open>names\<close>.
\<close>

definition scope_map_reset :: "ScopeMap \<Rightarrow> ScopeMap" where
  "scope_map_reset m =
     (let bytes = 8 * (scope_capacity m + 63) div 64;
          excess = bytes - 8 * ((scope_capacity m + 63) div 64);
          low = (\<lambda>n. NOT (mask (8 * min 4 n))) in
      m\<lparr>scope_used := 0, occupied_bits := (\<lambda>_. 0),
        scope_names := (scope_names m)(0 := scope_names m 0 AND low excess, 1 := scope_names m 1 AND low (excess - 4))\<rparr>)"

section \<open>The stacks of scopes and closures\<close>

definition push_scope :: "NameState \<Rightarrow> ScopeMap \<Rightarrow> NameState outcome" where
  "push_scope s m = ensure Assertion (length (scopes s) < MAX_AST_DEPTH) (Inr (s\<lparr>scopes := scopes s @ [m]\<rparr>))"

definition pop_scope :: "NameState \<Rightarrow> NameState outcome" where
  "pop_scope s = ensure Assertion (scopes s \<noteq> []) (Inr (s\<lparr>scopes := butlast (scopes s)\<rparr>))"

text \<open>The map at \<open>scopes_top\<close>, and a map in its place.\<close>

definition top_scope :: "NameState \<Rightarrow> ScopeMap outcome" where
  "top_scope s = (if scopes s = [] then Inl Undefined else Inr (scopes s ! scopes_top s))"

definition set_top_scope :: "NameState \<Rightarrow> ScopeMap \<Rightarrow> NameState" where
  "set_top_scope s m = s\<lparr>scopes := (scopes s)[scopes_top s := m]\<rparr>"

definition set_closure :: "NameState \<Rightarrow> ScopeMap \<Rightarrow> NameState outcome" where
  "set_closure s closure =
     obind (top_scope s) (\<lambda>m.
     ensure Assertion (\<not> has_closure m)
       (Inr ((set_top_scope s (m\<lparr>has_closure := True\<rparr>))\<lparr>closures := (closures s)(scopes_top s \<mapsto> closure)\<rparr>)))"

definition closure_at :: "NameState \<Rightarrow> nat \<Rightarrow> ScopeMap outcome" where
  "closure_at s i = (case closures s i of None \<Rightarrow> Inl Undefined | Some m \<Rightarrow> Inr m)"

section \<open>Closure lists\<close>

text \<open>
  The loop over the places of the map. Its counter has 16 bits, so for a capacity of 2^16 it does
  not end; a loop without effects that does not end has no meaning in C++.
\<close>

fun closure_list_loop ::
  "nat list \<Rightarrow> ScopeMap \<Rightarrow> (nat \<Rightarrow> ClosureListEntry option) \<Rightarrow> (nat \<Rightarrow> ClosureListEntry option) outcome" where
  "closure_list_loop [] closure list = Inr list"
| "closure_list_loop (i # is) closure list =
     (if occupied_bits closure (i div 64) AND push_bit (i mod 64) 1 = 0 then closure_list_loop is closure list
      else
        let src = scope_entries closure i in
        ensure Assertion (1 \<le> closure_source_out src)
        (closure_list_loop is closure (list(entry_rank src \<mapsto>
           \<lparr>source_rank = closure_source_rank src, source_out = closure_source_out src - 1,
            source_is_closure = closure_source_is_closure src\<rparr>))))"

text \<open>\<open>node\<close> is the node whose attachment has the id that is set.\<close>

definition set_closure_list :: "NameState \<Rightarrow> ScopeMap \<Rightarrow> nat \<Rightarrow> NameState outcome" where
  "set_closure_list s closure node =
     (if scope_used closure = 0 then Inr (s\<lparr>closure_ids := (closure_ids s)(node \<mapsto> None)\<rparr>)
      else
        obind (alloc_closure_list (trees s) (scope_used closure)) (\<lambda>(a, list).
        if 2 ^ 16 \<le> scope_capacity closure then Inl Undefined
        else
        obind (closure_list_loop [0 ..< scope_capacity closure] closure (\<lambda>_. None)) (\<lambda>entries.
          Inr (s\<lparr>trees := a, closure_entries := (closure_entries s)(list := entries),
                closure_ids := (closure_ids s)(node \<mapsto> Some (id_from_closure_list list))\<rparr>))))"

end
