(* ===== verification/NameResolution.thy ===== *)
theory NameResolution
  imports NameScopes
begin

text \<open>
  Name resolution (src/core/lexical_analyser.cpp from \<open>add_name_to_closures\<close> on). The recursion over
  the tree is bounded by a budget of levels, and so is each loop over the children of a node; the
  body of a recursive function is a definition with the recursive call as an argument.
\<close>

section \<open>Nodes\<close>

definition set_node_flag :: "NameState \<Rightarrow> nat \<Rightarrow> AstFlag \<Rightarrow> NameState outcome" where
  "set_node_flag s i flag =
     obind (node_at (nodes s) i) (\<lambda>node.
       Inr (s\<lparr>trees := (trees s)\<lparr>ast_nodes := (nodes s)(i \<mapsto> node\<lparr>flags := flags node OR flag\<rparr>)\<rparr>\<rparr>))"

text \<open>\<open>identifier_id\<close> in the attachments with that member; \<open>attachment_of\<close> checks the tag.\<close>

definition name_of_node :: "NameState \<Rightarrow> AstTag \<Rightarrow> nat \<Rightarrow> u32 outcome" where
  "name_of_node s expected i =
     obind (node_at (nodes s) i) (\<lambda>node.
     ensure Assertion (tag node = expected)
     (case attachment node of
        IdentifierData name \<Rightarrow> Inr name
      | DefinitionData name \<Rightarrow> Inr name
      | ParameterData name \<Rightarrow> Inr name
      | _ \<Rightarrow> Inl Undefined))"

definition has_flag_at :: "NameState \<Rightarrow> nat \<Rightarrow> AstFlag \<Rightarrow> bool outcome" where
  "has_flag_at s i flag = obind (node_at (nodes s) i) (\<lambda>node. Inr (has_flag node flag))"

text \<open>A loop over the direct children of a node that changes the state and may leave with a result.\<close>

fun over_children ::
  "nat \<Rightarrow> (nat \<Rightarrow> NameState \<Rightarrow> ('a option \<times> NameState) outcome) \<Rightarrow> AstDirectChildIterator \<Rightarrow> NameState
     \<Rightarrow> ('a option \<times> NameState) outcome" where
  "over_children rounds body it s =
     (if it = None then Inr (None, s)
      else case rounds of
        0 \<Rightarrow> Inl Diverge
      | Suc r \<Rightarrow>
          obind (next_direct_child (nodes s) it) (\<lambda>(child, it).
          obind (body child s) (\<lambda>(result, s).
          case result of
            Some x \<Rightarrow> Inr (Some x, s)
          | None \<Rightarrow> over_children r body it s)))"

declare over_children.simps [simp del]

definition for_children ::
  "nat \<Rightarrow> (nat \<Rightarrow> NameState \<Rightarrow> NameState outcome) \<Rightarrow> NameState \<Rightarrow> NameState outcome" where
  "for_children node body s =
     obind (direct_children_of (nodes s) node) (\<lambda>it.
     obind (over_children (ast_used (trees s)) (\<lambda>child s. obind (body child s) (\<lambda>s. Inr (None :: unit option, s))) it s)
       (\<lambda>(_, s). Inr s))"

section \<open>Closures\<close>

text \<open>
  The loop of \<open>add_name_to_closures\<close> over the indices of the scopes. An addition that fails in
  \<open>get(new_closure)\<close> or has no node for its error is undefined.
\<close>

fun close_over ::
  "nat list \<Rightarrow> NameState \<Rightarrow> u32 \<Rightarrow> nat \<Rightarrow> nat \<Rightarrow> bool \<Rightarrow> (nat \<times> bool \<times> NameState) outcome" where
  "close_over [] s name closed_over_rank source_index from_closure = Inr (closed_over_rank, from_closure, s)"
| "close_over (i # is) s name closed_over_rank source_index from_closure =
     (if \<not> has_closure (scopes s ! i) then close_over is s name closed_over_rank source_index from_closure
      else
        obind (closure_at s i) (\<lambda>closure.
        obind (scope_map_get closure name) (\<lambda>found.
        obind (case found of
            Some closure_entry \<Rightarrow> Inr (closure_entry, s)
          | None \<Rightarrow>
              let closure_entry = empty_entry\<lparr>entry_rank := scope_used closure, closure_source_rank := closed_over_rank,
                    closure_source_is_closure := from_closure, closure_source_out := (i - source_index) mod 256\<rparr> in
              obind (scope_map_add s closure name closure_entry None) (\<lambda>(new_closure, s).
              case new_closure of
                None \<Rightarrow> Inl Assertion
              | Some c \<Rightarrow> Inr (closure_entry, s\<lparr>closures := (closures s)(i \<mapsto> c)\<rparr>))) (\<lambda>(closure_entry, s).
        ensure Assertion (closure_source_rank closure_entry = closed_over_rank
            \<and> closure_source_is_closure closure_entry = from_closure)
          (close_over is s name (entry_rank closure_entry) i True)))))"

definition add_name_to_closures ::
  "NameState \<Rightarrow> u32 \<Rightarrow> nat \<Rightarrow> nat \<Rightarrow> bool \<Rightarrow> (nat \<times> NameState) outcome" where
  "add_name_to_closures s name closed_over_rank scope_index close_in_innermost =
     (let innermost_closed = (if close_in_innermost then scope_index + 1 else scope_index) in
      obind (close_over [innermost_closed ..< length (scopes s)] s name closed_over_rank scope_index False)
        (\<lambda>(rank, from_closure, s). ensure Assertion from_closure (Inr (rank, s))))"

section \<open>Templated parameters\<close>

text \<open>The loop over the scopes from the innermost to the outermost; \<open>k\<close> scopes are left.\<close>

fun templated_name :: "nat \<Rightarrow> NameState \<Rightarrow> u32 \<Rightarrow> bool outcome" where
  "templated_name 0 s name = Inl Assertion"
| "templated_name (Suc k) s name =
     (let scope = scopes s ! k in
      obind (scope_map_get scope name) (\<lambda>found.
      if found \<noteq> None then Inr (scope_kind scope = Kind_Signature)
      else if scope_kind scope = Kind_Signature then Inr False
      else templated_name k s name))"

type_synonym check_call = "nat \<Rightarrow> bool \<Rightarrow> NameState \<Rightarrow> (bool \<times> NameState) outcome"

definition check_expression_step :: "check_call \<Rightarrow> check_call" where
  "check_expression_step check node do_pop s =
     obind (node_at (nodes s) node) (\<lambda>n.
     if tag n = Tag_Identifier then
       obind (name_of_node s Tag_Identifier node) (\<lambda>name.
       obind (templated_name (length (scopes s)) s name) (\<lambda>b. Inr (b, s)))
     else if tag n = Tag_Func then
       obind (first_child_of (nodes s) node) (\<lambda>signature.
       obind (check signature False s) (\<lambda>(b, s).
       if b then obind (pop_scope s) (\<lambda>s. Inr (True, s))
       else
         obind (next_sibling_of (nodes s) signature) (\<lambda>body.
         obind (check body True s) (\<lambda>(is_templated, s).
         obind (pop_scope s) (\<lambda>s. Inr (is_templated, s))))))
     else
       let opens = (tag n = Tag_Block \<or> tag n = Tag_Signature); needs_pop = (opens \<and> do_pop) in
       obind (if opens then obind (scope_map_alloc s Kind_Local) (\<lambda>(scope, s). push_scope s scope) else Inr s) (\<lambda>s.
       obind (direct_children_of (nodes s) node) (\<lambda>it.
       obind (over_children (ast_used (trees s)) (\<lambda>child s.
           obind (check child True s) (\<lambda>(b, s). Inr (if b then Some () else None, s))) it s) (\<lambda>(r, s).
       obind (if needs_pop then pop_scope s else Inr s) (\<lambda>s. Inr (r \<noteq> None, s))))))"

fun check_expression_is_templated :: "nat \<Rightarrow> check_call" where
  "check_expression_is_templated 0 node do_pop s = Inl Diverge"
| "check_expression_is_templated (Suc levels) node do_pop s =
     check_expression_step (check_expression_is_templated levels) node do_pop s"

definition check_parameter_is_templated :: "check_call \<Rightarrow> nat \<Rightarrow> NameState \<Rightarrow> (bool \<times> NameState) outcome" where
  "check_parameter_is_templated check node s =
     obind (first_child_of (nodes s) node) (\<lambda>first_child.
     obind (check first_child True s) (\<lambda>(b, s).
     if b then Inr (True, s)
     else
       obind (has_next_sibling_at (nodes s) first_child) (\<lambda>more_children.
       if \<not> more_children then Inr (False, s)
       else obind (next_sibling_of (nodes s) first_child) (\<lambda>second_child. check second_child True s))))"

section \<open>The walk over the tree\<close>

type_synonym resolve_call = "nat \<Rightarrow> bool \<Rightarrow> bool \<Rightarrow> bool \<Rightarrow> NameState \<Rightarrow> NameState outcome"

text \<open>The node of the definitions of a \<open>where\<close>, and whether the node opens a scope.\<close>

definition where_of :: "NameState \<Rightarrow> nat \<Rightarrow> nat option outcome" where
  "where_of s node =
     obind (node_at (nodes s) node) (\<lambda>n.
     if tag n = Tag_If \<and> has_flag n If_HasWhere then
       obind (get_if_info (nodes s) node) (\<lambda>info. Inr (if_where info))
     else if tag n = Tag_For \<and> has_flag n For_HasWhere then
       obind (get_for_info (nodes s) node) (\<lambda>info. Inr (for_where info))
     else if tag n = Tag_ForEach \<and> has_flag n ForEach_HasWhere then
       obind (get_foreach_info (nodes s) node) (\<lambda>info. Inr (each_where info))
     else if tag n = Tag_Switch \<and> has_flag n Switch_HasWhere then
       obind (get_switch_info (nodes s) node) (\<lambda>info. Inr (switch_where info))
     else Inr None)"

definition push_new_scope :: "ScopeMapKind \<Rightarrow> NameState \<Rightarrow> NameState outcome" where
  "push_new_scope kind s = obind (scope_map_alloc s kind) (\<lambda>(scope, s). push_scope s scope)"

definition push_new_closure :: "NameState \<Rightarrow> NameState outcome" where
  "push_new_closure s = obind (scope_map_alloc s Kind_Closure) (\<lambda>(closure, s). set_closure s closure)"

definition push_scope_for_node :: "resolve_call \<Rightarrow> nat \<Rightarrow> bool \<Rightarrow> NameState \<Rightarrow> (bool \<times> NameState) outcome" where
  "push_scope_for_node resolve node close_in_innermost s =
     obind (tag_at (nodes s) node) (\<lambda>tg.
     if tg = Tag_Block then obind (push_new_scope Kind_Local s) (\<lambda>s. Inr (True, s))
     else
       obind (where_of s node) (\<lambda>found.
       case found of
         None \<Rightarrow> Inr (False, s)
       | Some whr \<Rightarrow>
           obind (push_new_scope Kind_Local s) (\<lambda>s.
           obind (for_children whr (\<lambda>child s.
               obind (tag_at (nodes s) child) (\<lambda>tg.
               ensure Assertion (tg = Tag_Definition) (resolve child True close_in_innermost False s))) s) (\<lambda>s.
             Inr (True, s)))))"

text \<open>The errors for a name that is used in its own definition.\<close>

definition note_self_reference :: "NameState \<Rightarrow> nat option \<Rightarrow> nat \<Rightarrow> NameState outcome" where
  "note_self_reference s definition_node node =
     (case definition_node of
        None \<Rightarrow> Inr s
      | Some d \<Rightarrow>
          obind (is_descendant_of (nodes s) d node) (\<lambda>inside.
          if \<not> inside then Inr s
          else
            obind (node_at (nodes s) d) (\<lambda>def.
            obind (if tag def = Tag_Parameter then name_error s (Some node) CyclicParameterReference
                   else if has_flag def Definition_HasType then
                     obind (first_child_of (nodes s) d) (\<lambda>type_node.
                     obind (is_descendant_of (nodes s) type_node node) (\<lambda>in_type.
                     if in_type then name_error s (Some node) CyclicDefinitionType else Inr s))
                   else Inr s) (\<lambda>s. set_node_flag s d Definition_HasSelfReference))))"

definition bind_node :: "nat \<Rightarrow> NameBinding \<Rightarrow> NameState \<Rightarrow> NameState" where
  "bind_node node b s = s\<lparr>bindings := (bindings s)(node \<mapsto> b)\<rparr>"

text \<open>What the walk does with the entry that it found in the scope \<open>i\<close>.\<close>

definition bind_found :: "NameState \<Rightarrow> nat \<Rightarrow> u32 \<Rightarrow> nat \<Rightarrow> ScopeEntry \<Rightarrow> bool \<Rightarrow> bool \<Rightarrow> NameState outcome" where
  "bind_found s node name i scope_entry is_closed_over close_in_innermost =
     obind (note_self_reference s (entry_definition scope_entry) node) (\<lambda>s.
     let kind = scope_kind (scopes s ! i) in
     if kind = Kind_Global then
       Inr (bind_node node (Binding_Global (entry_rank scope_entry)
              (if i = 0 then prelude_file_id s else active_file_id s)) s)
     else if kind = Kind_TraitSignature then
       Inr (bind_node node (Binding_TraitArgument (entry_rank scope_entry mod 256)) s)
     else if is_closed_over then
       obind (add_name_to_closures s name (entry_rank scope_entry) i close_in_innermost) (\<lambda>(rank_in_closure, s).
         Inr (bind_node node (Binding_Closed rank_in_closure) s))
     else
       Inr (bind_node node (Binding_Scoped ((scopes_top s - i) mod 256) (entry_rank scope_entry)) s))"

text \<open>The loop over the scopes from the innermost on; \<open>k\<close> scopes are left.\<close>

fun resolve_name :: "nat \<Rightarrow> NameState \<Rightarrow> nat \<Rightarrow> u32 \<Rightarrow> bool \<Rightarrow> bool \<Rightarrow> NameState outcome" where
  "resolve_name 0 s node name is_closed_over close_in_innermost = name_error s (Some node) ScopeNameNotDefined"
| "resolve_name (Suc k) s node name is_closed_over close_in_innermost =
     obind (scope_map_get (scopes s ! k) name) (\<lambda>found.
     case found of
       Some scope_entry \<Rightarrow> bind_found s node name k scope_entry is_closed_over close_in_innermost
     | None \<Rightarrow> resolve_name k s node name (is_closed_over \<or> has_closure (scopes s ! k)) close_in_innermost)"

definition resolve_identifier :: "nat \<Rightarrow> bool \<Rightarrow> NameState \<Rightarrow> NameState outcome" where
  "resolve_identifier node close_in_innermost s =
     obind (name_of_node s Tag_Identifier node) (\<lambda>name.
       resolve_name (length (scopes s)) s node name False close_in_innermost)"

text \<open>
  A new entry of the innermost scope with the next rank; the result says whether there was room.
\<close>

definition define_name :: "u32 \<Rightarrow> nat option \<Rightarrow> nat \<Rightarrow> NameState \<Rightarrow> (bool \<times> NameState) outcome" where
  "define_name name definition_node error_source s =
     obind (top_scope s) (\<lambda>scope.
     obind (scope_map_add s scope name (empty_entry\<lparr>entry_rank := scope_used scope, entry_definition := definition_node\<rparr>)
              (Some error_source)) (\<lambda>(new_scope, s).
     case new_scope of
       None \<Rightarrow> Inr (False, s)
     | Some m \<Rightarrow> Inr (True, set_top_scope s m)))"

definition resolve_func :: "resolve_call \<Rightarrow> nat \<Rightarrow> bool \<Rightarrow> NameState \<Rightarrow> NameState outcome" where
  "resolve_func resolve node close_in_innermost s =
     obind (first_child_of (nodes s) node) (\<lambda>signature.
     obind (resolve signature False close_in_innermost False s) (\<lambda>s.
     obind (closure_at s (scopes_top s)) (\<lambda>closure.
     let s = s\<lparr>closures := (closures s)(scopes_top s \<mapsto> scope_map_reset closure)\<rparr> in
     obind (next_sibling_of (nodes s) signature) (\<lambda>body.
     obind (resolve body True close_in_innermost False s) (\<lambda>s.
     obind (closure_at s (scopes_top s)) (\<lambda>closure.
     obind (set_closure_list s closure node) pop_scope))))))"

definition resolve_parameter :: "resolve_call \<Rightarrow> check_call \<Rightarrow> nat \<Rightarrow> NameState \<Rightarrow> NameState outcome" where
  "resolve_parameter resolve check parameter s =
     obind (check_parameter_is_templated check parameter s) (\<lambda>(is_templated, s).
     obind (if is_templated then set_node_flag s parameter Definition_IsTemplatedParam else Inr s) (\<lambda>s.
       resolve parameter True is_templated False s))"

definition resolve_signature :: "resolve_call \<Rightarrow> check_call \<Rightarrow> nat \<Rightarrow> bool \<Rightarrow> NameState \<Rightarrow> NameState outcome" where
  "resolve_signature resolve check node do_pop s =
     obind (get_signature_info (nodes s) node) (\<lambda>info.
     ensure Todo (expects info = None) (ensure Todo (ensures info = None)
     (obind (push_new_scope Kind_Signature s) (\<lambda>s.
      obind (push_new_closure s) (\<lambda>s.
      obind (for_children (parameters info) (resolve_parameter resolve check) s) (\<lambda>s.
      obind (check (return_type info) True s) (\<lambda>(return_type_is_templated, s).
      obind (if return_type_is_templated then set_node_flag s node Signature_HasTemplatedReturnType else Inr s) (\<lambda>s.
      obind (resolve (return_type info) True return_type_is_templated False s) (\<lambda>s.
      obind (closure_at s (scopes_top s)) (\<lambda>closure.
      obind (set_closure_list s closure node) (\<lambda>s.
        if do_pop then pop_scope s else Inr s)))))))))))"

text \<open>The siblings behind a node, all of them definitions.\<close>

fun resolve_members :: "nat \<Rightarrow> resolve_call \<Rightarrow> nat \<Rightarrow> bool \<Rightarrow> NameState \<Rightarrow> NameState outcome" where
  "resolve_members rounds resolve cur close_in_innermost s =
     obind (has_next_sibling_at (nodes s) cur) (\<lambda>more_siblings.
     if \<not> more_siblings then Inr s
     else case rounds of
       0 \<Rightarrow> Inl Diverge
     | Suc r \<Rightarrow>
         obind (next_sibling_of (nodes s) cur) (\<lambda>cur.
         obind (tag_at (nodes s) cur) (\<lambda>tg.
         ensure Assertion (tg = Tag_Definition)
         (obind (resolve cur True close_in_innermost False s) (resolve_members r resolve cur close_in_innermost)))))"

declare resolve_members.simps [simp del]

definition trait_parameter :: "nat \<Rightarrow> nat \<Rightarrow> NameState \<Rightarrow> (unit option \<times> NameState) outcome" where
  "trait_parameter node parameter s =
     obind (name_of_node s Tag_Identifier parameter) (\<lambda>name.
     obind (define_name name None node s) (\<lambda>(ok, s). Inr (if ok then None else Some (), s)))"

definition resolve_trait :: "resolve_call \<Rightarrow> nat \<Rightarrow> bool \<Rightarrow> NameState \<Rightarrow> NameState outcome" where
  "resolve_trait resolve node close_in_innermost s =
     obind (has_flag_at s node Trait_HasExpects) (\<lambda>exps.
     ensure Todo (\<not> exps)
     (obind (push_new_scope Kind_TraitSignature s) (\<lambda>s.
      obind (push_new_closure s) (\<lambda>s.
      obind (first_child_of (nodes s) node) (\<lambda>params.
      obind (tag_at (nodes s) params) (\<lambda>tg.
      ensure Assertion (tg = Tag_TraitParameterList)
      (obind (direct_children_of (nodes s) params) (\<lambda>it.
       obind (over_children (ast_used (trees s)) (trait_parameter node) it s) (\<lambda>(full, s).
       if full \<noteq> None then Inr s
       else
         obind (push_new_scope Kind_Global s) (\<lambda>s.
         obind (resolve_members (ast_used (trees s)) resolve params close_in_innermost s) (\<lambda>s.
         obind (pop_scope s) pop_scope)))))))))))"

definition resolve_impl :: "resolve_call \<Rightarrow> nat \<Rightarrow> bool \<Rightarrow> NameState \<Rightarrow> NameState outcome" where
  "resolve_impl resolve node close_in_innermost s =
     obind (first_child_of (nodes s) node) (\<lambda>on.
     obind (resolve on True close_in_innermost False s) (\<lambda>s.
     obind (next_sibling_of (nodes s) on) (\<lambda>trait.
     obind (resolve trait True close_in_innermost False s) (\<lambda>s.
     obind (push_new_scope Kind_Global s) (\<lambda>s.
     obind (push_new_closure s) (\<lambda>s.
     obind (resolve_members (ast_used (trees s)) resolve trait close_in_innermost s) (\<lambda>s.
     obind (closure_at s (scopes_top s)) (\<lambda>closure.
     obind (set_closure_list s closure node) pop_scope))))))))"

text \<open>The last branch: any other node, with the scope it may open and the name it may define.\<close>

definition resolve_child :: "resolve_call \<Rightarrow> bool \<Rightarrow> bool \<Rightarrow> nat \<Rightarrow> NameState \<Rightarrow> NameState outcome" where
  "resolve_child resolve close_in_innermost ignore_child_definitions child s =
     obind (tag_at (nodes s) child) (\<lambda>tg.
       if tg = Tag_Where then Inr s else resolve child True close_in_innermost ignore_child_definitions s)"

definition resolve_other :: "resolve_call \<Rightarrow> nat \<Rightarrow> bool \<Rightarrow> bool \<Rightarrow> NameState \<Rightarrow> NameState outcome" where
  "resolve_other resolve node close_in_innermost ignore_definition s =
     obind (push_scope_for_node resolve node close_in_innermost s) (\<lambda>(has_scope, s).
     obind (tag_at (nodes s) node) (\<lambda>tg.
     obind (if \<not> ignore_definition \<and> (tg = Tag_Definition \<or> tg = Tag_Parameter) then
              obind (name_of_node s tg node) (\<lambda>name. define_name name (Some node) node s)
            else Inr (True, s)) (\<lambda>(ok, s).
     if \<not> ok then Inr s
     else
       obind (for_children node (resolve_child resolve close_in_innermost (tg = Tag_Call)) s) (\<lambda>s.
         if has_scope then pop_scope s else Inr s))))"

definition resolve_names_step :: "resolve_call \<Rightarrow> check_call \<Rightarrow> resolve_call" where
  "resolve_names_step resolve check node do_pop close_in_innermost ignore_definition s =
     ensure Assertion (scopes s \<noteq> [] \<and> length (scopes s) \<le> MAX_AST_DEPTH)
     (obind (tag_at (nodes s) node) (\<lambda>tg.
      ensure Assertion ((do_pop \<or> tg = Tag_Signature) \<and> tg \<noteq> Tag_Where)
      (if tg = Tag_Identifier then resolve_identifier node close_in_innermost s
       else if tg = Tag_Func then resolve_func resolve node close_in_innermost s
       else if tg = Tag_Signature then resolve_signature resolve check node do_pop s
       else if tg = Tag_Trait then resolve_trait resolve node close_in_innermost s
       else if tg = Tag_Impl then resolve_impl resolve node close_in_innermost s
       else resolve_other resolve node close_in_innermost ignore_definition s)))"

fun resolve_names_rec :: "nat \<Rightarrow> resolve_call" where
  "resolve_names_rec 0 node do_pop close_in_innermost ignore_definition s = Inl Diverge"
| "resolve_names_rec (Suc levels) node do_pop close_in_innermost ignore_definition s =
     resolve_names_step (resolve_names_rec levels) (check_expression_is_templated levels)
       node do_pop close_in_innermost ignore_definition s"

section \<open>Files\<close>

text \<open>The names at the top level are defined before the walk; \<open>scope\<close> and \<open>rank\<close> are its locals.\<close>

fun global_names ::
  "nat \<Rightarrow> AstDirectChildIterator \<Rightarrow> ScopeMap \<Rightarrow> nat \<Rightarrow> NameState \<Rightarrow> (ScopeMap option \<times> NameState) outcome" where
  "global_names rounds it scope rank s =
     (if it = None then Inr (Some scope, s)
      else case rounds of
        0 \<Rightarrow> Inl Diverge
      | Suc r \<Rightarrow>
          obind (next_direct_child (nodes s) it) (\<lambda>(node, it).
          obind (tag_at (nodes s) node) (\<lambda>tg.
          ensure Assertion (tg \<noteq> Tag_Identifier)
          (if tg \<noteq> Tag_Definition then global_names r it scope rank s
           else
             obind (name_of_node s Tag_Definition node) (\<lambda>name.
             obind (scope_map_add s scope name (empty_entry\<lparr>entry_rank := rank, entry_definition := Some node\<rparr>) (Some node))
               (\<lambda>(new_scope, s).
             case new_scope of
               None \<Rightarrow> Inr (None, s)
             | Some scope \<Rightarrow> global_names r it scope ((rank + 1) mod 2 ^ 16) s))))))"

declare global_names.simps [simp del]

definition resolve_root_child :: "resolve_call \<Rightarrow> nat \<Rightarrow> NameState \<Rightarrow> NameState outcome" where
  "resolve_root_child resolve node s =
     obind (tag_at (nodes s) node) (\<lambda>tg.
     if tg = Tag_Definition then
       obind (first_child_of (nodes s) node) (\<lambda>child.
       obind (resolve child True True False s) (\<lambda>s.
       obind (has_next_sibling_at (nodes s) child) (\<lambda>more_siblings.
       if more_siblings then
         obind (next_sibling_of (nodes s) child) (\<lambda>child.
         obind (resolve child True True False s) (\<lambda>s. no_more_siblings (nodes s) child s))
       else Inr s)))
     else resolve node True True False s)"

text \<open>A tree is no deeper than \<open>MAX_AST_DEPTH\<close>, since \<open>complete_ast\<close> panics on a deeper one.\<close>

definition resolve_names_root :: "nat \<Rightarrow> u32 \<Rightarrow> NameState \<Rightarrow> NameState outcome" where
  "resolve_names_root root file_id s =
     (let s = s\<lparr>active_file_id := file_id\<rparr> in
      obind (scope_map_alloc s Kind_Global) (\<lambda>(scope, s).
      obind (direct_children_of (nodes s) root) (\<lambda>it.
      obind (global_names (ast_used (trees s)) it scope 0 s) (\<lambda>(scope, s).
      case scope of
        None \<Rightarrow> Inr s
      | Some scope \<Rightarrow>
          obind (push_scope s scope) (for_children root (resolve_root_child (resolve_names_rec MAX_AST_DEPTH)))))))"

definition lexical_analyser_validate_config :: bool where
  "lexical_analyser_validate_config = True"

text \<open>The sizes of the ranges that are asked for: none.\<close>

definition lexical_analyser_memory_requirements :: "u64 list" where
  "lexical_analyser_memory_requirements = []"

definition lexical_analyser_init :: "NameState \<Rightarrow> NameState" where
  "lexical_analyser_init s = s\<lparr>scopes := [], lex_has_error := False\<rparr>"

definition set_prelude_scope :: "nat \<Rightarrow> u32 \<Rightarrow> NameState \<Rightarrow> (bool \<times> NameState) outcome" where
  "set_prelude_scope prelude file_id s =
     ensure Assertion (scopes s = [])
     (obind (tag_at (nodes s) prelude) (\<lambda>tg.
      ensure Assertion (tg = Tag_File)
      (let mark = temp_stack_mark (temp s); s = s\<lparr>prelude_file_id := file_id\<rparr> in
       obind (resolve_names_root prelude file_id s) (\<lambda>s.
       ensure Assertion (length (scopes s) = 1)
       (obind (comp_heap_alloc (name_heap s) (scope_map_size (scope_capacity (scopes s ! 0))) 8) (\<lambda>(allocation, h).
        ensure Panic (allocation \<noteq> None)
        (obind (temp_stack_release (temp s) mark) (\<lambda>t.
           Inr (\<not> lex_has_error s, s\<lparr>name_heap := h, temp := t\<rparr>)))))))))"

definition resolve_names :: "nat \<Rightarrow> u32 \<Rightarrow> NameState \<Rightarrow> (bool \<times> NameState) outcome" where
  "resolve_names root file_id s =
     ensure Assertion (length (scopes s) = 1)
     (obind (tag_at (nodes s) root) (\<lambda>tg.
      ensure Assertion (tg = Tag_File)
      (let mark = temp_stack_mark (temp s) in
       obind (resolve_names_root root file_id s) (\<lambda>s.
       obind (pop_scope s) (\<lambda>s.
       ensure Assertion (length (scopes s) = 1)
       (obind (temp_stack_release (temp s) mark) (\<lambda>t. Inr (\<not> lex_has_error s, s\<lparr>temp := t\<rparr>))))))))"

end
