(* ===== verification/ScopeMaps.thy ===== *)
theory ScopeMaps
  imports NameScopes CompHeapLists
begin

text \<open>
  The map of a scope implements a finite map from names to entries: the probe loops by words and
  masks against probing by index, the invariant of the table, and what each operation does to the
  map it stands for.
\<close>

section \<open>Runs that do not use up a budget\<close>

text \<open>\<open>holds x Q\<close>: the run \<open>x\<close> does not exceed its budget, and if it returns a value the value satisfies \<open>Q\<close>.\<close>

definition holds :: "'a outcome \<Rightarrow> ('a \<Rightarrow> bool) \<Rightarrow> bool" where
  "holds x Q \<longleftrightarrow> (case x of Inl e \<Rightarrow> e \<noteq> Diverge | Inr a \<Rightarrow> Q a)"

lemma holds_simps [simp]: "holds (Inl e) Q \<longleftrightarrow> e \<noteq> Diverge" "holds (Inr a) Q \<longleftrightarrow> Q a"
  by (simp_all add: holds_def)

lemma holds_bind [simp]: "holds (obind x f) Q \<longleftrightarrow> holds x (\<lambda>a. holds (f a) Q)"
  by (cases x) simp_all

lemma holds_ensure [simp]: "holds (ensure e b x) Q \<longleftrightarrow> (if b then holds x Q else e \<noteq> Diverge)"
  by (simp add: ensure_def)

lemma holds_mono: "holds x P \<Longrightarrow> (\<And>a. x = Inr a \<Longrightarrow> P a \<Longrightarrow> Q a) \<Longrightarrow> holds x Q"
  by (cases x) auto

lemma holds_conj: "holds x P \<Longrightarrow> holds x Q \<Longrightarrow> holds x (\<lambda>a. P a \<and> Q a)"
  by (cases x) auto

lemma holds_Inr: "holds x Q \<Longrightarrow> x = Inr a \<Longrightarrow> Q a"
  by simp

section \<open>Probing\<close>

abbreviation occupied :: "ScopeMap \<Rightarrow> nat \<Rightarrow> bool" where
  "occupied m i \<equiv> slot_marked (occupied_bits m) i"

lemma first_probe_bit: "first_probe m i = (i, w, b) \<Longrightarrow> w AND b = 0 \<longleftrightarrow> \<not> occupied m i"
  by (auto simp: first_probe_def slot_marked_def)

lemma top_bit_negative:
  assumes "k < 64"
  shows "sint (push_bit k 1 :: u64) < 0 \<longleftrightarrow> k = 63"
proof -
  have "sint (push_bit k 1 :: u64) < 0 \<longleftrightarrow> bit (push_bit k 1 :: u64) 63"
    by (simp add: bit_last_iff [symmetric, of "push_bit k 1 :: u64", simplified])
  also have "\<dots> \<longleftrightarrow> k = 63" using assms by (auto simp: bit_exp_iff)
  finally show ?thesis .
qed

text \<open>The step by word and mask is the step to the next index, modulo the capacity.\<close>

lemma next_probe_step:
  assumes "i < scope_capacity m"
  shows "next_probe m (first_probe m i) = first_probe m ((i + 1) mod scope_capacity m)"
proof -
  have step: "next_probe m (first_probe m i) =
      (if i + 1 = scope_capacity m then (0, occupied_bits m 0, 1)
       else if sint (push_bit (i mod 64) 1 :: u64) < 0 then (i + 1, occupied_bits m ((i + 1) div 64), 1)
       else (i + 1, occupied_bits m (i div 64), push_bit 1 (push_bit (i mod 64) 1)))"
    by (simp only: next_probe_def first_probe_def Let_def prod.case)
  have neg: "sint (push_bit (i mod 64) 1 :: u64) < 0 \<longleftrightarrow> i mod 64 = 63" by (rule top_bit_negative) simp
  show ?thesis
  proof (cases "i + 1 = scope_capacity m")
    case True
    then have "(i + 1) mod scope_capacity m = 0" by simp
    then show ?thesis unfolding step using True by (simp add: first_probe_def)
  next
    case False
    then have in_range: "(i + 1) mod scope_capacity m = i + 1" using assms by simp
    show ?thesis
    proof (cases "i mod 64 = 63")
      case True
      then have "(i + 1) mod 64 = 0" by (simp add: mod_Suc)
      then show ?thesis unfolding step in_range neg using False True by (simp add: first_probe_def)
    next
      case other: False
      have "(i + 1) div 64 = i div 64" "(i + 1) mod 64 = 1 + i mod 64"
        using other by (simp_all add: div_Suc mod_Suc)
      then show ?thesis unfolding step in_range neg unfolding first_probe_def
        using False other by (simp only: if_False push_bit_push_bit)
    qed
  qed
qed

text \<open>All places from \<open>h\<close> on up to the distance \<open>d\<close> are taken by other names.\<close>

definition passed :: "ScopeMap \<Rightarrow> u32 \<Rightarrow> nat \<Rightarrow> nat \<Rightarrow> bool" where
  "passed m name h d \<longleftrightarrow> (\<forall>e < d. occupied m ((h + e) mod scope_capacity m) \<and> scope_names m ((h + e) mod scope_capacity m) \<noteq> name)"

lemma passed_Suc:
  "passed m name h (Suc d) \<longleftrightarrow> occupied m (h mod scope_capacity m) \<and> scope_names m (h mod scope_capacity m) \<noteq> name \<and> passed m name (h + 1) d"
  unfolding passed_def by (auto simp: less_Suc_eq_0_disj)

lemma add_probe_passed:
  "0 < scope_capacity m \<Longrightarrow> passed m name h d \<Longrightarrow>
   add_probe (d + k) m name (first_probe m (h mod scope_capacity m)) = add_probe k m name (first_probe m ((h + d) mod scope_capacity m))"
proof (induction d arbitrary: h)
  case (Suc d)
  let ?c = "scope_capacity m"
  obtain w b where fp: "first_probe m (h mod ?c) = (h mod ?c, w, b)" by (simp add: first_probe_def)
  have taken: "occupied m (h mod ?c)" "scope_names m (h mod ?c) \<noteq> name" "passed m name (h + 1) d"
    using Suc.prems(2) by (simp_all add: passed_Suc)
  have "next_probe m (h mod ?c, w, b) = first_probe m ((h + 1) mod ?c)"
    using next_probe_step [of "h mod ?c" m] fp Suc.prems(1) by (simp add: mod_Suc_eq)
  then have "add_probe (Suc d + k) m name (first_probe m (h mod ?c)) = add_probe (d + k) m name (first_probe m ((h + 1) mod ?c))"
    using fp first_probe_bit [OF fp] taken(1,2) by simp
  then show ?case using Suc.IH [OF Suc.prems(1) taken(3)] by simp
qed (simp add: passed_def)

lemma get_probe_passed:
  "0 < scope_capacity m \<Longrightarrow> passed m name h d \<Longrightarrow> (\<And>e. 0 < e \<Longrightarrow> e \<le> d \<Longrightarrow> (h + e) mod scope_capacity m \<noteq> i0) \<Longrightarrow>
   get_probe (d + k) m name i0 (first_probe m (h mod scope_capacity m)) = get_probe k m name i0 (first_probe m ((h + d) mod scope_capacity m))"
proof (induction d arbitrary: h)
  case (Suc d)
  let ?c = "scope_capacity m"
  obtain w b where fp: "first_probe m (h mod ?c) = (h mod ?c, w, b)" by (simp add: first_probe_def)
  have taken: "occupied m (h mod ?c)" "scope_names m (h mod ?c) \<noteq> name" "passed m name (h + 1) d"
    using Suc.prems(2) by (simp_all add: passed_Suc)
  have "next_probe m (h mod ?c, w, b) = first_probe m ((h + 1) mod ?c)"
    using next_probe_step [of "h mod ?c" m] fp Suc.prems(1) by (simp add: mod_Suc_eq)
  moreover have "fst (first_probe m ((h + 1) mod ?c)) = (h + 1) mod ?c" by (simp add: first_probe_def)
  moreover have "(h + 1) mod ?c \<noteq> i0" using Suc.prems(3) [of 1] by simp
  ultimately have "get_probe (Suc d + k) m name i0 (first_probe m (h mod ?c)) = get_probe (d + k) m name i0 (first_probe m ((h + 1) mod ?c))"
    using fp first_probe_bit [OF fp] taken(1,2) by simp
  moreover have "(h + 1 + e) mod ?c \<noteq> i0" if "0 < e" "e \<le> d" for e using Suc.prems(3) [of "Suc e"] that by simp
  ultimately show ?case using Suc.IH [OF Suc.prems(1) taken(3)] by simp
qed (simp add: passed_def)

section \<open>The invariant of a map\<close>

text \<open>A name is found by probing from its home index.\<close>

definition reached :: "ScopeMap \<Rightarrow> nat \<Rightarrow> bool" where
  "reached m i \<longleftrightarrow> (\<exists>d < scope_capacity m. i = (home_index m (scope_names m i) + d) mod scope_capacity m
     \<and> (\<forall>e < d. occupied m ((home_index m (scope_names m i) + e) mod scope_capacity m)))"

definition scope_ok :: "ScopeMap \<Rightarrow> bool" where
  "scope_ok m \<longleftrightarrow> (\<exists>j. 3 \<le> j \<and> j \<le> 16 \<and> scope_capacity m = 2 ^ j)
     \<and> (\<forall>i. occupied m i \<longrightarrow> i < scope_capacity m \<and> reached m i)
     \<and> inj_on (scope_names m) {i. occupied m i} \<and> scope_used m = card {i. occupied m i}
     \<and> scope_used m \<le> MAX_SCOPE_ENTRY_COUNT \<and> 3 * scope_used m \<le> 2 * scope_capacity m + 3"

text \<open>The finite map that a map of a scope stands for.\<close>

definition scope_abs :: "ScopeMap \<Rightarrow> u32 \<Rightarrow> ScopeEntry option" where
  "scope_abs m = map_of (map (\<lambda>i. (scope_names m i, scope_entries m i)) (filter (occupied m) [0 ..< scope_capacity m]))"

lemma scope_abs_Some:
  assumes "scope_ok m"
  shows "scope_abs m name = Some e \<longleftrightarrow> (\<exists>i. occupied m i \<and> scope_names m i = name \<and> scope_entries m i = e)"
proof -
  have "set (filter (occupied m) [0 ..< scope_capacity m]) = {i. occupied m i}"
    using assms by (auto simp: scope_ok_def)
  moreover from this have "distinct (map fst (map (\<lambda>i. (scope_names m i, scope_entries m i)) (filter (occupied m) [0 ..< scope_capacity m])))"
    using assms by (auto simp: scope_ok_def distinct_map comp_def)
  ultimately show ?thesis unfolding scope_abs_def by (auto simp: map_of_eq_Some_iff)
qed

lemma scope_abs_None:
  assumes "scope_ok m"
  shows "scope_abs m name = None \<longleftrightarrow> (\<forall>i. occupied m i \<longrightarrow> scope_names m i \<noteq> name)"
  using scope_abs_Some [OF assms, of name] by (metis not_None_eq option.exhaust)

lemma home_index_less: "scope_capacity m = 2 ^ j \<Longrightarrow> j \<le> 31 \<Longrightarrow> home_index m name < scope_capacity m"
proof -
  assume c: "scope_capacity m = 2 ^ j" "j \<le> 31"
  have "(of_nat (2 ^ j - 1) :: u32) = mask j"
    by (simp add: mask_eq_exp_minus_1 of_nat_diff)
  then have "home_index m name = unat (take_bit j (name_hash name))" using c by (simp add: home_index_def take_bit_eq_mask)
  also have "\<dots> < 2 ^ j" using c(2) by (simp add: unsigned_take_bit_eq)
  finally show ?thesis using c by simp
qed

lemma finite_occupied: "scope_ok m \<Longrightarrow> finite {i. occupied m i}"
  by (rule finite_subset [of _ "{..<scope_capacity m}"]) (auto simp: scope_ok_def)

lemma scope_room:
  assumes "scope_ok m"
  shows "scope_used m < scope_capacity m"
proof -
  obtain j where j: "3 \<le> j" "scope_capacity m = 2 ^ j" using assms by (auto simp: scope_ok_def)
  then have "(2 :: nat) ^ 3 \<le> scope_capacity m" by (simp only: power_increasing)
  then show ?thesis using assms by (simp add: scope_ok_def)
qed

lemma ring_inj_le: "(h + d) mod c = (h + e) mod c \<Longrightarrow> d < c \<Longrightarrow> e \<le> d \<Longrightarrow> d = (e :: nat)"
  using mod_eq_dvd_iff_nat [of "h + e" "h + d" c] by (auto dest: dvd_imp_le)

lemma ring_inj: "(h + d) mod c = (h + e) mod c \<Longrightarrow> d < c \<Longrightarrow> e < c \<Longrightarrow> d = (e :: nat)"
  using ring_inj_le [of h d c e] ring_inj_le [of h e c d] by (cases "e \<le> d") auto

text \<open>Where a search for a name ends: at its place, or at a free one.\<close>

lemma search_ends:
  assumes "scope_ok m"
  obtains d where "d < scope_capacity m" and "passed m name (home_index m name) d"
    and "occupied m ((home_index m name + d) mod scope_capacity m) \<Longrightarrow> scope_names m ((home_index m name + d) mod scope_capacity m) = name"
    and "\<And>i. occupied m i \<Longrightarrow> scope_names m i = name \<Longrightarrow> i = (home_index m name + d) mod scope_capacity m"
proof -
  let ?c = "scope_capacity m" and ?h = "home_index m name"
  obtain j where j: "?c = 2 ^ j" "j \<le> 16" using assms(1) by (auto simp: scope_ok_def)
  have h: "?h < ?c" using home_index_less [OF j(1)] j(2) by simp
  let ?stop = "\<lambda>d. occupied m ((?h + d) mod ?c) \<longrightarrow> scope_names m ((?h + d) mod ?c) = name"
  have "\<not> {..<?c} \<subseteq> {i. occupied m i}"
    using card_mono [OF finite_occupied [OF assms(1)], of "{..<?c}"] scope_room [OF assms] assms by (auto simp: scope_ok_def)
  then obtain i where i: "i < ?c" "\<not> occupied m i" by auto
  have "\<exists>d < ?c. (?h + d) mod ?c = i"
  proof (cases "?h \<le> i")
    case True
    then show ?thesis using i(1) by (intro exI [of _ "i - ?h"]) simp
  next
    case False
    then have "?h + (i + ?c - ?h) = i + ?c" "i + ?c - ?h < ?c" using h by simp_all
    then show ?thesis using i(1) by (intro exI [of _ "i + ?c - ?h"]) simp
  qed
  then have ex: "\<exists>d. d < ?c \<and> ?stop d" using i(2) by blast
  define d where "d = (LEAST d. d < ?c \<and> ?stop d)"
  have d: "d < ?c" "?stop d" unfolding d_def using LeastI_ex [OF ex] by blast+
  have before: "\<not> ?stop e" if "e < d" for e
    using not_less_Least [of e "\<lambda>d. d < ?c \<and> ?stop d"] that d(1) unfolding d_def [symmetric] by simp
  have "passed m name ?h d" unfolding passed_def using before by blast
  moreover have "i = (?h + d) mod ?c" if "occupied m i" "scope_names m i = name" for i
  proof -
    have "reached m i" using assms(1) that(1) unfolding scope_ok_def by blast
    then have "\<exists>e < ?c. i = (?h + e) mod ?c \<and> (\<forall>f < e. occupied m ((?h + f) mod ?c))"
      using that(2) by (simp only: reached_def)
    then obtain e where e: "e < ?c" "i = (?h + e) mod ?c" "\<forall>f < e. occupied m ((?h + f) mod ?c)" by blast
    have "\<not> e < d" using before [of e] e(2) that(2) by auto
    moreover have "e \<le> d"
    proof (rule ccontr)
      assume "\<not> e \<le> d"
      then have at: "occupied m ((?h + d) mod ?c)" "scope_names m ((?h + d) mod ?c) = name" using e(3) d(2) by auto
      then have "(?h + d) mod ?c = i"
        using assms(1) that unfolding scope_ok_def by (auto dest: inj_onD)
      then have "(?h + d) mod ?c = (?h + e) mod ?c" using e(2) by simp
      then have "d = e" using d(1) e(1) by (rule ring_inj)
      then show False using \<open>\<not> e \<le> d\<close> by simp
    qed
    ultimately show ?thesis using e(2) by simp
  qed
  ultimately show thesis using that d by blast
qed

lemma scope_capacity_pos: "scope_ok m \<Longrightarrow> 0 < scope_capacity m"
  using scope_room [of m] by simp

lemma home_in_range: "scope_ok m \<Longrightarrow> home_index m name < scope_capacity m"
  using home_index_less [of m] by (auto simp: scope_ok_def)

section \<open>Lookup\<close>

lemma scope_map_get_ok:
  assumes "scope_ok m"
  shows "scope_map_get m name = Inr (scope_abs m name)"
proof -
  let ?c = "scope_capacity m" and ?h = "home_index m name"
  obtain d where d: "d < ?c" "passed m name ?h d"
    "occupied m ((?h + d) mod ?c) \<Longrightarrow> scope_names m ((?h + d) mod ?c) = name"
    "\<And>i. occupied m i \<Longrightarrow> scope_names m i = name \<Longrightarrow> i = (?h + d) mod ?c"
    using search_ends [OF assms] by blast
  let ?i = "(?h + d) mod ?c"
  have h: "?h mod ?c = ?h" using home_in_range [OF assms] by simp
  have away: "(?h + e) mod ?c \<noteq> ?h" if "0 < e" "e \<le> d" for e
    using ring_inj [of ?h e ?c 0] that d(1) h by auto
  obtain w b where fp: "first_probe m ?i = (?i, w, b)" by (simp add: first_probe_def)
  have "?c + 1 = d + Suc (?c - d)" using d(1) by simp
  then have "scope_map_get m name = get_probe (Suc (?c - d)) m name ?h (first_probe m ?i)"
    using get_probe_passed [OF scope_capacity_pos [OF assms] d(2) away, of "Suc (?c - d)"] h
    by (simp add: scope_map_get_def Let_def del: get_probe.simps)
  then have run: "scope_map_get m name = (if occupied m ?i then Inr (Some (scope_entries m ?i)) else Inr None)"
    using fp first_probe_bit [OF fp] d(3) by simp
  show ?thesis
  proof (cases "occupied m ?i")
    case True
    then have "scope_abs m name = Some (scope_entries m ?i)" using scope_abs_Some [OF assms] d(3) by blast
    then show ?thesis using run True by simp
  next
    case False
    then have "scope_abs m name = None" using scope_abs_None [OF assms] d(4) by blast
    then show ?thesis using run False by simp
  qed
qed

section \<open>Insertion\<close>

lemma occupied_put [simp]: "occupied (put_entry m i name e) k \<longleftrightarrow> k = i \<or> occupied m k"
  using mark_slot [of "occupied_bits m" i k] by (simp add: put_entry_def mark_slot_def)

lemma put_entry_fields [simp]:
  "scope_capacity (put_entry m i name e) = scope_capacity m" "scope_used (put_entry m i name e) = scope_used m + 1"
  "scope_kind (put_entry m i name e) = scope_kind m" "has_closure (put_entry m i name e) = has_closure m"
  "scope_names (put_entry m i name e) = (scope_names m)(i := name)"
  "scope_entries (put_entry m i name e) = (scope_entries m)(i := e)"
  "home_index (put_entry m i name e) = home_index m"
  by (simp_all add: put_entry_def home_index_def fun_eq_iff)

definition same_scope :: "ScopeMap \<Rightarrow> ScopeMap \<Rightarrow> bool" where
  "same_scope m m' \<longleftrightarrow> scope_kind m' = scope_kind m \<and> has_closure m' = has_closure m"

lemma scope_map_put_ok:
  assumes "scope_ok m" and "scope_used m < MAX_SCOPE_ENTRY_COUNT" and "scope_used m * 3 \<le> scope_capacity m * 2"
    and "\<not> occupied m ((home_index m name + d) mod scope_capacity m)" and "d < scope_capacity m" and "passed m name (home_index m name) d"
    and "scope_abs m name = None"
  shows "scope_ok (put_entry m ((home_index m name + d) mod scope_capacity m) name e)"
    and "scope_abs (put_entry m ((home_index m name + d) mod scope_capacity m) name e) = (scope_abs m)(name \<mapsto> e)"
proof -
  let ?c = "scope_capacity m" and ?i = "(home_index m name + d) mod scope_capacity m"
  let ?m = "put_entry m ?i name e"
  have set: "{k. occupied ?m k} = insert ?i {k. occupied m k}" by auto
  have fresh: "scope_names m k \<noteq> name" if "occupied m k" for k
    using scope_abs_None [OF assms(1), of name] assms(7) that by blast
  have inj: "inj_on (scope_names ?m) {k. occupied ?m k}"
    using assms(1,4) fresh unfolding set by (auto simp: scope_ok_def inj_on_def)
  have card: "card {k. occupied ?m k} = scope_used m + 1"
    using assms(1,4) finite_occupied [OF assms(1)] unfolding set by (simp add: scope_ok_def)
  have "reached ?m k" if "occupied ?m k" for k
  proof (cases "k = ?i")
    case True
    have "occupied ?m ((home_index m name + f) mod ?c)" if "f < d" for f using assms(6) that by (auto simp: passed_def)
    then show ?thesis using True assms(5) unfolding reached_def by (intro exI [of _ d]) simp
  next
    case False
    then have k: "occupied m k" using that by simp
    then have "reached m k" using assms(1) by (simp add: scope_ok_def)
    then show ?thesis using False by (auto simp: reached_def)
  qed
  moreover have "?i < ?c" using scope_capacity_pos [OF assms(1)] by simp
  moreover have "\<forall>k. occupied m k \<longrightarrow> k < ?c" "\<exists>j. 3 \<le> j \<and> j \<le> 16 \<and> ?c = 2 ^ j" using assms(1) by (simp_all add: scope_ok_def)
  moreover have "scope_used m + 1 \<le> MAX_SCOPE_ENTRY_COUNT" "3 * (scope_used m + 1) \<le> 2 * ?c + 3" using assms(2,3) by simp_all
  ultimately show ok: "scope_ok ?m"
    using inj card by (auto simp only: scope_ok_def put_entry_fields occupied_put)
  have "scope_abs ?m x = Some v \<longleftrightarrow> ((scope_abs m)(name \<mapsto> e)) x = Some v" for x v
  proof -
    have "scope_abs ?m x = Some v \<longleftrightarrow> (\<exists>k. occupied ?m k \<and> scope_names ?m k = x \<and> scope_entries ?m k = v)"
      by (rule scope_abs_Some [OF ok])
    also have "\<dots> \<longleftrightarrow> (if x = name then v = e else \<exists>k. occupied m k \<and> scope_names m k = x \<and> scope_entries m k = v)"
    proof (cases "x = name")
      case False
      have "k \<noteq> ?i" if "occupied m k" for k using that assms(4) by auto
      then show ?thesis using False by (simp cong: conj_cong) blast
    qed (use fresh in auto)
    also have "\<dots> \<longleftrightarrow> ((scope_abs m)(name \<mapsto> e)) x = Some v" using scope_abs_Some [OF assms(1)] by auto
    finally show ?thesis .
  qed
  then show "scope_abs ?m = (scope_abs m)(name \<mapsto> e)" by (metis ext not_Some_eq)
qed

lemma add_nogrow_ok:
  assumes "scope_ok m" and "scope_used m < MAX_SCOPE_ENTRY_COUNT" and "scope_used m * 3 \<le> scope_capacity m * 2"
  shows "if scope_abs m name = None
    then \<exists>m'. scope_map_add_nogrow chk s m name e src = Inr (m', s) \<and> scope_ok m' \<and> scope_abs m' = (scope_abs m)(name \<mapsto> e)
      \<and> scope_used m' = scope_used m + 1 \<and> same_scope m m' \<and> scope_capacity m' = scope_capacity m
    else scope_map_add_nogrow chk s m name e src =
      (if chk then obind (name_error s src ScopeDuplicateName) (\<lambda>s. Inr (m, s)) else Inl Assertion)"
proof -
  let ?c = "scope_capacity m" and ?h = "home_index m name"
  obtain d where d: "d < ?c" "passed m name ?h d"
    "occupied m ((?h + d) mod ?c) \<Longrightarrow> scope_names m ((?h + d) mod ?c) = name"
    "\<And>i. occupied m i \<Longrightarrow> scope_names m i = name \<Longrightarrow> i = (?h + d) mod ?c"
    using search_ends [OF assms(1)] by blast
  let ?i = "(?h + d) mod ?c"
  have h: "?h mod ?c = ?h" using home_in_range [OF assms(1)] by simp
  obtain w b where fp: "first_probe m ?i = (?i, w, b)" by (simp add: first_probe_def)
  have "?c + 1 = d + Suc (?c - d)" using d(1) by simp
  then have "add_probe (?c + 1) m name (first_probe m ?h) = add_probe (Suc (?c - d)) m name (first_probe m ?i)"
    using add_probe_passed [OF scope_capacity_pos [OF assms(1)] d(2), of "Suc (?c - d)"] h by (simp del: add_probe.simps)
  then have probe: "add_probe (?c + 1) m name (first_probe m ?h) = (if occupied m ?i then Inr None else Inr (Some ?i))"
    using fp first_probe_bit [OF fp] d(3) by simp
  note run = scope_map_add_nogrow_def [of chk s m name e src, unfolded probe]
  show ?thesis
  proof (cases "occupied m ?i")
    case True
    then have "scope_abs m name \<noteq> None" using scope_abs_None [OF assms(1)] d(3) by blast
    then show ?thesis using True by (simp add: run del: not_None_eq)
  next
    case False
    then have none: "scope_abs m name = None" using scope_abs_None [OF assms(1)] d(4) by blast
    show ?thesis using False none scope_map_put_ok [OF assms False d(1,2) none]
      by (simp add: run same_scope_def)
  qed
qed

section \<open>Growth\<close>

lemma lowest_bit:
  assumes "(w :: u64) \<noteq> 0"
  obtains z where "count_trailing_zeros_assume_one w = Inr z" and "bit w (unat z)" and "\<And>i. i < unat z \<Longrightarrow> \<not> bit w i" and "unat z < 64"
proof -
  let ?c = "ctz_from 0 64 w"
  have "bit w j \<Longrightarrow> i \<le> j \<Longrightarrow> j < i + k \<Longrightarrow>
      bit w (ctz_from i k w) \<and> ctz_from i k w < i + k \<and> (\<forall>l. i \<le> l \<and> l < ctz_from i k w \<longrightarrow> \<not> bit w l)" for i j k
  proof (induction i k w rule: ctz_from.induct)
    case (2 i k w)
    show ?case
    proof (cases "bit w i")
      case False
      then have "Suc i \<le> j" using 2(2,3) by (cases "i = j") auto
      then have IH: "bit w (ctz_from (Suc i) k w)" "ctz_from (Suc i) k w < Suc i + k"
          "\<And>l. Suc i \<le> l \<Longrightarrow> l < ctz_from (Suc i) k w \<Longrightarrow> \<not> bit w l"
        using 2 False by auto
      have "\<not> bit w l" if "i \<le> l" "l < ctz_from (Suc i) k w" for l using IH(3) [of l] that False by (cases "i = l") auto
      then show ?thesis using IH(1,2) False by simp
    qed (use linorder_not_le in auto)
  qed simp
  moreover obtain j where "bit w j" using assms by (auto simp: bit_eq_iff)
  moreover from this have "j < 64" using bit_imp_le_length [of w j] by simp
  ultimately have c: "bit w ?c" "?c < 64" "\<And>l. l < ?c \<Longrightarrow> \<not> bit w l" by (metis add_0 le0)+
  have "unat (of_nat ?c :: u8) = ?c" using c(2) by (simp add: unsigned_of_nat take_bit_nat_eq_self)
  then show thesis
    using that [of "of_nat ?c"] c assms by (simp add: count_trailing_zeros_assume_one_def ctz_shim_def ctz_builtin_def)
qed

text \<open>The occupied places of a map from the least on.\<close>

definition entry_list :: "ScopeMap \<Rightarrow> nat list \<Rightarrow> (u32 \<times> ScopeEntry) list" where
  "entry_list m is = map (\<lambda>i. (scope_names m i, scope_entries m i)) is"

fun add_all :: "(u32 \<times> ScopeEntry) list \<Rightarrow> ScopeMap \<Rightarrow> NameState \<Rightarrow> (ScopeMap \<times> NameState) outcome" where
  "add_all [] new s = Inr (new, s)"
| "add_all ((name, e) # xs) new s = obind (scope_map_add_nogrow False s new name e None) (\<lambda>(new, s). add_all xs new s)"

lemma add_all_append: "add_all (xs @ ys) new s = obind (add_all xs new s) (\<lambda>(new, s). add_all ys new s)"
  by (induction xs new s rule: add_all.induct) (simp_all add: obind_assoc split_def)

lemma grow_word_list:
  "(\<And>i. i < j \<Longrightarrow> \<not> bit w i) \<Longrightarrow> 64 \<le> j + k \<Longrightarrow>
   grow_word k w base old new s = add_all (entry_list old (map ((+) base) (filter (bit w) [j ..< 64]))) new s"
proof (induction k arbitrary: j w new s)
  case 0
  then have "\<not> bit w i" for i using bit_imp_le_length [of w i] by (cases "i < j") auto
  then have "w = 0" by (intro bit_eqI) simp
  then show ?case by (simp add: entry_list_def)
next
  case (Suc k)
  show ?case
  proof (cases "w = 0")
    case False
    obtain z where z: "count_trailing_zeros_assume_one w = Inr z" "bit w (unat z)" "\<And>i. i < unat z \<Longrightarrow> \<not> bit w i" "unat z < 64"
      using lowest_bit [OF False] by blast
    let ?z = "unat z" and ?w = "w XOR push_bit (unat z) 1"
    have jz: "j \<le> ?z" using Suc.prems(1) z(2) not_less by blast
    have w: "bit ?w i \<longleftrightarrow> bit w i \<and> i \<noteq> ?z" for i
      using z(2,4) bit_imp_le_length [of w i] by (auto simp: bit_xor_iff bit_exp_iff)
    have "[j ..< 64] = [j ..< ?z] @ ?z # [Suc ?z ..< 64]"
      using jz z(4) by (metis le_Suc_ex less_imp_le upt_add_eq_append upt_conv_Cons)
    moreover have "filter (bit w) [j ..< ?z] = []" using z(3) by (auto simp: filter_empty_conv)
    ultimately have list: "filter (bit w) [j ..< 64] = ?z # filter (bit w) [Suc ?z ..< 64]" using z(2) by simp
    have same: "filter (bit ?w) [Suc ?z ..< 64] = filter (bit w) [Suc ?z ..< 64]"
      using w by (intro filter_cong) auto
    have "\<not> bit ?w i" if "i < Suc ?z" for i using that z(3) w by (cases "i = ?z") auto
    then have IH: "grow_word k ?w base old new s = add_all (entry_list old (map ((+) base) (filter (bit w) [Suc ?z ..< 64]))) new s" for new s
      using Suc.IH [of "Suc ?z" ?w new s] Suc.prems(2) jz by (simp only: same) simp
    show ?thesis
      using False by (simp only: list grow_word.simps Let_def z(1) obind_Inr if_False split_def IH) (simp add: entry_list_def split_def)
  qed (simp add: entry_list_def)
qed

lemma grow_words_list:
  "grow_words ws old new s = add_all (entry_list old (concat (map (\<lambda>w. map ((+) (w * 64)) (filter (bit (occupied_bits old w)) [0 ..< 64])) ws))) new s"
proof (induction ws arbitrary: new s)
  case (Cons w ws)
  show ?case
    using grow_word_list [of 0 "occupied_bits old w" 64 "w * 64" old new s] Cons
    by (simp add: entry_list_def add_all_append split_def)
qed (simp add: entry_list_def)

lemma word_places:
  "concat (map (\<lambda>w. map ((+) (w * 64)) (filter (bit (occupied_bits m w)) [0 ..< 64])) [0 ..< n]) = filter (occupied m) [0 ..< n * 64]"
proof (induction n)
  case (Suc n)
  have "map ((+) (n * 64)) (filter (bit (occupied_bits m n)) [0 ..< 64]) = filter (occupied m) (map ((+) (n * 64)) [0 ..< 64])"
    unfolding filter_map comp_def slot_marked_bit by (intro arg_cong [of _ _ "map _"] filter_cong) auto
  also have "map ((+) (n * 64)) [0 ..< 64] = [n * 64 ..< Suc n * 64]"
  proof -
    have "(+) (n * 64) = (\<lambda>i. i + n * 64)" by (simp add: fun_eq_iff)
    then show ?thesis using map_add_upt [of "n * 64" 64] by simp
  qed
  finally show ?case using Suc upt_add_eq_append [of 0 "n * 64" 64] by (simp add: add.commute)
qed simp

lemma add_all_ok:
  assumes "scope_ok new" and "distinct (map fst xs)" and "\<And>n e. (n, e) \<in> set xs \<Longrightarrow> scope_abs new n = None"
    and "scope_used new + length xs \<le> MAX_SCOPE_ENTRY_COUNT" and "(scope_used new + length xs) * 3 \<le> scope_capacity new * 2 + 3"
  shows "\<exists>m'. add_all xs new s = Inr (m', s) \<and> scope_ok m' \<and> scope_abs m' = scope_abs new ++ map_of xs
    \<and> scope_used m' = scope_used new + length xs \<and> same_scope new m' \<and> scope_capacity m' = scope_capacity new"
  using assms
proof (induction xs arbitrary: new)
  case (Cons x xs)
  obtain n e where x: "x = (n, e)" by (cases x)
  have none: "scope_abs new n = None" by (rule Cons.prems(3) [of n e]) (simp add: x)
  then obtain m where m: "scope_map_add_nogrow False s new n e None = Inr (m, s)" "scope_ok m" "scope_abs m = (scope_abs new)(n \<mapsto> e)"
    "scope_used m = scope_used new + 1" "same_scope new m" "scope_capacity m = scope_capacity new"
    using add_nogrow_ok [OF Cons.prems(1), of n False s e None] Cons.prems(4,5) by (auto simp: x)
  have "\<exists>m'. add_all xs m s = Inr (m', s) \<and> scope_ok m' \<and> scope_abs m' = scope_abs m ++ map_of xs
    \<and> scope_used m' = scope_used m + length xs \<and> same_scope m m' \<and> scope_capacity m' = scope_capacity m"
  proof (rule Cons.IH [OF m(2)])
    show "scope_abs m n' = None" if "(n', e') \<in> set xs" for n' e'
    proof -
      have "n' \<noteq> n" using Cons.prems(2) that x by force
      then show ?thesis using Cons.prems(3) [of n' e'] that m(3) by simp
    qed
  qed (use Cons.prems m(4,6) in auto)
  then obtain m' where m': "add_all xs m s = Inr (m', s)" "scope_ok m'" "scope_abs m' = scope_abs m ++ map_of xs"
    "scope_used m' = scope_used m + length xs" "same_scope m m'" "scope_capacity m' = scope_capacity m"
    by blast
  have "n \<notin> dom (map_of xs)" using Cons.prems(2) x by (simp add: dom_map_of_conv_image_fst)
  then have abs: "scope_abs m' = scope_abs new ++ map_of (x # xs)"
    unfolding m'(3) m(3) x by (auto simp: fun_eq_iff map_add_def dom_def split: option.split)
  have "add_all (x # xs) new s = Inr (m', s)" using m(1) m'(1) x by simp
  moreover have "same_scope new m'" using m(5) m'(5) by (simp add: same_scope_def)
  moreover have "scope_used m' = scope_used new + length (x # xs)" "scope_capacity m' = scope_capacity new" using m(4,6) m'(4,6) by simp_all
  ultimately show ?case using m'(2) abs by blast
qed (simp add: same_scope_def)

lemma temp_stack_alloc_ends [simp]: "temp_stack_alloc t a b \<noteq> Inl Diverge"
  by (auto simp: temp_stack_alloc_def rv_pad_to_alignment_def rv_reserve_exact_def rv_ensure_capacity_def next_multiple_def
      ensure_def obind_def Let_def split: sum.splits if_splits prod.splits)

text \<open>What an operation on a map may change in the rest of the state: memory is taken and errors are recorded.\<close>

definition only_errors :: "NameState \<Rightarrow> NameState \<Rightarrow> bool" where
  "only_errors s s' \<longleftrightarrow> (\<exists>t c r b. s' = s\<lparr>temp := t, sink_error_count := c, sink_records := r, lex_has_error := b\<rparr>
     \<and> (lex_has_error s \<longrightarrow> b))"

lemma only_errors_refl [simp]: "only_errors s s"
  unfolding only_errors_def
  by (intro exI [of _ "temp s"] exI [of _ "sink_error_count s"] exI [of _ "sink_records s"] exI [of _ "lex_has_error s"]) simp

lemma only_errors_trans: "only_errors s s1 \<Longrightarrow> only_errors s1 s2 \<Longrightarrow> only_errors s s2"
  by (fastforce simp: only_errors_def)

lemma only_errors_fields:
  assumes "only_errors s s'"
  shows "trees s' = trees s" "scopes s' = scopes s" "closures s' = closures s" "bindings s' = bindings s"
    "closure_ids s' = closure_ids s" "closure_entries s' = closure_entries s" "active_file_id s' = active_file_id s"
    "prelude_file_id s' = prelude_file_id s" "name_heap s' = name_heap s" "lex_has_error s \<Longrightarrow> lex_has_error s'"
    "scopes_top s' = scopes_top s"
  using assms by (auto simp: only_errors_def scopes_top_def)

lemma only_errors_temp [simp]: "only_errors s (s\<lparr>temp := t\<rparr>)"
  unfolding only_errors_def
  by (intro exI [of _ t] exI [of _ "sink_error_count s"] exI [of _ "sink_records s"] exI [of _ "lex_has_error s"]) simp

lemma only_errors_count [simp]: "only_errors s (s\<lparr>sink_error_count := c, lex_has_error := True\<rparr>)"
  unfolding only_errors_def by (intro exI [of _ "temp s"] exI [of _ c] exI [of _ "sink_records s"] exI [of _ True]) simp

lemma only_errors_record [simp]: "only_errors s (s\<lparr>sink_error_count := c, sink_records := r, lex_has_error := True\<rparr>)"
  unfolding only_errors_def by (intro exI [of _ "temp s"] exI [of _ c] exI [of _ r] exI [of _ True]) simp

lemma name_error_ok: "holds (name_error s src err) (\<lambda>s'. only_errors s s' \<and> lex_has_error s')"
proof (cases src)
  case (Some i)
  have "holds (source_id_of_ast_node (trees s) i) (\<lambda>_. True)"
    by (simp add: source_id_of_ast_node_def node_at_def split: option.split)
  then show ?thesis
    by (cases "source_id_of_ast_node (trees s) i")
      (auto simp: name_error_def record_node_error_def Some Let_def)
qed (simp add: name_error_def record_node_error_def)

section \<open>Allocation, growth and addition\<close>

lemma is_pow2_u32: "j < 32 \<Longrightarrow> is_pow2 (of_nat (2 ^ j) :: u32)"
  using is_pow2_exp [of j, where 'a = 32] by simp

lemma alloc_sized_ok:
  assumes "3 \<le> j" and "j \<le> 16"
  shows "holds (scope_map_alloc_sized s kind (2 ^ j)) (\<lambda>(m, s'). scope_ok m \<and> scope_abs m = Map.empty \<and> scope_used m = 0
    \<and> scope_capacity m = 2 ^ j \<and> scope_kind m = kind \<and> \<not> has_closure m \<and> only_errors s s')"
proof -
  let ?m = "\<lparr>scope_capacity = 2 ^ j, scope_used = 0, scope_kind = kind, has_closure = False, occupied_bits = (\<lambda>_. 0),
     scope_names = (\<lambda>_. 0), scope_entries = (\<lambda>_. empty_entry)\<rparr>"
  have free: "\<not> occupied ?m i" for i by (simp add: slot_marked_bit)
  then have "scope_ok ?m" using assms by (auto simp: scope_ok_def MAX_SCOPE_ENTRY_COUNT_def)
  moreover have "scope_abs ?m = Map.empty" using free by (simp add: scope_abs_def)
  moreover have "is_pow2 (of_nat (2 ^ j) :: u32)" using assms by (intro is_pow2_u32) simp
  ultimately show ?thesis
    by (cases "temp_stack_alloc (temp s) (of_nat (scope_map_size (2 ^ j))) 8")
      (auto simp: scope_map_alloc_sized_def dest: sym [of _ "temp_stack_alloc _ _ _"])
qed

lemma scope_map_grow_ok:
  assumes "scope_ok m" and "scope_capacity m * 2 < scope_used m * 3"
  shows "holds (scope_map_grow s m) (\<lambda>(m', s'). scope_ok m' \<and> scope_abs m' = scope_abs m \<and> scope_used m' = scope_used m
    \<and> scope_capacity m' = 2 * scope_capacity m \<and> scope_kind m' = scope_kind m \<and> \<not> has_closure m' \<and> only_errors s s')"
proof -
  obtain j where j: "3 \<le> j" "scope_capacity m = 2 ^ j" using assms(1) by (auto simp: scope_ok_def)
  have "(2 :: nat) ^ j * 2 < 2 ^ 15 * 3" using assms j(2) by (simp add: scope_ok_def MAX_SCOPE_ENTRY_COUNT_def)
  then have "(2 :: nat) ^ j < 2 ^ 16" by simp
  then have "j < 16" by (rule power_less_imp_less_exp [rotated]) simp
  then have room: "3 \<le> Suc j" "Suc j \<le> 16" "scope_capacity m * 2 = 2 ^ Suc j" using j by simp_all
  let ?is = "filter (occupied m) [0 ..< scope_capacity m]"
  let ?words = "(scope_capacity m + 63) div 64"
  have "[0 ..< ?words * 64] = [0 ..< scope_capacity m] @ [scope_capacity m ..< ?words * 64]"
    using upt_add_eq_append [of 0 "scope_capacity m" "?words * 64 - scope_capacity m"] by simp
  moreover have "filter (occupied m) [scope_capacity m ..< ?words * 64] = []"
    using assms(1) by (auto simp: filter_empty_conv scope_ok_def)
  ultimately have places: "filter (occupied m) [0 ..< ?words * 64] = ?is" by simp
  have set: "set ?is = {i. occupied m i}" using assms(1) by (auto simp: scope_ok_def)
  have len: "length ?is = scope_used m"
    using distinct_card [of ?is] assms(1) unfolding set by (simp add: scope_ok_def)
  have names: "distinct (map fst (entry_list m ?is))"
    using assms(1) set by (auto simp: entry_list_def distinct_map comp_def scope_ok_def)
  have abs: "map_of (entry_list m ?is) = scope_abs m" by (simp add: entry_list_def scope_abs_def)
  have add: "\<exists>m'. grow_words [0 ..< ?words] m new s1 = Inr (m', s1) \<and> scope_ok m' \<and> scope_abs m' = scope_abs m
      \<and> scope_used m' = scope_used m \<and> same_scope new m' \<and> scope_capacity m' = scope_capacity new"
    if "scope_ok new" "scope_abs new = Map.empty" "scope_used new = 0" "scope_capacity new = 2 ^ Suc j" for new s1
  proof -
    have bounds: "scope_used m \<le> MAX_SCOPE_ENTRY_COUNT" "3 * scope_used m \<le> 2 * scope_capacity m + 3"
      using assms(1) by (simp_all add: scope_ok_def)
    have "length (entry_list m ?is) = scope_used m" using len by (simp add: entry_list_def)
    then show ?thesis
      unfolding grow_words_list word_places places
      using add_all_ok [OF that(1) names, of s1] that(2-4) bounds j(2) by (simp add: abs [unfolded j(2)])
  qed
  note alloc = alloc_sized_ok [OF room(1,2), of s "scope_kind m", folded room(3)]
  show ?thesis
  proof (cases "scope_map_alloc_sized s (scope_kind m) (scope_capacity m * 2)")
    case (Inr a)
    obtain new s1 where a: "a = (new, s1)" by (cases a)
    have new: "scope_ok new" "scope_abs new = Map.empty" "scope_used new = 0" "scope_capacity new = scope_capacity m * 2"
      "scope_kind new = scope_kind m" "\<not> has_closure new" "only_errors s s1"
      using alloc Inr a by auto
    obtain m' where "grow_words [0 ..< ?words] m new s1 = Inr (m', s1)" "scope_ok m'" "scope_abs m' = scope_abs m"
      "scope_used m' = scope_used m" "same_scope new m'" "scope_capacity m' = scope_capacity new"
      using add [OF new(1-3) new(4) [unfolded room(3)], of s1] by blast
    then show ?thesis using new(4-7) Inr a by (simp add: scope_map_grow_def same_scope_def)
  qed (use alloc in \<open>auto simp: scope_map_grow_def\<close>)
qed

text \<open>
  What \<open>scope_map_add\<close> does: the entry is added unless the map is full or the name is there, which are
  errors; a map that has to grow first loses its flag for a closure.
\<close>

definition added :: "ScopeMap \<Rightarrow> u32 \<Rightarrow> ScopeEntry \<Rightarrow> ScopeMap \<Rightarrow> bool" where
  "added m name e m' \<longleftrightarrow> scope_ok m'
     \<and> scope_abs m' = (if scope_abs m name = None then (scope_abs m)(name \<mapsto> e) else scope_abs m)
     \<and> scope_used m' = (if scope_abs m name = None then scope_used m + 1 else scope_used m)
     \<and> scope_kind m' = scope_kind m
     \<and> (has_closure m' \<longleftrightarrow> has_closure m \<and> scope_used m * 3 \<le> scope_capacity m * 2)"

lemma scope_map_add_ok:
  assumes "scope_ok m"
  shows "holds (scope_map_add s m name e src) (\<lambda>(r, s'). only_errors s s'
    \<and> (if scope_used m = MAX_SCOPE_ENTRY_COUNT then r = None \<and> lex_has_error s'
       else (\<exists>m'. r = Some m' \<and> added m name e m') \<and> (scope_abs m name \<noteq> None \<longrightarrow> lex_has_error s')))"
proof (cases "scope_used m = MAX_SCOPE_ENTRY_COUNT")
  case True
  then show ?thesis using name_error_ok [of s src ScopeTooManyDefinitions]
    by (cases "name_error s src ScopeTooManyDefinitions") (simp_all add: scope_map_add_def)
next
  case False
  then have room: "scope_used m < MAX_SCOPE_ENTRY_COUNT" using assms by (simp add: scope_ok_def)
  have put: "holds (scope_map_add_nogrow True s1 m1 name e src) (\<lambda>(m', s'). only_errors s s' \<and> added m name e m'
      \<and> (scope_abs m name \<noteq> None \<longrightarrow> lex_has_error s'))"
    if "scope_ok m1" "scope_abs m1 = scope_abs m" "scope_used m1 = scope_used m" "scope_used m1 * 3 \<le> scope_capacity m1 * 2"
      "scope_kind m1 = scope_kind m" "only_errors s s1" "has_closure m1 \<longleftrightarrow> has_closure m \<and> scope_used m * 3 \<le> scope_capacity m * 2"
    for m1 s1
  proof -
    note q = that
    show ?thesis
    proof (cases "scope_abs m name = None")
    case True
    then obtain m' where "scope_map_add_nogrow True s1 m1 name e src = Inr (m', s1)" "scope_ok m'" "scope_abs m' = (scope_abs m1)(name \<mapsto> e)"
      "scope_used m' = scope_used m1 + 1" "same_scope m1 m'" "scope_capacity m' = scope_capacity m1"
      using add_nogrow_ok [OF q(1) _ q(4), of name True s1 e src] room q(2,3) by auto
    then show ?thesis using True q by (simp add: added_def same_scope_def)
  next
    case False
    have "scope_map_add_nogrow True s1 m1 name e src = obind (name_error s1 src ScopeDuplicateName) (\<lambda>s. Inr (m1, s))"
      using add_nogrow_ok [OF that(1) _ that(4), of name True s1 e src] room that(2,3) False by simp
    moreover have "added m name e m1" using False q by (simp add: added_def del: not_None_eq)
    ultimately show ?thesis using name_error_ok [of s1 src ScopeDuplicateName] only_errors_trans [OF that(6)]
      by (cases "name_error s1 src ScopeDuplicateName") auto
    qed
  qed
  show ?thesis
  proof (cases "scope_capacity m * 2 < scope_used m * 3")
    case grow: True
    show ?thesis
    proof (cases "scope_map_grow s m")
      case (Inr a)
      obtain m1 s1 where a: "a = (m1, s1)" by (cases a)
      have m1: "scope_ok m1" "scope_abs m1 = scope_abs m" "scope_used m1 = scope_used m" "scope_capacity m1 = 2 * scope_capacity m"
        "scope_kind m1 = scope_kind m" "\<not> has_closure m1" "only_errors s s1"
        using scope_map_grow_ok [OF assms grow, of s] Inr a by auto
      have "scope_used m1 * 3 \<le> scope_capacity m1 * 2" using m1(3,4) assms scope_room [OF assms] by (simp add: scope_ok_def)
      from put [OF m1(1-3) this m1(5,7)] m1(6) grow have "holds (scope_map_add_nogrow True s1 m1 name e src)
         (\<lambda>(m', s'). only_errors s s' \<and> added m name e m' \<and> (scope_abs m name \<noteq> None \<longrightarrow> lex_has_error s'))" by simp
      then show ?thesis using False grow Inr a
        by (auto simp: scope_map_add_def elim!: holds_mono)
    qed (use False grow scope_map_grow_ok [OF assms grow, of s] in \<open>simp add: scope_map_add_def\<close>)
  next
    case fits: False
    then have "holds (scope_map_add_nogrow True s m name e src)
         (\<lambda>(m', s'). only_errors s s' \<and> added m name e m' \<and> (scope_abs m name \<noteq> None \<longrightarrow> lex_has_error s'))"
      using put [OF assms, of s] by simp
    then show ?thesis using False fits by (auto simp: scope_map_add_def elim!: holds_mono)
  qed
qed

section \<open>Reset\<close>

lemma scope_map_reset_ok:
  assumes "scope_ok m"
  shows "scope_ok (scope_map_reset m)" and "scope_abs (scope_map_reset m) = Map.empty" and "scope_used (scope_map_reset m) = 0"
proof -
  have free: "\<not> occupied (scope_map_reset m) i" for i by (simp add: scope_map_reset_def slot_marked_bit Let_def)
  show "scope_used (scope_map_reset m) = 0" by (simp add: scope_map_reset_def Let_def)
  moreover have "scope_capacity (scope_map_reset m) = scope_capacity m" by (simp add: scope_map_reset_def Let_def)
  ultimately show "scope_ok (scope_map_reset m)" using assms free by (auto simp: scope_ok_def)
  show "scope_abs (scope_map_reset m) = Map.empty" using free by (simp add: scope_abs_def)
qed

end
