(* ===== verification/NameInvariants.thy ===== *)
theory NameInvariants
  imports NameResolution ScopeMaps
begin

text \<open>
  What holds of the stacks of scopes and closures during name resolution, and that the operations on
  them keep it. An entry of a closure says where its value comes from, relative to the scope of the
  closure: from an entry of a scope or of the closure of a scope further out.
\<close>

section \<open>The invariant\<close>

text \<open>The ranks of the entries of a map are those below its number of entries.\<close>

definition ranks_ok :: "ScopeMap \<Rightarrow> bool" where
  "ranks_ok m \<longleftrightarrow> (\<forall>n e. scope_abs m n = Some e \<longrightarrow> entry_rank e < scope_used m)
     \<and> (\<forall>n e n' e'. scope_abs m n = Some e \<and> scope_abs m n' = Some e' \<and> entry_rank e = entry_rank e' \<longrightarrow> n = n')"

text \<open>Nothing between the scopes \<open>j\<close> and \<open>i\<close> defines the name or has a closure.\<close>

definition clear_between :: "ScopeMap list \<Rightarrow> u32 \<Rightarrow> nat \<Rightarrow> nat \<Rightarrow> bool" where
  "clear_between xs n j i \<longleftrightarrow> (\<forall>k. j < k \<and> k < i \<longrightarrow> scope_abs (xs ! k) n = None \<and> \<not> has_closure (xs ! k))"

definition capture_ok :: "NameState \<Rightarrow> nat \<Rightarrow> u32 \<Rightarrow> ScopeEntry \<Rightarrow> bool" where
  "capture_ok s i n e \<longleftrightarrow> closure_source_out e \<le> i \<and>
     (let j = i - closure_source_out e in
      clear_between (scopes s) n j i \<and>
      (if closure_source_is_closure e
       then j < i \<and> has_closure (scopes s ! j)
         \<and> (\<exists>c e'. closures s j = Some c \<and> scope_abs c n = Some e' \<and> entry_rank e' = closure_source_rank e)
       else (\<exists>e'. scope_abs (scopes s ! j) n = Some e' \<and> entry_rank e' = closure_source_rank e)))"

definition names_ok :: "NameState \<Rightarrow> bool" where
  "names_ok s \<longleftrightarrow> length (scopes s) \<le> MAX_AST_DEPTH
     \<and> (\<forall>i < length (scopes s). scope_ok (scopes s ! i))
     \<and> (\<forall>i c. closures s i = Some c \<longrightarrow> scope_ok c \<and> ranks_ok c)
     \<and> (\<forall>i < length (scopes s). has_closure (scopes s ! i) \<longrightarrow>
          (\<exists>c. closures s i = Some c \<and> (\<forall>n e. scope_abs c n = Some e \<longrightarrow> capture_ok s i n e)))"

lemma names_ok_scope: "names_ok s \<Longrightarrow> i < length (scopes s) \<Longrightarrow> scope_ok (scopes s ! i)"
  by (simp add: names_ok_def)

lemma names_ok_closure: "names_ok s \<Longrightarrow> closures s i = Some c \<Longrightarrow> scope_ok c \<and> ranks_ok c"
  by (simp add: names_ok_def)

lemma names_ok_captures:
  "names_ok s \<Longrightarrow> i < length (scopes s) \<Longrightarrow> has_closure (scopes s ! i) \<Longrightarrow> closures s i = Some c \<Longrightarrow> scope_abs c n = Some e
    \<Longrightarrow> capture_ok s i n e"
  by (fastforce simp: names_ok_def)

lemma names_ok_cong:
  "scopes s' = scopes s \<Longrightarrow> closures s' = closures s \<Longrightarrow> names_ok s' = names_ok s"
  by (simp add: names_ok_def capture_ok_def)

lemma only_errors_names_ok: "only_errors s s' \<Longrightarrow> names_ok s' = names_ok s"
  using only_errors_fields by (intro names_ok_cong)

lemma map_le_Some: "m \<subseteq>\<^sub>m m' \<Longrightarrow> m x = Some y \<Longrightarrow> m' x = Some y"
  by (metis domI map_le_def)

text \<open>Captures look only at scopes below their own, and at entries that stay.\<close>

lemma capture_ok_mono:
  assumes "capture_ok s i n e"
    and "\<And>j. j \<le> i \<Longrightarrow> closures s' j = closures s j \<or> (\<exists>c c'. closures s j = Some c \<and> closures s' j = Some c' \<and> scope_abs c \<subseteq>\<^sub>m scope_abs c')"
    and "\<And>j. j < i \<Longrightarrow> scopes s' ! j = scopes s ! j"
    and "scope_abs (scopes s ! i) \<subseteq>\<^sub>m scope_abs (scopes s' ! i)"
  shows "capture_ok s' i n e"
proof -
  let ?j = "i - closure_source_out e"
  have le: "closure_source_out e \<le> i" "clear_between (scopes s) n ?j i" using assms(1) by (simp_all add: capture_ok_def Let_def)
  have clear: "clear_between (scopes s') n ?j i" using le(2) assms(3) by (simp add: clear_between_def)
  show ?thesis
  proof (cases "closure_source_is_closure e")
    case True
    then obtain c e' where j: "?j < i" "has_closure (scopes s ! ?j)" "closures s ?j = Some c" "scope_abs c n = Some e'"
      "entry_rank e' = closure_source_rank e"
      using assms(1) by (auto simp: capture_ok_def Let_def)
    obtain c1 where c1: "closures s' ?j = Some c1" "scope_abs c \<subseteq>\<^sub>m scope_abs c1"
      using assms(2) [of ?j] j(1,3) by auto
    note entry = map_le_Some [OF c1(2) j(4)]
    then have "\<exists>c e'. closures s' ?j = Some c \<and> scope_abs c n = Some e' \<and> entry_rank e' = closure_source_rank e"
      using c1(1) j(5) entry by blast
    then show ?thesis using True j(1,2) le(1) clear assms(3) [OF j(1)] by (simp add: capture_ok_def Let_def)
  next
    case False
    then obtain e' where e': "scope_abs (scopes s ! ?j) n = Some e'" "entry_rank e' = closure_source_rank e"
      using assms(1) by (auto simp: capture_ok_def Let_def)
    have "scope_abs (scopes s' ! ?j) n = Some e'"
      using e'(1) assms(3) [of ?j] map_le_Some [OF assms(4)] by (cases "?j = i") auto
    then show ?thesis using False le(1) clear e'(2) by (auto simp: capture_ok_def Let_def)
  qed
qed

section \<open>The stacks\<close>

lemma push_scope_ok:
  assumes "names_ok s" and "scope_ok m" and "\<not> has_closure m"
  shows "holds (push_scope s m) (\<lambda>s'. names_ok s' \<and> s' = s\<lparr>scopes := scopes s @ [m]\<rparr>)"
proof (cases "length (scopes s) < MAX_AST_DEPTH")
  case True
  let ?s = "s\<lparr>scopes := scopes s @ [m]\<rparr>"
  have at: "scopes ?s ! i = scopes s ! i" if "i < length (scopes s)" for i using that by (simp add: nth_append)
  have "scope_ok (scopes ?s ! i)" if "i < length (scopes ?s)" for i
    using that assms(1,2) by (cases "i < length (scopes s)") (auto simp: nth_append names_ok_def less_Suc_eq)
  moreover have "\<exists>c. closures ?s i = Some c \<and> (\<forall>n e. scope_abs c n = Some e \<longrightarrow> capture_ok ?s i n e)"
    if i: "i < length (scopes ?s)" "has_closure (scopes ?s ! i)" for i
  proof -
    have lt: "i < length (scopes s)" using i assms(3) by (auto simp: nth_append less_Suc_eq split: if_splits)
    then obtain c where c: "closures s i = Some c" "\<forall>n e. scope_abs c n = Some e \<longrightarrow> capture_ok s i n e"
      using assms(1) i(2) at [OF lt] by (auto simp: names_ok_def)
    have "capture_ok ?s i n e" if "capture_ok s i n e" for n e
      using that by (rule capture_ok_mono) (use lt in \<open>auto simp: nth_append\<close>)
    then show ?thesis using c by auto
  qed
  moreover have "\<forall>i c. closures ?s i = Some c \<longrightarrow> scope_ok c \<and> ranks_ok c" using assms(1) by (simp add: names_ok_def)
  ultimately have "names_ok ?s" using True unfolding names_ok_def by simp
  then show ?thesis using True by (simp add: push_scope_def)
qed (simp add: push_scope_def)

lemma pop_scope_ok:
  assumes "names_ok s"
  shows "holds (pop_scope s) (\<lambda>s'. names_ok s' \<and> s' = s\<lparr>scopes := butlast (scopes s)\<rparr>)"
proof -
  let ?s = "s\<lparr>scopes := butlast (scopes s)\<rparr>"
  have at: "scopes ?s ! i = scopes s ! i" "i < length (scopes s)" if "i < length (scopes ?s)" for i
    using that by (simp_all add: nth_butlast)
  have "\<exists>c. closures ?s i = Some c \<and> (\<forall>n e. scope_abs c n = Some e \<longrightarrow> capture_ok ?s i n e)"
    if i: "i < length (scopes ?s)" "has_closure (scopes ?s ! i)" for i
  proof -
    obtain c where c: "closures s i = Some c" "\<forall>n e. scope_abs c n = Some e \<longrightarrow> capture_ok s i n e"
      using assms i at [OF i(1)] by (auto simp: names_ok_def)
    have "capture_ok ?s i n e" if "capture_ok s i n e" for n e
      using that by (rule capture_ok_mono) (use i(1) in \<open>auto simp: nth_butlast\<close>)
    then show ?thesis using c by auto
  qed
  then have "names_ok ?s" using assms at by (auto simp: names_ok_def)
  then show ?thesis by (simp add: pop_scope_def)
qed

text \<open>A change of the innermost scope that keeps its entries.\<close>

lemma set_top_scope_ok:
  assumes "names_ok s" and "scopes s \<noteq> []" and "scope_ok m" and "scope_abs (scopes s ! scopes_top s) \<subseteq>\<^sub>m scope_abs m"
    and "has_closure m \<longrightarrow> has_closure (scopes s ! scopes_top s)"
  shows "names_ok (set_top_scope s m)"
proof -
  let ?s = "set_top_scope s m" and ?t = "scopes_top s"
  have t: "?t < length (scopes s)" using assms(2) by (simp add: scopes_top_def)
  have at: "scopes ?s ! i = (if i = ?t then m else scopes s ! i)" if "i < length (scopes s)" for i
    using that by (auto simp: set_top_scope_def)
  have "\<exists>c. closures ?s i = Some c \<and> (\<forall>n e. scope_abs c n = Some e \<longrightarrow> capture_ok ?s i n e)"
    if i: "i < length (scopes s)" "has_closure (scopes ?s ! i)" for i
  proof -
    obtain c where c: "closures s i = Some c" "\<forall>n e. scope_abs c n = Some e \<longrightarrow> capture_ok s i n e"
      using assms(1,5) i at [OF i(1)] by (auto simp: names_ok_def split: if_splits)
    have "i \<le> ?t" using i(1) by (simp add: scopes_top_def)
    then have "scopes ?s ! j = scopes s ! j" if "j < i" for j using that i(1) at [of j] by auto
    moreover have "scope_abs (scopes s ! i) \<subseteq>\<^sub>m scope_abs (scopes ?s ! i)" using at [OF i(1)] assms(4) by auto
    ultimately have "capture_ok ?s i n e" if "capture_ok s i n e" for n e
      using that by (rule capture_ok_mono [rotated 2]) (auto simp: set_top_scope_def)
    then show ?thesis using c by (auto simp: set_top_scope_def)
  qed
  moreover have "scope_ok (scopes ?s ! i)" if "i < length (scopes s)" for i
    using that at [OF that] assms(1,3) by (auto simp: names_ok_def)
  moreover have "length (scopes ?s) = length (scopes s)" "closures ?s = closures s" by (simp_all add: set_top_scope_def)
  ultimately show ?thesis using assms(1) unfolding names_ok_def by simp
qed

text \<open>A closure that gets an entry, or an empty closure at the innermost scope.\<close>

lemma add_capture_ok:
  assumes "names_ok s" and "i < length (scopes s)" and "has_closure (scopes s ! i)" and "closures s i = Some c"
    and "scope_abs c n = None" and "scope_ok c'" and "scope_abs c' = (scope_abs c)(n \<mapsto> e)" and "scope_used c' = scope_used c + 1"
    and "entry_rank e = scope_used c" and "capture_ok s i n e"
  shows "names_ok (s\<lparr>closures := (closures s)(i \<mapsto> c')\<rparr>)"
proof -
  let ?s = "s\<lparr>closures := (closures s)(i \<mapsto> c')\<rparr>"
  have old: "ranks_ok c" using names_ok_closure [OF assms(1,4)] by simp
  have "ranks_ok c'"
    unfolding ranks_ok_def assms(7,8)
  proof (intro conjI allI impI)
    fix n1 e1 assume "((scope_abs c)(n \<mapsto> e)) n1 = Some e1"
    then show "entry_rank e1 < scope_used c + 1" using old assms(9) by (auto simp: ranks_ok_def less_Suc_eq split: if_splits)
  next
    fix n1 e1 n2 e2
    assume A: "((scope_abs c)(n \<mapsto> e)) n1 = Some e1 \<and> ((scope_abs c)(n \<mapsto> e)) n2 = Some e2 \<and> entry_rank e1 = entry_rank e2"
    have below: "entry_rank x < scope_used c" if "scope_abs c y = Some x" for x y using old that by (auto simp: ranks_ok_def)
    show "n1 = n2"
    proof (cases "n1 = n"; cases "n2 = n")
      assume "n1 \<noteq> n" "n2 \<noteq> n"
      then show ?thesis using A old by (auto simp: ranks_ok_def)
    qed (use A assms(9) below [of n1 e1] below [of n2 e2] in auto)
  qed
  moreover have "\<exists>x. closures ?s k = Some x \<and> (\<forall>n e. scope_abs x n = Some e \<longrightarrow> capture_ok ?s k n e)"
    if k: "k < length (scopes s)" "has_closure (scopes s ! k)" for k
  proof -
    have keep: "capture_ok ?s k n' e'" if "capture_ok s k n' e'" for n' e'
      using that by (rule capture_ok_mono) (auto simp: assms(4,5,7) map_le_def)
    obtain x where x: "closures s k = Some x" "\<forall>n e. scope_abs x n = Some e \<longrightarrow> capture_ok s k n e"
      using assms(1) k by (auto simp: names_ok_def)
    show ?thesis
    proof (cases "k = i")
      case True
      then show ?thesis using x assms(4,7,10) keep by auto
    next
      case False
      then show ?thesis using x keep by auto
    qed
  qed
  ultimately show ?thesis using assms(1,6) by (auto simp: names_ok_def)
qed

lemma empty_closure_ok:
  assumes "names_ok s" and "scopes s \<noteq> []" and "scope_ok c" and "scope_abs c = Map.empty"
    and "scopes s' = scopes s \<or> scopes s' = (scopes s)[scopes_top s := m]"
    and "scope_ok m" and "scope_abs m = scope_abs (scopes s ! scopes_top s)" and "closures s' = (closures s)(scopes_top s \<mapsto> c)"
  shows "names_ok s'"
proof -
  let ?t = "scopes_top s"
  have t: "?t < length (scopes s)" "length (scopes s') = length (scopes s)" using assms(2,5) by (auto simp: scopes_top_def)
  have at: "scopes s' ! i = scopes s ! i" if "i < length (scopes s)" "i \<noteq> ?t" for i using that assms(5) by auto
  have top: "scope_ok (scopes s' ! ?t)" using assms(1,5,6) t by (auto simp: names_ok_def)
  have "\<exists>x. closures s' k = Some x \<and> (\<forall>n e. scope_abs x n = Some e \<longrightarrow> capture_ok s' k n e)"
    if k: "k < length (scopes s)" "has_closure (scopes s' ! k)" for k
  proof (cases "k = ?t")
    case True
    then show ?thesis using assms(4,8) by simp
  next
    case False
    then have lt: "k < ?t" using k(1) by (simp add: scopes_top_def)
    obtain x where x: "closures s k = Some x" "\<forall>n e. scope_abs x n = Some e \<longrightarrow> capture_ok s k n e"
      using assms(1) k at [OF k(1) False] by (auto simp: names_ok_def)
    have "capture_ok s' k n e" if "capture_ok s k n e" for n e
      using that
    proof (rule capture_ok_mono)
      show "closures s' j = closures s j \<or> (\<exists>c c'. closures s j = Some c \<and> closures s' j = Some c' \<and> scope_abs c \<subseteq>\<^sub>m scope_abs c')"
        if "j \<le> k" for j using that lt assms(8) by simp
    qed (use at lt k(1) False in auto)
    then show ?thesis using x False assms(8) by auto
  qed
  moreover have "scope_ok (scopes s' ! k)" if "k < length (scopes s)" for k
    using that at [OF that] top assms(1) by (cases "k = ?t") (auto simp: names_ok_def)
  moreover have "ranks_ok c" using assms(4) by (simp add: ranks_ok_def)
  ultimately show ?thesis using assms(1,3,8) t(2) by (auto simp: names_ok_def)
qed

end
