(* ===== verification/NameCapture.thy ===== *)
theory NameCapture
  imports NameInvariants
begin

text \<open>
  What the bindings of identifiers denote: the chain of closures that leads from a closed binding to
  the definition, and that resolution binds an identifier to the innermost definition of its name.
\<close>

section \<open>Following captures\<close>

definition entry_of_rank :: "ScopeMap \<Rightarrow> nat \<Rightarrow> ScopeEntry option" where
  "entry_of_rank m r = List.find (\<lambda>e. entry_rank e = r) (map (scope_entries m) (filter (occupied m) [0 ..< scope_capacity m]))"

lemma find_Some_mem: "List.find P xs = Some x \<Longrightarrow> x \<in> set xs \<and> P x"
  by (metis find_Some_iff nth_mem)

lemma entry_of_rank:
  assumes "scope_ok m" and "ranks_ok m" and "scope_abs m n = Some e"
  shows "entry_of_rank m (entry_rank e) = Some e"
proof -
  let ?es = "map (scope_entries m) (filter (occupied m) [0 ..< scope_capacity m])"
  have es: "x \<in> set ?es \<longleftrightarrow> (\<exists>n. scope_abs m n = Some x)" for x
    using scope_abs_Some [OF assms(1)] assms(1) by (auto simp: scope_ok_def image_iff)
  show ?thesis
  proof (cases "entry_of_rank m (entry_rank e)")
    case None
    then show ?thesis using es [of e] assms(3) by (auto simp: entry_of_rank_def find_None_iff simp del: set_map)
  next
    case (Some x)
    then have "x \<in> set ?es" "entry_rank x = entry_rank e" by (auto simp: entry_of_rank_def simp del: set_map dest: find_Some_mem)
    then obtain n' where "scope_abs m n' = Some x" "entry_rank x = entry_rank e" using es by blast
    then have "n' = n" using assms(2,3) by (auto simp: ranks_ok_def)
    then show ?thesis using Some assms(3) \<open>scope_abs m n' = Some x\<close> by simp
  qed
qed

text \<open>
  The scope and rank of the value with rank \<open>r\<close> in the closure of scope \<open>i\<close>: each entry leads to an
  entry of a scope, or of a closure, further out.
\<close>

fun captured :: "nat \<Rightarrow> NameState \<Rightarrow> nat \<Rightarrow> nat \<Rightarrow> (nat \<times> nat) option" where
  "captured 0 s i r = None"
| "captured (Suc k) s i r =
     (case closures s i of
        None \<Rightarrow> None
      | Some c \<Rightarrow>
          (case entry_of_rank c r of
             None \<Rightarrow> None
           | Some e \<Rightarrow>
               let j = i - closure_source_out e in
               if closure_source_is_closure e then captured k s j (closure_source_rank e)
               else Some (j, closure_source_rank e)))"

text \<open>The scope of the innermost closure, and what a binding of an identifier in the innermost scope denotes.\<close>

definition innermost_closure :: "ScopeMap list \<Rightarrow> nat option" where
  "innermost_closure xs = List.find (\<lambda>i. has_closure (xs ! i)) (rev [0 ..< length xs])"

datatype target = Local_Definition nat nat | Global_Definition u32 nat | Trait_Parameter nat

definition denotes :: "NameState \<Rightarrow> NameBinding \<Rightarrow> target option" where
  "denotes s b = (case b of
     Binding_Scoped out r \<Rightarrow> Some (Local_Definition (scopes_top s - out) r)
   | Binding_Global r file \<Rightarrow> Some (Global_Definition file r)
   | Binding_TraitArgument r \<Rightarrow> Some (Trait_Parameter r)
   | Binding_Closed r \<Rightarrow>
       (case innermost_closure (scopes s) of
          None \<Rightarrow> None
        | Some t \<Rightarrow> map_option (\<lambda>(j, r). Local_Definition j r) (captured (t + 1) s t r)))"

lemma innermost_closure_eq:
  assumes "t < length xs" and "has_closure (xs ! t)" and "\<And>k. t < k \<Longrightarrow> k < length xs \<Longrightarrow> \<not> has_closure (xs ! k)"
  shows "innermost_closure xs = Some t"
proof -
  have nth: "rev [0 ..< length xs] ! j = length xs - 1 - j" if "j < length xs" for j
    using that by (simp add: rev_nth)
  show ?thesis
    unfolding innermost_closure_def find_Some_iff
    using assms by (intro exI [of _ "length xs - 1 - t"]) (auto simp: nth)
qed

text \<open>Closures take over values of a name only through scopes that do not define it.\<close>

definition captures_exact :: "NameState \<Rightarrow> bool" where
  "captures_exact s \<longleftrightarrow> (\<forall>i c n e. i < length (scopes s) \<and> has_closure (scopes s ! i) \<and> closures s i = Some c
     \<and> scope_abs c n = Some e \<and> closure_source_is_closure e \<longrightarrow> scope_abs (scopes s ! (i - closure_source_out e)) n = None)"

text \<open>A chain ends at a definition of the name, with none in a scope between.\<close>

lemma captured_ok:
  assumes "names_ok s" and "captures_exact s"
  shows "i < length (scopes s) \<Longrightarrow> has_closure (scopes s ! i) \<Longrightarrow> closures s i = Some c \<Longrightarrow> scope_abs c n = Some e \<Longrightarrow> i < k \<Longrightarrow>
   \<exists>j e'. captured k s i (entry_rank e) = Some (j, entry_rank e') \<and> j \<le> i \<and> scope_abs (scopes s ! j) n = Some e'
     \<and> (\<forall>x. j < x \<and> x < i \<longrightarrow> scope_abs (scopes s ! x) n = None)"
proof (induction k arbitrary: i c e)
  case (Suc k)
  let ?j = "i - closure_source_out e"
  have "scope_ok c" "ranks_ok c" using names_ok_closure [OF assms(1) Suc.prems(3)] by simp_all
  note rank = entry_of_rank [OF this Suc.prems(4)]
  have cap: "capture_ok s i n e" by (rule names_ok_captures [OF assms(1) Suc.prems(1-4)])
  then have clear: "scope_abs (scopes s ! x) n = None" if "?j < x" "x < i" for x
    using that by (auto simp: capture_ok_def Let_def clear_between_def)
  show ?case
  proof (cases "closure_source_is_closure e")
    case True
    then obtain c1 e1 where c1: "?j < i" "has_closure (scopes s ! ?j)" "closures s ?j = Some c1" "scope_abs c1 n = Some e1"
      "entry_rank e1 = closure_source_rank e"
      using cap by (auto simp: capture_ok_def Let_def)
    have "?j < length (scopes s)" "?j < k" using c1(1) Suc.prems(1,5) by simp_all
    then obtain j e' where j: "captured k s ?j (entry_rank e1) = Some (j, entry_rank e')" "j \<le> ?j" "scope_abs (scopes s ! j) n = Some e'"
      "\<forall>x. j < x \<and> x < ?j \<longrightarrow> scope_abs (scopes s ! x) n = None"
      using Suc.IH [OF _ c1(2-4)] by blast
    have "scope_abs (scopes s ! ?j) n = None" using assms(2) Suc.prems(1-4) True unfolding captures_exact_def by blast
    then have "scope_abs (scopes s ! x) n = None" if "j < x" "x < i" for x
      using that j(4) clear [of x] by (cases "x < ?j"; cases "x = ?j") auto
    then show ?thesis using True j rank c1(1,5) Suc.prems(3)
      by (intro exI [of _ j] exI [of _ e']) (auto simp: Let_def)
  next
    case False
    then obtain e' where "scope_abs (scopes s ! ?j) n = Some e'" "entry_rank e' = closure_source_rank e"
      using cap by (auto simp: capture_ok_def Let_def)
    then show ?thesis using False rank clear Suc.prems(3)
      by (intro exI [of _ ?j] exI [of _ e']) (auto simp: Let_def)
  qed
qed simp

section \<open>Closing over a name\<close>

text \<open>Only closures, memory and errors may change.\<close>

definition only_closures :: "NameState \<Rightarrow> NameState \<Rightarrow> bool" where
  "only_closures s s' \<longleftrightarrow> (\<exists>cl s1. only_errors s s1 \<and> s' = s1\<lparr>closures := cl\<rparr>)"

lemma only_closures_refl [simp]: "only_closures s s"
  unfolding only_closures_def by (intro exI [of _ "closures s"] exI [of _ s]) simp

lemma only_closures_update: "only_errors s s1 \<Longrightarrow> only_closures (s1\<lparr>closures := cl\<rparr>) s' \<Longrightarrow> only_closures s s'"
  unfolding only_closures_def
proof (elim exE conjE)
  fix cl' s2
  assume "only_errors s s1" "only_errors (s1\<lparr>closures := cl\<rparr>) s2" "s' = s2\<lparr>closures := cl'\<rparr>"
  then show "\<exists>cl s1. only_errors s s1 \<and> s' = s1\<lparr>closures := cl\<rparr>"
    by (intro exI [of _ cl'] exI [of _ "s2\<lparr>closures := closures s\<rparr>"]) (fastforce simp: only_errors_def)
qed

lemma only_closures_fields:
  assumes "only_closures s s'"
  shows "trees s' = trees s" "scopes s' = scopes s" "bindings s' = bindings s" "closure_ids s' = closure_ids s"
    "active_file_id s' = active_file_id s" "prelude_file_id s' = prelude_file_id s" "lex_has_error s \<Longrightarrow> lex_has_error s'"
    "scopes_top s' = scopes_top s" "closure_entries s' = closure_entries s"
  using assms by (auto simp: only_closures_def scopes_top_def dest: only_errors_fields)

text \<open>Where the loop stands in front of the scope \<open>a\<close>.\<close>

definition closing :: "NameState \<Rightarrow> u32 \<Rightarrow> nat \<Rightarrow> ScopeEntry \<Rightarrow> nat \<Rightarrow> nat \<Rightarrow> nat \<Rightarrow> bool \<Rightarrow> bool" where
  "closing s n i0 e0 a rank src from_closure \<longleftrightarrow> i0 \<le> src \<and> (\<forall>k. src < k \<and> k < a \<longrightarrow> \<not> has_closure (scopes s ! k)) \<and>
     (if from_closure
      then src < a \<and> src < length (scopes s) \<and> has_closure (scopes s ! src)
        \<and> (\<exists>c e. closures s src = Some c \<and> scope_abs c n = Some e \<and> entry_rank e = rank)
      else src = i0 \<and> rank = entry_rank e0)"

lemma close_over_ok:
  assumes "i0 < len" and "len \<le> MAX_AST_DEPTH"
  shows "names_ok s \<Longrightarrow> length (scopes s) = len \<Longrightarrow> scope_abs (scopes s ! i0) n = Some e0 \<Longrightarrow>
    (\<And>k. i0 < k \<Longrightarrow> k < len \<Longrightarrow> scope_abs (scopes s ! k) n = None) \<Longrightarrow> i0 \<le> a \<Longrightarrow> a \<le> len \<Longrightarrow>
    closing s n i0 e0 a rank src fc \<Longrightarrow>
    holds (close_over [a ..< len] s n rank src fc) (\<lambda>(r, fc', s'). names_ok s' \<and> only_closures s s'
      \<and> closing s' n i0 e0 len r (if fc' then the (innermost_closure (scopes s)) else i0) fc'
      \<and> (fc' \<longrightarrow> innermost_closure (scopes s) \<noteq> None)
      \<and> (i0 < a \<and> (fc \<longrightarrow> i0 < src) \<and> captures_exact s \<longrightarrow> captures_exact s'))"
proof (induction "len - a" arbitrary: a s rank src fc)
  case 0
  then have a: "a = len" by simp
  show ?case
  proof (cases fc)
    case True
    then have "innermost_closure (scopes s) = Some src"
      using 0 a by (intro innermost_closure_eq) (auto simp: closing_def)
    then show ?thesis using 0 a True by simp
  qed (use 0 a in \<open>auto simp: closing_def\<close>)
next
  case (Suc d)
  have a: "a < len" "[a ..< len] = a # [Suc a ..< len]" using Suc.hyps(2) by (simp_all add: upt_conv_Cons)
  have d: "d = len - Suc a" using Suc.hyps(2) by simp
  show ?case
  proof (cases "has_closure (scopes s ! a)")
    case False
    then have "closing s n i0 e0 (Suc a) rank src fc"
      using Suc.prems(7) by (auto simp: closing_def less_Suc_eq)
    from Suc.hyps(1) [OF d Suc.prems(1-4) _ _ this] show ?thesis
      using a False Suc.prems(5) by (auto elim!: holds_mono)
  next
    case True
    then obtain c where c: "closures s a = Some c" using Suc.prems(1,2) a(1) by (auto simp: names_ok_def)
    have ok: "scope_ok c" using names_ok_closure [OF Suc.prems(1) c] by simp
    have get: "scope_map_get c n = Inr (scope_abs c n)" by (rule scope_map_get_ok [OF ok])
    have src: "i0 \<le> src" "src \<le> a" using Suc.prems(5,7) by (auto simp: closing_def split: if_splits)
    show ?thesis
    proof (cases "scope_abs c n")
      case (Some e)
      have "closing s n i0 e0 (Suc a) (entry_rank e) a True"
        using True c Some a(1) src Suc.prems(2) by (auto simp: closing_def)
      from Suc.hyps(1) [OF d Suc.prems(1-4) _ _ this] show ?thesis
        using a True c get Some Suc.prems(5) by (auto simp: closure_at_def elim!: holds_mono)
    next
      case None
      let ?e = "empty_entry\<lparr>entry_rank := scope_used c, closure_source_rank := rank, closure_source_is_closure := fc,
          closure_source_out := (a - src) mod 256\<rparr>"
      have out: "(a - src) mod 256 = a - src" using a(1) assms(2) by (simp add: MAX_AST_DEPTH_def)
      have j: "a - (a - src) = src" using src by simp
      show ?thesis
      proof (cases "scope_map_add s c n ?e None")
        case (Inl f)
        then show ?thesis using a True c get None scope_map_add_ok [OF ok, of s n ?e None]
          by (simp add: closure_at_def Let_def)
      next
        case (Inr x)
        obtain r s1 where x: "x = (r, s1)" by (cases x)
        have added: "only_errors s s1" "if scope_used c = MAX_SCOPE_ENTRY_COUNT then r = None else \<exists>c'. r = Some c' \<and> added c n ?e c'"
          using scope_map_add_ok [OF ok, of s n ?e None] Inr x by (auto split: if_splits)
        show ?thesis
        proof (cases r)
          case None
          then show ?thesis using a True c get \<open>scope_abs c n = None\<close> Inr x by (simp add: closure_at_def Let_def)
        next
          case (Some c')
          then have c': "scope_ok c'" "scope_abs c' = (scope_abs c)(n \<mapsto> ?e)" "scope_used c' = scope_used c + 1"
            using added(2) None by (auto simp: added_def split: if_splits)
          note f = only_errors_fields [OF added(1)]
          have s1: "names_ok s1" using Suc.prems(1) only_errors_names_ok [OF added(1)] by simp
          have "clear_between (scopes s1) n src a"
            using Suc.prems(4,7) a(1) src(1) f(2) by (auto simp: clear_between_def closing_def)
          then have "capture_ok s1 a n ?e"
            using Suc.prems(3,7) src j f(2,3) out by (auto simp: capture_ok_def closing_def Let_def split: if_splits)
          then have ok2: "names_ok (s1\<lparr>closures := (closures s1)(a \<mapsto> c')\<rparr>)" (is "names_ok ?s2")
            using add_capture_ok [OF s1 _ _ _ None c'(1-3)] a(1) True c f Suc.prems(2) by simp
          have cl2: "closing ?s2 n i0 e0 (Suc a) (scope_used c) a True"
            using True a(1) src f(2) c'(2) Suc.prems(2) by (auto simp: closing_def)
          have exact: "captures_exact ?s2" if "i0 < a" "fc \<longrightarrow> i0 < src" "captures_exact s"
          proof -
            note q0 = that
            have "scope_abs (scopes s ! (k - closure_source_out e)) m = None"
              if "k < len" "has_closure (scopes s ! k)" "((closures s)(a \<mapsto> c')) k = Some y" "scope_abs y m = Some e" "closure_source_is_closure e" for k y m e
            proof -
              note q = that
              show ?thesis
            proof (cases "k = a \<and> m = n")
              case True
              then have "e = ?e" using q(3,4) c'(2) by auto
              then show ?thesis using q(5) True j out q0(2) Suc.prems(4) [of src] a(1) src(2) by auto
            next
              case False
              then obtain y' where y': "closures s k = Some y'" "scope_abs y' m = Some e"
                using q(3,4) c c'(2) by (auto split: if_splits)
              then show ?thesis using q0(3) q(1,2,5) Suc.prems(2) unfolding captures_exact_def by blast
            qed
            qed
            then show ?thesis using f(2,3) Suc.prems(2) by (auto simp: captures_exact_def)
          qed
          have sc: "scopes ?s2 = scopes s" using f(2) by simp
          have "holds (close_over [Suc a ..< len] ?s2 n (scope_used c) a True) (\<lambda>(r, fc', s'). names_ok s' \<and> only_closures ?s2 s'
            \<and> closing s' n i0 e0 len r (if fc' then the (innermost_closure (scopes s)) else i0) fc'
            \<and> (fc' \<longrightarrow> innermost_closure (scopes s) \<noteq> None)
            \<and> (i0 < Suc a \<and> (True \<longrightarrow> i0 < a) \<and> captures_exact ?s2 \<longrightarrow> captures_exact s'))"
            using Suc.hyps(1) [OF d ok2 _ _ _ _ _ cl2] Suc.prems(2-5) a(1) sc d by (simp cong: if_cong)
          then have "holds (close_over [Suc a ..< len] ?s2 n (scope_used c) a True) (\<lambda>(r, fc', s'). names_ok s' \<and> only_closures s s'
            \<and> closing s' n i0 e0 len r (if fc' then the (innermost_closure (scopes s)) else i0) fc'
            \<and> (fc' \<longrightarrow> innermost_closure (scopes s) \<noteq> None)
            \<and> (i0 < a \<and> (fc \<longrightarrow> i0 < src) \<and> captures_exact s \<longrightarrow> captures_exact s'))"
            using only_closures_update [OF added(1)] exact by (auto elim!: holds_mono)
          then show ?thesis
            using a True c get None Inr x Some by (simp add: closure_at_def Let_def)
        qed
      qed
    qed
  qed
qed

section \<open>Resolving an identifier\<close>

text \<open>The errors and flags for a self-reference leave the scopes, the closures and the bindings.\<close>

definition same_names :: "NameState \<Rightarrow> NameState \<Rightarrow> bool" where
  "same_names s s' \<longleftrightarrow> scopes s' = scopes s \<and> closures s' = closures s \<and> bindings s' = bindings s \<and> closure_ids s' = closure_ids s
     \<and> closure_entries s' = closure_entries s \<and> active_file_id s' = active_file_id s \<and> prelude_file_id s' = prelude_file_id s
     \<and> (lex_has_error s \<longrightarrow> lex_has_error s')"

lemma same_names_errors: "only_errors s s' \<Longrightarrow> same_names s s'"
  using only_errors_fields by (simp add: same_names_def)

lemma node_at_ends [simp]: "node_at N i \<noteq> Inl Diverge"
  by (simp add: node_at_def split: option.split)

lemma first_child_ends [simp]: "holds (first_child_of N i) (\<lambda>_. True)"
  by (simp add: first_child_of_def) (cases "node_at N i"; auto)

lemma is_descendant_ends [simp]: "holds (is_descendant_of N i j) (\<lambda>_. True)"
  by (simp add: is_descendant_of_def) (cases "node_at N i"; auto)

lemma holds_node_at: "holds (node_at N i) (\<lambda>n. N i = Some n)"
  by (simp add: node_at_def split: option.split)

lemma set_node_flag_same: "holds (set_node_flag s d f) (same_names s)"
  using holds_node_at [of "nodes s" d] by (simp add: set_node_flag_def same_names_def) (cases "node_at (nodes s) d"; auto)

lemma holds_trivial: "holds x (\<lambda>_. True) \<Longrightarrow> (\<And>a. x = Inr a \<Longrightarrow> Q a) \<Longrightarrow> holds x Q"
  by (cases x) auto

lemma name_error_same: "holds (name_error s src e) (same_names s)"
  using name_error_ok [of s src e] by (auto elim!: holds_mono simp: same_names_errors)

lemma note_self_reference_same: "holds (note_self_reference s d node) (same_names s)"
proof (cases d)
  case (Some i)
  have flag: "holds (set_node_flag s1 i f) (same_names s)" if "same_names s s1" for s1 f
    using set_node_flag_same [of s1 i f] that by (auto simp: same_names_def elim!: holds_mono)
  have step: "holds (name_error s (Some node) e) (\<lambda>s1. holds (set_node_flag s1 i f) (same_names s))" for e f
    using name_error_same [of s "Some node" e] flag by (auto elim!: holds_mono)
  have "same_names s s" by (simp add: same_names_def)
  then show ?thesis
    unfolding note_self_reference_def Some
    using flag step
    by (auto intro!: holds_trivial [OF is_descendant_ends] holds_trivial [OF first_child_ends] holds_mono [OF holds_node_at])
qed (simp add: note_self_reference_def same_names_def)

lemma same_names_ok: "same_names s s' \<Longrightarrow> names_ok s' = names_ok s \<and> captures_exact s' = captures_exact s"
  by (auto simp: same_names_def captures_exact_def intro!: names_ok_cong)

text \<open>The loop stops at the innermost scope with the name.\<close>

lemma resolve_name_found:
  assumes "names_ok s" and "scope_abs (scopes s ! i) name = Some e"
  shows "i < k \<Longrightarrow> k \<le> length (scopes s) \<Longrightarrow> (\<And>j. i < j \<Longrightarrow> j < k \<Longrightarrow> scope_abs (scopes s ! j) name = None) \<Longrightarrow>
    resolve_name k s node name b cin = bind_found s node name i e (b \<or> (\<exists>j. i < j \<and> j < k \<and> has_closure (scopes s ! j))) cin"
proof (induction k arbitrary: b)
  case (Suc k)
  have get: "scope_map_get (scopes s ! k) name = Inr (scope_abs (scopes s ! k) name)"
    using Suc.prems(2) assms(1) by (intro scope_map_get_ok) (simp add: names_ok_def)
  show ?case
  proof (cases "k = i")
    case True
    then have "(b \<or> (\<exists>j. i < j \<and> j < Suc k \<and> has_closure (scopes s ! j))) = b" by auto
    moreover have "resolve_name (Suc k) s node name b cin = bind_found s node name i e b cin" using True get assms(2) by simp
    ultimately show ?thesis by simp
  next
    case False
    then have "resolve_name k s node name (b \<or> has_closure (scopes s ! k)) cin
        = bind_found s node name i e ((b \<or> has_closure (scopes s ! k)) \<or> (\<exists>j. i < j \<and> j < k \<and> has_closure (scopes s ! j))) cin"
      using Suc.prems by (intro Suc.IH) auto
    moreover have "((b \<or> has_closure (scopes s ! k)) \<or> (\<exists>j. i < j \<and> j < k \<and> has_closure (scopes s ! j)))
        = (b \<or> (\<exists>j. i < j \<and> j < Suc k \<and> has_closure (scopes s ! j)))"
      using False Suc.prems(1) by (auto simp: less_Suc_eq)
    moreover have "scope_abs (scopes s ! k) name = None" using False Suc.prems(1,3) by simp
    ultimately show ?thesis using get by simp
  qed
qed simp

lemma resolve_name_missing:
  assumes "names_ok s"
  shows "k \<le> length (scopes s) \<Longrightarrow> (\<And>j. j < k \<Longrightarrow> scope_abs (scopes s ! j) name = None) \<Longrightarrow>
    resolve_name k s node name b cin = name_error s (Some node) ScopeNameNotDefined"
proof (induction k arbitrary: b)
  case (Suc k)
  have "scope_map_get (scopes s ! k) name = Inr (scope_abs (scopes s ! k) name)"
    using Suc.prems(1) assms by (intro scope_map_get_ok) (simp add: names_ok_def)
  then show ?case using Suc.prems Suc.IH by simp
qed simp

text \<open>A name from the scope \<open>i\<close> with a closure further in: the chain of captures ends at its entry.\<close>

lemma innermost_closure_Some:
  assumes "innermost_closure xs = Some t"
  shows "t < length xs" and "has_closure (xs ! t)" and "\<And>k. t < k \<Longrightarrow> k < length xs \<Longrightarrow> \<not> has_closure (xs ! k)"
proof -
  obtain j where j: "j < length xs" "has_closure (xs ! (length xs - 1 - j))" "t = length xs - 1 - j"
      "\<And>i. i < j \<Longrightarrow> \<not> has_closure (xs ! (length xs - 1 - i))"
    using assms by (auto simp: innermost_closure_def find_Some_iff rev_nth)
  then show "t < length xs" "has_closure (xs ! t)" by simp_all
  fix k assume k: "t < k" "k < length xs"
  then have "length xs - 1 - k < j" using j(1,3) by simp
  from j(4) [OF this] k show "\<not> has_closure (xs ! k)" by simp
qed

lemma add_name_ok:
  assumes "names_ok s" and "captures_exact s" and "scope_abs (scopes s ! i) name = Some e"
    and "\<And>j. i < j \<Longrightarrow> j < length (scopes s) \<Longrightarrow> scope_abs (scopes s ! j) name = None"
    and "i < k" and "k < length (scopes s)" and "has_closure (scopes s ! k)"
  shows "holds (add_name_to_closures s name (entry_rank e) i True) (\<lambda>(r, s'). names_ok s' \<and> captures_exact s' \<and> only_closures s s'
    \<and> denotes s' (Binding_Closed r) = Some (Local_Definition i (entry_rank e)))"
proof -
  let ?len = "length (scopes s)"
  have len: "?len \<le> MAX_AST_DEPTH" using assms(1) by (simp add: names_ok_def)
  have start: "closing s name i e (Suc i) (entry_rank e) i False" by (auto simp: closing_def)
  have result: "denotes s' (Binding_Closed r) = Some (Local_Definition i (entry_rank e))"
    if q: "names_ok s'" "captures_exact s'" "only_closures s s'" "innermost_closure (scopes s) \<noteq> None"
      "closing s' name i e ?len r (the (innermost_closure (scopes s))) True" for r s'
  proof -
    note f = only_closures_fields [OF q(3)]
    obtain t where t: "innermost_closure (scopes s) = Some t" using q(4) by blast
    have "i < t" using innermost_closure_Some(3) [OF t, of k] assms(5-7) by fastforce
    obtain c e1 where c: "t < ?len" "has_closure (scopes s ! t)" "closures s' t = Some c" "scope_abs c name = Some e1" "entry_rank e1 = r"
      using q(5) t f(2) by (auto simp: closing_def)
    have "t < length (scopes s')" "has_closure (scopes s' ! t)" using c f(2) by simp_all
    then obtain j e' where j: "captured (t + 1) s' t r = Some (j, entry_rank e')" "j \<le> t" "scope_abs (scopes s ! j) name = Some e'"
        "\<forall>x. j < x \<and> x < t \<longrightarrow> scope_abs (scopes s ! x) name = None"
      using captured_ok [OF q(1,2) _ _ c(3,4), of "t + 1"] c(5) f(2) by auto
    have "j = i"
      using assms(3) assms(4) [of j] j(2-4) c(1) \<open>i < t\<close> by (cases "i < j"; cases "j < i") auto
    then show ?thesis using j(1,3) t assms(3) f(2) by (simp add: denotes_def)
  qed
  have "holds (close_over [Suc i ..< ?len] s name (entry_rank e) i False) (\<lambda>(r, fc', s'). names_ok s' \<and> only_closures s s'
      \<and> closing s' name i e ?len r (if fc' then the (innermost_closure (scopes s)) else i) fc'
      \<and> (fc' \<longrightarrow> innermost_closure (scopes s) \<noteq> None) \<and> captures_exact s')"
    using close_over_ok [OF _ len assms(1) refl assms(3,4) _ _ start] assms(2,5,6) by simp
  then show ?thesis
    using result by (auto simp: add_name_to_closures_def elim!: holds_mono)
qed

text \<open>The definition that the entry \<open>e\<close> of the scope \<open>i\<close> stands for.\<close>

definition defined_by :: "NameState \<Rightarrow> nat \<Rightarrow> ScopeEntry \<Rightarrow> target" where
  "defined_by s i e =
     (if scope_kind (scopes s ! i) = Kind_Global
      then Global_Definition (if i = 0 then prelude_file_id s else active_file_id s) (entry_rank e)
      else if scope_kind (scopes s ! i) = Kind_TraitSignature then Trait_Parameter (entry_rank e mod 256)
      else Local_Definition i (entry_rank e))"

definition innermost_entry :: "NameState \<Rightarrow> u32 \<Rightarrow> (nat \<times> ScopeEntry) option" where
  "innermost_entry s name =
     map_option (\<lambda>i. (i, the (scope_abs (scopes s ! i) name)))
       (List.find (\<lambda>i. scope_abs (scopes s ! i) name \<noteq> None) (rev [0 ..< length (scopes s)]))"

lemma innermost_entry_Some:
  assumes "innermost_entry s name = Some (i, e)"
  shows "i < length (scopes s)" and "scope_abs (scopes s ! i) name = Some e"
    and "\<And>k. i < k \<Longrightarrow> k < length (scopes s) \<Longrightarrow> scope_abs (scopes s ! k) name = None"
proof -
  let ?len = "length (scopes s)"
  obtain j where j: "j < ?len" "scope_abs (scopes s ! (?len - 1 - j)) name \<noteq> None" "i = ?len - 1 - j" "e = the (scope_abs (scopes s ! i) name)"
      "\<And>i. i < j \<Longrightarrow> scope_abs (scopes s ! (?len - 1 - i)) name = None"
    using assms by (auto simp: innermost_entry_def find_Some_iff rev_nth simp del: not_None_eq)
  then show "i < ?len" "scope_abs (scopes s ! i) name = Some e" by auto
  fix k assume k: "i < k" "k < ?len"
  then have "?len - 1 - k < j" using j(1,3) by simp
  from j(5) [OF this] k show "scope_abs (scopes s ! k) name = None" by simp
qed

lemma innermost_entry_None:
  "innermost_entry s name = None \<Longrightarrow> k < length (scopes s) \<Longrightarrow> scope_abs (scopes s ! k) name = None"
  by (auto simp: innermost_entry_def find_None_iff)

lemma bind_found_ok:
  assumes "names_ok s" and "captures_exact s" and "innermost_entry s name = Some (i, e)"
  shows "holds (bind_found s node name i e (\<exists>j. i < j \<and> j < length (scopes s) \<and> has_closure (scopes s ! j)) True)
    (\<lambda>s'. names_ok s' \<and> captures_exact s' \<and> scopes s' = scopes s
      \<and> (\<exists>b. bindings s' = (bindings s)(node \<mapsto> b) \<and> denotes s' b = Some (defined_by s i e)))"
proof -
  note inn = innermost_entry_Some [OF assms(3)]
  have step: "holds (let kind = scope_kind (scopes s1 ! i) in
     if kind = Kind_Global then
       Inr (bind_node node (Binding_Global (entry_rank e) (if i = 0 then prelude_file_id s1 else active_file_id s1)) s1)
     else if kind = Kind_TraitSignature then Inr (bind_node node (Binding_TraitArgument (entry_rank e mod 256)) s1)
     else if (\<exists>j. i < j \<and> j < length (scopes s) \<and> has_closure (scopes s ! j)) then
       obind (add_name_to_closures s1 name (entry_rank e) i True) (\<lambda>(rank_in_closure, s).
         Inr (bind_node node (Binding_Closed rank_in_closure) s))
     else
       Inr (bind_node node (Binding_Scoped ((scopes_top s1 - i) mod 256) (entry_rank e)) s1))
    (\<lambda>s'. names_ok s' \<and> captures_exact s' \<and> scopes s' = scopes s
      \<and> (\<exists>b. bindings s' = (bindings s)(node \<mapsto> b) \<and> denotes s' b = Some (defined_by s i e)))" (is "holds ?step _")
    if "same_names s s1" for s1
  proof -
    have s1: "scopes s1 = scopes s" "closures s1 = closures s" "bindings s1 = bindings s" "active_file_id s1 = active_file_id s"
        "prelude_file_id s1 = prelude_file_id s" "names_ok s1" "captures_exact s1"
      using that same_names_ok [OF that] assms(1,2) by (simp_all add: same_names_def)
    have bound: "names_ok (bind_node node b t) = names_ok t" "captures_exact (bind_node node b t) = captures_exact t" for b t
      by (auto simp: bind_node_def captures_exact_def intro!: names_ok_cong)
    have den: "denotes (bind_node node b t) b' = denotes t b'" for b b' t
    proof -
      have "captured k (bind_node node b t) = captured k t" for k
        by (induction k) (auto simp: fun_eq_iff bind_node_def Let_def split: option.split)
      then show ?thesis by (simp add: denotes_def bind_node_def scopes_top_def split: NameBinding.split option.split)
    qed
    show ?thesis
    proof (cases "scope_kind (scopes s ! i) = Kind_Global \<or> scope_kind (scopes s ! i) = Kind_TraitSignature")
      case True
      then show ?thesis using s1 by (auto simp: bound den defined_by_def denotes_def) (auto simp: bind_node_def)
    next
      case other: False
      show ?thesis
      proof (cases "\<exists>j. i < j \<and> j < length (scopes s) \<and> has_closure (scopes s ! j)")
        case True
        then obtain k where "i < k" "k < length (scopes s)" "has_closure (scopes s ! k)" by blast
        then have "holds (add_name_to_closures s1 name (entry_rank e) i True) (\<lambda>(r, s'). names_ok s' \<and> captures_exact s'
          \<and> only_closures s1 s' \<and> denotes s' (Binding_Closed r) = Some (Local_Definition i (entry_rank e)))"
          using add_name_ok [OF s1(6,7), of i name e k] inn s1(1) by simp
        then have "holds (add_name_to_closures s1 name (entry_rank e) i True) (\<lambda>(r, s'). names_ok s' \<and> captures_exact s'
          \<and> scopes s' = scopes s \<and> bindings s' = bindings s \<and> denotes s' (Binding_Closed r) = Some (defined_by s i e))"
          using other only_closures_fields(2,3) s1(1,3) by (force simp: defined_by_def elim!: holds_mono)
        then have "holds (obind (add_name_to_closures s1 name (entry_rank e) i True) (\<lambda>(rank_in_closure, s).
            Inr (bind_node node (Binding_Closed rank_in_closure) s))) (\<lambda>s'. names_ok s' \<and> captures_exact s' \<and> scopes s' = scopes s
          \<and> (\<exists>b. bindings s' = (bindings s)(node \<mapsto> b) \<and> denotes s' b = Some (defined_by s i e)))"
          unfolding holds_bind
        proof (rule holds_mono, clarify)
          fix r s2
          assume "names_ok s2" "captures_exact s2" "scopes s2 = scopes s" "bindings s2 = bindings s"
            "denotes s2 (Binding_Closed r) = Some (defined_by s i e)"
          then show "holds (Inr (bind_node node (Binding_Closed r) s2)) (\<lambda>s'. names_ok s' \<and> captures_exact s' \<and> scopes s' = scopes s
            \<and> (\<exists>b. bindings s' = (bindings s)(node \<mapsto> b) \<and> denotes s' b = Some (defined_by s i e)))"
            by (auto simp: bound den) (auto simp: bind_node_def)
        qed
        then show ?thesis using True other s1(1) by (simp add: Let_def)
      next
        case False
        have "scopes_top s1 - (scopes_top s1 - i) mod 256 = i"
        proof -
          have "length (scopes s) \<le> 128" using assms(1) by (simp add: names_ok_def MAX_AST_DEPTH_def)
          then have "scopes_top s1 - i < 256" using s1(1) by (simp add: scopes_top_def)
          then show ?thesis using inn(1) s1(1) by (simp add: scopes_top_def)
        qed
        then have "denotes s1 (Binding_Scoped ((scopes_top s1 - i) mod 256) (entry_rank e)) = Some (Local_Definition i (entry_rank e))"
          by (simp add: denotes_def)
        then show ?thesis using False other s1
          by (auto simp: bound den defined_by_def) (auto simp: bind_node_def)
      qed
    qed
  qed
  show ?thesis
    unfolding bind_found_def holds_bind by (rule holds_mono [OF note_self_reference_same step])
qed

lemma resolve_identifier_ok:
  assumes "names_ok s" and "captures_exact s" and "name_of_node s Tag_Identifier node = Inr name"
  shows "holds (resolve_identifier node True s) (\<lambda>s'. names_ok s' \<and> captures_exact s' \<and> scopes s' = scopes s
    \<and> (case innermost_entry s name of
         Some (i, e) \<Rightarrow> \<exists>b. bindings s' = (bindings s)(node \<mapsto> b) \<and> denotes s' b = Some (defined_by s i e)
       | None \<Rightarrow> lex_has_error s' \<and> bindings s' = bindings s))"
proof (cases "innermost_entry s name")
  case None
  then have "resolve_identifier node True s = name_error s (Some node) ScopeNameNotDefined"
    using innermost_entry_None [OF None] assms resolve_name_missing by (simp add: resolve_identifier_def)
  moreover have "holds (name_error s (Some node) ScopeNameNotDefined) (\<lambda>s'. same_names s s' \<and> lex_has_error s')"
    by (rule holds_mono [OF holds_conj [OF name_error_same name_error_ok]]) simp
  ultimately show ?thesis using None same_names_ok assms(1,2) by (auto simp: same_names_def elim!: holds_mono)
next
  case (Some x)
  obtain i e where x: "x = (i, e)" by (cases x)
  note inn = innermost_entry_Some [OF Some [unfolded x]]
  have "resolve_identifier node True s
      = bind_found s node name i e (\<exists>j. i < j \<and> j < length (scopes s) \<and> has_closure (scopes s ! j)) True"
    using resolve_name_found [OF assms(1) inn(2) inn(1) order_refl] inn(3) assms(3) by (simp add: resolve_identifier_def)
  then show ?thesis using bind_found_ok [OF assms(1,2) Some [unfolded x], of node] Some x by simp
qed

end
