(* ===== verification/NameSteps.thy ===== *)
theory NameSteps
  imports NameCapture AstPreorder
begin

text \<open>
  What name resolution keeps at each step: the trees it walks over, the states it goes through, and
  the steps that do not recurse.
\<close>

section \<open>Trees\<close>

text \<open>The walk changes flags of nodes only, so a tree is looked at without them.\<close>

definition unflagged :: "node_store \<Rightarrow> node_store" where
  "unflagged N = (\<lambda>i. map_option (\<lambda>n. n\<lparr>flags := 0\<rparr>) (N i))"

lemma unflagged_Some: "unflagged N i = Some n \<Longrightarrow> \<exists>m. N i = Some m \<and> n = m\<lparr>flags := 0\<rparr>"
  by (auto simp: unflagged_def)

lemma unflagged_update:
  "N i = Some n \<Longrightarrow> unflagged (N(i \<mapsto> n\<lparr>flags := f\<rparr>)) = unflagged N"
  by (auto simp: unflagged_def fun_eq_iff)

text \<open>A function has a signature and a body as its children.\<close>

definition func_ok :: "node_store \<Rightarrow> nat \<Rightarrow> AstNode \<Rightarrow> bool" where
  "func_ok U p n \<longleftrightarrow> (tag n = Tag_Func \<longrightarrow> (\<exists>signature body.
     U (p + own_qwords n) = Some signature \<and> tag signature = Tag_Signature
     \<and> U (p + own_qwords n + next_sibling_offset signature) = Some body \<and> last_sibling body))"

text \<open>
  A node of a pool with \<open>V\<close> used units whose subtree, and those of the siblings behind it, are at most
  \<open>k\<close> levels high.
\<close>

inductive walkable :: "node_store \<Rightarrow> nat \<Rightarrow> nat \<Rightarrow> nat \<Rightarrow> bool" for U V where
  walkable: "U p = Some n \<Longrightarrow> p < V \<Longrightarrow> func_ok U p n \<Longrightarrow> has_children n \<longrightarrow> walkable U V k (p + own_qwords n)
    \<Longrightarrow> has_next_sibling n \<longrightarrow> 0 < next_sibling_offset n \<and> walkable U V (Suc k) (p + next_sibling_offset n)
    \<Longrightarrow> walkable U V (Suc k) p"

inductive_cases walkableE: "walkable U V k p"

lemma walkable_mono: "walkable U V k p \<Longrightarrow> k \<le> k' \<Longrightarrow> walkable U V k' p"
proof (induction arbitrary: k' rule: walkable.induct)
  case (walkable p n k)
  from walkable.prems obtain k1 where k1: "k' = Suc k1" "k \<le> k1" by (cases k') auto
  show ?case
    unfolding k1(1) by (rule walkable.walkable [OF walkable.hyps(1-3)]) (use walkable.IH k1(2) in auto)
qed

text \<open>The identifiers below a node, without those of a \<open>where\<close> and the parameters of a trait.\<close>

inductive siblings :: "node_store \<Rightarrow> nat \<Rightarrow> nat \<Rightarrow> bool" for U where
  self: "siblings U p p"
| next_one: "U p = Some n \<Longrightarrow> has_next_sibling n \<Longrightarrow> siblings U (p + next_sibling_offset n) q \<Longrightarrow> siblings U p q"

inductive inside :: "node_store \<Rightarrow> nat \<Rightarrow> nat \<Rightarrow> bool" for U where
  at_identifier: "U p = Some n \<Longrightarrow> tag n = Tag_Identifier \<Longrightarrow> inside U p p"
| in_child: "U p = Some n \<Longrightarrow> tag n \<notin> {Tag_Identifier, Tag_TraitParameterList, Tag_Where} \<Longrightarrow> has_children n
    \<Longrightarrow> siblings U (p + own_qwords n) c \<Longrightarrow> inside U c q \<Longrightarrow> inside U p q"

inductive_cases siblingsE: "siblings U p q"
inductive_cases insideE: "inside U p q"

section \<open>What the walk keeps\<close>

definition fits :: "node_store \<Rightarrow> nat \<Rightarrow> NameState \<Rightarrow> bool" where
  "fits U V s \<longleftrightarrow> unflagged (nodes s) = U \<and> ast_used (trees s) = V \<and> names_ok s"

definition around :: "NameState \<Rightarrow> NameState \<Rightarrow> bool" where
  "around s s' \<longleftrightarrow> dom (bindings s) \<subseteq> dom (bindings s') \<and> (lex_has_error s \<longrightarrow> lex_has_error s')
     \<and> active_file_id s' = active_file_id s \<and> prelude_file_id s' = prelude_file_id s"

text \<open>The scopes below the innermost stay, or all of them and there are more.\<close>

definition later :: "NameState \<Rightarrow> NameState \<Rightarrow> bool" where
  "later s s' \<longleftrightarrow> around s s' \<and> length (scopes s) \<le> length (scopes s')
     \<and> take (length (scopes s) - 1) (scopes s') = take (length (scopes s) - 1) (scopes s)"

definition pushed :: "NameState \<Rightarrow> NameState \<Rightarrow> bool" where
  "pushed s s' \<longleftrightarrow> around s s' \<and> length (scopes s) < length (scopes s') \<and> take (length (scopes s)) (scopes s') = scopes s"

definition bound :: "node_store \<Rightarrow> nat \<Rightarrow> NameState \<Rightarrow> bool" where
  "bound U p s \<longleftrightarrow> lex_has_error s \<or> (\<forall>q. inside U p q \<longrightarrow> bindings s q \<noteq> None)"

lemma around_refl [simp]: "around s s" and around_trans: "around s s1 \<Longrightarrow> around s1 s2 \<Longrightarrow> around s s2"
  by (auto simp: around_def)

lemma later_refl [simp]: "later s s"
  by (simp add: later_def)

lemma take_less: "take m ys = take m xs \<Longrightarrow> n \<le> m \<Longrightarrow> take n ys = take n xs"
  by (metis min.absorb1 take_take)

lemma later_trans: "later s s1 \<Longrightarrow> later s1 s2 \<Longrightarrow> later s s2"
  using take_less [of "length (scopes s1) - 1" "scopes s2" "scopes s1" "length (scopes s) - 1"] around_trans [of s s1 s2]
  by (auto simp: later_def)

lemma pushed_later: "pushed s s1 \<Longrightarrow> later s1 s2 \<Longrightarrow> pushed s s2"
  using take_less [of "length (scopes s1) - 1" "scopes s2" "scopes s1" "length (scopes s)"] around_trans [of s s1 s2]
  by (auto simp: later_def pushed_def)

lemma pushed_imp_later: "pushed s s' \<Longrightarrow> later s s'"
  using take_less [of "length (scopes s)" "scopes s'" "scopes s" "length (scopes s) - 1"] by (simp add: later_def pushed_def)

lemma later_pop: "pushed s s1 \<Longrightarrow> s2 = s1\<lparr>scopes := butlast (scopes s1)\<rparr> \<Longrightarrow> later s s2"
  using take_less [of "length (scopes s)" "scopes s1" "scopes s" "length (scopes s) - 1"]
  by (auto simp: later_def pushed_def around_def take_butlast)

lemma later_same: "around s s' \<Longrightarrow> scopes s' = scopes s \<Longrightarrow> later s s'"
  by (simp add: later_def)

lemma bound_later: "bound U p s \<Longrightarrow> later s s' \<Longrightarrow> bound U p s'"
  unfolding bound_def later_def around_def by blast

lemma fits_cong:
  "fits U V s \<Longrightarrow> nodes s' = nodes s \<Longrightarrow> ast_used (trees s') = ast_used (trees s) \<Longrightarrow> names_ok s' \<Longrightarrow> fits U V s'"
  by (simp add: fits_def)

lemma fits_names_ok: "fits U V s \<Longrightarrow> names_ok s"
  by (simp add: fits_def)

lemma only_errors_fits: "fits U V s \<Longrightarrow> only_errors s s' \<Longrightarrow> fits U V s' \<and> later s s'"
  using only_errors_fields [of s s'] only_errors_names_ok [of s s'] by (simp add: fits_def later_def around_def)

lemma walkable_node:
  assumes "walkable U V k p" and "fits U V s"
  obtains n j where "k = Suc j" "nodes s p = Some n" "node_at (nodes s) p = Inr n" "p < V" "func_ok U p (n\<lparr>flags := 0\<rparr>)"
    "has_children n \<Longrightarrow> walkable U V j (p + own_qwords n)"
    "has_next_sibling n \<Longrightarrow> 0 < next_sibling_offset n \<and> walkable U V k (p + next_sibling_offset n)"
    "U p = Some (n\<lparr>flags := 0\<rparr>)"
proof -
  obtain n j where n: "k = Suc j" "U p = Some n" "p < V" "func_ok U p n" "has_children n \<longrightarrow> walkable U V j (p + own_qwords n)"
      "has_next_sibling n \<longrightarrow> 0 < next_sibling_offset n \<and> walkable U V k (p + next_sibling_offset n)"
    using assms(1) by (auto elim: walkableE)
  then obtain m where m: "nodes s p = Some m" "n = m\<lparr>flags := 0\<rparr>"
    using assms(2) unflagged_Some [of "nodes s" p n] unfolding fits_def by blast
  show ?thesis
    by (rule that [of j m]) (use n m in \<open>simp_all add: node_at_def has_children_def has_next_sibling_def\<close>)
qed

section \<open>The steps\<close>

lemma holds_Inr_only: "(\<And>a. x = Inr a \<Longrightarrow> Q a) \<Longrightarrow> x \<noteq> Inl Diverge \<Longrightarrow> holds x Q"
  by (cases x) auto

lemma alloc_ok:
  "fits U V s \<Longrightarrow> holds (scope_map_alloc s kind) (\<lambda>(m, s'). scope_ok m \<and> scope_abs m = Map.empty \<and> \<not> has_closure m
    \<and> scope_used m = 0 \<and> scope_kind m = kind \<and> fits U V s' \<and> only_errors s s')"
  using alloc_sized_ok [of 3 s kind] only_errors_fits [of U V s] by (auto simp: scope_map_alloc_def elim!: holds_mono)

lemma push_fits:
  assumes "fits U V s" and "scope_ok m" and "\<not> has_closure m"
  shows "holds (push_scope s m) (\<lambda>s'. fits U V s' \<and> pushed s s' \<and> closures s' = closures s \<and> scopes s' = scopes s @ [m] \<and> trees s' = trees s)"
  using push_scope_ok [OF fits_names_ok [OF assms(1)] assms(2,3)] assms(1)
  by (auto simp: fits_def pushed_def around_def elim!: holds_mono)

lemma push_new_scope_fits:
  assumes "fits U V s"
  shows "holds (push_new_scope kind s) (\<lambda>s'. fits U V s' \<and> pushed s s')"
  unfolding push_new_scope_def holds_bind
proof (rule holds_mono [OF alloc_ok [OF assms]], clarify)
  fix m s1
  assume m: "scope_ok m" "\<not> has_closure m" "fits U V s1" "only_errors s s1"
  have "pushed s s'" if "pushed s1 s'" for s'
    using that only_errors_fields [OF m(4)] by (auto simp: pushed_def around_def)
  then show "holds (push_scope s1 m) (\<lambda>s'. fits U V s' \<and> pushed s s')"
    using push_fits [OF m(3,1,2)] by (auto elim!: holds_mono)
qed

lemma pop_fits:
  assumes "fits U V s"
  shows "holds (pop_scope s) (\<lambda>s'. fits U V s' \<and> s' = s\<lparr>scopes := butlast (scopes s)\<rparr>)"
  using pop_scope_ok [OF fits_names_ok [OF assms]] assms by (auto simp: fits_def elim!: holds_mono)

lemma pop_later:
  assumes "fits U V s1" and "pushed s s1"
  shows "holds (pop_scope s1) (\<lambda>s'. fits U V s' \<and> later s s')"
  using pop_fits [OF assms(1)] later_pop [OF assms(2)] by (auto elim!: holds_mono)

lemma push_new_closure_fits:
  assumes "fits U V s"
  shows "holds (push_new_closure s) (\<lambda>s'. fits U V s' \<and> later s s')"
  unfolding push_new_closure_def holds_bind
proof (rule holds_mono [OF alloc_ok [OF assms]], clarify)
  fix c s1
  assume c: "scope_ok c" "scope_abs c = Map.empty" "fits U V s1" "only_errors s s1"
  note f = only_errors_fields [OF c(4)]
  show "holds (set_closure s1 c) (\<lambda>s'. fits U V s' \<and> later s s')"
  proof (cases "scopes s1 = [] \<or> has_closure (scopes s1 ! scopes_top s1)")
    case True
    then show ?thesis by (auto simp: set_closure_def top_scope_def)
  next
    case False
    let ?t = "scopes_top s1"
    let ?m = "(scopes s1 ! ?t)\<lparr>has_closure := True\<rparr>"
    let ?s = "(set_top_scope s1 ?m)\<lparr>closures := (closures s1)(?t \<mapsto> c)\<rparr>"
    have t: "?t < length (scopes s1)" using False by (simp add: scopes_top_def)
    have ok: "scope_ok (scopes s1 ! ?t)" using c(3) t by (simp add: fits_def names_ok_def)
    have occ: "occupied ?m = occupied (scopes s1 ! ?t)" by (simp add: fun_eq_iff)
    have "scope_ok ?m" using ok by (simp add: scope_ok_def reached_def home_index_def)
    moreover have "scope_abs ?m = scope_abs (scopes s1 ! ?t)" by (simp add: scope_abs_def)
    ultimately have "names_ok ?s"
      using False by (intro empty_closure_ok [where m = ?m, OF fits_names_ok [OF c(3)] _ c(1,2)]) (auto simp: set_top_scope_def)
    then have "fits U V ?s" using c(3) by (simp add: fits_def set_top_scope_def)
    moreover have "later s ?s"
      using t f by (auto simp: later_def around_def set_top_scope_def scopes_top_def)
    ultimately show ?thesis using False by (simp add: set_closure_def top_scope_def)
  qed
qed

lemma set_node_flag_fits:
  assumes "fits U V s"
  shows "holds (set_node_flag s i f) (\<lambda>s'. fits U V s' \<and> later s s' \<and> scopes s' = scopes s)"
proof (cases "nodes s i")
  case (Some n)
  let ?s = "s\<lparr>trees := (trees s)\<lparr>ast_nodes := (nodes s)(i \<mapsto> n\<lparr>flags := flags n OR f\<rparr>)\<rparr>\<rparr>"
  have "names_ok ?s" using assms names_ok_cong [of ?s s] by (simp add: fits_def)
  then have "fits U V ?s" using assms unflagged_update [of "nodes s" i n] Some by (simp add: fits_def)
  moreover have "later s ?s" by (simp add: later_def around_def)
  ultimately show ?thesis using Some by (simp add: set_node_flag_def)
qed (simp add: set_node_flag_def node_at_def)

lemma closure_list_loop_ends: "closure_list_loop is c list \<noteq> Inl Diverge"
  by (induction "is" arbitrary: list) (simp_all add: Let_def ensure_def)

lemma set_closure_list_fits:
  assumes "fits U V s"
  shows "holds (set_closure_list s c node) (\<lambda>s'. fits U V s' \<and> later s s' \<and> scopes s' = scopes s)"
proof -
  have *: "fits U V s'" if "nodes s' = nodes s" "ast_used (trees s') = ast_used (trees s)" "scopes s' = scopes s" "closures s' = closures s" for s'
    using assms that names_ok_cong [of s' s] by (simp add: fits_def)
  have loop: "holds (closure_list_loop is c l) (\<lambda>_. True)" for "is" l
    using closure_list_loop_ends by (cases "closure_list_loop is c l") auto
  show ?thesis
    unfolding set_closure_list_def alloc_closure_list_def Let_def
    by (cases "scope_used c = 0"; simp; intro impI conjI * later_same holds_trivial [OF loop]) (simp_all add: *  later_same around_def)
qed

lemma define_name_fits:
  assumes "fits U V s"
  shows "holds (define_name name d src s) (\<lambda>(ok, s'). fits U V s' \<and> later s s' \<and> (\<not> ok \<longrightarrow> lex_has_error s'))"
proof (cases "scopes s = []")
  case False
  let ?t = "scopes_top s"
  let ?m = "scopes s ! ?t"
  have t: "?t < length (scopes s)" using False by (simp add: scopes_top_def)
  have ok: "scope_ok ?m" using assms t by (simp add: fits_def names_ok_def)
  let ?e = "empty_entry\<lparr>entry_rank := scope_used ?m, entry_definition := d\<rparr>"
  have "holds (scope_map_add s ?m name ?e (Some src)) (\<lambda>(r, s1). holds (case r of None \<Rightarrow> Inr (False, s1) | Some m \<Rightarrow> Inr (True, set_top_scope s1 m))
      (\<lambda>(ok, s'). fits U V s' \<and> later s s' \<and> (\<not> ok \<longrightarrow> lex_has_error s')))"
  proof (rule holds_mono [OF scope_map_add_ok [OF ok]], clarify)
    fix r s1
    assume s1: "only_errors s s1" and r: "if scope_used ?m = MAX_SCOPE_ENTRY_COUNT then r = None \<and> lex_has_error s1
       else (\<exists>m'. r = Some m' \<and> added ?m name ?e m') \<and> (scope_abs ?m name \<noteq> None \<longrightarrow> lex_has_error s1)"
    note f = only_errors_fields [OF s1] and fit = only_errors_fits [OF assms s1]
    show "holds (case r of None \<Rightarrow> Inr (False, s1) | Some m \<Rightarrow> Inr (True, set_top_scope s1 m))
      (\<lambda>(ok, s'). fits U V s' \<and> later s s' \<and> (\<not> ok \<longrightarrow> lex_has_error s'))"
    proof (cases r)
      case None
      then show ?thesis using r fit by (auto split: if_splits)
    next
      case (Some m)
      then have m: "added ?m name ?e m" using r by (auto split: if_splits)
      have "scopes_top s1 = ?t" using f(2) by (simp add: scopes_top_def)
      then have "names_ok (set_top_scope s1 m)"
      proof (intro set_top_scope_ok)
        show "scope_abs (scopes s1 ! scopes_top s1) \<subseteq>\<^sub>m scope_abs m"
          using m f(2) \<open>scopes_top s1 = ?t\<close> by (auto simp: added_def map_le_def)
      qed (use fit f(2) False m \<open>scopes_top s1 = ?t\<close> in \<open>simp_all add: fits_def added_def\<close>)
      then have "fits U V (set_top_scope s1 m)" using fit by (simp add: fits_def set_top_scope_def)
      moreover have "later s1 (set_top_scope s1 m)" by (auto simp: later_def around_def set_top_scope_def scopes_top_def)
      ultimately show ?thesis using Some fit later_trans by auto
    qed
  qed
  then show ?thesis using False by (simp add: define_name_def top_scope_def split_def)
qed (simp add: define_name_def top_scope_def)

lemma name_of_node_ends [simp]: "name_of_node s tg i \<noteq> Inl Diverge"
  by (auto simp: name_of_node_def obind_def ensure_def split: sum.splits AstAttachment.splits)

lemma tag_at_ends [simp]: "tag_at N i \<noteq> Inl Diverge" "has_next_sibling_at N i \<noteq> Inl Diverge"
  by (auto simp: tag_at_def has_next_sibling_at_def obind_def split: sum.splits)

lemma closure_at_holds: "holds (closure_at s i) (\<lambda>c. closures s i = Some c)"
  by (simp add: closure_at_def split: option.split)

lemma reset_closure_fits:
  assumes "fits U V s" and "closures s (scopes_top s) = Some c"
  shows "fits U V (s\<lparr>closures := (closures s)(scopes_top s \<mapsto> scope_map_reset c)\<rparr>)" (is "fits U V ?s")
proof (cases "scopes s = []")
  case True
  have "scope_ok (scope_map_reset c)" "ranks_ok (scope_map_reset c)"
    using scope_map_reset_ok [of c] names_ok_closure [OF fits_names_ok [OF assms(1)] assms(2)] by (simp_all add: ranks_ok_def)
  then show ?thesis using True assms by (simp add: fits_def names_ok_def)
next
  case False
  let ?m = "scopes s ! scopes_top s"
  have "scope_ok ?m" using False assms(1) by (simp add: fits_def names_ok_def scopes_top_def)
  moreover have "scope_ok c" using names_ok_closure [OF fits_names_ok [OF assms(1)] assms(2)] by simp
  ultimately have "names_ok ?s"
    using scope_map_reset_ok [of c] False
    by (intro empty_closure_ok [where m = ?m and c = "scope_map_reset c", OF fits_names_ok [OF assms(1)]]) auto
  then show ?thesis using assms(1) by (simp add: fits_def)
qed

section \<open>Identifiers\<close>

lemma only_closures_later: "only_closures s s' \<Longrightarrow> later s s'"
  using only_closures_fields [of s s'] by (simp add: later_def around_def)

lemma same_names_fits: "fits U V s \<Longrightarrow> same_names s s' \<Longrightarrow> unflagged (nodes s') = U \<Longrightarrow> ast_used (trees s') = V \<Longrightarrow> fits U V s' \<and> later s s'"
  using same_names_ok [of s s'] by (auto simp: fits_def later_def around_def same_names_def)

lemma name_error_fits:
  assumes "fits U V s"
  shows "holds (name_error s src e) (\<lambda>s'. fits U V s' \<and> later s s' \<and> scopes s' = scopes s \<and> lex_has_error s')"
  by (rule holds_mono [OF name_error_ok]) (use only_errors_fits [OF assms] only_errors_fields(2) in auto)

lemma note_self_reference_fits:
  assumes "fits U V s"
  shows "holds (note_self_reference s d node) (\<lambda>s'. fits U V s' \<and> later s s' \<and> scopes s' = scopes s)"
proof (cases d)
  case (Some i)
  define P where "P = (\<lambda>s'. fits U V s' \<and> later s s' \<and> scopes s' = scopes s)"
  have flag: "holds (set_node_flag s1 i f) P" if "P s1" for s1 f
    using set_node_flag_fits [of U V s1 i f] that later_trans [of s s1] by (auto simp: P_def elim!: holds_mono)
  have step: "holds (name_error s (Some node) e) (\<lambda>s1. holds (set_node_flag s1 i f) P)" for e f
    by (rule holds_mono [OF name_error_fits [OF assms]]) (rule flag, simp add: P_def)
  have "P s" using assms by (simp add: P_def)
  then have "holds (note_self_reference s d node) P"
    unfolding note_self_reference_def Some
    using flag step
    by (auto intro!: holds_trivial [OF is_descendant_ends] holds_trivial [OF first_child_ends] holds_mono [OF holds_node_at])
  then show ?thesis by (simp add: P_def)
qed (simp add: note_self_reference_def assms)

lemma only_closures_fits:
  assumes "fits U V s" and "only_closures s s'" and "names_ok s'"
  shows "fits U V s'"
  using assms only_closures_fields(1) [OF assms(2)] by (simp add: fits_def)

lemma add_name_fits:
  assumes "fits U V s" and "i < length (scopes s)" and "scope_abs (scopes s ! i) name = Some e"
    and "\<And>j. i < j \<Longrightarrow> j < length (scopes s) \<Longrightarrow> scope_abs (scopes s ! j) name = None"
  shows "holds (add_name_to_closures s name (entry_rank e) i cin) (\<lambda>(r, s'). fits U V s' \<and> later s s')"
proof -
  let ?len = "length (scopes s)" and ?a = "if cin then i + 1 else i"
  have ok: "names_ok s" by (rule fits_names_ok [OF assms(1)])
  then have len: "?len \<le> MAX_AST_DEPTH" by (simp add: names_ok_def)
  have start: "closing s name i e ?a (entry_rank e) i False" by (auto simp: closing_def)
  have "holds (close_over [?a ..< ?len] s name (entry_rank e) i False) (\<lambda>(r, fc', s'). names_ok s' \<and> only_closures s s')"
    by (rule holds_mono [OF close_over_ok [OF assms(2) len ok refl assms(3,4) _ _ start]]) (use assms(2) in auto)
  then show ?thesis
    unfolding add_name_to_closures_def Let_def holds_bind
    by (rule holds_mono) (auto intro: only_closures_fits [OF assms(1)] only_closures_later)
qed

lemma bind_node_fits: "fits U V s \<Longrightarrow> fits U V (bind_node node b s) \<and> later s (bind_node node b s) \<and> bindings (bind_node node b s) node = Some b"
  using names_ok_cong [of "bind_node node b s" s] by (auto simp: fits_def later_def around_def bind_node_def)

lemma bind_found_fits:
  assumes "fits U V s" and "i < length (scopes s)" and "scope_abs (scopes s ! i) name = Some e"
    and "\<And>j. i < j \<Longrightarrow> j < length (scopes s) \<Longrightarrow> scope_abs (scopes s ! j) name = None"
  shows "holds (bind_found s node name i e b cin) (\<lambda>s'. fits U V s' \<and> later s s' \<and> bindings s' node \<noteq> None)"
  unfolding bind_found_def holds_bind
proof (rule holds_mono [OF note_self_reference_fits [OF assms(1)]])
  fix s1 assume s1: "fits U V s1 \<and> later s s1 \<and> scopes s1 = scopes s"
  have bind: "fits U V (bind_node node b s2) \<and> later s (bind_node node b s2) \<and> bindings (bind_node node b s2) node \<noteq> None"
    if "fits U V s2" "later s1 s2" for b s2
    using bind_node_fits [OF that(1), of node b] later_trans [of s s1 s2] later_trans [of s s2] s1 that(2) by auto
  have "holds (add_name_to_closures s1 name (entry_rank e) i cin) (\<lambda>(r, s2). fits U V s2 \<and> later s1 s2)"
    by (rule add_name_fits) (use s1 assms in auto)
  then have "holds (add_name_to_closures s1 name (entry_rank e) i cin)
      (\<lambda>(r, s2). holds (Inr (bind_node node (Binding_Closed r) s2)) (\<lambda>s'. fits U V s' \<and> later s s' \<and> bindings s' node \<noteq> None))"
    by (rule holds_mono) (use bind in auto)
  then show "holds (let kind = scope_kind (scopes s1 ! i) in
     if kind = Kind_Global then
       Inr (bind_node node (Binding_Global (entry_rank e) (if i = 0 then prelude_file_id s1 else active_file_id s1)) s1)
     else if kind = Kind_TraitSignature then Inr (bind_node node (Binding_TraitArgument (entry_rank e mod 256)) s1)
     else if b then
       obind (add_name_to_closures s1 name (entry_rank e) i cin) (\<lambda>(rank_in_closure, s).
         Inr (bind_node node (Binding_Closed rank_in_closure) s))
     else
       Inr (bind_node node (Binding_Scoped ((scopes_top s1 - i) mod 256) (entry_rank e)) s1))
    (\<lambda>s'. fits U V s' \<and> later s s' \<and> bindings s' node \<noteq> None)"
    using bind [of s1] s1 by (simp add: Let_def split_def)
qed

lemma resolve_name_fits:
  assumes "fits U V s"
  shows "k \<le> length (scopes s) \<Longrightarrow> (\<And>j. k \<le> j \<Longrightarrow> j < length (scopes s) \<Longrightarrow> scope_abs (scopes s ! j) name = None) \<Longrightarrow>
    holds (resolve_name k s node name b cin) (\<lambda>s'. fits U V s' \<and> later s s' \<and> (lex_has_error s' \<or> bindings s' node \<noteq> None))"
proof (induction k arbitrary: b)
  case 0
  show ?case by (simp del: not_None_eq, rule holds_mono [OF name_error_fits [OF assms]]) auto
next
  case (Suc k)
  have get: "scope_map_get (scopes s ! k) name = Inr (scope_abs (scopes s ! k) name)"
    using Suc.prems(1) fits_names_ok [OF assms] by (intro scope_map_get_ok) (simp add: names_ok_def)
  show ?case
  proof (cases "scope_abs (scopes s ! k) name")
    case None
    have "scope_abs (scopes s ! j) name = None" if "k \<le> j" "j < length (scopes s)" for j
      using that None Suc.prems(2) [of j] by (cases "j = k") auto
    then show ?thesis using Suc.IH [of "b \<or> has_closure (scopes s ! k)"] Suc.prems(1) get None by simp
  next
    case (Some e)
    have "k < length (scopes s)" using Suc.prems(1) by simp
    have "holds (bind_found s node name k e b cin) (\<lambda>s'. fits U V s' \<and> later s s' \<and> bindings s' node \<noteq> None)"
      by (rule bind_found_fits [OF assms _ Some]) (use Suc.prems in auto)
    then show ?thesis using get Some by (auto simp del: not_None_eq elim!: holds_mono)
  qed
qed

lemma resolve_identifier_fits:
  assumes "fits U V s" and "U node = Some n" and "tag n = Tag_Identifier"
  shows "holds (resolve_identifier node cin s) (\<lambda>s'. fits U V s' \<and> later s s' \<and> bound U node s')"
proof -
  have only: "q = node" if "inside U node q" for q
    using that assms(2,3) by (auto elim: insideE)
  have "holds (name_of_node s Tag_Identifier node) (\<lambda>_. True)" by (cases "name_of_node s Tag_Identifier node") auto
  then show ?thesis
    unfolding resolve_identifier_def holds_bind
  proof (rule holds_trivial)
    fix name
    show "holds (resolve_name (length (scopes s)) s node name False cin) (\<lambda>s'. fits U V s' \<and> later s s' \<and> bound U node s')"
      by (rule holds_mono [OF resolve_name_fits [OF assms(1)]]) (use only in \<open>auto simp: bound_def\<close>)
  qed
qed

section \<open>Ways through a tree\<close>

definition first_child :: "node_store \<Rightarrow> nat \<Rightarrow> nat \<Rightarrow> bool" where
  "first_child U p c \<longleftrightarrow> (\<exists>n. U p = Some n \<and> has_children n \<and> c = p + own_qwords n)"

definition next_sib :: "node_store \<Rightarrow> nat \<Rightarrow> nat \<Rightarrow> bool" where
  "next_sib U p c \<longleftrightarrow> (\<exists>n. U p = Some n \<and> has_next_sibling n \<and> c = p + next_sibling_offset n)"

definition child_of :: "node_store \<Rightarrow> nat \<Rightarrow> nat \<Rightarrow> bool" where
  "child_of U p c \<longleftrightarrow> (\<exists>f. first_child U p f \<and> siblings U f c)"

lemma siblings_next: "siblings U p q \<longleftrightarrow> q = p \<or> (\<exists>c. next_sib U p c \<and> siblings U c q)"
  by (auto simp: next_sib_def intro: siblings.intros elim: siblingsE)

lemma next_sib_unique: "next_sib U p c \<Longrightarrow> next_sib U p c' \<Longrightarrow> c' = c"
  by (auto simp: next_sib_def)

lemma first_child_unique: "first_child U p c \<Longrightarrow> first_child U p c' \<Longrightarrow> c' = c"
  by (auto simp: first_child_def)

lemma structure_unflagged [simp]:
  "has_children (n\<lparr>flags := f\<rparr>) = has_children n" "has_next_sibling (n\<lparr>flags := f\<rparr>) = has_next_sibling n"
  by (simp_all add: has_children_def has_next_sibling_def)

lemma first_child_walk:
  assumes "walkable U V (Suc k) p" and "fits U V s"
  shows "holds (first_child_of (nodes s) p) (\<lambda>c. first_child U p c \<and> walkable U V k c)"
  by (rule walkable_node [OF assms]) (auto simp: first_child_of_def first_child_def)

lemma next_sibling_walk:
  assumes "walkable U V k p" and "fits U V s"
  shows "holds (next_sibling_of (nodes s) p) (\<lambda>c. next_sib U p c \<and> walkable U V k c \<and> p < c)"
  by (rule walkable_node [OF assms]) (auto simp: next_sibling_of_def next_sib_def)

lemma has_next_walk:
  assumes "walkable U V k p" and "fits U V s"
  shows "holds (has_next_sibling_at (nodes s) p) (\<lambda>b. b \<longleftrightarrow> (\<exists>c. next_sib U p c))"
  by (rule walkable_node [OF assms]) (auto simp: has_next_sibling_at_def next_sib_def)

lemma tag_at_walk:
  assumes "walkable U V k p" and "fits U V s"
  shows "holds (tag_at (nodes s) p) (\<lambda>t. \<exists>n. U p = Some n \<and> tag n = t)"
  by (rule walkable_node [OF assms]) (auto simp: tag_at_def)

lemma direct_children_walk:
  assumes "walkable U V (Suc k) p" and "fits U V s"
  shows "holds (direct_children_of (nodes s) p) (\<lambda>it. case it of None \<Rightarrow> \<not> (\<exists>c. first_child U p c)
    | Some c \<Rightarrow> first_child U p c \<and> walkable U V k c)"
  by (rule walkable_node [OF assms]) (auto simp: direct_children_of_def first_child_of_def first_child_def)

lemma next_direct_child_walk:
  assumes "walkable U V k c" and "fits U V s"
  shows "holds (next_direct_child (nodes s) (Some c)) (\<lambda>(child, it). child = c \<and> (case it of None \<Rightarrow> \<not> (\<exists>d. next_sib U c d)
    | Some d \<Rightarrow> next_sib U c d \<and> walkable U V k d \<and> c < d))"
  by (rule walkable_node [OF assms]) (auto simp: next_direct_child_def next_sibling_of_def next_sib_def)

lemma walkable_less: "walkable U V k p \<Longrightarrow> p < V"
  by (auto elim: walkableE)

text \<open>
  A loop over the children of a node: \<open>Inv\<close> is kept, the states are in the relation \<open>T\<close>, and what
  was done for a child stays done.
\<close>

lemma over_children_ok:
  fixes body :: "nat \<Rightarrow> NameState \<Rightarrow> ('r option \<times> NameState) outcome"
  assumes fit: "\<And>s. Inv s \<Longrightarrow> fits U V s"
    and T: "\<And>s. T s s" "\<And>s s1 s2. T s s1 \<Longrightarrow> T s1 s2 \<Longrightarrow> T s s2"
    and mono: "\<And>c s s'. Done c s \<Longrightarrow> T s s' \<Longrightarrow> Done c s'"
    and body: "\<And>c s. walkable U V k c \<Longrightarrow> Inv s \<Longrightarrow> holds (body c s) (\<lambda>(r, s'). Inv s' \<and> T s s' \<and> (r = None \<longrightarrow> Done c s') \<and> (r \<noteq> None \<longrightarrow> Fail s'))"
  shows "Inv s \<Longrightarrow> case it of None \<Rightarrow> True | Some c \<Rightarrow> walkable U V k c \<and> V - c \<le> rounds \<Longrightarrow>
    holds (over_children rounds body it s) (\<lambda>(r, s'). Inv s' \<and> T s s'
      \<and> (r = None \<longrightarrow> (\<forall>c q. it = Some c \<and> siblings U c q \<longrightarrow> Done q s')) \<and> (r \<noteq> None \<longrightarrow> Fail s'))"
proof (induction rounds arbitrary: it s)
  case 0
  then have "it = None" using walkable_less by (cases it) fastforce+
  then show ?case using 0 T(1) by (simp add: over_children.simps)
next
  case (Suc r)
  show ?case
  proof (cases it)
    case None
    then show ?thesis using Suc.prems T(1) by (simp add: over_children.simps)
  next
    case (Some c)
    then have c: "walkable U V k c" "V - c \<le> Suc r" using Suc.prems(2) by simp_all
    have rest: "holds (over_children r body it' s1) (\<lambda>(r, s'). Inv s' \<and> T s s'
        \<and> (r = None \<longrightarrow> (\<forall>c q. it = Some c \<and> siblings U c q \<longrightarrow> Done q s')) \<and> (r \<noteq> None \<longrightarrow> Fail s'))"
      if "Inv s1" "T s s1" "Done c s1" "case it' of None \<Rightarrow> \<not> (\<exists>d. next_sib U c d) | Some d \<Rightarrow> next_sib U c d \<and> walkable U V k d \<and> c < d"
      for s1 it'
    proof -
      have "case it' of None \<Rightarrow> True | Some d \<Rightarrow> walkable U V k d \<and> V - d \<le> r"
        using that(4) c(2) walkable_less [OF c(1)] by (auto split: option.splits)
      note ih = Suc.IH [OF that(1) this]
      have done_all: "Done q s2" if a: "T s1 s2" "\<forall>c q. it' = Some c \<and> siblings U c q \<longrightarrow> Done q s2" and q: "siblings U c q" for q s2
      proof -
        from q consider "q = c" | d where "next_sib U c d" "siblings U d q" by (auto simp: siblings_next [of U c q])
        then show "Done q s2"
        proof cases
          case 1
          then show ?thesis using mono [OF \<open>Done c s1\<close> a(1)] by simp
        next
          case (2 d)
          then have "it' = Some d"
            using \<open>case it' of None \<Rightarrow> \<not> (\<exists>d. next_sib U c d) | Some d \<Rightarrow> next_sib U c d \<and> walkable U V k d \<and> c < d\<close> next_sib_unique
            by (auto split: option.splits)
          then show ?thesis using a(2) 2 by simp
        qed
      qed
      show ?thesis
        by (rule holds_mono [OF ih]) (use done_all T(2) [OF that(2)] Some in auto)
    qed
    have "holds (obind (next_direct_child (nodes s) (Some c)) (\<lambda>(child, it). obind (body child s) (\<lambda>(result, s).
        case result of Some x \<Rightarrow> Inr (Some x, s) | None \<Rightarrow> over_children r body it s)))
        (\<lambda>(r, s'). Inv s' \<and> T s s' \<and> (r = None \<longrightarrow> (\<forall>c q. it = Some c \<and> siblings U c q \<longrightarrow> Done q s')) \<and> (r \<noteq> None \<longrightarrow> Fail s'))"
      unfolding holds_bind
    proof (rule holds_mono [OF next_direct_child_walk [OF c(1) fit [OF Suc.prems(1)]]], clarsimp simp only: holds_bind split_def fst_conv snd_conv)
      fix it' assume it': "case it' of None \<Rightarrow> \<not> (\<exists>d. next_sib U c d) | Some d \<Rightarrow> next_sib U c d \<and> walkable U V k d \<and> c < d"
      show "holds (body c s) (\<lambda>a. holds (case fst a of None \<Rightarrow> over_children r body it' (snd a) | Some x \<Rightarrow> Inr (Some x, snd a))
         (\<lambda>p. Inv (snd p) \<and> T s (snd p) \<and> (fst p = None \<longrightarrow> (\<forall>c q. it = Some c \<and> siblings U c q \<longrightarrow> Done q (snd p))) \<and> (fst p \<noteq> None \<longrightarrow> Fail (snd p))))"
      proof (rule holds_mono [OF body [OF c(1) Suc.prems(1)]])
        fix a :: "'r option \<times> NameState" assume "case a of (r, s') \<Rightarrow> Inv s' \<and> T s s' \<and> (r = None \<longrightarrow> Done c s') \<and> (r \<noteq> None \<longrightarrow> Fail s')"
        then show "holds (case fst a of None \<Rightarrow> over_children r body it' (snd a) | Some x \<Rightarrow> Inr (Some x, snd a))
         (\<lambda>p. Inv (snd p) \<and> T s (snd p) \<and> (fst p = None \<longrightarrow> (\<forall>c q. it = Some c \<and> siblings U c q \<longrightarrow> Done q (snd p))) \<and> (fst p \<noteq> None \<longrightarrow> Fail (snd p)))"
          using rest [OF _ _ _ it', of "snd a"] by (cases "fst a") (auto simp: split_def)
      qed
    qed
    then show ?thesis using Some by (simp add: over_children.simps [of "Suc r"])
  qed
qed

lemma over_children_no_result:
  "over_children rounds (\<lambda>child s. obind (body child s) (\<lambda>s. Inr (None, s))) it s = Inr (r, s') \<Longrightarrow> r = None"
proof (induction rounds arbitrary: it s)
  case (Suc n)
  then show ?case
    by (subst (asm) over_children.simps) (auto simp: obind_eq_Inr_iff split: if_splits)
qed (subst (asm) over_children.simps, simp split: if_splits)

lemma for_children_ok:
  assumes "walkable U V (Suc k) p" and "fits U V s"
    and mono: "\<And>c s s'. Done c s \<Longrightarrow> later s s' \<Longrightarrow> Done c s'"
    and body: "\<And>c s. walkable U V k c \<Longrightarrow> fits U V s \<Longrightarrow> holds (body c s) (\<lambda>s'. fits U V s' \<and> later s s' \<and> Done c s')"
  shows "holds (for_children p body s) (\<lambda>s'. fits U V s' \<and> later s s' \<and> (\<forall>c. child_of U p c \<longrightarrow> Done c s'))"
  unfolding for_children_def holds_bind
proof (rule holds_mono [OF direct_children_walk [OF assms(1,2)]])
  fix it assume it: "case it of None \<Rightarrow> \<not> (\<exists>c. first_child U p c) | Some c \<Rightarrow> first_child U p c \<and> walkable U V k c"
  have V: "ast_used (trees s) = V" using assms(2) by (simp add: fits_def)
  have kids: "child_of U p c \<longleftrightarrow> (\<exists>f. it = Some f \<and> siblings U f c)" for c
    using it first_child_unique by (auto simp: child_of_def split: option.splits)
  have "holds (over_children V (\<lambda>child s. obind (body child s) (\<lambda>s. Inr (None :: unit option, s))) it s)
      (\<lambda>(r, s'). fits U V s' \<and> later s s' \<and> (r = None \<longrightarrow> (\<forall>c q. it = Some c \<and> siblings U c q \<longrightarrow> Done q s')))"
    by (rule holds_mono [OF over_children_ok [where Inv = "fits U V" and T = later and k = k and Done = Done and Fail = "\<lambda>_. True"]])
      (use assms(2) it later_trans mono body in \<open>auto split: option.splits\<close>)
  then show "holds (over_children (ast_used (trees s)) (\<lambda>child s. obind (body child s) (\<lambda>s. Inr (None :: unit option, s))) it s)
     (\<lambda>a. holds (case a of (x, s) \<Rightarrow> Inr s) (\<lambda>s'. fits U V s' \<and> later s s' \<and> (\<forall>c. child_of U p c \<longrightarrow> Done c s')))"
    unfolding V
  proof (rule holds_mono)
    fix a assume "over_children V (\<lambda>child s. obind (body child s) (\<lambda>s. Inr (None :: unit option, s))) it s = Inr a"
    then have "fst a = None" using over_children_no_result [of V body it s "fst a" "snd a"] by simp
    moreover assume "case a of (r, s') \<Rightarrow> fits U V s' \<and> later s s' \<and> (r = None \<longrightarrow> (\<forall>c q. it = Some c \<and> siblings U c q \<longrightarrow> Done q s'))"
    ultimately show "holds (case a of (x, s) \<Rightarrow> Inr s) (\<lambda>s'. fits U V s' \<and> later s s' \<and> (\<forall>c. child_of U p c \<longrightarrow> Done c s'))"
      by (auto simp: kids split_def)
  qed
qed

section \<open>Templated parameters\<close>

text \<open>The check takes memory only, or leaves one more scope open when it is told not to close it.\<close>

definition steady :: "NameState \<Rightarrow> NameState \<Rightarrow> bool" where
  "steady s s' \<longleftrightarrow> (\<exists>t. s' = s\<lparr>temp := t\<rparr>)"

definition opened :: "NameState \<Rightarrow> NameState \<Rightarrow> bool" where
  "opened s s' \<longleftrightarrow> (\<exists>t m. s' = s\<lparr>temp := t, scopes := scopes s @ [m]\<rparr>)"

lemma steady_refl [simp]: "steady s s"
  unfolding steady_def by (rule exI [of _ "temp s"]) simp

lemma steady_trans: "steady s s1 \<Longrightarrow> steady s1 s2 \<Longrightarrow> steady s s2"
  by (auto simp: steady_def)

lemma opened_steady:
  assumes "opened s s1" and "steady s1 s2"
  shows "opened s s2"
proof -
  obtain t m t' where "s1 = s\<lparr>temp := t, scopes := scopes s @ [m]\<rparr>" "s2 = s1\<lparr>temp := t'\<rparr>"
    using assms by (auto simp: steady_def opened_def)
  then have "s2 = s\<lparr>temp := t', scopes := scopes s @ [m]\<rparr>" by simp
  then show ?thesis unfolding opened_def by blast
qed

lemma steady_opened: "steady s s1 \<Longrightarrow> opened s1 s2 \<Longrightarrow> opened s s2"
  unfolding steady_def opened_def by (elim exE, intro exI) simp

lemma steady_later: "steady s s' \<Longrightarrow> later s s'"
  by (auto simp: steady_def later_def around_def)

lemma pop_opened:
  assumes "opened s s1" and "fits U V s1"
  shows "holds (pop_scope s1) (\<lambda>s'. fits U V s' \<and> steady s s')"
proof (rule holds_mono [OF pop_fits [OF assms(2)]])
  fix s' assume s': "fits U V s' \<and> s' = s1\<lparr>scopes := butlast (scopes s1)\<rparr>"
  obtain t m where "s1 = s\<lparr>temp := t, scopes := scopes s @ [m]\<rparr>" using assms(1) by (auto simp: opened_def)
  then have "s' = s\<lparr>temp := t\<rparr>" using s' by simp
  then show "fits U V s' \<and> steady s s'" using s' by (auto simp: steady_def)
qed

lemma alloc_steady:
  assumes "scope_map_alloc s kind = Inr (m, s')"
  shows "steady s s'"
  using assms by (auto simp: scope_map_alloc_def scope_map_alloc_sized_def obind_eq_Inr_iff ensure_def steady_def split: if_splits)

lemma open_scope_opened:
  assumes "fits U V s"
  shows "holds (obind (scope_map_alloc s kind) (\<lambda>(scope, s). push_scope s scope)) (\<lambda>s'. fits U V s' \<and> opened s s')"
  unfolding holds_bind
proof (rule holds_mono [OF alloc_ok [OF assms]])
  fix a assume a: "scope_map_alloc s kind = Inr a" "case a of (m, s') \<Rightarrow> scope_ok m \<and> scope_abs m = Map.empty \<and> \<not> has_closure m
    \<and> scope_used m = 0 \<and> scope_kind m = kind \<and> fits U V s' \<and> only_errors s s'"
  obtain m s1 where x: "a = (m, s1)" by (cases a)
  have st: "steady s s1" using alloc_steady a(1) x by simp
  have "holds (push_scope s1 m) (\<lambda>s'. fits U V s' \<and> opened s1 s')"
  proof (rule holds_mono [OF holds_conj [OF push_fits push_scope_ok]])
    fix s' assume "(fits U V s' \<and> pushed s1 s' \<and> closures s' = closures s1 \<and> scopes s' = scopes s1 @ [m] \<and> trees s' = trees s1)
      \<and> names_ok s' \<and> s' = s1\<lparr>scopes := scopes s1 @ [m]\<rparr>"
    moreover from this have "s' = s1\<lparr>temp := temp s1, scopes := scopes s1 @ [m]\<rparr>" by simp
    ultimately show "fits U V s' \<and> opened s1 s'" unfolding opened_def by blast
  qed (use a(2) x fits_names_ok in auto)
  then show "holds (case a of (scope, s) \<Rightarrow> push_scope s scope) (\<lambda>s'. fits U V s' \<and> opened s s')"
    using steady_opened [OF st] x by (auto elim!: holds_mono)
qed

lemma templated_name_ends:
  assumes "names_ok s"
  shows "k \<le> length (scopes s) \<Longrightarrow> templated_name k s name \<noteq> Inl Diverge"
proof (induction k)
  case (Suc k)
  have "scope_map_get (scopes s ! k) name = Inr (scope_abs (scopes s ! k) name)"
    using Suc.prems assms by (intro scope_map_get_ok) (simp add: names_ok_def)
  then show ?case using Suc by (simp add: Let_def)
qed simp

definition check_post :: "node_store \<Rightarrow> nat \<Rightarrow> bool \<Rightarrow> NameState \<Rightarrow> bool \<times> NameState \<Rightarrow> bool" where
  "check_post U V do_pop s = (\<lambda>(b, s'). fits U V s' \<and> (if do_pop then steady s s' else opened s s'))"

lemma check_expression_step_ok:
  assumes w: "walkable U V (Suc k) p" and fit: "fits U V s"
    and sig: "\<not> do_pop \<Longrightarrow> \<exists>n. U p = Some n \<and> tag n = Tag_Signature"
    and check: "\<And>q do_pop s. walkable U V k q \<Longrightarrow> fits U V s \<Longrightarrow> (\<not> do_pop \<Longrightarrow> \<exists>n. U q = Some n \<and> tag n = Tag_Signature)
      \<Longrightarrow> holds (check q do_pop s) (check_post U V do_pop s)"
  shows "holds (check_expression_step check p do_pop s) (check_post U V do_pop s)"
proof (rule walkable_node [OF w fit])
  fix n j assume n: "nodes s p = Some n" "node_at (nodes s) p = Inr n" "func_ok U p (n\<lparr>flags := 0\<rparr>)" "U p = Some (n\<lparr>flags := 0\<rparr>)"
  consider "tag n = Tag_Identifier" | "tag n = Tag_Func" | "tag n \<noteq> Tag_Identifier" "tag n \<noteq> Tag_Func" by blast
  then show ?thesis
  proof cases
    case 1
    have name: "holds (name_of_node s Tag_Identifier p) (\<lambda>_. True)" by (cases "name_of_node s Tag_Identifier p") auto
    have templated: "holds (templated_name (length (scopes s)) s name) (\<lambda>_. True)" for name
      using templated_name_ends [OF fits_names_ok [OF fit] order_refl, of name] by (cases "templated_name (length (scopes s)) s name") auto
    have do_pop using sig n(4) 1 by auto
    then have post: "check_post U V do_pop s (b, s)" for b using fit by (simp add: check_post_def)
    have "check_expression_step check p do_pop s = obind (name_of_node s Tag_Identifier p) (\<lambda>name.
       obind (templated_name (length (scopes s)) s name) (\<lambda>b. Inr (b, s)))"
      using 1 n(2) by (simp add: check_expression_step_def)
    then show ?thesis using post by (simp add: holds_trivial [OF name] holds_trivial [OF templated])
  next
    case 2
    have do_pop using sig n(4) 2 by auto
    have signature: "\<exists>n. U c = Some n \<and> tag n = Tag_Signature" if "first_child U p c" for c
      using that n(3,4) 2 by (auto simp: func_ok_def first_child_def)
    have pop: "holds (obind (pop_scope s1) (\<lambda>s2. Inr (b, s2))) (check_post U V do_pop s)" if "fits U V s1" "opened s s1" for s1 b
      using pop_opened [OF that(2,1)] \<open>do_pop\<close> by (auto simp: check_post_def elim!: holds_mono)
    have body: "holds (obind (next_sibling_of (nodes s1) c) (\<lambda>body. obind (check body True s1) (\<lambda>(is_templated, s).
         obind (pop_scope s) (\<lambda>s. Inr (is_templated, s))))) (check_post U V do_pop s)"
      if "fits U V s1" "opened s s1" "walkable U V k c" for s1 c
      unfolding holds_bind
    proof (rule holds_mono [OF next_sibling_walk [OF that(3,1)]])
      fix d assume d: "next_sib U c d \<and> walkable U V k d \<and> c < d"
      have "holds (check d True s1) (check_post U V True s1)" by (rule check) (use d that(1) in auto)
      then show "holds (check d True s1) (\<lambda>a. holds (case a of (is_templated, s) \<Rightarrow> obind (pop_scope s) (\<lambda>s. Inr (is_templated, s)))
          (check_post U V do_pop s))"
        by (rule holds_mono) (use pop opened_steady [OF that(2)] in \<open>auto simp: check_post_def [of U V True]\<close>)
    qed
    have "check_expression_step check p do_pop s = obind (first_child_of (nodes s) p) (\<lambda>signature.
       obind (check signature False s) (\<lambda>(b, s).
       if b then obind (pop_scope s) (\<lambda>s. Inr (True, s))
       else obind (next_sibling_of (nodes s) signature) (\<lambda>body. obind (check body True s) (\<lambda>(is_templated, s).
         obind (pop_scope s) (\<lambda>s. Inr (is_templated, s))))))"
      using 2 n(2) by (simp add: check_expression_step_def)
    moreover have "holds \<dots> (check_post U V do_pop s)"
      unfolding holds_bind
    proof (rule holds_mono [OF first_child_walk [OF w fit]])
      fix c assume c: "first_child U p c \<and> walkable U V k c"
      then have "holds (check c False s) (check_post U V False s)" using check fit signature by blast
      then show "holds (check c False s) (\<lambda>a. holds (case a of (b, s) \<Rightarrow> if b then obind (pop_scope s) (\<lambda>s. Inr (True, s))
       else obind (next_sibling_of (nodes s) c) (\<lambda>body. obind (check body True s) (\<lambda>(is_templated, s).
         obind (pop_scope s) (\<lambda>s. Inr (is_templated, s))))) (check_post U V do_pop s))"
        by (rule holds_mono) (use pop body c in \<open>auto simp: check_post_def [of U V False] simp del: holds_bind\<close>)
    qed
    ultimately show ?thesis by simp
  next
    case 3
    let ?opens = "tag n = Tag_Block \<or> tag n = Tag_Signature"
    have do_pop: "do_pop" if "\<not> ?opens" using that sig n(4) by auto
    have V: "ast_used (trees s1) = V" if "fits U V s1" for s1 using that by (simp add: fits_def)
    have first: "holds (if ?opens then obind (scope_map_alloc s Kind_Local) (\<lambda>(scope, s). push_scope s scope) else Inr s)
        (\<lambda>s1. fits U V s1 \<and> (if ?opens then opened s s1 else s1 = s))"
      using open_scope_opened [OF fit, of Kind_Local] fit by (auto simp del: holds_bind)
    have last: "holds (if ?opens \<and> do_pop then pop_scope s2 else Inr s2) (\<lambda>s3. fits U V s3 \<and> (if do_pop then steady s s3 else opened s s3))"
      if "fits U V s2" "if ?opens then opened s s2 else steady s s2" for s2
      using pop_opened [of s s2] that do_pop by (cases ?opens; cases do_pop) auto
    let ?body = "\<lambda>child s. obind (check child True s) (\<lambda>(b, s). Inr (if b then Some () else None, s))"
    have loop: "holds (over_children (ast_used (trees s1)) ?body it s1) (\<lambda>(r, s2). fits U V s2 \<and> (if ?opens then opened s s2 else steady s s2))"
      if s1: "fits U V s1" "if ?opens then opened s s1 else s1 = s"
        and it: "case it of None \<Rightarrow> \<not> (\<exists>c. first_child U p c) | Some c \<Rightarrow> first_child U p c \<and> walkable U V k c" for s1 it
    proof -
      have body: "holds (?body c s) (\<lambda>(r, s'). fits U V s' \<and> steady s s' \<and> (r = None \<longrightarrow> True))"
        if "walkable U V k c" "fits U V s" for c s
        using check [OF that, of True] by (auto simp: check_post_def elim!: holds_mono)
      have "holds (over_children V ?body it s1) (\<lambda>(r, s'). fits U V s' \<and> steady s1 s' \<and> (r = None \<longrightarrow> (\<forall>c q. it = Some c \<and> siblings U c q \<longrightarrow> True)))"
        by (rule holds_mono [OF over_children_ok [where Inv = "fits U V" and T = steady and k = k and Done = "\<lambda>_ _. True" and Fail = "\<lambda>_. True"]])
          (use body s1(1) it steady_trans in \<open>auto split: option.splits\<close>)
      then show ?thesis
        unfolding V [OF s1(1)] by (rule holds_mono) (use s1(2) opened_steady [of s s1] in auto)
    qed
    have "check_expression_step check p do_pop s =
       obind (if ?opens then obind (scope_map_alloc s Kind_Local) (\<lambda>(scope, s). push_scope s scope) else Inr s) (\<lambda>s.
       obind (direct_children_of (nodes s) p) (\<lambda>it.
       obind (over_children (ast_used (trees s)) ?body it s) (\<lambda>(r, s).
       obind (if ?opens \<and> do_pop then pop_scope s else Inr s) (\<lambda>s. Inr (r \<noteq> None, s)))))"
      using 3 n(2) by (simp add: check_expression_step_def Let_def)
    moreover have "holds \<dots> (check_post U V do_pop s)"
      unfolding holds_bind [of "if ?opens then _ else _"]
    proof (rule holds_mono [OF first])
      fix s1 assume s1: "fits U V s1 \<and> (if ?opens then opened s s1 else s1 = s)"
      show "holds (obind (direct_children_of (nodes s1) p) (\<lambda>it. obind (over_children (ast_used (trees s1)) ?body it s1) (\<lambda>(r, s).
         obind (if ?opens \<and> do_pop then pop_scope s else Inr s) (\<lambda>s. Inr (r \<noteq> None, s))))) (check_post U V do_pop s)"
        unfolding holds_bind [of "direct_children_of _ _"]
      proof (rule holds_mono [OF direct_children_walk [OF w]])
        fix it assume it: "case it of None \<Rightarrow> \<not> (\<exists>c. first_child U p c) | Some c \<Rightarrow> first_child U p c \<and> walkable U V k c"
        show "holds (obind (over_children (ast_used (trees s1)) ?body it s1) (\<lambda>(r, s).
          obind (if ?opens \<and> do_pop then pop_scope s else Inr s) (\<lambda>s. Inr (r \<noteq> None, s)))) (check_post U V do_pop s)"
          unfolding holds_bind [of "over_children _ _ _ _"]
        proof (rule holds_mono [OF loop [OF _ _ it]])
          fix a :: "unit option \<times> NameState" assume a: "case a of (r, s2) \<Rightarrow> fits U V s2 \<and> (if ?opens then opened s s2 else steady s s2)"
          obtain r s2 where x: "a = (r, s2)" by (cases a)
          have "holds (if ?opens \<and> do_pop then pop_scope s2 else Inr s2) (\<lambda>s3. fits U V s3 \<and> (if do_pop then steady s s3 else opened s s3))"
            by (rule last) (use a x in auto)
          then have "holds (obind (if ?opens \<and> do_pop then pop_scope s2 else Inr s2) (\<lambda>s. Inr (r \<noteq> None, s))) (check_post U V do_pop s)"
            unfolding holds_bind by (rule holds_mono) (simp add: check_post_def)
          then show "holds (case a of (r, s) \<Rightarrow> obind (if ?opens \<and> do_pop then pop_scope s else Inr s) (\<lambda>s. Inr (r \<noteq> None, s)))
              (check_post U V do_pop s)"
            by (simp only: x prod.case)
        qed (use s1 in auto)
      qed (use s1 in auto)
    qed
    ultimately show ?thesis by simp
  qed
qed

lemma check_expression_ok:
  "walkable U V k p \<Longrightarrow> fits U V s \<Longrightarrow> (\<not> do_pop \<Longrightarrow> \<exists>n. U p = Some n \<and> tag n = Tag_Signature)
    \<Longrightarrow> holds (check_expression_is_templated k p do_pop s) (check_post U V do_pop s)"
proof (induction k arbitrary: p do_pop s)
  case 0
  then show ?case by (auto elim: walkableE)
next
  case (Suc k)
  show ?case
    unfolding check_expression_is_templated.simps by (rule check_expression_step_ok) (use Suc in auto)
qed

lemma check_expression_holds:
  assumes "walkable U V k p" and "k \<le> levels" and "fits U V s"
  shows "holds (check_expression_is_templated levels p True s) (\<lambda>(b, s'). fits U V s' \<and> later s s')"
  using check_expression_ok [OF walkable_mono [OF assms(1,2)] assms(3), of True] steady_later
  by (auto simp: check_post_def elim!: holds_mono)

lemma check_parameter_holds:
  assumes "walkable U V (Suc k) p" and "k \<le> levels" and "fits U V s"
  shows "holds (check_parameter_is_templated (check_expression_is_templated levels) p s) (\<lambda>(b, s'). fits U V s' \<and> later s s')"
  unfolding check_parameter_is_templated_def holds_bind
proof (rule holds_mono [OF first_child_walk [OF assms(1,3)]])
  fix c assume c: "first_child U p c \<and> walkable U V k c"
  have rest: "holds (obind (has_next_sibling_at (nodes s1) c) (\<lambda>more_children.
       if \<not> more_children then Inr (False, s1)
       else obind (next_sibling_of (nodes s1) c) (\<lambda>second_child. check_expression_is_templated levels second_child True s1)))
     (\<lambda>(b, s'). fits U V s' \<and> later s s')" if s1: "fits U V s1" "later s s1" for s1
    unfolding holds_bind [of "has_next_sibling_at _ _"]
  proof (rule holds_mono [OF has_next_walk [OF _ s1(1)]])
    have "holds (next_sibling_of (nodes s1) c) (\<lambda>d. holds (check_expression_is_templated levels d True s1) (\<lambda>(b, s'). fits U V s' \<and> later s s'))"
    proof (rule holds_mono [OF next_sibling_walk [OF _ s1(1)]])
      fix d assume "next_sib U c d \<and> walkable U V k d \<and> c < d"
      then show "holds (check_expression_is_templated levels d True s1) (\<lambda>(b, s'). fits U V s' \<and> later s s')"
        by (intro holds_mono [OF check_expression_holds [of U V k d, OF _ assms(2) s1(1)]]) (use later_trans [OF s1(2)] in auto)
    qed (use c in auto)
    then show "holds (if \<not> b then Inr (False, s1) else obind (next_sibling_of (nodes s1) c)
        (\<lambda>second_child. check_expression_is_templated levels second_child True s1)) (\<lambda>(b, s'). fits U V s' \<and> later s s')" for b
      using s1 by (simp add: split_def)
  qed (use c in auto)
  show "holds (check_expression_is_templated levels c True s) (\<lambda>a. holds (case a of (b, s) \<Rightarrow>
     if b then Inr (True, s)
     else obind (has_next_sibling_at (nodes s) c) (\<lambda>more_children.
       if \<not> more_children then Inr (False, s)
       else obind (next_sibling_of (nodes s) c) (\<lambda>second_child. check_expression_is_templated levels second_child True s)))
     (\<lambda>(b, s'). fits U V s' \<and> later s s'))"
    by (rule holds_mono [OF check_expression_holds [OF _ assms(2,3)]]) (use c rest in \<open>auto simp del: holds_bind\<close>)
qed

end
