(* ===== verification/NameWalk.thy ===== *)
theory NameWalk
  imports NameSteps
begin

text \<open>
  The walk of name resolution over a tree: it ends, it leaves the scopes around the node as they
  were, and when there was no error every identifier it comes to has a binding.
\<close>

section \<open>The walk\<close>

definition walk_post :: "node_store \<Rightarrow> nat \<Rightarrow> nat \<Rightarrow> bool \<Rightarrow> NameState \<Rightarrow> NameState \<Rightarrow> bool" where
  "walk_post U V p do_pop s s' \<longleftrightarrow> fits U V s' \<and> (if do_pop then later s s' else pushed s s') \<and> bound U p s'"

definition walks :: "node_store \<Rightarrow> nat \<Rightarrow> nat \<Rightarrow> resolve_call \<Rightarrow> bool" where
  "walks U V k resolve \<longleftrightarrow> (\<forall>q do_pop cin ign s. walkable U V k q \<longrightarrow> fits U V s
     \<longrightarrow> holds (resolve q do_pop cin ign s) (walk_post U V q do_pop s))"

lemma walksD:
  "walks U V k resolve \<Longrightarrow> walkable U V k q \<Longrightarrow> fits U V s \<Longrightarrow> holds (resolve q do_pop cin ign s) (walk_post U V q do_pop s)"
  by (simp add: walks_def)

text \<open>From a state that the walk came to, on to the end.\<close>

lemma walks_on:
  assumes "walks U V k resolve" and "walkable U V k q" and "fits U V s1"
    and "\<And>s2. fits U V s2 \<Longrightarrow> later s1 s2 \<Longrightarrow> bound U q s2 \<Longrightarrow> holds (f s2) P"
  shows "holds (obind (resolve q True cin ign s1) f) P"
  unfolding holds_bind by (rule holds_mono [OF walksD [OF assms(1-3)]]) (use assms(4) in \<open>auto simp: walk_post_def\<close>)

lemma step_on:
  assumes "holds x (\<lambda>s2. fits U V s2 \<and> later s1 s2)"
    and "\<And>s2. fits U V s2 \<Longrightarrow> later s1 s2 \<Longrightarrow> holds (f s2) P"
  shows "holds (obind x f) P"
  unfolding holds_bind by (rule holds_mono [OF assms(1)]) (use assms(2) in auto)

lemma bound_node:
  assumes "U p = Some n" and "tag n \<noteq> Tag_Identifier" and "\<And>c. child_of U p c \<Longrightarrow> bound U c s"
  shows "bound U p s"
proof (cases "lex_has_error s")
  case False
  have "bindings s q \<noteq> None" if "inside U p q" for q
  proof -
    note q = that
    obtain c where c: "has_children n" "siblings U (p + own_qwords n) c" "inside U c q"
      using q assms(1,2) by (auto elim: insideE)
    then have "child_of U p c" using assms(1) by (auto simp: child_of_def first_child_def)
    then show ?thesis using assms(3) False c(3) by (auto simp: bound_def)
  qed
  then show ?thesis by (simp add: bound_def)
qed (simp add: bound_def)

lemma bound_leaf: "U p = Some n \<Longrightarrow> tag n = Tag_Where \<or> tag n = Tag_TraitParameterList \<Longrightarrow> bound U p s"
  by (auto simp: bound_def elim: insideE)

lemma two_children:
  assumes "first_child U p c" and "\<And>d. next_sib U c d \<Longrightarrow> \<not> (\<exists>x. next_sib U d x)" and "child_of U p e"
  shows "e = c \<or> next_sib U c e"
proof -
  have "siblings U c e" using assms(1,3) first_child_unique by (auto simp: child_of_def)
  then consider "e = c" | d where "next_sib U c d" "siblings U d e" by (auto simp: siblings_next [of U c e])
  then show ?thesis
  proof cases
    case (2 d)
    then show ?thesis using assms(2) [OF 2(1)] siblings_next [of U d e] by auto
  qed simp
qed

lemma pop_end:
  assumes "fits U V s1" and "pushed s s1" and "bound U p s1"
  shows "holds (pop_scope s1) (walk_post U V p True s)"
  by (rule holds_mono [OF pop_fits [OF assms(1)]])
    (use later_pop [OF assms(2)] assms(3) in \<open>auto simp: walk_post_def bound_def\<close>)

lemma resolve_func_ok:
  assumes w: "walkable U V (Suc k) p" and fit: "fits U V s" and IH: "walks U V k resolve" and n: "U p = Some n" "tag n = Tag_Func"
  shows "holds (resolve_func resolve p cin s) (walk_post U V p True s)"
  unfolding resolve_func_def holds_bind [of "first_child_of _ _"]
proof (rule holds_mono [OF first_child_walk [OF w fit]])
  fix c assume c: "first_child U p c \<and> walkable U V k c"
  have "func_ok U p n" using w n(1) by (auto elim: walkableE)
  then have kids: "d = c \<or> next_sib U c d" if "child_of U p d" for d
  proof -
    have "\<not> (\<exists>y. next_sib U x y)" if "next_sib U c x" for x
      using that \<open>func_ok U p n\<close> n c by (auto simp: func_ok_def first_child_def next_sib_def has_next_sibling_def)
    then show ?thesis using two_children [OF _ _ that] c by blast
  qed
  show "holds (obind (resolve c False cin False s) (\<lambda>s. obind (closure_at s (scopes_top s)) (\<lambda>closure.
     let s = s\<lparr>closures := (closures s)(scopes_top s \<mapsto> scope_map_reset closure)\<rparr> in
     obind (next_sibling_of (nodes s) c) (\<lambda>body. obind (resolve body True cin False s) (\<lambda>s.
     obind (closure_at s (scopes_top s)) (\<lambda>closure. obind (set_closure_list s closure p) pop_scope)))))) (walk_post U V p True s)"
    unfolding holds_bind [of "resolve c _ _ _ _"]
  proof (rule holds_mono [OF walksD [OF IH _ fit]])
    fix s1 assume "walk_post U V c False s s1"
    then have s1: "fits U V s1" "pushed s s1" "bound U c s1" by (simp_all add: walk_post_def)
    show "holds (obind (closure_at s1 (scopes_top s1)) (\<lambda>closure.
     let s = s1\<lparr>closures := (closures s1)(scopes_top s1 \<mapsto> scope_map_reset closure)\<rparr> in
     obind (next_sibling_of (nodes s) c) (\<lambda>body. obind (resolve body True cin False s) (\<lambda>s.
     obind (closure_at s (scopes_top s)) (\<lambda>closure. obind (set_closure_list s closure p) pop_scope))))) (walk_post U V p True s)"
      unfolding holds_bind [of "closure_at s1 _"]
    proof (rule holds_mono [OF closure_at_holds], unfold Let_def)
      fix cl assume cl: "closures s1 (scopes_top s1) = Some cl"
      let ?s2 = "s1\<lparr>closures := (closures s1)(scopes_top s1 \<mapsto> scope_map_reset cl)\<rparr>"
      have s2: "fits U V ?s2" by (rule reset_closure_fits [OF s1(1) cl])
      have l2: "later s1 ?s2" by (simp add: later_def around_def)
      show "holds (obind (next_sibling_of (nodes ?s2) c) (\<lambda>body. obind (resolve body True cin False ?s2) (\<lambda>s.
         obind (closure_at s (scopes_top s)) (\<lambda>closure. obind (set_closure_list s closure p) pop_scope)))) (walk_post U V p True s)"
        unfolding holds_bind [of "next_sibling_of _ _"]
      proof (rule holds_mono [OF next_sibling_walk [OF _ s2]])
        fix d assume d: "next_sib U c d \<and> walkable U V k d \<and> c < d"
        show "holds (obind (resolve d True cin False ?s2) (\<lambda>s.
            obind (closure_at s (scopes_top s)) (\<lambda>closure. obind (set_closure_list s closure p) pop_scope))) (walk_post U V p True s)"
        proof (rule walks_on [OF IH _ s2], unfold holds_bind [of "closure_at _ _"])
          fix s3 assume s3: "fits U V s3" "later ?s2 s3" "bound U d s3"
          show "holds (closure_at s3 (scopes_top s3)) (\<lambda>closure. holds (obind (set_closure_list s3 closure p) pop_scope) (walk_post U V p True s))"
          proof (rule holds_mono [OF closure_at_holds], unfold holds_bind, rule holds_mono [OF set_closure_list_fits [OF s3(1)]], elim conjE)
            fix s4 assume s4: "fits U V s4" "later s3 s4"
            have l4: "later s1 s4" using later_trans [OF later_trans [OF l2 s3(2)] s4(2)] .
            have "bound U e s4" if "child_of U p e" for e
              using kids [OF that] d next_sib_unique bound_later [OF s1(3) l4] bound_later [OF s3(3) s4(2)] by blast
            then have "bound U p s4" by (intro bound_node [of U p n]) (use n in auto)
            then show "holds (pop_scope s4) (walk_post U V p True s)"
              by (rule pop_end [OF s4(1) pushed_later [OF s1(2) l4]])
          qed
        qed (use d in simp)
      qed (use c in simp)
    qed
  qed (use c in simp)
qed

lemma then_sibling_absent: "then_sibling N n f cur = Inr (None, c) \<Longrightarrow> c = cur"
  by (auto simp: then_sibling_def obind_eq_Inr_iff split: if_splits)

lemma then_sibling_walk:
  assumes "walkable U V k cur" and "fits U V s"
  shows "holds (then_sibling (nodes s) n f cur) (\<lambda>(r, c). walkable U V k c \<and> (r = None \<longrightarrow> c = cur) \<and> (\<forall>x. r = Some x \<longrightarrow> x = c))"
  using next_sibling_walk [OF assms] assms(1) by (auto simp: then_sibling_def elim!: holds_mono)

lemma sibling_then_walk:
  assumes "walkable U V k cur" and "fits U V s"
  shows "holds (sibling_then (nodes s) n f cur) (\<lambda>(r, c). walkable U V k c \<and> (\<forall>x. r = Some x \<longrightarrow> x = cur))"
  using next_sibling_walk [OF assms] assms(1) by (auto simp: sibling_then_def elim!: holds_mono)

lemma no_more_walk:
  assumes "walkable U V k cur" and "fits U V s"
  shows "holds (no_more_siblings (nodes s) cur info) (\<lambda>i. i = info \<and> \<not> (\<exists>d. next_sib U cur d))"
  using has_next_walk [OF assms] by (auto simp: no_more_siblings_def elim!: holds_mono)

lemma then_sibling_ends [simp]: "then_sibling N n f cur \<noteq> Inl Diverge" "sibling_then N n f cur \<noteq> Inl Diverge"
    "next_sibling_of N i \<noteq> Inl Diverge" "no_more_siblings N cur info \<noteq> Inl Diverge" "AstAccess.first_child_of N i \<noteq> Inl Diverge"
  by (auto simp: then_sibling_def sibling_then_def next_sibling_of_def no_more_siblings_def has_next_sibling_at_def first_child_of_def
      obind_def ensure_def split: sum.splits if_splits)

lemma obind_InrE: "obind x f = Inr b \<Longrightarrow> (\<And>a. x = Inr a \<Longrightarrow> f a = Inr b \<Longrightarrow> P) \<Longrightarrow> P"
  by (auto simp: obind_eq_Inr_iff)

lemma ensure_InrE: "ensure e b x = Inr a \<Longrightarrow> (b \<Longrightarrow> x = Inr a \<Longrightarrow> P) \<Longrightarrow> P"
  by (simp add: ensure_eq_Inr_iff)

lemma obind_ends: "x \<noteq> Inl Diverge \<Longrightarrow> (\<And>a. f a \<noteq> Inl Diverge) \<Longrightarrow> obind x f \<noteq> Inl Diverge"
  by (cases x) auto

lemma ensure_ends: "e \<noteq> Diverge \<Longrightarrow> x \<noteq> Inl Diverge \<Longrightarrow> ensure e b x \<noteq> Inl Diverge"
  by (simp add: ensure_def)

lemma get_signature_ends: "get_signature_info N p \<noteq> Inl Diverge"
  unfolding get_signature_info_def split_def
  by (intro obind_ends ensure_ends) simp_all

lemma get_signature_walk:
  assumes w: "walkable U V (Suc k) p" and fit: "fits U V s"
  shows "holds (get_signature_info (nodes s) p) (\<lambda>info. first_child U p (parameters info) \<and> walkable U V k (parameters info)
    \<and> (\<exists>m. U (parameters info) = Some m \<and> tag m = Tag_ParameterList)
    \<and> next_sib U (parameters info) (return_type info) \<and> walkable U V k (return_type info)
    \<and> (expects info = None \<and> ensures info = None \<longrightarrow> \<not> (\<exists>d. next_sib U (return_type info) d)))"
proof (rule holds_Inr_only [OF _ get_signature_ends])
  fix info assume info: "get_signature_info (nodes s) p = Inr info"
  obtain params tg ret node x y where q: "first_child_of (nodes s) p = Inr params" "tag_at (nodes s) params = Inr tg" "tg = Tag_ParameterList"
      "next_sibling_of (nodes s) params = Inr ret" "then_sibling (nodes s) node Signature_HasExpects ret = Inr x"
      "then_sibling (nodes s) node Signature_HasEnsures (snd x) = Inr y"
      "no_more_siblings (nodes s) (snd y) \<lparr>parameters = params, return_type = ret, expects = fst x, ensures = fst y\<rparr> = Inr info"
    using info unfolding get_signature_info_def split_def by (elim obind_InrE ensure_InrE) (rule that, assumption+)
  have params: "first_child U p params" "walkable U V k params" using first_child_walk [OF w fit] q(1) by auto
  have ret: "next_sib U params ret" "walkable U V k ret" using next_sibling_walk [OF params(2) fit] q(4) by auto
  have cur: "walkable U V k (snd x)" "fst x = None \<longrightarrow> snd x = ret"
    using holds_Inr [OF then_sibling_walk [OF ret(2) fit] q(5)] by (simp_all add: split_def)
  have cur2: "walkable U V k (snd y)" "fst y = None \<longrightarrow> snd y = snd x"
    using holds_Inr [OF then_sibling_walk [OF cur(1) fit] q(6)] by (simp_all add: split_def)
  have res: "info = \<lparr>parameters = params, return_type = ret, expects = fst x, ensures = fst y\<rparr>" "\<not> (\<exists>d. next_sib U (snd y) d)"
    using holds_Inr [OF no_more_walk [OF cur2(1) fit] q(7)] by simp_all
  have "\<exists>m. U params = Some m \<and> tag m = Tag_ParameterList" using tag_at_walk [OF params(2) fit] q(2,3) by auto
  then show "first_child U p (parameters info) \<and> walkable U V k (parameters info)
    \<and> (\<exists>m. U (parameters info) = Some m \<and> tag m = Tag_ParameterList)
    \<and> next_sib U (parameters info) (return_type info) \<and> walkable U V k (return_type info)
    \<and> (expects info = None \<and> ensures info = None \<longrightarrow> \<not> (\<exists>d. next_sib U (return_type info) d))"
    using params ret cur(2) cur2(2) res by auto
qed

lemma resolve_parameter_ok:
  assumes w: "walkable U V (Suc k') c" and k': "Suc k' \<le> k" and fit: "fits U V s" and IH: "walks U V k resolve"
  shows "holds (resolve_parameter resolve (check_expression_is_templated k) c s) (\<lambda>s'. fits U V s' \<and> later s s' \<and> bound U c s')"
proof -
  have resolve: "holds (resolve c True b False s1) (\<lambda>s'. fits U V s' \<and> later s s' \<and> bound U c s')" if "fits U V s1" "later s s1" for b s1
    by (rule holds_mono [OF walksD [OF IH walkable_mono [OF w k'] that(1)]]) (use later_trans [OF that(2)] in \<open>auto simp: walk_post_def\<close>)
  have "holds (obind (if b then set_node_flag s1 c Definition_IsTemplatedParam else Inr s1) (\<lambda>s. resolve c True b False s))
      (\<lambda>s'. fits U V s' \<and> later s s' \<and> bound U c s')" if s1: "fits U V s1" "later s s1" for b s1
  proof (cases b)
    case True
    have "holds (set_node_flag s1 c Definition_IsTemplatedParam) (\<lambda>s2. holds (resolve c True b False s2) (\<lambda>s'. fits U V s' \<and> later s s' \<and> bound U c s'))"
      by (rule holds_mono [OF set_node_flag_fits [OF s1(1)]]) (use resolve later_trans [OF s1(2)] in auto)
    then show ?thesis using True by simp
  qed (use resolve [OF s1] in simp)
  moreover have "holds (check_parameter_is_templated (check_expression_is_templated k) c s) (\<lambda>(b, s'). fits U V s' \<and> later s s')"
    by (rule check_parameter_holds [OF w _ fit]) (use k' in simp)
  ultimately show ?thesis
    unfolding resolve_parameter_def holds_bind [of "check_parameter_is_templated _ _ _"]
    by (elim holds_mono) (auto simp del: holds_bind)
qed

lemma resolve_signature_ok:
  assumes w: "walkable U V (Suc k) p" and fit: "fits U V s" and IH: "walks U V k resolve" and n: "U p = Some n" "tag n = Tag_Signature"
  shows "holds (resolve_signature resolve (check_expression_is_templated k) p do_pop s) (walk_post U V p do_pop s)"
proof -
  let ?post = "walk_post U V p do_pop s" and ?check = "check_expression_is_templated k"
  have fin: "holds (obind (closure_at s1 (scopes_top s1)) (\<lambda>closure. obind (set_closure_list s1 closure p) (\<lambda>s. if do_pop then pop_scope s else Inr s))) ?post"
    if s1: "fits U V s1" "pushed s s1" "bound U p s1" for s1
    unfolding holds_bind
  proof (rule holds_mono [OF closure_at_holds], rule holds_mono [OF set_closure_list_fits [OF s1(1)]], elim conjE)
    fix s2 assume s2: "fits U V s2" "later s1 s2"
    have "pushed s s2" "bound U p s2" using pushed_later [OF s1(2) s2(2)] bound_later [OF s1(3) s2(2)] by auto
    then show "holds (if do_pop then pop_scope s2 else Inr s2) ?post"
      using pop_end [OF s2(1)] s2(1) by (cases do_pop) (auto simp: walk_post_def)
  qed
  show ?thesis
    unfolding resolve_signature_def holds_bind [of "get_signature_info _ _"]
  proof (rule holds_mono [OF get_signature_walk [OF w fit]])
    fix info
    let ?ps = "parameters info" and ?rt = "return_type info"
    assume info: "first_child U p ?ps \<and> walkable U V k ?ps \<and> (\<exists>m. U ?ps = Some m \<and> tag m = Tag_ParameterList)
      \<and> next_sib U ?ps ?rt \<and> walkable U V k ?rt \<and> (expects info = None \<and> ensures info = None \<longrightarrow> \<not> (\<exists>d. next_sib U ?rt d))"
    then obtain k' where k: "k = Suc k'" by (auto elim: walkableE)
    have kids: "d = ?ps \<or> d = ?rt" if "child_of U p d" "expects info = None" "ensures info = None" for d
      using two_children [OF _ _ that(1), of ?ps] info that(2,3) next_sib_unique [of U ?ps ?rt] by blast
    show "holds (ensure Todo (expects info = None) (ensure Todo (ensures info = None)
     (obind (push_new_scope Kind_Signature s) (\<lambda>s. obind (push_new_closure s) (\<lambda>s.
      obind (for_children ?ps (resolve_parameter resolve ?check) s) (\<lambda>s.
      obind (?check ?rt True s) (\<lambda>(return_type_is_templated, s).
      obind (if return_type_is_templated then set_node_flag s p Signature_HasTemplatedReturnType else Inr s) (\<lambda>s.
      obind (resolve ?rt True return_type_is_templated False s) (\<lambda>s.
      obind (closure_at s (scopes_top s)) (\<lambda>closure.
      obind (set_closure_list s closure p) (\<lambda>s. if do_pop then pop_scope s else Inr s))))))))))) ?post"
    proof (cases "expects info = None \<and> ensures info = None")
      case True
      have tail: "holds (obind (if b then set_node_flag s1 p Signature_HasTemplatedReturnType else Inr s1) (\<lambda>s.
          obind (resolve ?rt True b False s) (\<lambda>s. obind (closure_at s (scopes_top s)) (\<lambda>closure.
          obind (set_closure_list s closure p) (\<lambda>s. if do_pop then pop_scope s else Inr s))))) ?post"
        if s1: "fits U V s1" "pushed s s1" "bound U ?ps s1" for b s1
      proof (rule step_on)
        show "holds (if b then set_node_flag s1 p Signature_HasTemplatedReturnType else Inr s1) (\<lambda>s2. fits U V s2 \<and> later s1 s2)"
          using holds_mono [OF set_node_flag_fits [OF s1(1)], where Q = "\<lambda>s2. fits U V s2 \<and> later s1 s2"] s1(1) by simp
        fix s2 assume s2: "fits U V s2" "later s1 s2"
        show "holds (obind (resolve ?rt True b False s2) (\<lambda>s. obind (closure_at s (scopes_top s)) (\<lambda>closure.
          obind (set_closure_list s closure p) (\<lambda>s. if do_pop then pop_scope s else Inr s)))) ?post"
        proof (rule walks_on [OF IH _ s2(1)])
          fix s3 assume s3: "fits U V s3" "later s2 s3" "bound U ?rt s3"
          have l: "later s1 s3" by (rule later_trans [OF s2(2) s3(2)])
          have "bound U d s3" if "child_of U p d" for d
            using kids [OF that] True s3(3) bound_later [OF s1(3) l] by auto
          then have "bound U p s3" by (intro bound_node [of U p n]) (use n in auto)
          then show "holds (obind (closure_at s3 (scopes_top s3)) (\<lambda>closure.
              obind (set_closure_list s3 closure p) (\<lambda>s. if do_pop then pop_scope s else Inr s))) ?post"
            by (rule fin [OF s3(1) pushed_later [OF s1(2) l]])
        qed (use info in simp)
      qed
      have loop: "holds (obind (for_children ?ps (resolve_parameter resolve ?check) s1) (\<lambda>s.
          obind (?check ?rt True s) (\<lambda>(return_type_is_templated, s).
          obind (if return_type_is_templated then set_node_flag s p Signature_HasTemplatedReturnType else Inr s) (\<lambda>s.
          obind (resolve ?rt True return_type_is_templated False s) (\<lambda>s. obind (closure_at s (scopes_top s)) (\<lambda>closure.
          obind (set_closure_list s closure p) (\<lambda>s. if do_pop then pop_scope s else Inr s))))))) ?post"
        if s1: "fits U V s1" "pushed s s1" for s1
        unfolding holds_bind [of "for_children _ _ _"]
      proof (rule holds_mono [OF for_children_ok [OF _ s1(1), where k = k' and Done = "bound U"]], goal_cases)
        case (3 c s)
        then obtain k1 where "k' = Suc k1" by (auto elim: walkableE)
        then show ?case using 3 IH k by (intro resolve_parameter_ok [where k' = k1]) auto
      next
        case (4 s2)
        have "bound U ?ps s2"
          using info 4 by (auto intro: bound_node)
        then have s2: "fits U V s2" "pushed s s2" "bound U ?ps s2" using 4 pushed_later [OF s1(2)] by auto
        show ?case
          unfolding holds_bind [of "?check _ _ _"]
          by (rule holds_mono [OF check_expression_holds [OF _ order_refl s2(1)]])
            (use info tail pushed_later [OF s2(2)] bound_later [OF s2(3)] in \<open>auto simp del: holds_bind\<close>)
      qed (use info k bound_later in auto)
      have "holds (obind (push_new_scope Kind_Signature s) (\<lambda>s. obind (push_new_closure s) (\<lambda>s.
          obind (for_children ?ps (resolve_parameter resolve ?check) s) (\<lambda>s.
          obind (?check ?rt True s) (\<lambda>(return_type_is_templated, s).
          obind (if return_type_is_templated then set_node_flag s p Signature_HasTemplatedReturnType else Inr s) (\<lambda>s.
          obind (resolve ?rt True return_type_is_templated False s) (\<lambda>s. obind (closure_at s (scopes_top s)) (\<lambda>closure.
          obind (set_closure_list s closure p) (\<lambda>s. if do_pop then pop_scope s else Inr s))))))))) ?post"
        unfolding holds_bind [of "push_new_scope _ _"]
      proof (rule holds_mono [OF push_new_scope_fits [OF fit]], elim conjE, rule step_on)
        fix s1 s2 assume "pushed s s1" "fits U V s2" "later s1 s2"
        then show "holds (obind (for_children ?ps (resolve_parameter resolve ?check) s2) (\<lambda>s.
          obind (?check ?rt True s) (\<lambda>(return_type_is_templated, s).
          obind (if return_type_is_templated then set_node_flag s p Signature_HasTemplatedReturnType else Inr s) (\<lambda>s.
          obind (resolve ?rt True return_type_is_templated False s) (\<lambda>s. obind (closure_at s (scopes_top s)) (\<lambda>closure.
          obind (set_closure_list s closure p) (\<lambda>s. if do_pop then pop_scope s else Inr s))))))) ?post"
          using loop pushed_later by blast
      qed (rule push_new_closure_fits)
      then show ?thesis using True by simp
    qed auto
  qed
qed

lemma resolve_members_ok:
  assumes IH: "walks U V k resolve"
  shows "walkable U V k c \<Longrightarrow> fits U V s \<Longrightarrow> V - c \<le> rounds \<Longrightarrow> holds (resolve_members rounds resolve c cin s)
    (\<lambda>s'. fits U V s' \<and> later s s' \<and> (\<forall>d e. next_sib U c d \<and> siblings U d e \<longrightarrow> bound U e s'))"
proof (induction rounds arbitrary: c s)
  case 0
  then show ?case using walkable_less [OF 0(1)] by simp
next
  case (Suc r)
  let ?post = "\<lambda>s'. fits U V s' \<and> later s s' \<and> (\<forall>d e. next_sib U c d \<and> siblings U d e \<longrightarrow> bound U e s')"
  have go: "holds (obind (next_sibling_of (nodes s) c) (\<lambda>cur. obind (tag_at (nodes s) cur) (\<lambda>tg. ensure Assertion (tg = Tag_Definition)
         (obind (resolve cur True cin False s) (resolve_members r resolve cur cin))))) ?post"
    unfolding holds_bind [of "next_sibling_of _ _"]
  proof (rule holds_mono [OF next_sibling_walk [OF Suc.prems(1,2)]], unfold holds_bind [of "tag_at _ _"], rule holds_mono [OF tag_at_walk])
    fix d assume d: "next_sib U c d \<and> walkable U V k d \<and> c < d"
    then show "walkable U V k d" by simp
    show "fits U V s" by (rule Suc.prems(2))
    have "holds (obind (resolve d True cin False s) (resolve_members r resolve d cin)) ?post"
    proof (rule walks_on [OF IH _ Suc.prems(2)])
      fix s1 assume s1: "fits U V s1" "later s s1" "bound U d s1"
      have "V - d \<le> r" using Suc.prems(3) walkable_less [OF Suc.prems(1)] d by linarith
      then show "holds (resolve_members r resolve d cin s1) ?post"
      proof (intro holds_mono [OF Suc.IH [OF _ s1(1)]])
        fix s2 assume s2: "fits U V s2 \<and> later s1 s2 \<and> (\<forall>d' e. next_sib U d d' \<and> siblings U d' e \<longrightarrow> bound U e s2)"
        have "bound U e s2" if "next_sib U c d'" "siblings U d' e" for d' e
          using that d next_sib_unique [of U c d d'] siblings_next [of U d e] s2 bound_later [OF s1(3)] by auto
        then show "?post s2" using s2 later_trans [OF s1(2)] by auto
      qed (use d in simp_all)
    qed (use d in simp)
    then show "holds (ensure Assertion (tg = Tag_Definition) (obind (resolve d True cin False s) (resolve_members r resolve d cin))) ?post" for tg
      by simp
  qed
  show ?case
    unfolding resolve_members.simps [of "Suc r"] holds_bind [of "has_next_sibling_at _ _"]
  proof (rule holds_mono [OF has_next_walk [OF Suc.prems(1,2)]])
    fix b assume "b \<longleftrightarrow> (\<exists>d. next_sib U c d)"
    then show "holds (if \<not> b then Inr s else case Suc r of 0 \<Rightarrow> Inl Diverge | Suc r \<Rightarrow>
        obind (next_sibling_of (nodes s) c) (\<lambda>cur. obind (tag_at (nodes s) cur) (\<lambda>tg. ensure Assertion (tg = Tag_Definition)
         (obind (resolve cur True cin False s) (resolve_members r resolve cur cin))))) ?post"
      using go Suc.prems(2) by (auto simp del: holds_bind)
  qed
qed

lemma fits_used: "fits U V s \<Longrightarrow> ast_used (trees s) = V"
  by (simp add: fits_def)

text \<open>The children of a node that are the first one, its next one, and those behind.\<close>

lemma members_cover:
  assumes "first_child U p c" and "bound U c s" and "\<And>d e. next_sib U c d \<Longrightarrow> siblings U d e \<Longrightarrow> bound U e s" and "child_of U p e"
  shows "bound U e s"
proof -
  have "siblings U c e" using assms(1,4) first_child_unique by (auto simp: child_of_def)
  then show ?thesis using assms(2,3) siblings_next [of U c e] by auto
qed

lemma trait_parameter_ok:
  assumes "fits U V s"
  shows "holds (trait_parameter node c s) (\<lambda>(r, s'). fits U V s' \<and> later s s' \<and> (r = None \<longrightarrow> True) \<and> (r \<noteq> None \<longrightarrow> lex_has_error s'))"
proof -
  have "holds (name_of_node s Tag_Identifier c) (\<lambda>_. True)" by (cases "name_of_node s Tag_Identifier c") auto
  then show ?thesis
    unfolding trait_parameter_def holds_bind
    by (rule holds_trivial) (rule holds_mono [OF define_name_fits [OF assms]], auto)
qed

lemma resolve_trait_ok:
  assumes w: "walkable U V (Suc k) p" and fit: "fits U V s" and IH: "walks U V k resolve" and n: "U p = Some n" "tag n = Tag_Trait"
  shows "holds (resolve_trait resolve p cin s) (walk_post U V p True s)"
proof -
  let ?post = "walk_post U V p True s"
  have body: "holds (obind (push_new_scope Kind_Global s1) (\<lambda>s. obind (resolve_members (ast_used (trees s)) resolve c cin s)
      (\<lambda>s. obind (pop_scope s) pop_scope))) ?post"
    if s1: "fits U V s1" "pushed s s1" and c: "first_child U p c" "walkable U V k c" "bound U c s1" for s1 c
    unfolding holds_bind [of "push_new_scope _ _"]
  proof (rule holds_mono [OF push_new_scope_fits [OF s1(1)]], elim conjE, unfold holds_bind)
    fix s2 assume s2: "fits U V s2" "pushed s1 s2"
    show "holds (resolve_members (ast_used (trees s2)) resolve c cin s2) (\<lambda>s. holds (pop_scope s) (\<lambda>s. holds (pop_scope s) ?post))"
      unfolding fits_used [OF s2(1)]
    proof (rule holds_mono [OF resolve_members_ok [OF IH c(2) s2(1)]])
      fix s3 assume s3: "fits U V s3 \<and> later s2 s3 \<and> (\<forall>d e. next_sib U c d \<and> siblings U d e \<longrightarrow> bound U e s3)"
      have l: "later s1 s3" using later_trans [OF pushed_imp_later [OF s2(2)]] s3 by blast
      have "bound U e s3" if "child_of U p e" for e
        by (rule members_cover [OF c(1) bound_later [OF c(3) l] _ that]) (use s3 in blast)
      then have b: "bound U p s3" by (intro bound_node [of U p n]) (use n in auto)
      have p3: "pushed s1 s3" using pushed_later [OF s2(2)] s3 by blast
      show "holds (pop_scope s3) (\<lambda>s. holds (pop_scope s) ?post)"
      proof (rule holds_mono [OF pop_fits])
        fix s4 assume s4: "fits U V s4 \<and> s4 = s3\<lparr>scopes := butlast (scopes s3)\<rparr>"
        then have l4: "later s1 s4" using later_pop [OF p3] by simp
        have "bound U p s4" using b s4 by (simp add: bound_def)
        then show "holds (pop_scope s4) ?post" by (rule pop_end [OF conjunct1 [OF s4] pushed_later [OF s1(2) l4]])
      qed (use s3 in simp)
    qed simp
  qed
  let ?inner = "\<lambda>s1. obind (first_child_of (nodes s1) p) (\<lambda>params. obind (tag_at (nodes s1) params) (\<lambda>tg. ensure Assertion (tg = Tag_TraitParameterList)
      (obind (direct_children_of (nodes s1) params) (\<lambda>it. obind (over_children (ast_used (trees s1)) (trait_parameter p) it s1) (\<lambda>(full, s).
       if full \<noteq> None then Inr s
       else obind (push_new_scope Kind_Global s) (\<lambda>s. obind (resolve_members (ast_used (trees s)) resolve params cin s)
         (\<lambda>s. obind (pop_scope s) pop_scope)))))))"
  have inner: "holds (?inner s1) ?post"
    if s1: "fits U V s1" "pushed s s1" for s1
    unfolding holds_bind [of "first_child_of _ _"]
  proof (rule holds_mono [OF first_child_walk [OF w s1(1)]], unfold holds_bind [of "tag_at _ _"], rule holds_mono [OF tag_at_walk [OF _ s1(1)]])
    fix c tg assume c: "first_child U p c \<and> walkable U V k c"
    then show "walkable U V k c" by simp
    obtain k' where k: "k = Suc k'" using c by (auto elim: walkableE)
    assume tg: "\<exists>n. U c = Some n \<and> tag n = tg"
    show "holds (ensure Assertion (tg = Tag_TraitParameterList)
      (obind (direct_children_of (nodes s1) c) (\<lambda>it. obind (over_children (ast_used (trees s1)) (trait_parameter p) it s1) (\<lambda>(full, s).
       if full \<noteq> None then Inr s
       else obind (push_new_scope Kind_Global s) (\<lambda>s. obind (resolve_members (ast_used (trees s)) resolve c cin s)
         (\<lambda>s. obind (pop_scope s) pop_scope)))))) ?post"
    proof (cases "tg = Tag_TraitParameterList")
      case True
      then have bc: "bound U c s2" for s2 using tg bound_leaf by blast
      have "holds (obind (over_children V (trait_parameter p) it s1) (\<lambda>(full, s). if full \<noteq> None then Inr s
          else obind (push_new_scope Kind_Global s) (\<lambda>s. obind (resolve_members (ast_used (trees s)) resolve c cin s)
           (\<lambda>s. obind (pop_scope s) pop_scope)))) ?post"
        if it: "case it of None \<Rightarrow> \<not> (\<exists>d. first_child U c d) | Some d \<Rightarrow> first_child U c d \<and> walkable U V k' d" for it
      proof -
        have "holds (over_children V (trait_parameter p) it s1) (\<lambda>(r, s'). fits U V s' \<and> later s1 s'
            \<and> (r = None \<longrightarrow> (\<forall>c q. it = Some c \<and> siblings U c q \<longrightarrow> True)) \<and> (r \<noteq> None \<longrightarrow> lex_has_error s'))"
          by (rule over_children_ok [where Inv = "fits U V" and k = k'])
            (use s1(1) it later_trans trait_parameter_ok in \<open>auto split: option.splits\<close>)
        then show ?thesis
          unfolding holds_bind [of "over_children _ _ _ _"]
        proof (rule holds_mono)
          fix a :: "unit option \<times> NameState"
          assume a: "case a of (r, s') \<Rightarrow> fits U V s' \<and> later s1 s'
            \<and> (r = None \<longrightarrow> (\<forall>c q. it = Some c \<and> siblings U c q \<longrightarrow> True)) \<and> (r \<noteq> None \<longrightarrow> lex_has_error s')"
          obtain r s2 where x: "a = (r, s2)" by (cases a)
          have s2: "fits U V s2" "pushed s s2" "r \<noteq> None \<longrightarrow> lex_has_error s2" using a x pushed_later [OF s1(2)] by auto
          show "holds (case a of (full, s) \<Rightarrow> if full \<noteq> None then Inr s
              else obind (push_new_scope Kind_Global s) (\<lambda>s. obind (resolve_members (ast_used (trees s)) resolve c cin s)
               (\<lambda>s. obind (pop_scope s) pop_scope))) ?post"
          proof (cases r)
            case None
            then show ?thesis using body [OF s2(1,2) _ _ bc] c x by (simp del: holds_bind)
          next
            case (Some y)
            then show ?thesis using x s2 pushed_imp_later by (auto simp: walk_post_def bound_def)
          qed
        qed
      qed
      note loop = this
      have "walkable U V (Suc k') c" using c k by simp
      then have "holds (obind (direct_children_of (nodes s1) c) (\<lambda>it. obind (over_children V (trait_parameter p) it s1) (\<lambda>(full, s).
          if full \<noteq> None then Inr s
          else obind (push_new_scope Kind_Global s) (\<lambda>s. obind (resolve_members (ast_used (trees s)) resolve c cin s)
           (\<lambda>s. obind (pop_scope s) pop_scope))))) ?post"
        unfolding holds_bind [of "direct_children_of _ _"] by (intro holds_mono [OF direct_children_walk [OF _ s1(1)] loop])
      then show ?thesis using True fits_used [OF s1(1)] by (simp del: holds_bind)
    qed simp
  qed
  have "holds (has_flag_at s p Trait_HasExpects) (\<lambda>_. True)" by (simp add: has_flag_at_def) (cases "node_at (nodes s) p"; auto)
  then show ?thesis
    unfolding resolve_trait_def holds_bind [of "has_flag_at _ _ _"]
  proof (rule holds_trivial)
    fix b
    have "holds (obind (push_new_scope Kind_TraitSignature s) (\<lambda>s. obind (push_new_closure s) ?inner)) ?post"
      unfolding holds_bind [of "push_new_scope _ _"]
    proof (rule holds_mono [OF push_new_scope_fits [OF fit]], elim conjE, rule step_on)
      show "holds (push_new_closure s1) (\<lambda>s2. fits U V s2 \<and> later s1 s2)" if "fits U V s1" for s1
        by (rule push_new_closure_fits [OF that])
      show "holds (?inner s2) ?post" if "pushed s s1" "fits U V s2" "later s1 s2" for s1 s2
        by (rule inner [OF that(2) pushed_later [OF that(1,3)]])
    qed
    then show "holds (ensure Todo (\<not> b) (obind (push_new_scope Kind_TraitSignature s) (\<lambda>s. obind (push_new_closure s) ?inner))) ?post"
      by (simp del: holds_bind)
  qed
qed

lemma resolve_impl_ok:
  assumes w: "walkable U V (Suc k) p" and fit: "fits U V s" and IH: "walks U V k resolve" and n: "U p = Some n" "tag n = Tag_Impl"
  shows "holds (resolve_impl resolve p cin s) (walk_post U V p True s)"
proof -
  let ?post = "walk_post U V p True s"
  let ?fin = "\<lambda>s. obind (closure_at s (scopes_top s)) (\<lambda>closure. obind (set_closure_list s closure p) pop_scope)"
  have fin: "holds (?fin s1) ?post" if s1: "fits U V s1" "later s s0" "pushed s0 s1" "bound U p s1" for s0 s1
    unfolding holds_bind
  proof (rule holds_mono [OF closure_at_holds], rule holds_mono [OF set_closure_list_fits [OF s1(1)]], elim conjE)
    fix s2 assume s2: "fits U V s2" "later s1 s2"
    show "holds (pop_scope s2) ?post"
      by (rule holds_mono [OF pop_end [OF s2(1) pushed_later [OF s1(3) s2(2)] bound_later [OF s1(4) s2(2)]]])
        (use later_trans [OF s1(2)] in \<open>auto simp: walk_post_def\<close>)
  qed
  let ?rest = "\<lambda>d s. obind (push_new_scope Kind_Global s) (\<lambda>s. obind (push_new_closure s) (\<lambda>s.
        obind (resolve_members (ast_used (trees s)) resolve d cin s) ?fin))"
  have rest: "holds (?rest d s2) ?post"
    if c: "first_child U p c" "next_sib U c d" and d: "walkable U V k d" and s2: "fits U V s2" "later s s2" "bound U c s2" "bound U d s2" for c d s2
    unfolding holds_bind [of "push_new_scope _ _"]
  proof (rule holds_mono [OF push_new_scope_fits [OF s2(1)]], elim conjE, rule step_on [OF push_new_closure_fits])
    fix s3 s4 assume s3: "pushed s2 s3" and s4: "fits U V s4" "later s3 s4"
    have p4: "pushed s2 s4" by (rule pushed_later [OF s3 s4(2)])
    show "holds (obind (resolve_members (ast_used (trees s4)) resolve d cin s4) ?fin) ?post"
      unfolding fits_used [OF s4(1)] holds_bind [of "resolve_members _ _ _ _ _"]
    proof (rule holds_mono [OF resolve_members_ok [OF IH d s4(1) diff_le_self]], elim conjE)
      fix s5 assume s5: "fits U V s5" "later s4 s5" "\<forall>e f. next_sib U d e \<and> siblings U e f \<longrightarrow> bound U f s5"
      have l5: "later s2 s5" by (rule later_trans [OF pushed_imp_later [OF p4] s5(2)])
      have "bound U f s5" if "siblings U d f" for f
        using that s5(3) bound_later [OF s2(4) l5] siblings_next [of U d f] by auto
      then have "bound U e s5" if "child_of U p e" for e
        using members_cover [OF c(1) bound_later [OF s2(3) l5] _ that] next_sib_unique [OF c(2)] by blast
      then have "bound U p s5" by (intro bound_node [of U p n]) (use n in auto)
      then show "holds (?fin s5) ?post" by (rule fin [OF s5(1) s2(2) pushed_later [OF p4 s5(2)]])
    qed
  qed
  show ?thesis
    unfolding resolve_impl_def holds_bind [of "first_child_of _ _"]
  proof (rule holds_mono [OF first_child_walk [OF w fit]], elim conjE)
    fix c assume c: "first_child U p c" "walkable U V k c"
    show "holds (obind (resolve c True cin False s) (\<lambda>s. obind (next_sibling_of (nodes s) c) (\<lambda>trait.
        obind (resolve trait True cin False s) (?rest trait)))) ?post"
    proof (rule walks_on [OF IH c(2) fit], unfold holds_bind [of "next_sibling_of _ _"])
      fix s1 assume s1: "fits U V s1" "later s s1" "bound U c s1"
      show "holds (next_sibling_of (nodes s1) c) (\<lambda>trait. holds (obind (resolve trait True cin False s1) (?rest trait)) ?post)"
      proof (rule holds_mono [OF next_sibling_walk [OF c(2) s1(1)]], elim conjE)
        fix d assume d: "next_sib U c d" "walkable U V k d"
        show "holds (obind (resolve d True cin False s1) (?rest d)) ?post"
          by (rule walks_on [OF IH d(2) s1(1)], rule rest [OF c(1) d])
            (use later_trans [OF s1(2)] bound_later [OF s1(3)] in auto)
      qed
    qed
  qed
qed


text \<open>The nodes that are reached from a child by its siblings.\<close>

definition behind :: "node_store \<Rightarrow> (nat \<times> nat) set" where
  "behind N = {(a, b). next_sibling_of N a = Inr b}\<^sup>*"

lemma behind_self [simp]: "(a, a) \<in> behind N"
  by (simp add: behind_def)

lemma behind_next: "(a, b) \<in> behind N \<Longrightarrow> next_sibling_of N b = Inr c \<Longrightarrow> (a, c) \<in> behind N"
  unfolding behind_def by (erule rtrancl_into_rtrancl) simp

lemma behind_then: "(a, b) \<in> behind N \<Longrightarrow> then_sibling N n f b = Inr x \<Longrightarrow> (a, snd x) \<in> behind N \<and> (\<forall>y. fst x = Some y \<longrightarrow> y = snd x)"
  using behind_next [of a b N] by (auto simp: then_sibling_def obind_eq_Inr_iff split: if_splits)

lemma behind_sibling_then: "(a, b) \<in> behind N \<Longrightarrow> sibling_then N n f b = Inr x \<Longrightarrow> (a, snd x) \<in> behind N \<and> (\<forall>y. fst x = Some y \<longrightarrow> y = b)"
  using behind_next [of a b N] by (auto simp: sibling_then_def obind_eq_Inr_iff split: if_splits)

lemma no_more_siblings_result: "no_more_siblings N c info = Inr i \<Longrightarrow> i = info"
  by (auto simp: no_more_siblings_def obind_eq_Inr_iff ensure_eq_Inr_iff)

lemma behind_walk: "(a, b) \<in> behind (nodes s) \<Longrightarrow> fits U V s \<Longrightarrow> walkable U V k a \<Longrightarrow> walkable U V k b"
  unfolding behind_def
proof (induction rule: rtrancl_induct)
  case (step b c)
  then show ?case using next_sibling_walk [of U V k b s] by auto
qed

lemma sibling_then_Some: "sibling_then N n f b = Inr (Some y, z) \<Longrightarrow> y = b"
  by (auto simp: sibling_then_def obind_eq_Inr_iff split: if_splits)

lemma get_if_where:
  assumes "get_if_info N p = Inr info" and "if_where info = Some x"
  shows "\<exists>c. first_child_of N p = Inr c \<and> (c, x) \<in> behind N"
  using assms unfolding get_if_info_def split_def
  apply (elim obind_InrE ensure_InrE)
  apply (drule no_more_siblings_result)
  apply (drule behind_then [OF behind_self])
  apply auto
  done

lemma get_for_where:
  assumes "get_for_info N p = Inr info" and "for_where info = Some x"
  shows "\<exists>c. first_child_of N p = Inr c \<and> (c, x) \<in> behind N"
  using assms unfolding get_for_info_def split_def
  apply (elim obind_InrE ensure_InrE)
  apply (drule no_more_siblings_result)
  apply (drule behind_next [OF behind_self])
  apply (frule (1) behind_sibling_then, elim conjE)
  apply (auto dest: sibling_then_Some)
  done

lemma get_foreach_where:
  assumes "get_foreach_info N p = Inr info" and "each_where info = Some x"
  shows "\<exists>c. first_child_of N p = Inr c \<and> (c, x) \<in> behind N"
  using assms unfolding get_foreach_info_def split_def
  apply (elim obind_InrE ensure_InrE)
  apply (drule no_more_siblings_result)
  apply (drule behind_next [OF behind_self])
  apply (frule (1) behind_sibling_then, elim conjE)
  apply (frule (1) behind_next)
  apply (auto dest: sibling_then_Some)
  done

lemma get_infos_end [simp]: "get_if_info N p \<noteq> Inl Diverge" "get_for_info N p \<noteq> Inl Diverge" "get_foreach_info N p \<noteq> Inl Diverge"
  unfolding get_if_info_def get_for_info_def get_foreach_info_def split_def by (intro obind_ends ensure_ends; simp)+

lemma get_switch_ends [simp]: "get_switch_info N p \<noteq> Inl Diverge"
  unfolding get_switch_info_def if_distrib [of "\<lambda>x. x \<noteq> _"]
  by (intro obind_ends ensure_ends) (simp_all add: obind_ends)

lemma get_switch_where:
  "get_switch_info N p = Inr info \<Longrightarrow> switch_where info = Some x \<Longrightarrow> next_sibling_of N p = Inr x"
  unfolding get_switch_info_def by (elim obind_InrE ensure_InrE) (auto split: if_splits elim!: obind_InrE)

lemma where_of_walk:
  assumes w: "walkable U V (Suc k) p" and fit: "fits U V s"
  shows "holds (where_of s p) (\<lambda>r. \<forall>x. r = Some x \<longrightarrow> walkable U V (Suc k) x)"
proof -
  have child: "walkable U V (Suc k) x" if "first_child_of (nodes s) p = Inr c \<and> (c, x) \<in> behind (nodes s)" for c x
  proof -
    have "walkable U V k c" using first_child_walk [OF w fit] that by simp
    then have "walkable U V k x" using behind_walk [OF _ fit] that by blast
    then show ?thesis by (rule walkable_mono) simp
  qed
  have ifs: "holds (get_if_info (nodes s) p) (\<lambda>i. \<forall>x. if_where i = Some x \<longrightarrow> walkable U V (Suc k) x)"
    by (rule holds_Inr_only) (use get_if_where child in \<open>simp_all, blast\<close>)
  have fors: "holds (get_for_info (nodes s) p) (\<lambda>i. \<forall>x. for_where i = Some x \<longrightarrow> walkable U V (Suc k) x)"
    by (rule holds_Inr_only) (use get_for_where child in \<open>simp_all, blast\<close>)
  have eachs: "holds (get_foreach_info (nodes s) p) (\<lambda>i. \<forall>x. each_where i = Some x \<longrightarrow> walkable U V (Suc k) x)"
    by (rule holds_Inr_only) (use get_foreach_where child in \<open>simp_all, blast\<close>)
  have switches: "holds (get_switch_info (nodes s) p) (\<lambda>i. \<forall>x. switch_where i = Some x \<longrightarrow> walkable U V (Suc k) x)"
    using holds_Inr [OF next_sibling_walk [OF w fit]]
    by (intro holds_Inr_only) (auto dest: get_switch_where)
  have "holds (node_at (nodes s) p) (\<lambda>_. True)" by (cases "node_at (nodes s) p") auto
  then show ?thesis
    unfolding where_of_def holds_bind [of "node_at _ _"]
    by (rule holds_trivial) (use ifs fors eachs switches in simp)
qed

lemma push_scope_for_node_ok:
  assumes w: "walkable U V (Suc k) p" and fit: "fits U V s" and IH: "walks U V k resolve"
  shows "holds (push_scope_for_node resolve p cin s) (\<lambda>(b, s'). fits U V s' \<and> (if b then pushed s s' else s' = s))"
proof -
  let ?post = "\<lambda>(b, s'). fits U V s' \<and> (if b then pushed s s' else s' = s)"
  let ?body = "\<lambda>child s. obind (tag_at (nodes s) child) (\<lambda>tg. ensure Assertion (tg = Tag_Definition) (resolve child True cin False s))"
  have loop: "holds (obind (for_children x ?body s1) (\<lambda>s. Inr (True, s))) ?post"
    if s1: "fits U V s1" "pushed s s1" and x: "walkable U V (Suc k) x" for s1 x
    unfolding holds_bind [of "for_children _ _ _"]
  proof (rule holds_mono [OF for_children_ok [OF x s1(1), where Done = "\<lambda>_ _. True"]], goal_cases)
    case (2 c s2)
    have "holds (resolve c True cin False s2) (\<lambda>s'. fits U V s' \<and> later s2 s' \<and> True)"
      by (rule holds_mono [OF walksD [OF IH 2]]) (simp add: walk_post_def)
    moreover have "holds (tag_at (nodes s2) c) (\<lambda>_. True)" by (cases "tag_at (nodes s2) c") auto
    ultimately show ?case unfolding holds_bind by (intro holds_trivial [OF \<open>holds (tag_at _ _) _\<close>]) simp
  qed (use pushed_later [OF s1(2)] in auto)
  have block: "holds (obind (push_new_scope Kind_Local s) (\<lambda>s. Inr (True, s))) ?post"
    unfolding holds_bind by (rule holds_mono [OF push_new_scope_fits [OF fit]]) simp
  have whr: "holds (obind (push_new_scope Kind_Local s) (\<lambda>s. obind (for_children x ?body s) (\<lambda>s. Inr (True, s)))) ?post"
    if "walkable U V (Suc k) x" for x
    unfolding holds_bind [of "push_new_scope _ _"]
    by (rule holds_mono [OF push_new_scope_fits [OF fit]], rule loop) (use that in auto)
  have found: "holds (obind (where_of s p) (\<lambda>found. case found of None \<Rightarrow> Inr (False, s)
      | Some whr \<Rightarrow> obind (push_new_scope Kind_Local s) (\<lambda>s. obind (for_children whr ?body s) (\<lambda>s. Inr (True, s))))) ?post"
    unfolding holds_bind [of "where_of _ _"]
  proof (rule holds_mono [OF where_of_walk [OF w fit]])
    fix r assume "\<forall>x. r = Some x \<longrightarrow> walkable U V (Suc k) x"
    then show "holds (case r of None \<Rightarrow> Inr (False, s)
      | Some whr \<Rightarrow> obind (push_new_scope Kind_Local s) (\<lambda>s. obind (for_children whr ?body s) (\<lambda>s. Inr (True, s)))) ?post"
    proof (cases r)
      case (Some x)
      then show ?thesis using whr \<open>\<forall>x. r = Some x \<longrightarrow> _\<close> unfolding Some option.case by blast
    qed (use fit in simp)
  qed
  have tg: "holds (tag_at (nodes s) p) (\<lambda>_. True)" by (cases "tag_at (nodes s) p") auto
  show ?thesis
    unfolding push_scope_for_node_def holds_bind [of "tag_at (nodes s) p"]
    by (rule holds_trivial [OF tg]) (use block found in \<open>simp del: holds_bind\<close>)
qed

lemma resolve_other_ok:
  assumes w: "walkable U V (Suc k) p" and fit: "fits U V s" and IH: "walks U V k resolve" and n: "U p = Some n" "tag n \<noteq> Tag_Identifier"
  shows "holds (resolve_other resolve p cin ign s) (walk_post U V p True s)"
proof -
  let ?post = "walk_post U V p True s"
  have children: "holds (obind (for_children p (resolve_child resolve cin b) s2) (\<lambda>s. if has_scope then pop_scope s else Inr s)) ?post"
    if s2: "fits U V s2" "if has_scope then pushed s s2 else later s s2" for s2 b has_scope
    unfolding holds_bind [of "for_children _ _ _"]
  proof (rule holds_mono [OF for_children_ok [OF w s2(1), where Done = "bound U"]], goal_cases)
    case (2 c s3)
    have "holds (resolve c True cin b s3) (\<lambda>s'. fits U V s' \<and> later s3 s' \<and> bound U c s')"
      by (rule holds_mono [OF walksD [OF IH 2]]) (simp add: walk_post_def)
    moreover have "bound U c s3" if "\<exists>n. U c = Some n \<and> tag n = Tag_Where" using that bound_leaf by blast
    ultimately show ?case
      unfolding resolve_child_def holds_bind
      by (intro holds_mono [OF tag_at_walk [OF 2]]) (use 2(2) in auto)
  next
    case (3 s3)
    then have s3: "fits U V s3" "later s2 s3" "bound U p s3" using bound_node [of U p n s3] n by auto
    show ?case
    proof (cases has_scope)
      case True
      then show ?thesis using pop_end [OF s3(1) pushed_later [OF _ s3(2)] s3(3)] s2(2) by simp
    next
      case False
      then show ?thesis using s3 later_trans [OF _ s3(2)] s2(2) by (simp add: walk_post_def)
    qed
  qed (use bound_later in auto)
  let ?def = "\<lambda>tg s. if \<not> ign \<and> (tg = Tag_Definition \<or> tg = Tag_Parameter) then
      obind (name_of_node s tg p) (\<lambda>name. define_name name (Some p) p s) else Inr (True, s)"
  have defining: "holds (obind (?def tg s1) (\<lambda>(ok, s). if \<not> ok then Inr s
      else obind (for_children p (resolve_child resolve cin (tg = Tag_Call)) s) (\<lambda>s. if has_scope then pop_scope s else Inr s))) ?post"
    if s1: "fits U V s1" "if has_scope then pushed s s1 else s1 = s" for s1 tg has_scope
  proof -
    have nm: "holds (name_of_node s1 tg p) (\<lambda>_. True)" by (cases "name_of_node s1 tg p") auto
    have "holds (obind (name_of_node s1 tg p) (\<lambda>name. define_name name (Some p) p s1)) (\<lambda>(ok, s'). fits U V s' \<and> later s1 s' \<and> (\<not> ok \<longrightarrow> lex_has_error s'))"
      unfolding holds_bind by (rule holds_trivial [OF nm]) (rule define_name_fits [OF s1(1)])
    then have "holds (?def tg s1) (\<lambda>(ok, s'). fits U V s' \<and> later s1 s' \<and> (\<not> ok \<longrightarrow> lex_has_error s'))"
      using s1(1) by (simp del: holds_bind)
    then show ?thesis
      unfolding holds_bind [of "?def tg s1"]
    proof (rule holds_mono)
      fix a :: "bool \<times> NameState" assume a: "case a of (ok, s') \<Rightarrow> fits U V s' \<and> later s1 s' \<and> (\<not> ok \<longrightarrow> lex_has_error s')"
      obtain ok s2 where x: "a = (ok, s2)" by (cases a)
      have s2: "fits U V s2" "later s1 s2" "\<not> ok \<longrightarrow> lex_has_error s2" using a x by auto
      have rel: "if has_scope then pushed s s2 else later s s2" using s1(2) s2(2) pushed_later [of s s1 s2] by (auto split: if_splits)
      show "holds (case a of (ok, s) \<Rightarrow> if \<not> ok then Inr s
        else obind (for_children p (resolve_child resolve cin (tg = Tag_Call)) s) (\<lambda>s. if has_scope then pop_scope s else Inr s)) ?post"
      proof (cases ok)
        case True
        then show ?thesis using x children [OF s2(1) rel] by (simp del: holds_bind)
      next
        case False
        then show ?thesis using x s2 rel pushed_imp_later by (auto simp: walk_post_def bound_def split: if_splits)
      qed
    qed
  qed
  show ?thesis
    unfolding resolve_other_def holds_bind [of "push_scope_for_node _ _ _ _"]
  proof (rule holds_mono [OF push_scope_for_node_ok [OF w fit IH]])
    fix a :: "bool \<times> NameState" assume a: "case a of (b, s') \<Rightarrow> fits U V s' \<and> (if b then pushed s s' else s' = s)"
    obtain b s1 where x: "a = (b, s1)" by (cases a)
    have tg: "holds (tag_at (nodes s1) p) (\<lambda>_. True)" by (cases "tag_at (nodes s1) p") auto
    show "holds (case a of (has_scope, s) \<Rightarrow> obind (tag_at (nodes s) p) (\<lambda>tg. obind (?def tg s) (\<lambda>(ok, s). if \<not> ok then Inr s
        else obind (for_children p (resolve_child resolve cin (tg = Tag_Call)) s) (\<lambda>s. if has_scope then pop_scope s else Inr s)))) ?post"
      unfolding x prod.case holds_bind [of "tag_at _ _"]
      by (rule holds_trivial [OF tg], rule defining) (use a x in auto)
  qed
qed

lemma holds_check: "e \<noteq> Diverge \<Longrightarrow> holds x Q \<Longrightarrow> holds (ensure e b x) Q"
  by (simp add: ensure_def)

lemma resolve_names_step_ok:
  assumes w: "walkable U V (Suc k) p" and fit: "fits U V s" and IH: "walks U V k resolve"
  shows "holds (resolve_names_step resolve (check_expression_is_templated k) p do_pop cin ign s) (walk_post U V p do_pop s)"
  unfolding resolve_names_step_def
proof (rule holds_check)
  show "holds (obind (tag_at (nodes s) p) (\<lambda>tg. ensure Assertion ((do_pop \<or> tg = Tag_Signature) \<and> tg \<noteq> Tag_Where)
      (if tg = Tag_Identifier then resolve_identifier p cin s
       else if tg = Tag_Func then resolve_func resolve p cin s
       else if tg = Tag_Signature then resolve_signature resolve (check_expression_is_templated k) p do_pop s
       else if tg = Tag_Trait then resolve_trait resolve p cin s
       else if tg = Tag_Impl then resolve_impl resolve p cin s
       else resolve_other resolve p cin ign s))) (walk_post U V p do_pop s)"
    unfolding holds_bind [of "tag_at _ _"]
  proof (rule holds_mono [OF tag_at_walk [OF w fit]])
    fix tg assume "\<exists>n. U p = Some n \<and> tag n = tg"
    then obtain n where n: "U p = Some n" "tag n = tg" by blast
    show "holds (ensure Assertion ((do_pop \<or> tg = Tag_Signature) \<and> tg \<noteq> Tag_Where)
      (if tg = Tag_Identifier then resolve_identifier p cin s
       else if tg = Tag_Func then resolve_func resolve p cin s
       else if tg = Tag_Signature then resolve_signature resolve (check_expression_is_templated k) p do_pop s
       else if tg = Tag_Trait then resolve_trait resolve p cin s
       else if tg = Tag_Impl then resolve_impl resolve p cin s
       else resolve_other resolve p cin ign s)) (walk_post U V p do_pop s)"
    proof (cases "tg = Tag_Signature")
      case True
      then show ?thesis using resolve_signature_ok [OF w fit IH n(1)] n(2) by simp
    next
      case other: False
      show ?thesis
      proof (cases do_pop)
        case True
        have "holds (resolve_identifier p cin s) (walk_post U V p True s)" if "tg = Tag_Identifier"
          by (rule holds_mono [OF resolve_identifier_fits [OF fit n(1)]]) (use n(2) that in \<open>auto simp: walk_post_def\<close>)
        then show ?thesis
          using True other n resolve_func_ok [OF w fit IH n(1)] resolve_trait_ok [OF w fit IH n(1)] resolve_impl_ok [OF w fit IH n(1)]
            resolve_other_ok [OF w fit IH n(1)] by simp
      qed (use other in simp)
    qed
  qed
qed simp

lemma resolve_names_rec_ok: "walks U V k (resolve_names_rec k)"
proof (induction k)
  case 0
  then show ?case by (auto simp: walks_def elim: walkableE)
next
  case (Suc k)
  show ?case
    unfolding walks_def resolve_names_rec.simps using resolve_names_step_ok [OF _ _ Suc] by blast
qed

end
