(* ===== verification/NameFiles.thy ===== *)
theory NameFiles
  imports NameWalk
begin

text \<open>
  Name resolution of a file. The trees are those that \<open>complete_ast\<close> builds: a file is resolved
  without end of the scopes of the prelude, and without an error all its identifiers are bound.
\<close>

section \<open>Finished trees\<close>

fun root_tag :: "tree \<Rightarrow> AstTag" where
  "root_tag (Tree n ts) = tag n"

text \<open>Functions have a signature and a body as children.\<close>

fun funcs_ok :: "tree \<Rightarrow> bool" and all_funcs_ok :: "tree list \<Rightarrow> bool" where
  "funcs_ok (Tree n ts) \<longleftrightarrow> (tag n = Tag_Func \<longrightarrow> length ts = 2 \<and> root_tag (ts ! 0) = Tag_Signature) \<and> all_funcs_ok ts"
| "all_funcs_ok [] \<longleftrightarrow> True"
| "all_funcs_ok (t # ts) \<longleftrightarrow> funcs_ok t \<and> all_funcs_ok ts"

lemma unflagged_at: "D d = Some n \<Longrightarrow> unflagged D d = Some (n\<lparr>flags := 0\<rparr>)"
  by (simp add: unflagged_def)

lemma pre_walkable:
  "pre D d f l t \<Longrightarrow> twf t \<Longrightarrow> funcs_ok t \<Longrightarrow> d + tsize t \<le> V \<Longrightarrow> theight t \<le> k
    \<Longrightarrow> (\<not> l \<Longrightarrow> walkable (unflagged D) V k (d + tsize t)) \<Longrightarrow> walkable (unflagged D) V k d"
  "pres D d f ts \<Longrightarrow> fwf ts \<Longrightarrow> all_funcs_ok ts \<Longrightarrow> d + fsize ts \<le> V \<Longrightarrow> fheight ts \<le> k \<Longrightarrow> ts \<noteq> []
    \<Longrightarrow> walkable (unflagged D) V k d"
proof (induction t and ts arbitrary: d f l k and d f k rule: tcount_fcount.induct)
  case (1 n ts)
  obtain j where k: "k = Suc j" "fheight ts \<le> j" using 1(6) by (cases k) auto
  let ?n = "with_structure n f l (ts = []) (own_qwords n + fsize ts)"
  have at: "D d = Some ?n" "pres D (d + own_qwords n) True ts" using 1(2) by simp_all
  show ?case
    unfolding k(1)
  proof (rule walkable.walkable [of "unflagged D" d, OF unflagged_at [of D d, OF at(1)]])
    show "d < V" using 1(3,5) by simp
    show "has_children (?n\<lparr>flags := 0\<rparr>) \<longrightarrow> walkable (unflagged D) V j (d + own_qwords (?n\<lparr>flags := 0\<rparr>))"
      using 1(1) [OF at(2), of j] 1(3-5) k(2) by (auto simp: has_children_def)
    show "has_next_sibling (?n\<lparr>flags := 0\<rparr>) \<longrightarrow> 0 < next_sibling_offset (?n\<lparr>flags := 0\<rparr>)
        \<and> walkable (unflagged D) V (Suc j) (d + next_sibling_offset (?n\<lparr>flags := 0\<rparr>))"
      using 1(3,7) k(1) by (auto simp: has_next_sibling_def add.commute)
    show "func_ok (unflagged D) d (?n\<lparr>flags := 0\<rparr>)"
    proof (cases "tag n = Tag_Func")
      case True
      then obtain a b where ts: "ts = [a, b]" "root_tag a = Tag_Signature"
        using 1(4) by (auto simp: numeral_2_eq_2 length_Suc_conv)
      obtain na xs where a: "a = Tree na xs" by (cases a)
      obtain nb ys where b: "b = Tree nb ys" by (cases b)
      show ?thesis
        using at(2) ts by (auto simp: func_ok_def a b unflagged_def add.commute add.left_commute)
    qed (simp add: func_ok_def)
  qed
next
  case (3 t ts)
  then show ?case by (cases "ts = []") (auto simp: add.assoc)
qed simp_all

lemma siblings_unflagged: "siblings (unflagged N) p q \<longleftrightarrow> siblings N p q"
proof
  assume "siblings (unflagged N) p q"
  then show "siblings N p q"
    by induction (auto dest!: unflagged_Some intro: siblings.intros)
next
  assume "siblings N p q"
  then show "siblings (unflagged N) p q"
  proof induction
    case (next_one p n q)
    then show ?case using siblings.next_one [of "unflagged N" p, OF unflagged_at [of N p, OF next_one(1)]] by simp
  qed (rule siblings.self)
qed

lemma inside_unflagged: "inside (unflagged N) p q \<longleftrightarrow> inside N p q"
proof
  assume "inside (unflagged N) p q"
  then show "inside N p q"
    by induction (auto dest!: unflagged_Some simp: siblings_unflagged intro: inside.intros)
next
  assume "inside N p q"
  then show "inside (unflagged N) p q"
  proof induction
    case (at_identifier p n)
    then show ?case using inside.at_identifier [of "unflagged N" p, OF unflagged_at [of N p, OF at_identifier(1)]] by simp
  next
    case (in_child p n c q)
    then show ?case using inside.in_child [of "unflagged N" p, OF unflagged_at [of N p, OF in_child(1)]] by (simp add: siblings_unflagged)
  qed
qed

section \<open>The names of a file\<close>

lemma global_names_ok:
  "fits U V s \<Longrightarrow> scope_ok scope \<Longrightarrow> \<not> has_closure scope \<Longrightarrow> case it of None \<Rightarrow> True | Some c \<Rightarrow> walkable U V k c \<and> V - c \<le> rounds
    \<Longrightarrow> holds (global_names rounds it scope rank s) (\<lambda>(r, s'). fits U V s' \<and> only_errors s s'
      \<and> (case r of None \<Rightarrow> lex_has_error s' | Some m \<Rightarrow> scope_ok m \<and> \<not> has_closure m))"
proof (induction rounds arbitrary: it scope rank s)
  case 0
  then have "it = None" using walkable_less by (cases it) fastforce+
  then show ?case using 0 by (simp add: global_names.simps)
next
  case (Suc r)
  show ?case
  proof (cases it)
    case None
    then show ?thesis using Suc.prems by (simp add: global_names.simps)
  next
    case (Some c)
    let ?post = "\<lambda>(r, s'). fits U V s' \<and> only_errors s s' \<and> (case r of None \<Rightarrow> lex_has_error s' | Some m \<Rightarrow> scope_ok m \<and> \<not> has_closure m)"
    have c: "walkable U V k c" "V - c \<le> Suc r" using Suc.prems(4) Some by simp_all
    have go: "holds (obind (tag_at (nodes s) c) (\<lambda>tg. ensure Assertion (tg \<noteq> Tag_Identifier)
        (if tg \<noteq> Tag_Definition then global_names r it' scope rank s
         else obind (name_of_node s Tag_Definition c) (\<lambda>name.
           obind (scope_map_add s scope name (empty_entry\<lparr>entry_rank := rank, entry_definition := Some c\<rparr>) (Some c)) (\<lambda>(new_scope, s).
             case new_scope of None \<Rightarrow> Inr (None, s) | Some scope \<Rightarrow> global_names r it' scope ((rank + 1) mod 2 ^ 16) s))))) ?post"
      if it': "case it' of None \<Rightarrow> \<not> (\<exists>d. next_sib U c d) | Some d \<Rightarrow> next_sib U c d \<and> walkable U V k d \<and> c < d" for it'
    proof -
      have step: "case it' of None \<Rightarrow> True | Some d \<Rightarrow> walkable U V k d \<and> V - d \<le> r"
        using it' c(2) walkable_less [OF c(1)] by (auto split: option.splits)
      have rest: "holds (global_names r it' m rk s1) ?post" if "only_errors s s1" "scope_ok m" "\<not> has_closure m" for m rk s1
        using only_errors_fits [OF Suc.prems(1) that(1)]
        by (intro holds_mono [OF Suc.IH [OF _ that(2,3) step]]) (auto intro: only_errors_trans [OF that(1)])
      have add: "holds (obind (scope_map_add s scope name e (Some c)) (\<lambda>(new_scope, s).
          case new_scope of None \<Rightarrow> Inr (None, s) | Some scope \<Rightarrow> global_names r it' scope ((rank + 1) mod 2 ^ 16) s)) ?post" for name e
        unfolding holds_bind
      proof (rule holds_mono [OF scope_map_add_ok [OF Suc.prems(2)]])
        fix a assume a: "case a of (r, s') \<Rightarrow> only_errors s s' \<and> (if scope_used scope = MAX_SCOPE_ENTRY_COUNT then r = None \<and> lex_has_error s'
          else (\<exists>m'. r = Some m' \<and> added scope name e m') \<and> (scope_abs scope name \<noteq> None \<longrightarrow> lex_has_error s'))"
        obtain x s1 where y: "a = (x, s1)" by (cases a)
        show "holds (case a of (new_scope, s) \<Rightarrow> case new_scope of None \<Rightarrow> Inr (None, s)
            | Some scope \<Rightarrow> global_names r it' scope ((rank + 1) mod 2 ^ 16) s) ?post"
        proof (cases x)
          case None
          then show ?thesis using a y only_errors_fits [OF Suc.prems(1)] by (auto split: if_splits)
        next
          case (Some m)
          then have "only_errors s s1" "added scope name e m" using a y by (auto split: if_splits)
          then show ?thesis using rest [of s1 m] Suc.prems(3) y Some by (simp add: added_def)
        qed
      qed
      have nm: "holds (name_of_node s Tag_Definition c) (\<lambda>_. True)" by (cases "name_of_node s Tag_Definition c") auto
      have tg: "holds (tag_at (nodes s) c) (\<lambda>_. True)" by (cases "tag_at (nodes s) c") auto
      have named: "holds (obind (name_of_node s Tag_Definition c) (\<lambda>name.
          obind (scope_map_add s scope name (empty_entry\<lparr>entry_rank := rank, entry_definition := Some c\<rparr>) (Some c)) (\<lambda>(new_scope, s).
             case new_scope of None \<Rightarrow> Inr (None, s) | Some scope \<Rightarrow> global_names r it' scope ((rank + 1) mod 2 ^ 16) s))) ?post"
        unfolding holds_bind [of "name_of_node _ _ _"] by (rule holds_trivial [OF nm], rule add)
      show ?thesis
        unfolding holds_bind [of "tag_at _ _"]
      proof (rule holds_trivial [OF tg], rule holds_check, simp)
        fix tg :: AstTag
        show "holds (if tg \<noteq> Tag_Definition then global_names r it' scope rank s
         else obind (name_of_node s Tag_Definition c) (\<lambda>name.
           obind (scope_map_add s scope name (empty_entry\<lparr>entry_rank := rank, entry_definition := Some c\<rparr>) (Some c)) (\<lambda>(new_scope, s).
             case new_scope of None \<Rightarrow> Inr (None, s) | Some scope \<Rightarrow> global_names r it' scope ((rank + 1) mod 2 ^ 16) s))) ?post"
          using named rest [of s scope rank] Suc.prems(2,3) by (simp del: holds_bind)
      qed
    qed
    have "holds (obind (next_direct_child (nodes s) (Some c)) (\<lambda>(node, it). obind (tag_at (nodes s) node) (\<lambda>tg. ensure Assertion (tg \<noteq> Tag_Identifier)
        (if tg \<noteq> Tag_Definition then global_names r it scope rank s
         else obind (name_of_node s Tag_Definition node) (\<lambda>name.
           obind (scope_map_add s scope name (empty_entry\<lparr>entry_rank := rank, entry_definition := Some node\<rparr>) (Some node)) (\<lambda>(new_scope, s).
             case new_scope of None \<Rightarrow> Inr (None, s) | Some scope \<Rightarrow> global_names r it scope ((rank + 1) mod 2 ^ 16) s)))))) ?post"
      unfolding holds_bind [of "next_direct_child _ _"]
      by (rule holds_mono [OF next_direct_child_walk [OF c(1) Suc.prems(1)]]) (use go in \<open>auto simp del: holds_bind\<close>)
    then show ?thesis using Some by (simp add: global_names.simps [of "Suc r"] del: holds_bind)
  qed
qed

section \<open>Files\<close>

lemma resolve_root_child_ok:
  assumes w: "walkable U V (Suc k) c" and k: "Suc k \<le> levels" and fit: "fits U V s" and IH: "walks U V levels resolve"
  shows "holds (resolve_root_child resolve c s) (\<lambda>s'. fits U V s' \<and> later s s' \<and> bound U c s')"
proof -
  let ?post = "\<lambda>s'. fits U V s' \<and> later s s' \<and> bound U c s'"
  obtain n where n: "U c = Some n" using w by (auto elim: walkableE)
  have all: "holds (resolve c True True False s) ?post"
    by (rule holds_mono [OF walksD [OF IH walkable_mono [OF w k] fit]]) (simp add: walk_post_def)
  have cover: "bound U c s'" if "first_child U c d" "tag n = Tag_Definition" "bound U d s'"
      "\<And>e. next_sib U d e \<Longrightarrow> bound U e s' \<and> \<not> (\<exists>x. next_sib U e x)" for d s'
    by (rule bound_node [of U c n]) (use n that two_children [OF that(1)] in auto)
  have second: "holds (obind (next_sibling_of (nodes s1) d) (\<lambda>e. obind (resolve e True True False s1) (\<lambda>s. no_more_siblings (nodes s) e s))) ?post"
    if d: "first_child U c d" "walkable U V k d" "tag n = Tag_Definition" and s1: "fits U V s1" "later s s1" "bound U d s1" for d s1
    unfolding holds_bind [of "next_sibling_of _ _"]
  proof (rule holds_mono [OF next_sibling_walk [OF d(2) s1(1)]], elim conjE)
    fix e assume e: "next_sib U d e" "walkable U V k e"
    have "walkable U V levels e" using walkable_mono [OF e(2)] k by simp
    then show "holds (obind (resolve e True True False s1) (\<lambda>s. no_more_siblings (nodes s) e s)) ?post"
    proof (rule walks_on [OF IH _ s1(1)])
      fix s2 assume s2: "fits U V s2" "later s1 s2" "bound U e s2"
      show "holds (no_more_siblings (nodes s2) e s2) ?post"
      proof (rule holds_mono [OF no_more_walk [OF e(2) s2(1)]], elim conjE)
        fix s3 assume s3: "s3 = s2" and last: "\<not> (\<exists>x. next_sib U e x)"
        have "bound U c s2"
          by (rule cover [OF d(1,3) bound_later [OF s1(3) s2(2)]]) (use next_sib_unique [OF e(1)] s2(3) last in blast)
        then show "?post s3" using s3 s2 later_trans [OF s1(2)] by auto
      qed
    qed
  qed
  have definition_child: "holds (obind (first_child_of (nodes s) c) (\<lambda>child. obind (resolve child True True False s) (\<lambda>s.
      obind (has_next_sibling_at (nodes s) child) (\<lambda>more_siblings. if more_siblings then
         obind (next_sibling_of (nodes s) child) (\<lambda>child. obind (resolve child True True False s) (\<lambda>s. no_more_siblings (nodes s) child s))
       else Inr s)))) ?post" if t: "tag n = Tag_Definition"
    unfolding holds_bind [of "first_child_of _ _"]
  proof (rule holds_mono [OF first_child_walk [OF w fit]], elim conjE)
    fix d assume d: "first_child U c d" "walkable U V k d"
    have "walkable U V levels d" using walkable_mono [OF d(2)] k by simp
    then show "holds (obind (resolve d True True False s) (\<lambda>s.
      obind (has_next_sibling_at (nodes s) d) (\<lambda>more_siblings. if more_siblings then
         obind (next_sibling_of (nodes s) d) (\<lambda>child. obind (resolve child True True False s) (\<lambda>s. no_more_siblings (nodes s) child s))
       else Inr s))) ?post"
    proof (rule walks_on [OF IH _ fit], unfold holds_bind [of "has_next_sibling_at _ _"])
      fix s1 assume s1: "fits U V s1" "later s s1" "bound U d s1"
      show "holds (has_next_sibling_at (nodes s1) d) (\<lambda>more_siblings. holds (if more_siblings then
         obind (next_sibling_of (nodes s1) d) (\<lambda>child. obind (resolve child True True False s1) (\<lambda>s. no_more_siblings (nodes s) child s))
       else Inr s1) ?post)"
      proof (rule holds_mono [OF has_next_walk [OF d(2) s1(1)]])
        fix b assume b: "b \<longleftrightarrow> (\<exists>x. next_sib U d x)"
        show "holds (if b then
         obind (next_sibling_of (nodes s1) d) (\<lambda>child. obind (resolve child True True False s1) (\<lambda>s. no_more_siblings (nodes s) child s))
       else Inr s1) ?post"
        proof (cases b)
          case True
          then show ?thesis using second [OF d t s1] by (simp del: holds_bind)
        next
          case False
          then show ?thesis using cover [OF d(1) t s1(3)] b s1 by auto
        qed
      qed
    qed
  qed
  show ?thesis
    unfolding resolve_root_child_def holds_bind [of "tag_at _ _"]
    by (rule holds_mono [OF tag_at_walk [OF w fit]]) (use all definition_child n in \<open>auto simp del: holds_bind\<close>)
qed

lemma resolve_names_root_ok:
  assumes fit: "fits U V s" and w: "walkable U V MAX_AST_DEPTH root" and n: "U root = Some n" "tag n = Tag_File"
  shows "holds (resolve_names_root root fid s) (\<lambda>s'. fits U V s' \<and> (lex_has_error s' \<and> scopes s' = scopes s \<or>
    length (scopes s) < length (scopes s') \<and> take (length (scopes s)) (scopes s') = scopes s \<and> bound U root s'))"
    (is "holds _ ?post")
proof -
  let ?s = "s\<lparr>active_file_id := fid\<rparr>"
  let ?resolve = "resolve_names_rec MAX_AST_DEPTH"
  have fit0: "fits U V ?s" using fit names_ok_cong [of ?s s] by (simp add: fits_def)
  obtain k where k: "MAX_AST_DEPTH = Suc k" "k = 127" by (simp add: MAX_AST_DEPTH_def)
  have w': "walkable U V (Suc k) root" using w k by simp
  have walk: "holds (obind (push_scope s1 m) (for_children root (resolve_root_child ?resolve))) ?post"
    if s1: "fits U V s1" "scopes s1 = scopes s" and m: "scope_ok m" "\<not> has_closure m" for s1 m
    unfolding holds_bind
  proof (rule holds_mono [OF push_fits [OF s1(1) m]], elim conjE)
    fix s2 assume s2: "fits U V s2" "pushed s1 s2"
    show "holds (for_children root (resolve_root_child ?resolve) s2) ?post"
    proof (rule holds_mono [OF for_children_ok [OF w' s2(1), where Done = "bound U"]], goal_cases)
      case (2 c s3)
      then obtain k1 where "k = Suc k1" by (auto elim: walkableE)
      then show ?case
        using 2 k resolve_names_rec_ok [of U V MAX_AST_DEPTH] by (intro resolve_root_child_ok [where k = k1]) auto
    next
      case (3 s3)
      then have "pushed s1 s3" using pushed_later [OF s2(2)] by blast
      moreover have "bound U root s3" using 3 bound_node [of U root n s3] n by auto
      ultimately show ?case using 3 s1(2) by (simp add: pushed_def)
    qed (rule bound_later)
  qed
  have names: "holds (obind (global_names (ast_used (trees s1)) it m 0 s1) (\<lambda>(scope, s). case scope of None \<Rightarrow> Inr s
      | Some scope \<Rightarrow> obind (push_scope s scope) (for_children root (resolve_root_child ?resolve)))) ?post"
    if s1: "fits U V s1" "scopes s1 = scopes s" and m: "scope_ok m" "\<not> has_closure m"
      and it: "case it of None \<Rightarrow> \<not> (\<exists>c. first_child U root c) | Some c \<Rightarrow> first_child U root c \<and> walkable U V k c" for s1 m it
    unfolding holds_bind [of "global_names _ _ _ _ _"] fits_used [OF s1(1)]
  proof (rule holds_mono [OF global_names_ok [OF s1(1) m, where k = k]])
    show "case it of None \<Rightarrow> True | Some c \<Rightarrow> walkable U V k c \<and> V - c \<le> V" using it by (auto split: option.splits)
    fix a assume a: "case a of (r, s') \<Rightarrow> fits U V s' \<and> only_errors s1 s'
      \<and> (case r of None \<Rightarrow> lex_has_error s' | Some m \<Rightarrow> scope_ok m \<and> \<not> has_closure m)"
    obtain r s2 where x: "a = (r, s2)" by (cases a)
    have s2: "fits U V s2" "scopes s2 = scopes s" using a x only_errors_fields(2) [of s1 s2] s1(2) by auto
    show "holds (case a of (scope, s) \<Rightarrow> case scope of None \<Rightarrow> Inr s
      | Some scope \<Rightarrow> obind (push_scope s scope) (for_children root (resolve_root_child ?resolve))) ?post"
      using a x s2 walk [OF s2] by (cases r) (auto simp del: holds_bind)
  qed
  show ?thesis
    unfolding resolve_names_root_def Let_def holds_bind [of "scope_map_alloc _ _"]
  proof (rule holds_mono [OF alloc_ok [OF fit0]])
    fix a assume a: "case a of (m, s') \<Rightarrow> scope_ok m \<and> scope_abs m = Map.empty \<and> \<not> has_closure m
      \<and> scope_used m = 0 \<and> scope_kind m = Kind_Global \<and> fits U V s' \<and> only_errors ?s s'"
    obtain m s1 where x: "a = (m, s1)" by (cases a)
    have s1: "fits U V s1" "scopes s1 = scopes s" using a x only_errors_fields(2) [of ?s s1] by auto
    show "holds (case a of (scope, s) \<Rightarrow> obind (direct_children_of (nodes s) root) (\<lambda>it.
      obind (global_names (ast_used (trees s)) it scope 0 s) (\<lambda>(scope, s). case scope of None \<Rightarrow> Inr s
      | Some scope \<Rightarrow> obind (push_scope s scope) (for_children root (resolve_root_child ?resolve))))) ?post"
      unfolding x prod.case holds_bind [of "direct_children_of _ _"]
      by (rule holds_mono [OF direct_children_walk [OF w' s1(1)]], rule names [OF s1]) (use a x in auto)
  qed
qed

lemma temp_stack_release_ends: "temp_stack_release t m \<noteq> Inl Diverge"
  by (auto simp: temp_stack_release_def rv_pop_to_def rv_pop_by_def ensure_def obind_def Let_def split: sum.splits)

lemma resolve_names_ok:
  assumes fit: "fits U V s" and w: "walkable U V MAX_AST_DEPTH root"
  shows "holds (resolve_names root fid s) (\<lambda>(ok, s'). fits U V s' \<and> scopes s' = scopes s \<and> ok = (\<not> lex_has_error s')
    \<and> (ok \<longrightarrow> (\<forall>q. inside U root q \<longrightarrow> bindings s' q \<noteq> None)))" (is "holds _ ?post")
proof (cases "length (scopes s) = 1")
  case True
  have fin: "holds (obind (pop_scope s1) (\<lambda>s. ensure Assertion (length (scopes s) = 1)
      (obind (temp_stack_release (temp s) mark) (\<lambda>t. Inr (\<not> lex_has_error s, s\<lparr>temp := t\<rparr>))))) ?post"
    if s1: "fits U V s1" and r: "lex_has_error s1 \<and> scopes s1 = scopes s \<or>
      length (scopes s) < length (scopes s1) \<and> take (length (scopes s)) (scopes s1) = scopes s \<and> bound U root s1" for s1 mark
    unfolding holds_bind [of "pop_scope _"]
  proof (rule holds_mono [OF pop_fits [OF s1]], elim conjE)
    fix s2 assume s2: "fits U V s2" "s2 = s1\<lparr>scopes := butlast (scopes s1)\<rparr>"
    have rel: "holds (temp_stack_release (temp s2) mark) (\<lambda>_. True)"
      using temp_stack_release_ends by (cases "temp_stack_release (temp s2) mark") auto
    have post: "?post (\<not> lex_has_error s2, s2\<lparr>temp := t\<rparr>)" if l: "length (scopes s2) = 1" for t
    proof -
      have len: "length (scopes s1) = 2" using s2(2) l by simp
      then have "take 1 (scopes s1) = scopes s" "bound U root s1" using r True by auto
      moreover have "butlast (scopes s1) = take 1 (scopes s1)" using len by (simp add: butlast_conv_take)
      moreover have "fits U V (s2\<lparr>temp := t\<rparr>)" using s2(1) names_ok_cong [of "s2\<lparr>temp := t\<rparr>" s2] by (simp add: fits_def)
      ultimately show ?thesis using s2(2) by (auto simp: bound_def)
    qed
    show "holds (ensure Assertion (length (scopes s2) = 1)
      (obind (temp_stack_release (temp s2) mark) (\<lambda>t. Inr (\<not> lex_has_error s2, s2\<lparr>temp := t\<rparr>)))) ?post"
    proof (cases "length (scopes s2) = 1")
      case True
      show ?thesis unfolding holds_ensure holds_bind using True post [OF True] by (simp add: holds_trivial [OF rel])
    qed simp
  qed
  show ?thesis
    unfolding resolve_names_def Let_def
  proof (rule holds_check, simp, unfold holds_bind [of "tag_at _ _"], rule holds_mono [OF tag_at_walk [OF w fit]])
    fix tg assume n: "\<exists>n. U root = Some n \<and> tag n = tg"
    show "holds (ensure Assertion (tg = Tag_File) (obind (resolve_names_root root fid s) (\<lambda>s1. obind (pop_scope s1) (\<lambda>s2.
        ensure Assertion (length (scopes s2) = 1) (obind (temp_stack_release (temp s2) (temp_stack_mark (temp s)))
          (\<lambda>t. Inr (\<not> lex_has_error s2, s2\<lparr>temp := t\<rparr>))))))) ?post"
    proof (cases "tg = Tag_File")
      case True
      obtain n where "U root = Some n" "tag n = Tag_File" using n True by auto
      note root = resolve_names_root_ok [OF fit w this, of fid]
      have "holds (obind (resolve_names_root root fid s) (\<lambda>s1. obind (pop_scope s1) (\<lambda>s2.
        ensure Assertion (length (scopes s2) = 1) (obind (temp_stack_release (temp s2) (temp_stack_mark (temp s)))
          (\<lambda>t. Inr (\<not> lex_has_error s2, s2\<lparr>temp := t\<rparr>)))))) ?post"
        unfolding holds_bind [of "resolve_names_root _ _ _"] by (rule holds_mono [OF root], rule fin) auto
      then show ?thesis using True by (simp del: holds_bind)
    qed simp
  qed
qed (simp add: resolve_names_def)

end
