(* ===== verification/NameResolved.thy ===== *)
theory NameResolved
  imports NameFiles CompHeapSafety
begin

text \<open>
  What name resolution guarantees, over the program's definitions, with the inputs on which the
  statements are applied.
\<close>

section \<open>Sample states\<close>

definition name_node :: "AstTag \<Rightarrow> AstAttachment \<Rightarrow> nat \<Rightarrow> AstNode" where
  "name_node t data qwords = (sample_node t)\<lparr>own_qwords := qwords, attachment := data\<rparr>"

definition sample_file :: tree where
  "sample_file = Tree (name_node Tag_File NoData 1)
     [Tree (name_node Tag_Definition (DefinitionData 5) 2) [Tree (name_node Tag_Identifier (IdentifierData 7) 2) []],
      Tree (name_node Tag_Definition (DefinitionData 7) 2) [Tree (name_node Tag_Wildcard NoData 1) []]]"

definition sample_file_nodes :: node_store where
  "sample_file_nodes = [
     3 \<mapsto> with_structure (name_node Tag_File NoData 1) True True False 8,
     4 \<mapsto> with_structure (name_node Tag_Definition (DefinitionData 5) 2) True False False 4,
     6 \<mapsto> with_structure (name_node Tag_Identifier (IdentifierData 7) 2) True True True 2,
     8 \<mapsto> with_structure (name_node Tag_Definition (DefinitionData 7) 2) False True False 3,
     10 \<mapsto> with_structure (name_node Tag_Wildcard NoData 1) True True True 1]"

definition empty_scope :: "ScopeMapKind \<Rightarrow> ScopeMap" where
  "empty_scope kind = \<lparr>scope_capacity = 8, scope_used = 0, scope_kind = kind, has_closure = False, occupied_bits = (\<lambda>_. 0),
     scope_names = (\<lambda>_. 0), scope_entries = (\<lambda>_. empty_entry)\<rparr>"

definition sample_names :: "node_store \<Rightarrow> ScopeMap list \<Rightarrow> NameState" where
  "sample_names N scs = \<lparr>trees = sample_pool\<lparr>ast_nodes := N, ast_used := 11\<rparr>, scopes = scs, closures = (\<lambda>_. None),
     active_file_id = 0, prelude_file_id = 1, lex_has_error = False, sink_error_count = 0, sink_records = [],
     bindings = (\<lambda>_. None), closure_ids = (\<lambda>_. None), closure_entries = (\<lambda>_ _. None),
     temp = \<lparr>m_memory = (\<lambda>_. 0), m_used = 0, m_committed = 65536, m_commit_increment = TEMP_STACK_COMMIT_INCREMENT,
       m_reserved = 536870912, os_commit = (\<lambda>_. True)\<rparr>, name_heap = sample_heap\<rparr>"



lemma sample_names_fields [simp]:
  "nodes (sample_names N scs) = N" "ast_used (trees (sample_names N scs)) = 11" "scopes (sample_names N scs) = scs"
  "closures (sample_names N scs) = (\<lambda>_. None)" "bindings (sample_names N scs) = (\<lambda>_. None)"
  "lex_has_error (sample_names N scs) = False" "prelude_file_id (sample_names N scs) = 1"
  "temp (sample_names N scs) = \<lparr>m_memory = (\<lambda>_. 0), m_used = 0, m_committed = 65536, m_commit_increment = TEMP_STACK_COMMIT_INCREMENT,
       m_reserved = 536870912, os_commit = (\<lambda>_. True)\<rparr>"
  by (simp_all add: sample_names_def)

lemma sample_file_at [simp]:
  "sample_file_nodes 3 = Some (with_structure (name_node Tag_File NoData 1) True True False 8)"
  "sample_file_nodes 4 = Some (with_structure (name_node Tag_Definition (DefinitionData 5) 2) True False False 4)"
  "sample_file_nodes 6 = Some (with_structure (name_node Tag_Identifier (IdentifierData 7) 2) True True True 2)"
  "sample_file_nodes 8 = Some (with_structure (name_node Tag_Definition (DefinitionData 7) 2) False True False 3)"
  "sample_file_nodes 10 = Some (with_structure (name_node Tag_Wildcard NoData 1) True True True 1)"
  by (simp_all add: sample_file_nodes_def)

lemma name_node_fields [simp]:
  "tag (name_node t d q) = t" "attachment (name_node t d q) = d" "own_qwords (name_node t d q) = q" "flags (name_node t d q) = 0"
  by (simp_all add: name_node_def sample_node_def)

lemma empty_scope_fields [simp]:
  "scope_capacity (empty_scope kind) = 8" "scope_used (empty_scope kind) = 0" "scope_kind (empty_scope kind) = kind"
  "has_closure (empty_scope kind) = False" "occupied_bits (empty_scope kind) = (\<lambda>_. 0)"
  by (simp_all add: empty_scope_def)
lemma add_probe_step: "add_probe (numeral v) m name place = (case place of (index, bits, bit_mask) \<Rightarrow>
        if bits AND bit_mask = 0 then Inr (Some index)
        else if scope_names m index = name then Inr None
        else add_probe (pred_numeral v) m name (next_probe m place))"
  by (simp add: numeral_eq_Suc)

lemma get_probe_step: "get_probe (numeral v) m name i place = (case place of (index, bits, bit_mask) \<Rightarrow>
        if bits AND bit_mask = 0 then Inr None
        else if scope_names m index = name then Inr (Some (scope_entries m index))
        else
          let place = next_probe m place in
          if i = fst place then Inr None
          else get_probe (pred_numeral v) m name i place)"
  by (simp add: numeral_eq_Suc)

lemma over_None: "over_children r body None s = Inr (None, s)"
  by (simp add: over_children.simps)

lemma over_step: "over_children (numeral v) body (Some c) s = obind (next_direct_child (nodes s) (Some c)) (\<lambda>(child, it).
          obind (body child s) (\<lambda>(result, s). case result of Some x \<Rightarrow> Inr (Some x, s) | None \<Rightarrow> over_children (pred_numeral v) body it s))"
  by (simp add: numeral_eq_Suc over_children.simps [of "Suc (pred_numeral v)"])

lemma global_None: "global_names r None scope rank s = Inr (Some scope, s)"
  by (simp add: global_names.simps)

lemma global_step: "global_names (numeral v) (Some c) scope rank s = 
          obind (next_direct_child (nodes s) (Some c)) (\<lambda>(node, it).
          obind (tag_at (nodes s) node) (\<lambda>tg.
          ensure Assertion (tg \<noteq> Tag_Identifier)
          (if tg \<noteq> Tag_Definition then global_names (pred_numeral v) it scope rank s
           else
             obind (name_of_node s Tag_Definition node) (\<lambda>name.
             obind (scope_map_add s scope name (empty_entry\<lparr>entry_rank := rank, entry_definition := Some node\<rparr>) (Some node))
               (\<lambda>(new_scope, s).
             case new_scope of
               None \<Rightarrow> Inr (None, s)
             | Some scope \<Rightarrow> global_names (pred_numeral v) it scope ((rank + 1) mod 2 ^ 16) s)))))"
  by (simp add: numeral_eq_Suc global_names.simps [of "Suc (pred_numeral v)"])


lemma resolve_rec_step:
  "resolve_names_rec 128 = resolve_names_step (resolve_names_rec 127) (check_expression_is_templated 127)"
  by (simp add: fun_eq_iff numeral_eq_Suc)

lemma sample_hashes: "name_hash 5 = 286553246" "name_hash 7 = 2470907400"
  by (simp_all add: name_hash_def fnv1a_def fnv1a_step_range_def fnv1a_step_def FNV1A_SEED_def)

lemmas node_eval = node_at_def tag_at_def next_direct_child_def next_sibling_of_def has_next_sibling_def has_next_sibling_at_def
  direct_children_of_def has_children_def first_child_of_def name_of_node_def no_more_siblings_def is_descendant_of_def

lemmas map_eval = scope_map_add_def scope_map_add_nogrow_def scope_map_get_def first_probe_def next_probe_def add_probe_step get_probe_step
  put_entry_def home_index_def sample_hashes MAX_SCOPE_ENTRY_COUNT_def

lemma name_alloc:
  "scope_map_alloc s kind = obind (temp_stack_alloc (temp s) 184 8) (\<lambda>(t, _). Inr (empty_scope kind, s\<lparr>temp := t\<rparr>))"
  by (simp add: scope_map_alloc_def scope_map_alloc_sized_def scope_map_size_def is_pow2_def Let_def empty_scope_def)


lemmas memory_eval = temp_stack_alloc_def rv_pad_to_alignment_def rv_reserve_exact_def next_multiple_def rv_ensure_capacity_def is_pow2_def

section \<open>Files\<close>

text \<open>
  C1: A file whose tree \<open>complete_ast\<close> built is resolved in finitely many steps: \<open>resolve_names\<close>
  never runs for ever, and when it returns, the scopes are those from before (only the prelude's), the
  invariant of scopes and closures holds, and if it returns true then every identifier of the tree
  outside of \<open>where\<close> and of trait parameters has a binding.
\<close>

theorem resolve_names_binds:
  assumes "names_ok s" and "pre (nodes s) root True True t" and "twf t" and "funcs_ok t"
    and "theight t \<le> MAX_AST_DEPTH" and "root + tsize t \<le> ast_used (trees s)"
  shows "case resolve_names root fid s of
    Inl e \<Rightarrow> e \<noteq> Diverge
  | Inr (ok, s') \<Rightarrow> names_ok s' \<and> scopes s' = scopes s \<and> ok = (\<not> lex_has_error s')
      \<and> (ok \<longrightarrow> (\<forall>q. inside (nodes s) root q \<longrightarrow> bindings s' q \<noteq> None))"
proof -
  let ?U = "unflagged (nodes s)" and ?V = "ast_used (trees s)"
  have fit: "fits ?U ?V s" using assms(1) by (simp add: fits_def)
  have "walkable ?U ?V MAX_AST_DEPTH root" using pre_walkable(1) [OF assms(2-4,6,5)] by simp
  then have "holds (resolve_names root fid s) (\<lambda>(ok, s'). fits ?U ?V s' \<and> scopes s' = scopes s \<and> ok = (\<not> lex_has_error s')
      \<and> (ok \<longrightarrow> (\<forall>q. inside ?U root q \<longrightarrow> bindings s' q \<noteq> None)))"
    by (rule resolve_names_ok [OF fit])
  then show ?thesis by (auto simp: holds_def fits_def inside_unflagged split: sum.splits)
qed

lemma empty_scope_ok: "scope_ok (empty_scope kind)" "scope_abs (empty_scope kind) = Map.empty"
proof -
  have none: "\<not> slot_marked (\<lambda>_. 0) i" for i by (simp add: slot_marked_bit)
  show "scope_ok (empty_scope kind)" by (auto simp: scope_ok_def none intro!: exI [of _ 3])
  show "scope_abs (empty_scope kind) = Map.empty" by (simp add: scope_abs_def none)
qed

lemma sample_names_ok: "names_ok (sample_names N [empty_scope kind])"
  by (simp add: names_ok_def empty_scope_ok MAX_AST_DEPTH_def)

theorem resolve_names_binds_witness:
  "case resolve_names 3 2 (sample_names sample_file_nodes [empty_scope Kind_Global]) of
     Inr (ok, s) \<Rightarrow> ok \<and> bindings s 6 = Some (Binding_Global 1 2) \<and> scopes s = [empty_scope Kind_Global]
   | Inl e \<Rightarrow> False"
proof -
  have pre: "pre sample_file_nodes 3 True True sample_file" by (simp add: sample_file_def sample_file_nodes_def)
  have run: "case resolve_names 3 2 (sample_names sample_file_nodes [empty_scope Kind_Global]) of
     Inr (ok, s) \<Rightarrow> ok \<and> bindings s 6 = Some (Binding_Global 1 2) | Inl e \<Rightarrow> False"
    by (simp add: resolve_names_def resolve_names_root_def name_alloc memory_eval node_eval global_step global_None map_eval
      push_scope_def for_children_def over_step over_None resolve_root_child_def resolve_rec_step resolve_names_step_def resolve_identifier_def
      MAX_AST_DEPTH_def bind_found_def note_self_reference_def bind_node_def resolve_other_def push_scope_for_node_def where_of_def pop_scope_def temp_stack_release_def temp_stack_mark_def rv_pop_to_def rv_pop_by_def)
  show ?thesis
    using run resolve_names_binds [of "sample_names sample_file_nodes [empty_scope Kind_Global]" 3 sample_file 2]
      sample_names_ok pre by (auto simp: sample_file_def MAX_AST_DEPTH_def split: sum.splits)
qed

section \<open>Identifiers\<close>


lemma scope_flag [simp]: "scope_ok (m\<lparr>has_closure := b\<rparr>) = scope_ok m" "scope_abs (m\<lparr>has_closure := b\<rparr>) = scope_abs m"
  by (simp_all add: scope_ok_def reached_def home_index_def scope_abs_def)

definition sample_parameter :: ScopeMap where
  "sample_parameter = (put_entry (empty_scope Kind_Signature) 0 7 empty_entry)\<lparr>has_closure := True\<rparr>"

lemma sample_parameter_ok: "scope_ok sample_parameter" "scope_abs sample_parameter = [7 \<mapsto> empty_entry]"
proof -
  let ?m = "empty_scope Kind_Signature"
  have "(home_index ?m 7 + 0) mod 8 = 0" by (simp add: home_index_def sample_hashes)
  moreover have "\<not> slot_marked (\<lambda>_. 0) i" for i by (simp add: slot_marked_bit)
  ultimately show "scope_ok sample_parameter" "scope_abs sample_parameter = [7 \<mapsto> empty_entry]"
    using scope_map_put_ok [of ?m 7 0 empty_entry] empty_scope_ok [of Kind_Signature]
    by (simp_all add: sample_parameter_def passed_def MAX_SCOPE_ENTRY_COUNT_def)
qed

definition sample_nested :: NameState where
  "sample_nested = (sample_names sample_file_nodes [empty_scope Kind_Global, sample_parameter, (empty_scope Kind_Signature)\<lparr>has_closure := True\<rparr>])
     \<lparr>closures := [1 \<mapsto> empty_scope Kind_Closure, 2 \<mapsto> empty_scope Kind_Closure]\<rparr>"

lemma sample_nested_ok: "names_ok sample_nested" "captures_exact sample_nested"
proof -
  have three: "i < 3 \<longleftrightarrow> i = 0 \<or> i = 1 \<or> i = (2 :: nat)" for i by auto
  have scopes: "scopes sample_nested ! i = (if i = 0 then empty_scope Kind_Global else if i = 1 then sample_parameter
      else (empty_scope Kind_Signature)\<lparr>has_closure := True\<rparr>)" if "i < 3" for i
    using that by (auto simp: sample_nested_def three)
  have cl: "closures sample_nested i = (if i = 1 \<or> i = 2 then Some (empty_scope Kind_Closure) else None)" for i
    by (simp add: sample_nested_def)
  have len: "length (scopes sample_nested) = 3" by (simp add: sample_nested_def)
  show "names_ok sample_nested"
    unfolding names_ok_def len
    by (auto simp: scopes cl empty_scope_ok sample_parameter_ok MAX_AST_DEPTH_def ranks_ok_def three)
  show "captures_exact sample_nested"
    unfolding captures_exact_def len by (auto simp: cl empty_scope_ok split: if_splits)
qed


end
