(* ===== verification/NameClosures.thy ===== *)
theory NameClosures
  imports NameResolved
begin

text \<open>
  Maps of names against finite maps, the lists that closures are written to, and the captures that
  cannot be written.
\<close>

section \<open>Maps\<close>

text \<open>
  C3: A map of names is a finite map: adding a name to it leaves every other name as it is, gives
  the name the new entry unless it had one, and in that case notes an error; a full map is left and an
  error is noted. The map that takes the place of one that is more than two thirds full has the same entries, but
  it no longer says that its scope has a closure.
\<close>

theorem scope_map_add_refines:
  assumes "scope_ok m"
  shows "case scope_map_add s m name e src of
    Inl err \<Rightarrow> err \<noteq> Diverge
  | Inr (None, s') \<Rightarrow> scope_used m = MAX_SCOPE_ENTRY_COUNT \<and> lex_has_error s'
  | Inr (Some m', s') \<Rightarrow> scope_ok m' \<and> (scope_abs m name \<noteq> None \<longrightarrow> lex_has_error s')
      \<and> (\<forall>n. scope_map_get m' n = Inr (if n = name \<and> scope_abs m n = None then Some e else scope_abs m n))
      \<and> (has_closure m' \<longleftrightarrow> has_closure m \<and> scope_used m * 3 \<le> scope_capacity m * 2)"
proof -
  have get: "scope_map_get m' n = Inr (if n = name \<and> scope_abs m n = None then Some e else scope_abs m n)" if "added m name e m'" for m' n
    using that scope_map_get_ok [of m' n] by (auto simp: added_def)
  show ?thesis
    using scope_map_add_ok [OF assms, of s name e src] get
    by (auto simp: holds_def added_def split: sum.splits option.splits if_splits)
qed

definition sample_full :: ScopeMap where
  "sample_full = \<lparr>scope_capacity = 8, scope_used = 6, scope_kind = Kind_Signature, has_closure = True,
     occupied_bits = (\<lambda>_. 0)(0 := 63), scope_names = (\<lambda>_. 0)(0 := 7, 1 := 4, 2 := 1, 3 := 6, 4 := 3, 5 := 8),
     scope_entries = (\<lambda>_. empty_entry)\<rparr>"

lemma less_8: "i < 8 \<longleftrightarrow> i = 0 \<or> i = 1 \<or> i = 2 \<or> i = 3 \<or> i = 4 \<or> i = 5 \<or> i = 6 \<or> i = (7 :: nat)"
  by auto

lemma sample_full_occupied: "occupied sample_full i \<longleftrightarrow> i < 6"
proof -
  have "(63 :: u64) = mask 6" by (simp add: mask_eq_exp_minus_1)
  note m = this
  have "bit (63 :: u64) j \<longleftrightarrow> j < 6" if "j < 64" for j using that by (simp only: m bit_mask_iff) simp
  then show ?thesis
    by (cases "i < 64") (auto simp: sample_full_def slot_marked_bit)
qed

lemma more_hashes: "name_hash 4 = 1341859817" "name_hash 1 = 212812234" "name_hash 6 = 3526213971" "name_hash 3 = 2397166388" "name_hash 8 = 1415600829"
  by (simp_all add: name_hash_def fnv1a_def fnv1a_step_range_def fnv1a_step_def FNV1A_SEED_def)

lemma sample_full_ok: "scope_ok sample_full"
proof -
  have six: "i < 6 \<longleftrightarrow> i = 0 \<or> i = 1 \<or> i = 2 \<or> i = 3 \<or> i = 4 \<or> i = (5 :: nat)" for i by auto
  have "reached sample_full i" if "i < 6" for i
    unfolding reached_def using that
    by (intro exI [of _ 0]) (auto simp: six sample_full_def home_index_def sample_hashes more_hashes)
  moreover have "inj_on (scope_names sample_full) {i. i < 6}"
    unfolding inj_on_def by (auto simp: six sample_full_def)
  moreover have "scope_capacity sample_full = 2 ^ 3" "scope_used sample_full = 6" by (simp_all add: sample_full_def)
  ultimately show ?thesis
    unfolding scope_ok_def sample_full_occupied by (auto simp: MAX_SCOPE_ENTRY_COUNT_def intro!: exI [of _ 3])
qed

lemma grow_word_step: "grow_word (numeral v) bitmask index_base old new s =
     (if bitmask = 0 then Inr (new, s)
      else obind (count_trailing_zeros_assume_one bitmask) (\<lambda>least_index.
        let index = index_base + unat least_index in
        obind (scope_map_add_nogrow False s new (scope_names old index) (scope_entries old index) None) (\<lambda>(new, s).
          grow_word (pred_numeral v) (bitmask XOR push_bit (unat least_index) 1) index_base old new s)))"
  by (simp add: numeral_eq_Suc)

lemma ctz_step: "ctz_from i (numeral v) n = (if bit n i then i else ctz_from (Suc i) (pred_numeral v) n)"
  by (simp add: numeral_eq_Suc)

lemma sample_ctz: "count_trailing_zeros_assume_one (63 :: u64) = Inr 0" "count_trailing_zeros_assume_one (62 :: u64) = Inr 1"
    "count_trailing_zeros_assume_one (60 :: u64) = Inr 2" "count_trailing_zeros_assume_one (56 :: u64) = Inr 3"
    "count_trailing_zeros_assume_one (48 :: u64) = Inr 4" "count_trailing_zeros_assume_one (32 :: u64) = Inr 5"
  by (simp_all add: count_trailing_zeros_assume_one_def ctz_shim_def ctz_builtin_def ctz_step)

theorem scope_map_add_refines_witness:
  "case scope_map_add (sample_names sample_file_nodes []) sample_full 5 empty_entry (Some 6) of
     Inr (Some m, s) \<Rightarrow> \<not> has_closure m \<and> scope_map_get m 5 = Inr (Some empty_entry)
   | _ \<Rightarrow> False"
proof -
  have "case scope_map_add (sample_names sample_file_nodes []) sample_full 5 empty_entry (Some 6) of
     Inr (Some m, s) \<Rightarrow> True | _ \<Rightarrow> False"
    by (simp add: map_eval more_hashes sample_full_def scope_map_grow_def scope_map_alloc_sized_def scope_map_size_def memory_eval grow_word_step
      sample_ctz)
  moreover have "scope_abs sample_full 5 = None"
    unfolding scope_abs_None [OF sample_full_ok] sample_full_occupied by (auto simp: sample_full_def)
  moreover have "scope_used sample_full = 6" "scope_capacity sample_full = 8" by (simp_all add: sample_full_def)
  ultimately show ?thesis
    using scope_map_add_refines [OF sample_full_ok, where s = "sample_names sample_file_nodes []" and name = 5 and e = empty_entry and src = "Some 6"]
    by (auto split: sum.splits option.splits)
qed

section \<open>Closure lists\<close>

text \<open>The entry of the list for an entry of the closure.\<close>

definition list_entry :: "ScopeEntry \<Rightarrow> ClosureListEntry" where
  "list_entry e = \<lparr>source_rank = closure_source_rank e, source_out = closure_source_out e - 1, source_is_closure = closure_source_is_closure e\<rparr>"

lemma closure_list_loop_result:
  "closure_list_loop is c l = Inr l' \<Longrightarrow> inj_on (\<lambda>i. entry_rank (scope_entries c i)) {i \<in> set is. occupied c i} \<Longrightarrow> distinct is \<Longrightarrow>
    (\<forall>i \<in> set is. occupied c i \<longrightarrow> 1 \<le> closure_source_out (scope_entries c i)
       \<and> l' (entry_rank (scope_entries c i)) = Some (list_entry (scope_entries c i)))
    \<and> (\<forall>r. r \<notin> (\<lambda>i. entry_rank (scope_entries c i)) ` {i \<in> set is. occupied c i} \<longrightarrow> l' r = l r)"
proof (induction "is" arbitrary: l)
  case (Cons i "is")
  have inj: "inj_on (\<lambda>i. entry_rank (scope_entries c i)) {i \<in> set is. occupied c i}"
    using Cons.prems(2) by (rule inj_on_subset) auto
  show ?case
  proof (cases "occupied c i")
    case False
    then show ?thesis using Cons.IH [of l] Cons.prems inj by (auto simp: slot_marked_def)
  next
    case True
    then have run: "1 \<le> closure_source_out (scope_entries c i)"
        "closure_list_loop is c (l(entry_rank (scope_entries c i) \<mapsto> list_entry (scope_entries c i))) = Inr l'"
      using Cons.prems(1) by (auto simp: slot_marked_def Let_def ensure_def list_entry_def split: if_splits)
    have other: "entry_rank (scope_entries c i) \<noteq> entry_rank (scope_entries c j)" if "j \<in> set is" "occupied c j" for j
      using inj_onD [OF Cons.prems(2), of i j] that True Cons.prems(3) by auto
    have ih: "\<forall>j \<in> set is. occupied c j \<longrightarrow> 1 \<le> closure_source_out (scope_entries c j)
          \<and> l' (entry_rank (scope_entries c j)) = Some (list_entry (scope_entries c j))"
        "\<And>r. r \<notin> (\<lambda>i. entry_rank (scope_entries c i)) ` {i \<in> set is. occupied c i}
          \<Longrightarrow> l' r = (l(entry_rank (scope_entries c i) \<mapsto> list_entry (scope_entries c i))) r"
      using Cons.IH [OF run(2) inj] Cons.prems(3) by auto
    have "entry_rank (scope_entries c i) \<notin> (\<lambda>i. entry_rank (scope_entries c i)) ` {i \<in> set is. occupied c i}" using other by auto
    from ih(2) [OF this] have "l' (entry_rank (scope_entries c i)) = Some (list_entry (scope_entries c i))" by simp
    moreover have "l' r = l r" if "r \<notin> (\<lambda>i. entry_rank (scope_entries c i)) ` {j \<in> set (i # is). occupied c j}" for r
    proof -
      have "r \<notin> (\<lambda>i. entry_rank (scope_entries c i)) ` {i \<in> set is. occupied c i}" "r \<noteq> entry_rank (scope_entries c i)"
        using that True by auto
      then show ?thesis using ih(2) [of r] by simp
    qed
    ultimately show ?thesis using ih(1) run(1) True by auto
  qed
qed simp

text \<open>
  C4: The list of a closure has one entry for each captured name. When \<open>set_closure_list\<close> writes a
  closure with entries, the node gets the id of a new list of that length; the list's entry at the rank of a
  captured name says where its value comes from, one scope nearer than the closure says, and the ranks of
  the captures are all the indices of the list.
\<close>

theorem set_closure_list_written:
  assumes "scope_ok c" and "ranks_ok c" and "0 < scope_used c" and "set_closure_list s c node = Inr s'"
  shows "\<exists>list. closure_ids s' node = Some (Some (id_from_closure_list list)) \<and> closure_lists (trees s') list = Some (scope_used c)
    \<and> (\<forall>n e. scope_abs c n = Some e \<longrightarrow> 1 \<le> closure_source_out e \<and> closure_entries s' list (entry_rank e) = Some (list_entry e))
    \<and> (\<lambda>e. entry_rank e) ` ran (scope_abs c) = {..< scope_used c} \<and> dom (closure_entries s' list) = {..< scope_used c}"
proof -
  let ?rank = "\<lambda>i. entry_rank (scope_entries c i)" and ?occ = "{i. occupied c i}"
  have at: "scope_abs c n = Some e \<longleftrightarrow> (\<exists>i. occupied c i \<and> scope_names c i = n \<and> scope_entries c i = e)" for n e
    by (rule scope_abs_Some [OF assms(1)])
  have below: "occupied c i \<Longrightarrow> i < scope_capacity c" for i using assms(1) by (simp add: scope_ok_def)
  then have places: "{i \<in> set [0 ..< scope_capacity c]. occupied c i} = ?occ" by auto
  have inj: "inj_on ?rank ?occ"
  proof (rule inj_onI)
    fix i j assume ij: "i \<in> ?occ" "j \<in> ?occ" "?rank i = ?rank j"
    then have "scope_abs c (scope_names c i) = Some (scope_entries c i)" "scope_abs c (scope_names c j) = Some (scope_entries c j)"
      using at by auto
    then have "scope_names c i = scope_names c j" using assms(2) ij(3) unfolding ranks_ok_def by blast
    then show "i = j" using assms(1) ij(1,2) by (auto simp: scope_ok_def inj_on_def)
  qed
  have "?rank i < scope_used c" if "occupied c i" for i
    using assms(2) at that unfolding ranks_ok_def by blast
  then have "?rank ` ?occ \<subseteq> {..< scope_used c}" by auto
  moreover have "card (?rank ` ?occ) = scope_used c" using card_image [OF inj] assms(1) by (simp add: scope_ok_def)
  ultimately have ranks: "?rank ` ?occ = {..< scope_used c}" by (metis card_lessThan card_subset_eq finite_lessThan)
  obtain a list entries where run: "alloc_closure_list (trees s) (scope_used c) = Inr (a, list)"
      "closure_list_loop [0 ..< scope_capacity c] c (\<lambda>_. None) = Inr entries"
      "s' = s\<lparr>trees := a, closure_entries := (closure_entries s)(list := entries),
         closure_ids := (closure_ids s)(node \<mapsto> Some (id_from_closure_list list))\<rparr>"
    using assms(3,4) by (auto simp: set_closure_list_def obind_eq_Inr_iff split: if_splits)
  have list: "closure_lists a list = Some (scope_used c)"
    using run(1) by (auto simp: alloc_closure_list_def Let_def ensure_def split: if_splits)
  have inj': "inj_on ?rank {i \<in> set [0 ..< scope_capacity c]. occupied c i}" using inj unfolding places .
  from closure_list_loop_result [OF run(2) inj' distinct_upt]
  have entries: "\<And>i. occupied c i \<Longrightarrow> 1 \<le> closure_source_out (scope_entries c i) \<and> entries (?rank i) = Some (list_entry (scope_entries c i))"
      "\<And>r. r \<notin> ?rank ` ?occ \<Longrightarrow> entries r = None"
    unfolding places using below by auto
  have "ran (scope_abs c) = scope_entries c ` ?occ" using at by (auto simp: ran_def)
  then have "(\<lambda>e. entry_rank e) ` ran (scope_abs c) = {..< scope_used c}" using ranks by (simp add: image_image)
  moreover have "dom entries = {..< scope_used c}"
  proof
    show "dom entries \<subseteq> {..< scope_used c}" using entries(2) ranks by (metis domIff subsetI)
    show "{..< scope_used c} \<subseteq> dom entries" using entries(1) unfolding ranks [symmetric] by auto
  qed
  ultimately show ?thesis
    using run(3) list entries(1) at by (intro exI [of _ list]) auto
qed

definition sample_capture :: ScopeEntry where
  "sample_capture = empty_entry\<lparr>closure_source_rank := 4, closure_source_out := 2\<rparr>"

definition sample_closure :: ScopeMap where
  "sample_closure = put_entry (empty_scope Kind_Closure) 0 7 sample_capture"

lemma sample_closure_ok: "scope_ok sample_closure" "scope_abs sample_closure = [7 \<mapsto> sample_capture]"
proof -
  let ?m = "empty_scope Kind_Closure"
  have "(home_index ?m 7 + 0) mod 8 = 0" by (simp add: home_index_def sample_hashes)
  moreover have "\<not> slot_marked (\<lambda>_. 0) i" for i by (simp add: slot_marked_bit)
  ultimately show "scope_ok sample_closure" "scope_abs sample_closure = [7 \<mapsto> sample_capture]"
    using scope_map_put_ok [of ?m 7 0 sample_capture] empty_scope_ok [of Kind_Closure]
    by (simp_all add: sample_closure_def passed_def MAX_SCOPE_ENTRY_COUNT_def)
qed

theorem set_closure_list_written_witness:
  "case set_closure_list (sample_names sample_file_nodes []) sample_closure 6 of
     Inr s \<Rightarrow> \<exists>list. closure_ids s 6 = Some (Some (id_from_closure_list list))
       \<and> closure_entries s list 0 = Some \<lparr>source_rank = 4, source_out = 1, source_is_closure = False\<rparr>
   | Inl e \<Rightarrow> False"
proof (cases "set_closure_list (sample_names sample_file_nodes []) sample_closure 6")
  case (Inr s)
  have "ranks_ok sample_closure" "0 < scope_used sample_closure"
    unfolding ranks_ok_def by (auto simp: sample_closure_ok) (auto simp: sample_closure_def sample_capture_def empty_entry_def)
  from set_closure_list_written [OF sample_closure_ok(1) this Inr] obtain list where
      "closure_ids s 6 = Some (Some (id_from_closure_list list))"
      "scope_abs sample_closure 7 = Some sample_capture \<longrightarrow> closure_entries s list (entry_rank sample_capture) = Some (list_entry sample_capture)"
    by blast
  then show ?thesis
    by (auto simp: Inr sample_closure_ok sample_capture_def empty_entry_def list_entry_def)
next
  case (Inl e)
  then show ?thesis
    by (simp add: set_closure_list_def alloc_closure_list_def sample_closure_def sample_capture_def empty_entry_def sample_names_def
      sample_pool_def CLOSURE_LISTS_RESERVE_SIZE_def Let_def upt_conv_Cons put_entry_def)
qed

section \<open>Captures in the closure of the defining scope\<close>

lemma close_over_new:
  assumes "has_closure (scopes s ! k)" and "closures s k = Some c" and "scope_map_get c name = Inr None"
  shows "close_over (k # is) s name r src fc =
    obind (scope_map_add s c name (empty_entry\<lparr>entry_rank := scope_used c, closure_source_rank := r, closure_source_is_closure := fc,
      closure_source_out := (k - src) mod 256\<rparr>) None) (\<lambda>(new_closure, s). case new_closure of
        None \<Rightarrow> Inl Assertion
      | Some c' \<Rightarrow> close_over is (s\<lparr>closures := (closures s)(k \<mapsto> c')\<rparr>) name (scope_used c) k True)"
  using assms
  by (cases "scope_map_add s c name (empty_entry\<lparr>entry_rank := scope_used c, closure_source_rank := r, closure_source_is_closure := fc,
      closure_source_out := (k - src) mod 256\<rparr>) None") (auto simp: closure_at_def Let_def split: option.splits)

lemma close_over_other:
  "close_over is s name r src fc = Inr (r', fc', s') \<Longrightarrow> i \<notin> set is \<Longrightarrow> (\<And>j c. closures s j = Some c \<Longrightarrow> scope_ok c)
    \<Longrightarrow> closures s' i = closures s i"
proof (induction "is" arbitrary: s r src fc)
  case (Cons k "is")
  show ?case
  proof (cases "has_closure (scopes s ! k)")
    case False
    then show ?thesis using Cons by simp
  next
    case True
    then obtain c where c: "closures s k = Some c" using Cons.prems(1) by (auto simp: closure_at_def split: option.splits)
    have ok: "scope_ok c" using Cons.prems(3) c by blast
    note get = scope_map_get_ok [OF ok, of name]
    show ?thesis
    proof (cases "scope_abs c name")
      case (Some e)
      then show ?thesis using Cons.prems True c get Cons.IH [of s] by (auto simp: closure_at_def ensure_def split: if_splits)
    next
      case None
      let ?e = "empty_entry\<lparr>entry_rank := scope_used c, closure_source_rank := r, closure_source_is_closure := fc,
          closure_source_out := (k - src) mod 256\<rparr>"
      obtain c' s1 where add: "scope_map_add s c name ?e None = Inr (Some c', s1)"
          and rest: "close_over is (s1\<lparr>closures := (closures s1)(k \<mapsto> c')\<rparr>) name (scope_used c) k True = Inr (r', fc', s')"
        using Cons.prems(1) close_over_new [OF True c get [unfolded None]]
        by (auto simp: obind_eq_Inr_iff split: option.splits)
      have "only_errors s s1" "scope_ok c'"
        using scope_map_add_ok [OF ok, of s name ?e None] add by (auto simp: added_def split: if_splits)
      then have "scope_ok c1" if "closures (s1\<lparr>closures := (closures s1)(k \<mapsto> c')\<rparr>) j = Some c1" for j c1
        using that Cons.prems(3) only_errors_fields(3) [of s s1] by (auto split: if_splits)
      from Cons.IH [OF rest _ this] show ?thesis
        using Cons.prems(2) only_errors_fields(3) [OF \<open>only_errors s s1\<close>] by simp
    qed
  qed
qed simp

lemma closure_list_loop_fails:
  "i \<in> set is \<Longrightarrow> occupied c i \<Longrightarrow> closure_source_out (scope_entries c i) = 0 \<Longrightarrow> closure_list_loop is c l \<noteq> Inr l'"
proof (induction "is" arbitrary: l)
  case (Cons k "is")
  then show ?case by (cases "k = i") (auto simp: slot_marked_def Let_def ensure_def)
qed simp

text \<open>
  C5: A closure can get a capture that no list can hold. Where \<open>close_in_innermost\<close> is false, as it
  is for the types of parameters that are not templated, \<open>add_name_to_closures\<close> begins with the closure of
  the very scope that defines the name. A name of a signature that is closed over from there is
  recorded in that signature's own closure with a distance of zero, and \<open>set_closure_list\<close> never
  succeeds on a closure with such an entry, whatever the state and the node.
\<close>

theorem capture_in_own_closure:
  assumes "names_ok s" and "has_closure (scopes s ! i)" and "i < length (scopes s)" and "closures s i = Some c" and "scope_abs c name = None"
    and "add_name_to_closures s name rank i False = Inr (r, s')"
  shows "\<exists>c'. closures s' i = Some c' \<and> (\<exists>e. scope_map_get c' name = Inr (Some e) \<and> closure_source_out e = 0)
    \<and> (\<forall>s2 node s3. set_closure_list s2 c' node \<noteq> Inr s3)"
proof -
  have oks: "scope_ok c1" if "closures s j = Some c1" for j c1 using names_ok_closure [OF assms(1) that] by simp
  have ok: "scope_ok c" by (rule oks [OF assms(4)])
  let ?e = "empty_entry\<lparr>entry_rank := scope_used c, closure_source_rank := rank, closure_source_is_closure := False,
          closure_source_out := (i - i) mod 256\<rparr>"
  obtain fc where run: "close_over [i ..< length (scopes s)] s name rank i False = Inr (r, fc, s')"
    using assms(6) by (auto simp: add_name_to_closures_def Let_def obind_eq_Inr_iff ensure_eq_Inr_iff split: if_splits)
  obtain c' s1 where add: "scope_map_add s c name ?e None = Inr (Some c', s1)"
      and rest: "close_over [Suc i ..< length (scopes s)] (s1\<lparr>closures := (closures s1)(i \<mapsto> c')\<rparr>) name (scope_used c) i True = Inr (r, fc, s')"
    using run assms(3) close_over_new [OF assms(2,4) scope_map_get_ok [OF ok, of name, unfolded assms(5)]]
    by (auto simp: upt_conv_Cons obind_eq_Inr_iff split: option.splits)
  have c': "only_errors s s1" "added c name ?e c'"
    using scope_map_add_ok [OF ok, of s name ?e None] add by (auto split: if_splits)
  then have abs: "scope_ok c'" "scope_abs c' name = Some ?e" using assms(5) by (simp_all add: added_def)
  have "closures s' i = closures (s1\<lparr>closures := (closures s1)(i \<mapsto> c')\<rparr>) i"
    by (rule close_over_other [OF rest]) (use oks abs(1) only_errors_fields(3) [OF c'(1)] in \<open>auto split: if_splits\<close>)
  then have "closures s' i = Some c'" by simp
  moreover have "scope_map_get c' name = Inr (Some ?e)" using scope_map_get_ok [OF abs(1)] abs(2) by simp
  moreover have "set_closure_list s2 c' node \<noteq> Inr s3" for s2 node s3
  proof -
    obtain j where j: "occupied c' j" "scope_entries c' j = ?e" using abs(2) scope_abs_Some [OF abs(1)] by blast
    have "j \<in> set [0 ..< scope_capacity c']" "0 < scope_used c'"
      using abs(1) j(1) finite_occupied [OF abs(1)] by (auto simp: scope_ok_def card_gt_0_iff)
    then show ?thesis
      using closure_list_loop_fails [of j "[0 ..< scope_capacity c']" c'] j
      by (auto simp: set_closure_list_def obind_eq_Inr_iff split: if_splits)
  qed
  ultimately show ?thesis by (intro exI [of _ c'] conjI exI [of _ ?e]) simp_all
qed

theorem capture_in_own_closure_witness:
  "case add_name_to_closures sample_nested 7 0 1 False of
     Inr (r, s) \<Rightarrow> \<exists>c. closures s 1 = Some c \<and> (\<forall>s2 node s3. set_closure_list s2 c node \<noteq> Inr s3)
   | Inl e \<Rightarrow> False"
proof (cases "add_name_to_closures sample_nested 7 0 1 False")
  case (Inr a)
  obtain r s where a: "a = (r, s)" by (cases a)
  have "has_closure (scopes sample_nested ! 1)" "1 < length (scopes sample_nested)" "closures sample_nested 1 = Some (empty_scope Kind_Closure)"
    by (simp_all add: sample_nested_def sample_parameter_def)
  from capture_in_own_closure [OF sample_nested_ok(1) this _ Inr [unfolded a]] show ?thesis
    using Inr a by (auto simp: empty_scope_ok)
next
  case (Inl e)
  then show ?thesis
    by (simp add: add_name_to_closures_def sample_nested_def sample_parameter_def map_eval closure_at_def empty_entry_def Let_def)
qed

end
